(* ===== verification/Tor_Prelude.thy ===== *)
theory Tor_Prelude
  imports Main "HOL-Library.Word" "HOL-Library.Sublist"
begin

text \<open>
  Shared vocabulary of the development: the byte and buffer types of the Go sources,
  Go's big-endian integer encodings (\<^verbatim>\<open>encoding/binary\<close>), \<^verbatim>\<open>io.ReadFull\<close> over a finite
  input, the non-blocking send on a buffered channel, and the generic lemmas on lists,
  sums and words that the component theories use.  The collections \<open>tor_codec\<close> (encoders,
  decoders and their constants) and \<open>tor_state\<close> (state transformers) gather the unfolding
  rules of the components.
\<close>

unbundle bit_operations_syntax

named_theorems tor_codec \<open>unfolding rules of encoders and decoders\<close>
named_theorems tor_state \<open>unfolding rules of state transformers\<close>
named_theorems tor_inv \<open>preservation of component invariants\<close>

section \<open>Bytes, strings and results\<close>

type_synonym byte = "8 word"
type_synonym bytes = "byte list"
type_synonym u16 = "16 word"
type_synonym u32 = "32 word"
type_synonym u64 = "64 word"

text \<open>Go strings are byte sequences: \<open>string\<close> is used where the source has \<^verbatim>\<open>string\<close>, and
  \<^verbatim>\<open>[]byte(s)\<close> and \<^verbatim>\<open>string(b)\<close> are the two conversions below.\<close>

definition bytes_of :: "string \<Rightarrow> bytes" where
  "bytes_of s = map of_char s"

definition str_of :: "bytes \<Rightarrow> string" where
  "str_of b = map (\<lambda>x. char_of (unat x)) b"

lemma unat_of_char [simp]: "unat (of_char c :: byte) = of_char c"
proof -
  have "(of_char c :: nat) = of_char c mod 256" by simp
  then have "(of_char c :: nat) < 256" by (metis mod_less_divisor zero_less_numeral)
  then have "unat (of_nat (of_char c) :: byte) = of_char c"
    by (simp add: unat_of_nat take_bit_nat_eq_self)
  then show ?thesis by (simp add: of_nat_of_char)
qed

lemma str_of_bytes_of [simp]: "str_of (bytes_of s) = s"
  by (simp add: str_of_def bytes_of_def comp_def)

lemma bytes_of_inj [simp]: "bytes_of s = bytes_of t \<longleftrightarrow> s = t"
  by (metis str_of_bytes_of)

lemma length_bytes_of [simp]: "length (bytes_of s) = length s"
  by (simp add: bytes_of_def)

lemma length_str_of [simp]: "length (str_of b) = length b"
  by (simp add: str_of_def)

text \<open>Slicing \<^verbatim>\<open>b[i:j]\<close> of a Go slice, for indices within range.\<close>

definition slice :: "nat \<Rightarrow> nat \<Rightarrow> 'a list \<Rightarrow> 'a list" where
  "slice i j xs = take (j - i) (drop i xs)"

lemma length_slice [simp]: "j \<le> length xs \<Longrightarrow> length (slice i j xs) = j - i"
  by (simp add: slice_def)

lemma slice_append_drop: "i \<le> j \<Longrightarrow> slice i j xs @ drop j xs = drop i xs"
  by (metis append_take_drop_id drop_drop le_add_diff_inverse2 slice_def)

lemma slice_whole [simp]: "slice 0 (length xs) xs = xs"
  by (simp add: slice_def)

text \<open>\<^verbatim>\<open>copy(dst[off:], src)\<close>: overwrite from \<open>off\<close>, stopping at the end of either slice.\<close>

definition blit :: "nat \<Rightarrow> 'a list \<Rightarrow> 'a list \<Rightarrow> 'a list" where
  "blit off src dst =
     take off dst @ take (length dst - off) src @ drop (off + length src) dst"

lemma length_blit [simp]: "off \<le> length dst \<Longrightarrow> length (blit off src dst) = length dst"
  by (simp add: blit_def)

lemma blit_id: "off + length src \<le> length dst \<Longrightarrow>
  blit off src dst = take off dst @ src @ drop (off + length src) dst"
  by (simp add: blit_def)

text \<open>The bind of Go's \<^verbatim>\<open>if err != nil { return ..., err }\<close> on results.\<close>

fun bindE :: "'e + 'a \<Rightarrow> ('a \<Rightarrow> 'e + 'b) \<Rightarrow> 'e + 'b" where
  "bindE (Inl e) f = Inl e"
| "bindE (Inr x) f = f x"

lemma bindE_eq_Inr: "bindE m f = Inr y \<longleftrightarrow> (\<exists>x. m = Inr x \<and> f x = Inr y)"
  by (cases m) auto

lemma bindE_eq_Inl: "bindE m f = Inl e \<longleftrightarrow> m = Inl e \<or> (\<exists>x. m = Inr x \<and> f x = Inl e)"
  by (cases m) auto

section \<open>Big-endian integers\<close>

definition be16 :: "u16 \<Rightarrow> bytes" where
  "be16 v = [ucast (drop_bit 8 v), ucast v]"

definition be32 :: "u32 \<Rightarrow> bytes" where
  "be32 v = be16 (ucast (drop_bit 16 v)) @ be16 (ucast v)"

definition be64 :: "u64 \<Rightarrow> bytes" where
  "be64 v = be32 (ucast (drop_bit 32 v)) @ be32 (ucast v)"

text \<open>The readers take the leading bytes of the buffer; the callers check that there are
  enough of them (Go panics otherwise).\<close>

definition get16 :: "bytes \<Rightarrow> u16" where
  "get16 b = push_bit 8 (ucast (b ! 0)) OR ucast (b ! 1)"

definition get32 :: "bytes \<Rightarrow> u32" where
  "get32 b = push_bit 16 (ucast (get16 b)) OR ucast (get16 (drop 2 b))"

definition get64 :: "bytes \<Rightarrow> u64" where
  "get64 b = push_bit 32 (ucast (get32 b)) OR ucast (get32 (drop 4 b))"

lemma length_be16 [simp]: "length (be16 v) = 2" by (simp add: be16_def)
lemma length_be32 [simp]: "length (be32 v) = 4" by (simp add: be32_def)
lemma length_be64 [simp]: "length (be64 v) = 8" by (simp add: be64_def)

lemma join16: "push_bit 8 (ucast (ucast (drop_bit 8 v) :: byte)) OR ucast (ucast v :: byte) = (v :: u16)"
  by (rule bit_word_eqI) (auto simp: bit_simps)

lemma join32: "push_bit 16 (ucast (ucast (drop_bit 16 v) :: u16)) OR ucast (ucast v :: u16) = (v :: u32)"
  by (rule bit_word_eqI) (auto simp: bit_simps)

lemma join64: "push_bit 32 (ucast (ucast (drop_bit 32 v) :: u32)) OR ucast (ucast v :: u32) = (v :: u64)"
  by (rule bit_word_eqI) (auto simp: bit_simps)

lemma get16_be16 [simp]: "get16 (be16 v @ xs) = v"
  unfolding get16_def be16_def by (simp add: join16)

lemma get32_be32 [simp]: "get32 (be32 v @ xs) = v"
  unfolding get32_def be32_def by (simp add: join32)

lemma get64_be64 [simp]: "get64 (be64 v @ xs) = v"
  unfolding get64_def be64_def by (simp add: join64)

lemma get16_be16_whole [simp]: "get16 (be16 v) = v"
  using get16_be16 [of v "[]"] by simp

lemma get32_be32_whole [simp]: "get32 (be32 v) = v"
  using get32_be32 [of v "[]"] by simp

lemma get64_be64_whole [simp]: "get64 (be64 v) = v"
  using get64_be64 [of v "[]"] by simp

lemma be16_inj [simp]: "be16 v = be16 w \<longleftrightarrow> v = w"
  by (metis get16_be16_whole)

lemma be32_inj [simp]: "be32 v = be32 w \<longleftrightarrow> v = w"
  by (metis get32_be32_whole)

lemma be64_inj [simp]: "be64 v = be64 w \<longleftrightarrow> v = w"
  by (metis get64_be64_whole)

lemma get16_append [simp]: "2 \<le> length b \<Longrightarrow> get16 (b @ rest) = get16 b"
  by (cases b) (auto simp: get16_def nth_append)

lemma get32_append [simp]: "4 \<le> length b \<Longrightarrow> get32 (b @ rest) = get32 b"
  by (simp add: get32_def)

lemma get64_append [simp]: "8 \<le> length b \<Longrightarrow> get64 (b @ rest) = get64 b"
  by (simp add: get64_def)

lemma get_be16: "length b = 2 \<Longrightarrow> be16 (get16 b) = b"
proof -
  assume "length b = 2"
  then obtain x y where b: "b = [x, y]"
    by (metis (no_types, lifting) Suc_1 length_0_conv length_Suc_conv One_nat_def)
  have "ucast (drop_bit 8 (push_bit 8 (ucast x) OR ucast y :: u16)) = x"
    by (rule bit_word_eqI) (auto simp: bit_simps dest: bit_imp_le_length)
  moreover have "ucast (push_bit 8 (ucast x) OR ucast y :: u16) = y"
    by (rule bit_word_eqI) (auto simp: bit_simps)
  ultimately show ?thesis by (simp add: b be16_def get16_def)
qed

lemma get_be32: "length b = 4 \<Longrightarrow> be32 (get32 b) = b"
proof -
  assume l: "length b = 4"
  then have s: "b = take 2 b @ drop 2 b" and l2: "length (take 2 b) = 2" "length (drop 2 b) = 2"
    by simp_all
  define h k where "h = get16 b" and "k = get16 (drop 2 b)"
  have hb: "h = get16 (take 2 b)"
    using get16_append [of "take 2 b" "drop 2 b"] l2 by (simp add: h_def)
  have "ucast (drop_bit 16 (push_bit 16 (ucast h) OR ucast k :: u32)) = h"
    by (rule bit_word_eqI) (auto simp: bit_simps dest: bit_imp_le_length)
  moreover have "ucast (push_bit 16 (ucast h) OR ucast k :: u32) = k"
    by (rule bit_word_eqI) (auto simp: bit_simps)
  moreover have "get32 b = push_bit 16 (ucast h) OR ucast k"
    by (simp add: get32_def h_def k_def)
  ultimately have "be32 (get32 b) = be16 (get16 (take 2 b)) @ be16 (get16 (drop 2 b))"
    by (simp add: be32_def hb k_def)
  then show ?thesis using l2 by (simp add: get_be16)
qed

text \<open>\<^verbatim>\<open>uint16(n)\<close> and \<^verbatim>\<open>int(v)\<close> on lengths that fit.\<close>

lemma unat_of_nat_u16: "n < 65536 \<Longrightarrow> unat (of_nat n :: u16) = n"
  by (simp add: unat_of_nat take_bit_nat_eq_self)

lemma unat_u16_lt: "unat (v :: u16) < 65536"
  using unsigned_less [of v] by simp

lemma unat_byte_lt: "unat (v :: byte) < 256"
  using unsigned_less [of v] by simp

lemma unat_of_nat_byte: "n < 256 \<Longrightarrow> unat (of_nat n :: byte) = n"
  by (simp add: unat_of_nat take_bit_nat_eq_self)

section \<open>Reading from a connection\<close>

text \<open>A connection's input is the list of bytes the peer will send before it closes.
  \<^verbatim>\<open>io.ReadFull\<close> of \<open>n\<close> bytes fails with \<^verbatim>\<open>io.EOF\<close> when none is left and with
  \<^verbatim>\<open>io.ErrUnexpectedEOF\<close> when the input ends inside the block.\<close>

datatype io_err = EOF | ErrUnexpectedEOF

definition readFull :: "nat \<Rightarrow> bytes \<Rightarrow> io_err + bytes \<times> bytes" where
  "readFull n inp =
     (if n \<le> length inp then Inr (take n inp, drop n inp)
      else if inp = [] then Inl EOF else Inl ErrUnexpectedEOF)"

lemma readFull_Inr:
  "readFull n inp = Inr (b, rest) \<longleftrightarrow> inp = b @ rest \<and> length b = n"
  by (auto simp: readFull_def)

lemma readFull_append [simp]: "readFull (length b) (b @ rest) = Inr (b, rest)"
  by (simp add: readFull_def)

lemma readFull_appendI: "length b = n \<Longrightarrow> readFull n (b @ rest) = Inr (b, rest)"
  by auto

section \<open>Buffered channels as queues\<close>

text \<open>A Go channel with capacity \<open>c\<close> used with \<^verbatim>\<open>select { case ch <- v: default: }\<close>: the value is
  queued when there is room and dropped otherwise.\<close>

definition trySend :: "nat \<Rightarrow> 'a \<Rightarrow> 'a list \<Rightarrow> 'a list" where
  "trySend c v q = (if length q < c then q @ [v] else q)"

lemma length_trySend [simp]: "length q \<le> c \<Longrightarrow> length (trySend c v q) \<le> c"
  by (simp add: trySend_def)

lemma trySend_prefix: "prefix q (trySend c v q)"
  by (simp add: trySend_def)

section \<open>Identifier pools\<close>

text \<open>The contract of an allocator of identifiers: what it hands out is not live and becomes live,
  what is freed is no longer live.  Circuit identifiers on a link and stream identifiers on a
  circuit satisfy it.\<close>

datatype 'i pool_event = Alloc 'i | Free 'i

fun pool_run :: "('s \<Rightarrow> 'i \<Rightarrow> 's \<Rightarrow> bool) \<Rightarrow> ('i \<Rightarrow> 's \<Rightarrow> 's) \<Rightarrow> 'i pool_event list \<Rightarrow> 's \<Rightarrow> 's \<Rightarrow> bool" where
  "pool_run alloc free [] s s' \<longleftrightarrow> s' = s"
| "pool_run alloc free (Alloc i # es) s s' \<longleftrightarrow> (\<exists>s1. alloc s i s1 \<and> pool_run alloc free es s1 s')"
| "pool_run alloc free (Free i # es) s s' \<longleftrightarrow> pool_run alloc free es (free i s) s'"

fun held :: "'i pool_event list \<Rightarrow> 'i list \<Rightarrow> 'i list" where
  "held [] hs = hs"
| "held (Alloc i # es) hs = held es (i # hs)"
| "held (Free i # es) hs = held es (removeAll i hs)"

locale id_pool =
  fixes live :: "'s \<Rightarrow> 'i set" and good :: "'s \<Rightarrow> bool"
    and alloc :: "'s \<Rightarrow> 'i \<Rightarrow> 's \<Rightarrow> bool" and free :: "'i \<Rightarrow> 's \<Rightarrow> 's"
  assumes alloc_fresh: "good s \<Longrightarrow> alloc s i s' \<Longrightarrow> i \<notin> live s \<and> live s' = insert i (live s)"
    and free_live: "good s \<Longrightarrow> live (free i s) = live s - {i}"
    and alloc_good: "good s \<Longrightarrow> alloc s i s' \<Longrightarrow> good s'"
    and free_good: "good s \<Longrightarrow> good (free i s)"
begin

text \<open>No identifier is ever held twice, and those held are exactly the live ones.\<close>

lemma run_held:
  "pool_run alloc free es s s' \<Longrightarrow> good s \<Longrightarrow> distinct hs \<Longrightarrow> set hs = live s \<Longrightarrow>
   distinct (held es hs) \<and> set (held es hs) = live s' \<and> good s'"
proof (induction es arbitrary: s hs)
  case (Cons e es)
  show ?case
  proof (cases e)
    case (Alloc i)
    with Cons.prems(1) obtain s1 where s1: "alloc s i s1" "pool_run alloc free es s1 s'" by auto
    show ?thesis
      using Cons.IH [OF s1(2) alloc_good [OF Cons.prems(2) s1(1)], of "i # hs"]
        alloc_fresh [OF Cons.prems(2) s1(1)] Cons.prems(3,4) by (simp add: Alloc)
  next
    case (Free i)
    then show ?thesis
      using Cons.IH [of "free i s" "removeAll i hs"] Cons.prems free_live [of s i] free_good [of s i]
      by (simp add: distinct_removeAll)
  qed
qed simp

end

end
