(* ===== verification/Byteutil.thy ===== *)
theory Byteutil
  imports Tor_Prelude
begin

text \<open>
  Model of \<^verbatim>\<open>internal/byteutil/byteutil.go\<close>: the append-only big-endian \<open>writer\<close>, the
  sequential \<open>reader\<close> with its sticky error flag, \<open>Xor\<close>, and the counting semaphore of
  \<open>MakeTokens\<close> on which both flow-control windows rest.  The reader refines consumption of
  a list of bytes (\<open>reader_abs\<close>); the contract of a window of permits is the locale
  \<open>permit_window\<close>, interpreted here on the token channel and used by the circuit and stream
  theories.
\<close>

section \<open>Writer\<close>

record writer =
  wbuf :: bytes

definition newWriter :: "nat \<Rightarrow> writer" where
  "newWriter capacityHint = \<lparr>wbuf = []\<rparr>"

definition wLen :: "writer \<Rightarrow> nat" where
  "wLen w = length (wbuf w)"

definition wBytes :: "writer \<Rightarrow> bytes" where
  "wBytes w = wbuf w"

definition wByte :: "byte \<Rightarrow> writer \<Rightarrow> writer" where
  "wByte b w = w\<lparr>wbuf := wbuf w @ [b]\<rparr>"

definition wU16 :: "u16 \<Rightarrow> writer \<Rightarrow> writer" where
  "wU16 v w = w\<lparr>wbuf := wbuf w @ be16 v\<rparr>"

definition wU32 :: "u32 \<Rightarrow> writer \<Rightarrow> writer" where
  "wU32 v w = w\<lparr>wbuf := wbuf w @ be32 v\<rparr>"

definition wU64 :: "u64 \<Rightarrow> writer \<Rightarrow> writer" where
  "wU64 v w = w\<lparr>wbuf := wbuf w @ be64 v\<rparr>"

definition wWrite :: "bytes \<Rightarrow> writer \<Rightarrow> writer" where
  "wWrite p w = w\<lparr>wbuf := wbuf w @ p\<rparr>"

lemma wBytes_simps [simp]:
  "wBytes (newWriter n) = []"
  "wBytes (wByte b w) = wBytes w @ [b]"
  "wBytes (wU16 v w) = wBytes w @ be16 v"
  "wBytes (wU32 v32 w) = wBytes w @ be32 v32"
  "wBytes (wU64 v64 w) = wBytes w @ be64 v64"
  "wBytes (wWrite p w) = wBytes w @ p"
  by (simp_all add: wBytes_def newWriter_def wByte_def wU16_def wU32_def wU64_def wWrite_def)

lemma wLen_wBytes: "wLen w = length (wBytes w)"
  by (simp add: wLen_def wBytes_def)

section \<open>Reader\<close>

record reader =
  rbuf :: bytes
  rpos :: nat
  rerr :: bool

definition newReader :: "bytes \<Rightarrow> reader" where
  "newReader b = \<lparr>rbuf = b, rpos = 0, rerr = False\<rparr>"

definition rErr :: "reader \<Rightarrow> bool" where
  "rErr r = rerr r"

definition rRemaining :: "reader \<Rightarrow> int" where
  "rRemaining r = int (length (rbuf r)) - int (rpos r)"

definition rByte :: "reader \<Rightarrow> byte \<times> reader" where
  "rByte r = (if rerr r \<or> rpos r + 1 > length (rbuf r) then (0, r\<lparr>rerr := True\<rparr>)
              else (rbuf r ! rpos r, r\<lparr>rpos := rpos r + 1\<rparr>))"

definition rU16 :: "reader \<Rightarrow> u16 \<times> reader" where
  "rU16 r = (if rerr r \<or> rpos r + 2 > length (rbuf r) then (0, r\<lparr>rerr := True\<rparr>)
             else (get16 (drop (rpos r) (rbuf r)), r\<lparr>rpos := rpos r + 2\<rparr>))"

definition rU32 :: "reader \<Rightarrow> u32 \<times> reader" where
  "rU32 r = (if rerr r \<or> rpos r + 4 > length (rbuf r) then (0, r\<lparr>rerr := True\<rparr>)
             else (get32 (drop (rpos r) (rbuf r)), r\<lparr>rpos := rpos r + 4\<rparr>))"

definition rU64 :: "reader \<Rightarrow> u64 \<times> reader" where
  "rU64 r = (if rerr r \<or> rpos r + 8 > length (rbuf r) then (0, r\<lparr>rerr := True\<rparr>)
             else (get64 (drop (rpos r) (rbuf r)), r\<lparr>rpos := rpos r + 8\<rparr>))"

text \<open>\<open>Bytes(n)\<close> takes a signed count; on failure it returns nil, the empty slice.\<close>

definition rBytes :: "int \<Rightarrow> reader \<Rightarrow> bytes \<times> reader" where
  "rBytes n r = (if rerr r \<or> n < 0 \<or> int (rpos r) + n > int (length (rbuf r))
                 then ([], r\<lparr>rerr := True\<rparr>)
                 else (slice (rpos r) (rpos r + nat n) (rbuf r), r\<lparr>rpos := rpos r + nat n\<rparr>))"

definition rRest :: "reader \<Rightarrow> bytes \<times> reader" where
  "rRest r = (if rerr r then ([], r)
              else (drop (rpos r) (rbuf r), r\<lparr>rpos := length (rbuf r)\<rparr>))"

text \<open>Well-formed readers keep the position inside the buffer, so no read panics.\<close>

definition reader_wf :: "reader \<Rightarrow> bool" where
  "reader_wf r \<longleftrightarrow> rpos r \<le> length (rbuf r)"

lemma reader_wf_new [simp]: "reader_wf (newReader b)"
  by (simp add: reader_wf_def newReader_def)

lemma reader_wf_ops [simp, tor_inv]:
  "reader_wf r \<Longrightarrow> reader_wf (snd (rByte r))"
  "reader_wf r \<Longrightarrow> reader_wf (snd (rU16 r))"
  "reader_wf r \<Longrightarrow> reader_wf (snd (rU32 r))"
  "reader_wf r \<Longrightarrow> reader_wf (snd (rU64 r))"
  "reader_wf r \<Longrightarrow> reader_wf (snd (rBytes n r))"
  "reader_wf r \<Longrightarrow> reader_wf (snd (rRest r))"
  by (auto simp: reader_wf_def rByte_def rU16_def rU32_def rU64_def rBytes_def rRest_def)

subsection \<open>The abstract reader: what is left of the input, or failed\<close>

definition reader_abs :: "reader \<Rightarrow> bytes option" where
  "reader_abs r = (if rerr r then None else Some (drop (rpos r) (rbuf r)))"

fun consume :: "nat \<Rightarrow> bytes option \<Rightarrow> (bytes \<times> bytes option)" where
  "consume n None = ([], None)"
| "consume n (Some b) = (if n \<le> length b then (take n b, Some (drop n b)) else ([], None))"

lemma reader_abs_new [simp]: "reader_abs (newReader b) = Some b"
  by (simp add: reader_abs_def newReader_def)

lemma rErr_abs: "rErr r \<longleftrightarrow> reader_abs r = None"
  by (simp add: rErr_def reader_abs_def)

lemma rBytes_refines:
  "0 \<le> n \<Longrightarrow> reader_wf r \<Longrightarrow>
     (fst (rBytes n r), reader_abs (snd (rBytes n r))) = consume (nat n) (reader_abs r)"
  by (auto simp: rBytes_def reader_abs_def reader_wf_def slice_def nat_le_iff add.commute)

lemma abs_read_ok:
  assumes "reader_wf r" and "reader_abs r = Some (b @ rest)"
  shows abs_rByte: "length b = 1 \<Longrightarrow> fst (rByte r) = hd b \<and> reader_abs (snd (rByte r)) = Some rest"
    and abs_rU16: "length b = 2 \<Longrightarrow> fst (rU16 r) = get16 b \<and> reader_abs (snd (rU16 r)) = Some rest"
    and abs_rU32: "length b = 4 \<Longrightarrow> fst (rU32 r) = get32 b \<and> reader_abs (snd (rU32 r)) = Some rest"
    and abs_rU64: "length b = 8 \<Longrightarrow> fst (rU64 r) = get64 b \<and> reader_abs (snd (rU64 r)) = Some rest"
    and abs_rBytes: "int (length b) = n \<Longrightarrow> fst (rBytes n r) = b \<and> reader_abs (snd (rBytes n r)) = Some rest"
proof -
  from assms have ne: "\<not> rerr r" and d: "drop (rpos r) (rbuf r) = b @ rest"
    by (auto simp: reader_abs_def split: if_splits)
  from d assms(1) have len: "length (rbuf r) = rpos r + length b + length rest"
    by (metis add.assoc le_add_diff_inverse length_append length_drop reader_wf_def)
  have adv: "drop (rpos r + length b) (rbuf r) = rest"
    by (metis append_eq_conv_conj d drop_drop add.commute)
  show "length b = 1 \<Longrightarrow> fst (rByte r) = hd b \<and> reader_abs (snd (rByte r)) = Some rest"
    using ne len adv d assms(1)
    by (cases b) (auto simp: rByte_def reader_abs_def reader_wf_def nth_via_drop)
  show "length b = 2 \<Longrightarrow> fst (rU16 r) = get16 b \<and> reader_abs (snd (rU16 r)) = Some rest"
    using ne len adv d by (auto simp: rU16_def reader_abs_def)
  show "length b = 4 \<Longrightarrow> fst (rU32 r) = get32 b \<and> reader_abs (snd (rU32 r)) = Some rest"
    using ne len adv d by (auto simp: rU32_def reader_abs_def)
  show "length b = 8 \<Longrightarrow> fst (rU64 r) = get64 b \<and> reader_abs (snd (rU64 r)) = Some rest"
    using ne len adv d by (auto simp: rU64_def reader_abs_def)
  show "int (length b) = n \<Longrightarrow> fst (rBytes n r) = b \<and> reader_abs (snd (rBytes n r)) = Some rest"
    using ne len adv d by (auto simp: rBytes_def reader_abs_def slice_def)
qed

text \<open>Once a read has failed, every later read fails and returns zero values.\<close>

lemma read_sticky:
  assumes "reader_abs r = None"
  shows "rByte r = (0, r)" "rU16 r = (0, r)" "rU32 r = (0, r)" "rU64 r = (0, r)"
    "rBytes n r = ([], r)" "rRest r = ([], r)"
  using assms by (auto simp: reader_abs_def rByte_def rU16_def rU32_def rU64_def rBytes_def rRest_def
      split: if_splits)

lemma read_short:
  assumes "reader_wf r" and "reader_abs r = Some b"
  shows "length b < 1 \<Longrightarrow> fst (rByte r) = 0 \<and> reader_abs (snd (rByte r)) = None"
    and "length b < 2 \<Longrightarrow> fst (rU16 r) = 0 \<and> reader_abs (snd (rU16 r)) = None"
    and "length b < 4 \<Longrightarrow> fst (rU32 r) = 0 \<and> reader_abs (snd (rU32 r)) = None"
    and "length b < 8 \<Longrightarrow> fst (rU64 r) = 0 \<and> reader_abs (snd (rU64 r)) = None"
    and "int (length b) < n \<Longrightarrow> fst (rBytes n r) = [] \<and> reader_abs (snd (rBytes n r)) = None"
  using assms
  by (auto simp: reader_abs_def reader_wf_def rByte_def rU16_def rU32_def rU64_def rBytes_def
      split: if_splits)

section \<open>Xor\<close>

text \<open>The loop writes \<open>dst[i]\<close> from \<open>a[i]\<close> and \<open>b[i]\<close>; the second version is the loop when
  \<open>dst\<close> is the same slice as \<open>a\<close>.\<close>

fun xor_loop :: "nat \<Rightarrow> nat \<Rightarrow> bytes \<Rightarrow> bytes \<Rightarrow> bytes \<Rightarrow> bytes" where
  "xor_loop i 0 dst a b = dst"
| "xor_loop i (Suc k) dst a b = xor_loop (Suc i) k (dst[i := a ! i XOR b ! i]) a b"

fun xor_loop_alias :: "nat \<Rightarrow> nat \<Rightarrow> bytes \<Rightarrow> bytes \<Rightarrow> bytes" where
  "xor_loop_alias i 0 dst b = dst"
| "xor_loop_alias i (Suc k) dst b = xor_loop_alias (Suc i) k (dst[i := dst ! i XOR b ! i]) b"

definition Xor :: "bytes \<Rightarrow> bytes \<Rightarrow> bytes \<Rightarrow> nat \<times> bytes" where
  "Xor dst a b = (let n = min (min (length a) (length b)) (length dst) in (n, xor_loop 0 n dst a b))"

definition Xor_alias :: "bytes \<Rightarrow> bytes \<Rightarrow> nat \<times> bytes" where
  "Xor_alias dst b = (let n = min (min (length dst) (length b)) (length dst) in (n, xor_loop_alias 0 n dst b))"

lemma xor_loop_nth:
  "i + k \<le> length dst \<Longrightarrow> j < length dst \<Longrightarrow>
   xor_loop i k dst a b ! j = (if i \<le> j \<and> j < i + k then a ! j XOR b ! j else dst ! j)"
  by (induction i k dst a b rule: xor_loop.induct) (auto simp: nth_list_update)

lemma length_xor_loop [simp]: "length (xor_loop i k dst a b) = length dst"
  by (induction i k dst a b rule: xor_loop.induct) auto

lemma xor_loop_alias_eq:
  "i + k \<le> length dst \<Longrightarrow> drop i dst = drop i a \<Longrightarrow> length dst = length a \<Longrightarrow>
   xor_loop_alias i k dst b = xor_loop i k dst a b"
proof (induction i k dst a b rule: xor_loop.induct)
  case (2 i k dst a b)
  then have "i < length dst" and eq: "dst ! i = a ! i"
    by (auto dest: arg_cong [where f = hd] simp: hd_drop_conv_nth)
  have "drop (Suc i) (dst[i := a ! i XOR b ! i]) = drop (Suc i) a"
    using arg_cong [OF "2.prems"(2), of "drop 1"] by simp
  with 2 eq show ?case by simp
qed simp

lemma Xor_alias_eq: "Xor_alias dst b = Xor dst dst b"
  by (simp add: Xor_def Xor_alias_def Let_def xor_loop_alias_eq)

lemma Xor_spec:
  assumes "Xor dst a b = (n, out)"
  shows "n = min (min (length a) (length b)) (length dst)"
    and "out = map2 (XOR) (take n a) (take n b) @ drop n dst"
proof -
  show n: "n = min (min (length a) (length b)) (length dst)"
    using assms by (simp add: Xor_def Let_def)
  have out: "out = xor_loop 0 n dst a b"
    using assms by (auto simp: Xor_def Let_def)
  show "out = map2 (XOR) (take n a) (take n b) @ drop n dst"
    unfolding out by (rule nth_equalityI) (auto simp: n xor_loop_nth nth_append)
qed

section \<open>Counting semaphores\<close>

text \<open>A \<^verbatim>\<open>chan struct{}\<close> with a capacity: how many permits it holds.  A blocking send or
  receive that cannot proceed is \<open>None\<close>.\<close>

record tokens =
  tcap :: nat
  tlen :: nat

definition tok_send :: "tokens \<Rightarrow> tokens option" where
  "tok_send t = (if tlen t < tcap t then Some (t\<lparr>tlen := tlen t + 1\<rparr>) else None)"

definition tok_recv :: "tokens \<Rightarrow> tokens option" where
  "tok_recv t = (if tlen t = 0 then None else Some (t\<lparr>tlen := tlen t - 1\<rparr>))"

fun tok_fill :: "nat \<Rightarrow> tokens \<Rightarrow> tokens option" where
  "tok_fill 0 t = Some t"
| "tok_fill (Suc k) t = (case tok_send t of None \<Rightarrow> None | Some t' \<Rightarrow> tok_fill k t')"

definition makeTokens :: "nat \<Rightarrow> tokens option" where
  "makeTokens n = tok_fill n \<lparr>tcap = n, tlen = 0\<rparr>"

lemma tok_fill_eq: "tlen t + k \<le> tcap t \<Longrightarrow> tok_fill k t = Some (t\<lparr>tlen := tlen t + k\<rparr>)"
  by (induction k t rule: tok_fill.induct) (auto simp: tok_send_def)

lemma makeTokens_eq [simp]: "makeTokens n = Some \<lparr>tcap = n, tlen = n\<rparr>"
  by (simp add: makeTokens_def tok_fill_eq)

text \<open>The credit loop shared by \<^verbatim>\<open>Stream.creditPackage\<close> and \<^verbatim>\<open>Circuit.creditPackageWindow\<close>:
  up to \<open>n\<close> non-blocking sends, stopping at the first that finds the channel full.\<close>

fun tok_credit :: "nat \<Rightarrow> tokens \<Rightarrow> tokens" where
  "tok_credit 0 t = t"
| "tok_credit (Suc k) t = (case tok_send t of None \<Rightarrow> t | Some t' \<Rightarrow> tok_credit k t')"

lemma tok_credit_eq: "tlen t \<le> tcap t \<Longrightarrow> tok_credit n t = t\<lparr>tlen := min (tcap t) (tlen t + n)\<rparr>"
  by (induction n t rule: tok_credit.induct) (auto simp: tok_send_def min_def)

subsection \<open>The contract of a window of permits\<close>

datatype window_event = Take | Credit nat

fun window_run :: "('s \<Rightarrow> 's option) \<Rightarrow> (nat \<Rightarrow> 's \<Rightarrow> 's) \<Rightarrow> window_event list \<Rightarrow> 's \<Rightarrow> 's option" where
  "window_run recv credit [] s = Some s"
| "window_run recv credit (Take # es) s =
     (case recv s of None \<Rightarrow> None | Some s' \<Rightarrow> window_run recv credit es s')"
| "window_run recv credit (Credit n # es) s = window_run recv credit es (credit n s)"

fun takes :: "window_event list \<Rightarrow> nat" where
  "takes [] = 0"
| "takes (Take # es) = Suc (takes es)"
| "takes (Credit n # es) = takes es"

fun credits :: "window_event list \<Rightarrow> nat" where
  "credits [] = 0"
| "credits (Take # es) = credits es"
| "credits (Credit n # es) = n + credits es"

locale permit_window =
  fixes avail :: "'s \<Rightarrow> nat" and capacity :: "'s \<Rightarrow> nat"
    and recv :: "'s \<Rightarrow> 's option" and credit :: "nat \<Rightarrow> 's \<Rightarrow> 's"
  assumes recv_blocks: "recv s = None \<longleftrightarrow> avail s = 0"
    and recv_avail: "recv s = Some s' \<Longrightarrow> avail s = Suc (avail s')"
    and recv_capacity: "recv s = Some s' \<Longrightarrow> capacity s' = capacity s"
    and credit_avail: "avail s \<le> capacity s \<Longrightarrow> avail (credit n s) = min (capacity s) (avail s + n)"
    and credit_capacity: "avail s \<le> capacity s \<Longrightarrow> capacity (credit n s) = capacity s"
begin

lemma run_bounded:
  "window_run recv credit es s = Some s' \<Longrightarrow> avail s \<le> capacity s \<Longrightarrow>
   avail s' \<le> capacity s' \<and> capacity s' = capacity s"
proof (induction es arbitrary: s)
  case (Cons e es)
  show ?case
  proof (cases e)
    case Take
    with Cons show ?thesis
      using recv_avail recv_capacity by (fastforce split: option.splits)
  next
    case (Credit n)
    with Cons.prems Cons.IH [of "credit n s"] show ?thesis
      by (simp add: credit_avail credit_capacity)
  qed
qed simp

text \<open>Every permit taken was there at the start or was credited.\<close>

lemma run_conserves:
  "window_run recv credit es s = Some s' \<Longrightarrow> avail s \<le> capacity s \<Longrightarrow>
   takes es + avail s' \<le> avail s + credits es"
proof (induction es arbitrary: s)
  case (Cons e es)
  show ?case
  proof (cases e)
    case Take
    with Cons.prems obtain s1 where s1: "recv s = Some s1" "window_run recv credit es s1 = Some s'"
      by (auto split: option.splits)
    with Cons.prems(2) have "avail s1 \<le> capacity s1"
      using recv_avail [OF s1(1)] recv_capacity [OF s1(1)] by simp
    from Cons.IH [OF s1(2) this] show ?thesis
      using recv_avail [OF s1(1)] Take by simp
  next
    case (Credit n)
    with Cons.prems have "window_run recv credit es (credit n s) = Some s'"
      and "avail (credit n s) \<le> capacity (credit n s)"
      by (auto simp: credit_avail credit_capacity)
    from Cons.IH [OF this] show ?thesis
      using Credit Cons.prems(2) by (simp add: credit_avail)
  qed
qed simp

end

interpretation tok: permit_window tlen tcap tok_recv tok_credit
  by unfold_locales (auto simp: tok_recv_def tok_credit_eq split: if_splits)

section \<open>Properties\<close>

text \<open>Reading the fields back in the order they were written returns them, leaves the reader
  without error and exactly the bytes that follow; one more byte wanted than is there sets the
  sticky error.\<close>

theorem writer_reader_roundtrip:
  "let buf = wBytes (wWrite d (wU64 q (wU32 w (wU16 h (wByte b (newWriter n))))));
             (b', r) = rByte (newReader (buf @ rest)); (h', r) = rU16 r; (w', r) = rU32 r; (q', r) = rU64 r;
             (d', r) = rBytes (int (length d)) r
         in b' = b \<and> h' = h \<and> w' = w \<and> q' = q \<and> d' = d \<and> \<not> rErr r \<and> fst (rRest r) = rest \<and>
            rErr (snd (rBytes (int (length rest) + 1) r))"
proof -
  define buf where "buf = wBytes (wWrite d (wU64 q (wU32 w (wU16 h (wByte b (newWriter n))))))"
  define r0 r1 r2 r3 r4 r5 where "r0 = newReader (buf @ rest)" and "r1 = snd (rByte r0)"
    and "r2 = snd (rU16 r1)" and "r3 = snd (rU32 r2)" and "r4 = snd (rU64 r3)"
    and "r5 = snd (rBytes (int (length d)) r4)"
  have wf: "reader_wf r0" "reader_wf r1" "reader_wf r2" "reader_wf r3" "reader_wf r4" "reader_wf r5"
    by (simp_all add: r0_def r1_def r2_def r3_def r4_def r5_def)
  have a0: "reader_abs r0 = Some ([b] @ be16 h @ be32 w @ be64 q @ d @ rest)"
    by (simp add: r0_def buf_def)
  have a1: "fst (rByte r0) = b" "reader_abs r1 = Some (be16 h @ be32 w @ be64 q @ d @ rest)"
    using abs_rByte [OF wf(1) a0] by (simp_all add: r1_def)
  have a2: "fst (rU16 r1) = h" "reader_abs r2 = Some (be32 w @ be64 q @ d @ rest)"
    using abs_rU16 [OF wf(2) a1(2)] by (simp_all add: r2_def)
  have a3: "fst (rU32 r2) = w" "reader_abs r3 = Some (be64 q @ d @ rest)"
    using abs_rU32 [OF wf(3) a2(2)] by (simp_all add: r3_def)
  have a4: "fst (rU64 r3) = q" "reader_abs r4 = Some (d @ rest)"
    using abs_rU64 [OF wf(4) a3(2)] by (simp_all add: r4_def)
  have a5: "fst (rBytes (int (length d)) r4) = d" "reader_abs r5 = Some rest"
    using abs_rBytes [OF wf(5) a4(2)] by (simp_all add: r5_def)
  have "fst (rRest r5) = rest" using a5(2) by (auto simp: rRest_def reader_abs_def split: if_splits)
  moreover have "rErr (snd (rBytes (int (length rest) + 1) r5))"
    using read_short(5) [OF wf(6) a5(2)] by (simp add: rErr_abs)
  ultimately show ?thesis
    using a1(1) a2(1) a3(1) a4(1) a5
    unfolding Let_def case_prod_unfold buf_def [symmetric] r0_def [symmetric] r1_def [symmetric]
      r2_def [symmetric] r3_def [symmetric] r4_def [symmetric] r5_def [symmetric]
    by (simp add: rErr_abs)
qed

end
