(* ===== verification/Torcrypto.thy ===== *)
theory Torcrypto
  imports Byteutil
begin

text \<open>
  Model of \<^verbatim>\<open>pkg/torcrypto\<close>: the AES-CTR relay keystream, the running relay digest, the key
  split, the ntor and hs\_ntor client handshakes and the clamping of the blinding factor.
  The primitives themselves (SHA-1, SHA-2, SHA-3, SHAKE, HMAC, HKDF, AES-CTR, X25519,
  Ed25519, the edwards25519 group) are parameters, gathered in the record \<open>crypto\<close>; what the
  code relies on of them is the predicate \<open>crypto_wf\<close> (the documented output lengths) and,
  for the handshakes, the commutation of X25519.  The contracts of a running digest and of a
  stream cipher are the locales \<open>running_digest\<close> and \<open>stream_cipher\<close>.
\<close>

section \<open>Primitives\<close>

record crypto =
  sha1_prim :: "bytes \<Rightarrow> bytes"
  sha256_prim :: "bytes \<Rightarrow> bytes"
  sha3_prim :: "bytes \<Rightarrow> bytes"
  shake_prim :: "nat \<Rightarrow> bytes \<Rightarrow> bytes"
  hmac_prim :: "bytes \<Rightarrow> bytes \<Rightarrow> bytes"
  hkdf_prim :: "bytes \<Rightarrow> bytes \<Rightarrow> nat \<Rightarrow> bytes"
  aes_ctr :: "bytes \<Rightarrow> bytes \<Rightarrow> nat \<Rightarrow> byte"
  x25519_pub :: "bytes \<Rightarrow> bytes"
  x25519_dh :: "bytes \<Rightarrow> bytes \<Rightarrow> bytes option"
  ed25519_verify :: "bytes \<Rightarrow> bytes \<Rightarrow> bytes \<Rightarrow> bool"
  ed_scalar_mult :: "bytes \<Rightarrow> bytes \<Rightarrow> bytes option"

definition crypto_wf :: "crypto \<Rightarrow> bool" where
  "crypto_wf K \<longleftrightarrow>
     (\<forall>m. length (sha1_prim K m) = 20) \<and> (\<forall>m. length (sha256_prim K m) = 32) \<and>
     (\<forall>m. length (sha3_prim K m) = 32) \<and> (\<forall>n m. length (shake_prim K n m) = n) \<and>
     (\<forall>k m. length (hmac_prim K k m) = 32) \<and> (\<forall>k i n. length (hkdf_prim K k i n) = n) \<and>
     (\<forall>x. length (x25519_pub K x) = 32)"

lemma crypto_wf_lengths [simp]:
  "crypto_wf K \<Longrightarrow> length (sha1_prim K m) = 20"
  "crypto_wf K \<Longrightarrow> length (sha256_prim K m) = 32"
  "crypto_wf K \<Longrightarrow> length (sha3_prim K m) = 32"
  "crypto_wf K \<Longrightarrow> length (shake_prim K n m) = n"
  "crypto_wf K \<Longrightarrow> length (hmac_prim K k m) = 32"
  "crypto_wf K \<Longrightarrow> length (hkdf_prim K k i n) = n"
  "crypto_wf K \<Longrightarrow> length (x25519_pub K x) = 32"
  by (simp_all add: crypto_wf_def)

text \<open>A concrete instance, not a secure one: every digest is the sum of the input bytes in
  all positions, the keystream repeats the key, and X25519 is XOR with a fixed public
  element.  It satisfies \<open>crypto_wf\<close> and the commutation law, so that the witnesses of the
  properties can be evaluated.\<close>

definition toy_sum :: "bytes \<Rightarrow> byte" where
  "toy_sum m = fold (+) m 0"

definition toy_fit :: "bytes \<Rightarrow> bytes" where
  "toy_fit m = take 32 (m @ replicate 32 0)"

definition toy_crypto :: crypto where
  "toy_crypto = \<lparr>sha1_prim = (\<lambda>m. replicate 20 (toy_sum m)), sha256_prim = (\<lambda>m. replicate 32 (toy_sum m)),
     sha3_prim = (\<lambda>m. replicate 32 (toy_sum m)), shake_prim = (\<lambda>n m. replicate n (toy_sum m)),
     hmac_prim = (\<lambda>k m. replicate 32 (toy_sum k + 2 * toy_sum m)),
     hkdf_prim = (\<lambda>k i n. replicate n (toy_sum k + toy_sum i)),
     aes_ctr = (\<lambda>k iv i. if k = [] then 0 else k ! (i mod length k)),
     x25519_pub = toy_fit,
     x25519_dh = (\<lambda>x p. if length p = 32 then Some (map2 (XOR) (toy_fit x) p) else None),
     ed25519_verify = (\<lambda>pk m s. s = replicate 64 (toy_sum pk + toy_sum m)),
     ed_scalar_mult = (\<lambda>h p. if length p = 32 then Some (map2 (XOR) (toy_fit h) p) else None)\<rparr>"

lemma toy_crypto_wf [simp]: "crypto_wf toy_crypto"
  by (simp add: crypto_wf_def toy_crypto_def toy_fit_def min_def)

section \<open>Hashes over the concatenation of parts\<close>

definition SHA256 :: "crypto \<Rightarrow> bytes list \<Rightarrow> bytes" where
  "SHA256 K parts = sha256_prim K (concat parts)"

definition SHA3_256 :: "crypto \<Rightarrow> bytes list \<Rightarrow> bytes" where
  "SHA3_256 K parts = sha3_prim K (concat parts)"

definition HMACSHA256 :: "crypto \<Rightarrow> bytes \<Rightarrow> bytes list \<Rightarrow> bytes" where
  "HMACSHA256 K key parts = hmac_prim K key (concat parts)"

definition SHAKE256 :: "crypto \<Rightarrow> nat \<Rightarrow> bytes list \<Rightarrow> bytes" where
  "SHAKE256 K outLen parts = shake_prim K outLen (concat parts)"

lemma hash_lengths [simp]:
  "crypto_wf K \<Longrightarrow> length (SHA256 K ps) = 32"
  "crypto_wf K \<Longrightarrow> length (SHA3_256 K ps) = 32"
  "crypto_wf K \<Longrightarrow> length (HMACSHA256 K k ps) = 32"
  "crypto_wf K \<Longrightarrow> length (SHAKE256 K n ps) = n"
  by (simp_all add: SHA256_def SHA3_256_def HMACSHA256_def SHAKE256_def)

section \<open>Running digest\<close>

text \<open>A \<^verbatim>\<open>hash.Hash\<close> is the algorithm and the bytes written so far; \<^verbatim>\<open>Sum\<close> hashes them, \<^verbatim>\<open>Clone\<close>
  copies the state (both hashes implement \<^verbatim>\<open>hash.Cloner\<close>).\<close>

datatype hash_alg = HSha1 | HSha3_256

record runningDigest =
  dalg :: hash_alg
  dacc :: bytes

fun hash_sum :: "crypto \<Rightarrow> hash_alg \<Rightarrow> bytes \<Rightarrow> bytes" where
  "hash_sum K HSha1 m = sha1_prim K m"
| "hash_sum K HSha3_256 m = sha3_prim K m"

definition newRunningDigestSHA1 :: "bytes \<Rightarrow> runningDigest" where
  "newRunningDigestSHA1 seed = \<lparr>dalg = HSha1, dacc = seed\<rparr>"

definition newRunningDigestSHA3 :: "bytes \<Rightarrow> runningDigest" where
  "newRunningDigestSHA3 seed = \<lparr>dalg = HSha3_256, dacc = seed\<rparr>"

definition rd_Update :: "bytes \<Rightarrow> runningDigest \<Rightarrow> runningDigest" where
  "rd_Update cell d = d\<lparr>dacc := dacc d @ cell\<rparr>"

definition rd_Snapshot :: "crypto \<Rightarrow> runningDigest \<Rightarrow> bytes" where
  "rd_Snapshot K d = hash_sum K (dalg d) (dacc d)"

definition verifyAndCommit :: "crypto \<Rightarrow> bytes \<Rightarrow> bytes \<Rightarrow> runningDigest \<Rightarrow> bool \<times> runningDigest" where
  "verifyAndCommit K cellPayload want d =
     (let clone = rd_Update cellPayload d;
          sum = rd_Snapshot K clone
      in if length want > length sum \<or> take (length want) sum \<noteq> want then (False, d)
         else (True, clone))"

text \<open>The contract: a candidate is committed exactly when its tag is a prefix of the digest
  after it, and a refused candidate leaves the state alone.\<close>

locale running_digest =
  fixes upd :: "bytes \<Rightarrow> 'd \<Rightarrow> 'd" and snap :: "'d \<Rightarrow> bytes"
    and verify :: "bytes \<Rightarrow> bytes \<Rightarrow> 'd \<Rightarrow> bool \<times> 'd"
  assumes verify_commits: "fst (verify m want d) \<longleftrightarrow> prefix want (snap (upd m d))"
    and verify_state: "snd (verify m want d) = (if fst (verify m want d) then upd m d else d)"
begin

text \<open>The sender's tag is accepted by a receiver in the same state, and both advance alike.\<close>

lemma sender_accepted: "verify m (take k (snap (upd m d))) d = (True, upd m d)"
  by (metis take_is_prefix verify_commits verify_state prod.collapse)

lemma refused_unchanged: "\<not> fst (verify m want d) \<Longrightarrow> snd (verify m want d) = d"
  by (simp add: verify_state)

end

interpretation rd: running_digest rd_Update "rd_Snapshot K" "verifyAndCommit K" for K
proof
  fix m want d
  show "fst (verifyAndCommit K m want d) \<longleftrightarrow> prefix want (rd_Snapshot K (rd_Update m d))"
    by (auto simp: verifyAndCommit_def Let_def prefix_def)
       (metis append_take_drop_id)
  show "snd (verifyAndCommit K m want d)
      = (if fst (verifyAndCommit K m want d) then rd_Update m d else d)"
    by (simp add: verifyAndCommit_def Let_def)
qed

section \<open>AES-CTR streams\<close>

text \<open>A \<^verbatim>\<open>cipher.Stream\<close>: key, initial counter block and how much keystream has been used.\<close>

record ctr =
  ckey :: bytes
  civ :: bytes
  cpos :: nat

datatype crypto_err = BadKeySize nat | NtorBadLen | NtorECDH | ErrNtorAuth | HKDFTooLong
  | HSNtorBadLen | HSNtorECDH | ErrHSNtorAuth | BlindBadLen | BlindBadPoint

definition newCTR :: "bytes \<Rightarrow> crypto_err + ctr" where
  "newCTR key = (if length key \<in> {16, 24, 32} then Inr \<lparr>ckey = key, civ = replicate 16 0, cpos = 0\<rparr>
                 else Inl (BadKeySize (length key)))"

definition xorKeyStream :: "crypto \<Rightarrow> bytes \<Rightarrow> ctr \<Rightarrow> bytes \<times> ctr" where
  "xorKeyStream K src s =
     (map (\<lambda>i. src ! i XOR aes_ctr K (ckey s) (civ s) (cpos s + i)) [0..<length src],
      s\<lparr>cpos := cpos s + length src\<rparr>)"

lemma length_xorKeyStream [simp]: "length (fst (xorKeyStream K src s)) = length src"
  by (simp add: xorKeyStream_def)

locale stream_cipher =
  fixes crypt :: "bytes \<Rightarrow> 's \<Rightarrow> bytes \<times> 's"
  assumes crypt_length: "length (fst (crypt m s)) = length m"
    and crypt_inv: "fst (crypt (fst (crypt m s)) s) = m"
    and crypt_state: "length m = length n \<Longrightarrow> snd (crypt m s) = snd (crypt n s)"
    and crypt_append: "crypt (m @ n) s =
          (fst (crypt m s) @ fst (crypt n (snd (crypt m s))), snd (crypt n (snd (crypt m s))))"
begin

lemma crypt_inj: "length m = length n \<Longrightarrow> fst (crypt m s) = fst (crypt n s) \<Longrightarrow> m = n"
  by (metis crypt_inv)

text \<open>Two parties whose streams are in the same state stay so, and the receiver sees the
  sender's bytes, however the sender cut them into pieces of equal length.\<close>

lemma crypt_sync: "crypt (fst (crypt m s)) s = (m, snd (crypt m s))"
  by (metis crypt_inv crypt_length crypt_state prod.collapse)

end

interpretation ctr: stream_cipher "xorKeyStream K" for K
proof
  fix m n s
  show "length (fst (xorKeyStream K m s)) = length m" by simp
  show "fst (xorKeyStream K (fst (xorKeyStream K m s)) s) = m"
    by (rule nth_equalityI) (simp_all add: xorKeyStream_def xor.assoc)
  show "length m = length n \<Longrightarrow> snd (xorKeyStream K m s) = snd (xorKeyStream K n s)"
    by (simp add: xorKeyStream_def)
  show "xorKeyStream K (m @ n) s = (fst (xorKeyStream K m s) @
      fst (xorKeyStream K n (snd (xorKeyStream K m s))), snd (xorKeyStream K n (snd (xorKeyStream K m s))))"
    by (auto simp: xorKeyStream_def nth_append add.assoc intro!: nth_equalityI)
qed

section \<open>Relay keys\<close>

abbreviation (input) digestKeyLen :: nat where "digestKeyLen \<equiv> 20"
abbreviation (input) aesKeyLen :: nat where "aesKeyLen \<equiv> 16"
abbreviation (input) NtorKeyMaterialLen :: nat where "NtorKeyMaterialLen \<equiv> 92"

record relayKeys =
  Df :: bytes
  Db :: bytes
  Kf :: bytes
  Kb :: bytes
  KH :: bytes

definition splitNtorKeys :: "bytes \<Rightarrow> relayKeys option" where
  "splitNtorKeys material =
     (if length material < NtorKeyMaterialLen then None
      else Some \<lparr>Df = slice 0 20 material, Db = slice 20 40 material, Kf = slice 40 56 material,
                 Kb = slice 56 72 material, KH = slice 72 92 material\<rparr>)"

lemma splitNtorKeys_parts:
  assumes "splitNtorKeys m = Some rk"
  shows "Df rk @ Db rk @ Kf rk @ Kb rk @ KH rk = take NtorKeyMaterialLen m"
    and "length (Df rk) = 20" "length (Db rk) = 20" "length (Kf rk) = 16" "length (Kb rk) = 16"
      "length (KH rk) = 20"
proof -
  have l: "92 \<le> length m" and rk: "rk = \<lparr>Df = slice 0 20 m, Db = slice 20 40 m, Kf = slice 40 56 m,
                 Kb = slice 56 72 m, KH = slice 72 92 m\<rparr>"
    using assms by (auto simp: splitNtorKeys_def split: if_splits)
  have "take 92 m = take (20 + (20 + (16 + (16 + 20)))) m" by simp
  also have "\<dots> = Df rk @ Db rk @ Kf rk @ Kb rk @ KH rk"
    unfolding take_add by (simp add: rk slice_def)
  finally show "Df rk @ Db rk @ Kf rk @ Kb rk @ KH rk = take NtorKeyMaterialLen m" by simp
  show "length (Df rk) = 20" "length (Db rk) = 20" "length (Kf rk) = 16" "length (Kb rk) = 16"
      "length (KH rk) = 20"
    using l by (simp_all add: rk)
qed

section \<open>The ntor handshake\<close>

abbreviation (input) NodeIDLen :: nat where "NodeIDLen \<equiv> 20"
abbreviation (input) Curve25519KeyLen :: nat where "Curve25519KeyLen \<equiv> 32"
abbreviation (input) NtorServerDataLen :: nat where "NtorServerDataLen \<equiv> 64"

definition ntorProtoID :: string where "ntorProtoID = ''ntor-curve25519-sha256-1''"
definition ntorTMac :: bytes where "ntorTMac = bytes_of (ntorProtoID @ '':mac'')"
definition ntorTKey :: bytes where "ntorTKey = bytes_of (ntorProtoID @ '':key_extract'')"
definition ntorTVerify :: bytes where "ntorTVerify = bytes_of (ntorProtoID @ '':verify'')"
definition ntorMExpand :: bytes where "ntorMExpand = bytes_of (ntorProtoID @ '':key_expand'')"
definition ntorServerL :: bytes where "ntorServerL = bytes_of ''Server''"

text \<open>The client state; the ephemeral key pair is its private scalar, drawn by \<^verbatim>\<open>GenerateX25519\<close>
  and passed in here.\<close>

record ntorClient =
  neph :: bytes
  nnodeID :: bytes
  nonionKey :: bytes

definition finishClientHandshake ::
  "crypto \<Rightarrow> bytes \<Rightarrow> bytes \<Rightarrow> bytes \<Rightarrow> crypto_err + bytes \<times> ntorClient" where
  "finishClientHandshake K nodeID ntorOnionKey eph =
     (if length nodeID \<noteq> NodeIDLen then Inl NtorBadLen
      else if length ntorOnionKey \<noteq> Curve25519KeyLen then Inl NtorBadLen
      else Inr (nodeID @ ntorOnionKey @ x25519_pub K eph,
                \<lparr>neph = eph, nnodeID = nodeID, nonionKey = ntorOnionKey\<rparr>))"

definition hkdfExpand :: "crypto \<Rightarrow> bytes \<Rightarrow> bytes \<Rightarrow> nat \<Rightarrow> crypto_err + bytes" where
  "hkdfExpand K key info n = (if n > 255 * 32 then Inl HKDFTooLong else Inr (hkdf_prim K key info n))"

definition ntor_Complete :: "crypto \<Rightarrow> ntorClient \<Rightarrow> bytes \<Rightarrow> nat \<Rightarrow> crypto_err + bytes" where
  "ntor_Complete K c serverData keyLen =
     (if length serverData < NtorServerDataLen then Inl NtorBadLen
      else let serverPK = take 32 serverData;
               authRecv = slice 32 64 serverData
           in case x25519_dh K (neph c) serverPK of
                None \<Rightarrow> Inl NtorECDH
              | Some expYx \<Rightarrow>
                (case x25519_dh K (neph c) (nonionKey c) of
                   None \<Rightarrow> Inl NtorECDH
                 | Some expBx \<Rightarrow>
                   let clientPK = x25519_pub K (neph c);
                       protoB = bytes_of ntorProtoID;
                       secretInput = concat [expYx, expBx, nnodeID c, nonionKey c, clientPK, serverPK, protoB];
                       keySeed = HMACSHA256 K ntorTKey [secretInput];
                       verify = HMACSHA256 K ntorTVerify [secretInput];
                       authInput = concat [verify, nnodeID c, nonionKey c, serverPK, clientPK, protoB, ntorServerL];
                       authExpected = HMACSHA256 K ntorTMac [authInput]
                   in if authExpected \<noteq> authRecv then Inl ErrNtorAuth
                      else hkdfExpand K keySeed ntorMExpand keyLen))"

text \<open>The relay's side of the handshake (tor-spec 5.1.4), the specification the client is
  checked against: with onion key \<open>b\<close> and ephemeral \<open>y\<close>, the reply to a client whose public
  key is \<open>X\<close>, and the key material.\<close>

definition ntor_server ::
  "crypto \<Rightarrow> bytes \<Rightarrow> bytes \<Rightarrow> bytes \<Rightarrow> bytes \<Rightarrow> nat \<Rightarrow> (bytes \<times> bytes) option" where
  "ntor_server K nodeID b y X keyLen =
     (case (x25519_dh K y X, x25519_dh K b X) of
        (Some expXy, Some expXb) \<Rightarrow>
          let B = x25519_pub K b; Y = x25519_pub K y; protoB = bytes_of ntorProtoID;
              secret = expXy @ expXb @ nodeID @ B @ X @ Y @ protoB;
              verify = hmac_prim K ntorTVerify secret;
              auth = hmac_prim K ntorTMac (verify @ nodeID @ B @ Y @ X @ protoB @ ntorServerL)
          in Some (Y @ auth, hkdf_prim K (hmac_prim K ntorTKey secret) ntorMExpand keyLen)
      | _ \<Rightarrow> None)"

definition dh_commutes :: "crypto \<Rightarrow> bool" where
  "dh_commutes K \<longleftrightarrow> (\<forall>a b. x25519_dh K a (x25519_pub K b) = x25519_dh K b (x25519_pub K a))"

lemma toy_dh_commutes [simp]: "dh_commutes toy_crypto"
  by (auto simp: dh_commutes_def toy_crypto_def toy_fit_def xor.commute intro!: nth_equalityI)

lemma ntor_Complete_server:
  assumes "crypto_wf K" "dh_commutes K" "keyLen \<le> 255 * 32"
    and "ntor_server K nodeID b y (x25519_pub K x) keyLen = Some (reply, keys)"
  shows "ntor_Complete K \<lparr>neph = x, nnodeID = nodeID, nonionKey = x25519_pub K b\<rparr> reply keyLen = Inr keys"
    and "length auth = 32 \<Longrightarrow> auth \<noteq> drop 32 reply \<Longrightarrow>
      ntor_Complete K \<lparr>neph = x, nnodeID = nodeID, nonionKey = x25519_pub K b\<rparr>
        (take 32 reply @ auth) keyLen = Inl ErrNtorAuth"
proof -
  obtain s1 s2 where dh: "x25519_dh K y (x25519_pub K x) = Some s1" "x25519_dh K b (x25519_pub K x) = Some s2"
    using assms(4) by (auto simp: ntor_server_def split: option.splits prod.splits)
  then have dh': "x25519_dh K x (x25519_pub K y) = Some s1" "x25519_dh K x (x25519_pub K b) = Some s2"
    using assms(2) by (auto simp: dh_commutes_def)
  have Y: "length (x25519_pub K y) = 32" using assms(1) by simp
  show "ntor_Complete K \<lparr>neph = x, nnodeID = nodeID, nonionKey = x25519_pub K b\<rparr> reply keyLen = Inr keys"
    using assms(1,3,4) dh dh' Y
    by (auto simp: ntor_server_def ntor_Complete_def Let_def HMACSHA256_def hkdfExpand_def slice_def)
  show "length auth = 32 \<Longrightarrow> auth \<noteq> drop 32 reply \<Longrightarrow>
      ntor_Complete K \<lparr>neph = x, nnodeID = nodeID, nonionKey = x25519_pub K b\<rparr>
        (take 32 reply @ auth) keyLen = Inl ErrNtorAuth"
    using assms(1,4) dh dh' Y
    by (auto simp: ntor_server_def ntor_Complete_def Let_def HMACSHA256_def hkdfExpand_def slice_def)
qed

section \<open>The hs\_ntor handshake\<close>

abbreviation (input) hsKeyLen :: nat where "hsKeyLen \<equiv> 32"
abbreviation (input) hsMacLen :: nat where "hsMacLen \<equiv> 32"
abbreviation (input) Ed25519PubKeyLen :: nat where "Ed25519PubKeyLen \<equiv> 32"

definition hsNtorProtoID :: string where "hsNtorProtoID = ''tor-hs-ntor-curve25519-sha3-256-1''"
definition hsTEnc :: bytes where "hsTEnc = bytes_of (hsNtorProtoID @ '':hs_key_extract'')"
definition hsTVerify :: bytes where "hsTVerify = bytes_of (hsNtorProtoID @ '':hs_verify'')"
definition hsTMac :: bytes where "hsTMac = bytes_of (hsNtorProtoID @ '':hs_mac'')"
definition hsMExpand :: bytes where "hsMExpand = bytes_of (hsNtorProtoID @ '':hs_key_expand'')"

definition hsMac :: "crypto \<Rightarrow> bytes \<Rightarrow> bytes list \<Rightarrow> bytes" where
  "hsMac K key msg = SHA3_256 K ([be64 (of_nat (length key)), key] @ msg)"

record hsNtorClient =
  heph :: bytes
  hencKey :: bytes
  hauthKey :: bytes
  hclientX :: bytes

text \<open>The result carries ENC\_KEY, MAC\_KEY, the client public key and the state.\<close>

definition hsNtorIntroWith ::
  "crypto \<Rightarrow> bytes \<Rightarrow> bytes \<Rightarrow> bytes \<Rightarrow> bytes \<Rightarrow> crypto_err + bytes \<times> bytes \<times> bytes \<times> hsNtorClient" where
  "hsNtorIntroWith K serviceEncKey authKey subcredential eph =
     (if length serviceEncKey \<noteq> Curve25519KeyLen then Inl HSNtorBadLen
      else if length authKey \<noteq> Ed25519PubKeyLen then Inl HSNtorBadLen
      else let st = \<lparr>heph = eph, hencKey = serviceEncKey, hauthKey = authKey, hclientX = x25519_pub K eph\<rparr>
           in case x25519_dh K eph serviceEncKey of
                None \<Rightarrow> Inl HSNtorECDH
              | Some expBx \<Rightarrow>
                let introSecret = concat [expBx, hauthKey st, hclientX st, hencKey st, bytes_of hsNtorProtoID];
                    hsKeys = SHAKE256 K (hsKeyLen + hsMacLen) [introSecret, hsTEnc, hsMExpand, subcredential]
                in Inr (take hsKeyLen hsKeys, slice hsKeyLen (hsKeyLen + hsMacLen) hsKeys, hclientX st, st))"

definition hsNtor_Finish :: "crypto \<Rightarrow> hsNtorClient \<Rightarrow> bytes \<Rightarrow> bytes \<Rightarrow> crypto_err + bytes" where
  "hsNtor_Finish K c serverY authRecv =
     (if length serverY \<noteq> Curve25519KeyLen then Inl HSNtorBadLen
      else case x25519_dh K (heph c) serverY of
             None \<Rightarrow> Inl HSNtorECDH
           | Some expYx \<Rightarrow>
             (case x25519_dh K (heph c) (hencKey c) of
                None \<Rightarrow> Inl HSNtorECDH
              | Some expBx \<Rightarrow>
                let protoB = bytes_of hsNtorProtoID;
                    rendSecret = concat [expYx, expBx, hauthKey c, hencKey c, hclientX c, serverY, protoB];
                    seed = hsMac K rendSecret [hsTEnc];
                    verify = hsMac K rendSecret [hsTVerify];
                    authInput = concat [verify, hauthKey c, hencKey c, serverY, hclientX c, protoB, bytes_of ''Server''];
                    authExpected = hsMac K authInput [hsTMac]
                in if authExpected \<noteq> authRecv then Inl ErrHSNtorAuth else Inr seed))"

definition hsNtorExpandKeys :: "crypto \<Rightarrow> bytes \<Rightarrow> bytes \<times> bytes \<times> bytes \<times> bytes" where
  "hsNtorExpandKeys K ntorKeySeed =
     (let k = SHAKE256 K 128 [ntorKeySeed, hsMExpand]
      in (slice 0 32 k, slice 32 64 k, slice 64 96 k, slice 96 128 k))"

text \<open>The service's side (rend-spec-v3 3.3.1): with the introduction key pair \<open>b\<close> and the
  ephemeral \<open>y\<close>, the introduction keys it derives and its RENDEZVOUS1 reply and key seed.\<close>

definition hs_service_intro :: "crypto \<Rightarrow> bytes \<Rightarrow> bytes \<Rightarrow> bytes \<Rightarrow> bytes \<Rightarrow> (bytes \<times> bytes) option" where
  "hs_service_intro K authKey b subcred X =
     map_option (\<lambda>expXb. let ks = shake_prim K 64 (expXb @ authKey @ X @ x25519_pub K b @ bytes_of hsNtorProtoID
                                  @ hsTEnc @ hsMExpand @ subcred)
                         in (take 32 ks, drop 32 ks)) (x25519_dh K b X)"

definition hs_service_rend :: "crypto \<Rightarrow> bytes \<Rightarrow> bytes \<Rightarrow> bytes \<Rightarrow> bytes \<Rightarrow> (bytes \<times> bytes \<times> bytes) option" where
  "hs_service_rend K authKey b y X =
     (case (x25519_dh K y X, x25519_dh K b X) of
        (Some expXy, Some expXb) \<Rightarrow>
          let B = x25519_pub K b; Y = x25519_pub K y; protoB = bytes_of hsNtorProtoID;
              secret = expXy @ expXb @ authKey @ B @ X @ Y @ protoB;
              verify = hsMac K secret [hsTVerify]
          in Some (Y, hsMac K (verify @ authKey @ B @ Y @ X @ protoB @ bytes_of ''Server'') [hsTMac],
                   hsMac K secret [hsTEnc])
      | _ \<Rightarrow> None)"

lemma hs_ntor_agree:
  assumes "crypto_wf K" "dh_commutes K" "length authKey = 32"
    and "hs_service_intro K authKey b subcred (x25519_pub K x) = Some (enc, mac)"
    and "hs_service_rend K authKey b y (x25519_pub K x) = Some (Y, auth, seed)"
  obtains st where
    "hsNtorIntroWith K (x25519_pub K b) authKey subcred x = Inr (enc, mac, x25519_pub K x, st)"
    "hsNtor_Finish K st Y auth = Inr seed"
    "\<And>a. a \<noteq> auth \<Longrightarrow> hsNtor_Finish K st Y a = Inl ErrHSNtorAuth"
proof -
  obtain s1 s2 where dh: "x25519_dh K y (x25519_pub K x) = Some s1" "x25519_dh K b (x25519_pub K x) = Some s2"
    using assms(5) by (auto simp: hs_service_rend_def split: option.splits prod.splits)
  then have dh': "x25519_dh K x (x25519_pub K y) = Some s1" "x25519_dh K x (x25519_pub K b) = Some s2"
    using assms(2) by (auto simp: dh_commutes_def)
  let ?st = "\<lparr>heph = x, hencKey = x25519_pub K b, hauthKey = authKey, hclientX = x25519_pub K x\<rparr>"
  show thesis
  proof
    show "hsNtorIntroWith K (x25519_pub K b) authKey subcred x = Inr (enc, mac, x25519_pub K x, ?st)"
      using assms(1,3,4) dh dh'
      by (auto simp: hs_service_intro_def hsNtorIntroWith_def Let_def SHAKE256_def slice_def)
    show "hsNtor_Finish K ?st Y auth = Inr seed"
      and "\<And>a. a \<noteq> auth \<Longrightarrow> hsNtor_Finish K ?st Y a = Inl ErrHSNtorAuth"
      using assms(1,5) dh dh' by (auto simp: hs_service_rend_def hsNtor_Finish_def Let_def)
  qed
qed

lemma hsNtorExpandKeys_lengths:
  "crypto_wf K \<Longrightarrow> hsNtorExpandKeys K seed = (df, db, kf, kb) \<Longrightarrow>
   length df = 32 \<and> length db = 32 \<and> length kf = 32 \<and> length kb = 32"
  by (auto simp: hsNtorExpandKeys_def Let_def)

section \<open>Key blinding\<close>

definition blindString :: bytes where
  "blindString = bytes_of ''Derive temporary signing key'' @ [0]"

definition ed25519Basepoint :: string where
  "ed25519Basepoint = ''(15112221349535400772501151409588531511454012693041857206046113283949847762202, 46316835694926478169428394003475163141307993866256225615783033603165251855960)''"

definition blindingFactor :: "crypto \<Rightarrow> bytes \<Rightarrow> u64 \<Rightarrow> u64 \<Rightarrow> bytes" where
  "blindingFactor K pubkey periodNumber periodLength =
     (let nonce = bytes_of ''key-blind'' @ be64 periodNumber @ be64 periodLength;
          h = SHA3_256 K [blindString, pubkey, bytes_of ed25519Basepoint, nonce];
          h = h[0 := h ! 0 AND 248];
          h = h[31 := h ! 31 AND 63]
      in h[31 := h ! 31 OR 64])"

definition blindPublicKey :: "crypto \<Rightarrow> bytes \<Rightarrow> u64 \<Rightarrow> u64 \<Rightarrow> crypto_err + bytes" where
  "blindPublicKey K pubkey periodNumber periodLength =
     (if length pubkey \<noteq> Ed25519PubKeyLen then Inl BlindBadLen
      else case ed_scalar_mult K (blindingFactor K pubkey periodNumber periodLength) pubkey of
             None \<Rightarrow> Inl BlindBadPoint
           | Some a \<Rightarrow> Inr a)"

text \<open>The blinding scalar is 32 bytes and already clamped: a multiple of 8 with bit 254 set and
  bit 255 clear, so that clamping it again in \<^verbatim>\<open>SetBytesWithClamping\<close> changes nothing.\<close>

lemma blindingFactor_clamped:
  assumes "crypto_wf K"
  shows "length (blindingFactor K pk n l) = 32"
    and "(blindingFactor K pk n l ! 0) AND 7 = 0"
    and "\<not> bit (blindingFactor K pk n l ! 31) 7"
    and "bit (blindingFactor K pk n l ! 31) 6"
proof -
  let ?nonce = "bytes_of ''key-blind'' @ be64 n @ be64 l"
  let ?h = "SHA3_256 K [blindString, pk, bytes_of ed25519Basepoint, ?nonce]"
  have l: "length ?h = 32" using assms by simp
  show "length (blindingFactor K pk n l) = 32"
    using l by (simp add: blindingFactor_def Let_def)
  have h0: "blindingFactor K pk n l ! 0 = ?h ! 0 AND 248"
    using l by (simp add: blindingFactor_def Let_def)
  have h31: "blindingFactor K pk n l ! 31 = (?h ! 31 AND 63) OR 64"
    using l by (simp add: blindingFactor_def Let_def)
  show "(blindingFactor K pk n l ! 0) AND 7 = 0"
    unfolding h0 by (simp add: and.assoc)
  have "bit (64 :: byte) 6" "\<not> bit (64 :: byte) 7" "\<not> bit (63 :: byte) 7"
    by (simp_all add: bit_numeral_rec bit_0)
  then show "\<not> bit (blindingFactor K pk n l ! 31) 7" and "bit (blindingFactor K pk n l ! 31) 6"
    unfolding h31 by (simp_all add: bit_simps)
qed

section \<open>Properties\<close>

text \<open>C19: The ntor client, given the reply of a relay that holds the onion key, derives the relay's
  key material; with any other authenticator it refuses the reply.\<close>

theorem ntor_key_agreement:
  assumes "crypto_wf K" "dh_commutes K" "length nodeID = 20" "keyLen \<le> 255 * 32"
    and "ntor_server K nodeID b y (x25519_pub K x) keyLen = Some (reply, keys)"
  shows "\<exists>msg st. finishClientHandshake K nodeID (x25519_pub K b) x = Inr (msg, st) \<and>
    msg = nodeID @ x25519_pub K b @ x25519_pub K x \<and> ntor_Complete K st reply keyLen = Inr keys \<and>
    (\<forall>auth. length auth = 32 \<and> auth \<noteq> drop 32 reply \<longrightarrow>
       ntor_Complete K st (take 32 reply @ auth) keyLen = Inl ErrNtorAuth)"
  using assms ntor_Complete_server [OF assms(1,2,4,5)] by (simp add: finishClientHandshake_def)

theorem ntor_key_agreement_witness:
  "\<exists>reply keys msg st. ntor_server toy_crypto (replicate 20 1) [5] [6] (x25519_pub toy_crypto [7]) 92 = Some (reply, keys) \<and>
     finishClientHandshake toy_crypto (replicate 20 1) (x25519_pub toy_crypto [5]) [7] = Inr (msg, st) \<and>
     ntor_Complete toy_crypto st reply 92 = Inr keys"
proof -
  have "ntor_server toy_crypto (replicate 20 1) [5] [6] (x25519_pub toy_crypto [7]) 92 \<noteq> None"
    by (simp add: ntor_server_def toy_crypto_def toy_fit_def Let_def)
  then obtain reply keys where
    s: "ntor_server toy_crypto (replicate 20 1) [5] [6] (x25519_pub toy_crypto [7]) 92 = Some (reply, keys)"
    by auto
  from ntor_key_agreement [OF _ _ _ _ s] s show ?thesis by auto
qed

text \<open>C20: In the hs-ntor exchange the client derives the introduction keys the service derives and,
  from the service's reply, the same key seed; any other authenticator is refused.\<close>

theorem hs_ntor_key_agreement:
  assumes "crypto_wf K" "dh_commutes K" "length authKey = 32"
    and "hs_service_intro K authKey b subcred (x25519_pub K x) = Some (enc, mac)"
    and "hs_service_rend K authKey b y (x25519_pub K x) = Some (Y, auth, seed)"
  shows "\<exists>st. hsNtorIntroWith K (x25519_pub K b) authKey subcred x = Inr (enc, mac, x25519_pub K x, st) \<and>
    hsNtor_Finish K st Y auth = Inr seed \<and> (\<forall>a. a \<noteq> auth \<longrightarrow> hsNtor_Finish K st Y a = Inl ErrHSNtorAuth)"
  using hs_ntor_agree [OF assms] by metis

theorem hs_ntor_key_agreement_witness:
  "\<exists>enc mac Y auth seed st.
     hsNtorIntroWith toy_crypto (x25519_pub toy_crypto [5]) (replicate 32 2) [1] [7] = Inr (enc, mac, x25519_pub toy_crypto [7], st) \<and>
     hs_service_rend toy_crypto (replicate 32 2) [5] [6] (x25519_pub toy_crypto [7]) = Some (Y, auth, seed) \<and>
     hsNtor_Finish toy_crypto st Y auth = Inr seed"
proof -
  have "hs_service_intro toy_crypto (replicate 32 2) [5] [1] (x25519_pub toy_crypto [7]) \<noteq> None"
    "hs_service_rend toy_crypto (replicate 32 2) [5] [6] (x25519_pub toy_crypto [7]) \<noteq> None"
    by (simp_all add: hs_service_intro_def hs_service_rend_def toy_crypto_def toy_fit_def Let_def)
  then obtain enc mac Y auth seed where
    "hs_service_intro toy_crypto (replicate 32 2) [5] [1] (x25519_pub toy_crypto [7]) = Some (enc, mac)"
    "hs_service_rend toy_crypto (replicate 32 2) [5] [6] (x25519_pub toy_crypto [7]) = Some (Y, auth, seed)"
    by (metis option.exhaust surj_pair)
  from hs_ntor_key_agreement [OF _ _ _ this] this(2) show ?thesis by fastforce
qed

text \<open>The blinding factor of a time period is 32 bytes and already clamped (a multiple of 8, bit
  254 set, bit 255 clear), so the clamping done by the curve library changes nothing.\<close>

theorem blinding_factor_is_clamped:
  assumes "crypto_wf K"
  shows "length (blindingFactor K pk n l) = 32 \<and> (blindingFactor K pk n l ! 0) AND 7 = 0 \<and>
    \<not> bit (blindingFactor K pk n l ! 31) 7 \<and> bit (blindingFactor K pk n l ! 31) 6"
  using blindingFactor_clamped [OF assms] by blast

theorem blinding_factor_is_clamped_witness:
  "(blindingFactor toy_crypto (replicate 32 3) 16903 1440 ! 0) AND 7 = 0"
  using blinding_factor_is_clamped [OF toy_crypto_wf] by blast

end
