(* ===== verification/Channel_Cert.thy ===== *)
theory Channel_Cert
  imports Torcrypto
begin

text \<open>
  Model of \<^verbatim>\<open>pkg/channel/cert.go\<close>: Tor's Ed25519 certificates, the CERTS cell, and the
  verification of a relay's identity against the TLS certificate of the connection.  Signature
  verification and SHA-256 are the parameters of \<open>crypto\<close>; \<open>now\<close> is in nanoseconds since the Unix
  epoch.  The lemmas give the exact language the two parsers accept and the chain a verified
  identity rests on.
\<close>

section \<open>Certificates\<close>

abbreviation (input) certTypeEd25519SigningCert :: byte where "certTypeEd25519SigningCert \<equiv> 4"
abbreviation (input) certTypeEd25519LinkCert :: byte where "certTypeEd25519LinkCert \<equiv> 5"
abbreviation (input) edCertVersion :: byte where "edCertVersion \<equiv> 1"
abbreviation (input) edCertExtSignedWithKey :: byte where "edCertExtSignedWithKey \<equiv> 4"
abbreviation (input) edCertMinLen :: nat where "edCertMinLen \<equiv> 104"
abbreviation (input) edCertSignatureLen :: nat where "edCertSignatureLen \<equiv> 64"
abbreviation (input) ed25519PublicKeyLen :: nat where "ed25519PublicKeyLen \<equiv> 32"
abbreviation (input) edCertInnerTypeSigning :: byte where "edCertInnerTypeSigning \<equiv> 4"
abbreviation (input) edCertInnerTypeLinkAuth :: byte where "edCertInnerTypeLinkAuth \<equiv> 5"
abbreviation (input) edCertKeyTypeEd25519 :: byte where "edCertKeyTypeEd25519 \<equiv> 1"

datatype cert_err = ErrBadCert | ErrCertExpired | CertsTruncated | CertsMalformed | MissingSigningCert
  | MissingLinkCert | MissingIdentityExt | TLSCertMismatch

record edExtension =
  extTyp :: byte
  extFlags :: byte
  extData :: bytes

record ed25519Cert =
  certType :: byte
  expiration :: u32
  keyType :: byte
  certifiedKey :: bytes
  extensions :: "edExtension list"
  signature :: bytes
  signedPart :: bytes

fun parse_exts :: "nat \<Rightarrow> reader \<Rightarrow> edExtension list \<times> reader" where
  "parse_exts 0 r = ([], r)"
| "parse_exts (Suc n) r =
     (let (extLen, r) = rU16 r;
          (t, r) = rByte r;
          (fl, r) = rByte r;
          (d, r) = rBytes (uint extLen) r;
          (es, r) = parse_exts n r
      in (\<lparr>extTyp = t, extFlags = fl, extData = d\<rparr> # es, r))"

definition parseEd25519Cert :: "bytes \<Rightarrow> cert_err + ed25519Cert" where
  "parseEd25519Cert b =
     (if length b < edCertMinLen then Inl ErrBadCert
      else let (v, r) = rByte (newReader b) in
        if v \<noteq> edCertVersion then Inl ErrBadCert
        else let (ct, r) = rByte r;
                 (ex, r) = rU32 r;
                 (kt, r) = rByte r;
                 (ck, r) = rBytes (int ed25519PublicKeyLen) r;
                 (nExt, r) = rByte r;
                 (exts, r) = parse_exts (unat nExt) r;
                 (sg, r) = rBytes (int edCertSignatureLen) r
             in if rErr r \<or> rRemaining r \<noteq> 0 then Inl ErrBadCert
                else Inr \<lparr>certType = ct, expiration = ex, keyType = kt, certifiedKey = ck, extensions = exts,
                          signature = sg, signedPart = take (length b - edCertSignatureLen) b\<rparr>)"

fun first_signer :: "edExtension list \<Rightarrow> bytes option" where
  "first_signer [] = None"
| "first_signer (e # es) =
     (if extTyp e = edCertExtSignedWithKey \<and> length (extData e) = ed25519PublicKeyLen then Some (extData e)
      else first_signer es)"

definition signerKey :: "ed25519Cert \<Rightarrow> bytes option" where
  "signerKey c = first_signer (extensions c)"

definition expiryNanos :: "u32 \<Rightarrow> int" where
  "expiryNanos e = uint e * 3600 * 1000000000"

definition cert_verify :: "crypto \<Rightarrow> ed25519Cert \<Rightarrow> bytes \<Rightarrow> int \<Rightarrow> cert_err option" where
  "cert_verify K c pub now =
     (if length pub \<noteq> ed25519PublicKeyLen then Some ErrBadCert
      else if now > expiryNanos (expiration c) then Some ErrCertExpired
      else if \<not> ed25519_verify K pub (signedPart c) (signature c) then Some ErrBadCert
      else None)"

section \<open>The CERTS cell\<close>

fun parse_certs :: "nat \<Rightarrow> reader \<Rightarrow> (byte \<rightharpoonup> bytes) \<Rightarrow> cert_err + (byte \<rightharpoonup> bytes) \<times> reader" where
  "parse_certs 0 r out = Inr (out, r)"
| "parse_certs (Suc n) r out =
     (let (ct, r) = rByte r;
          (len, r) = rU16 r;
          (body, r) = rBytes (uint len) r
      in if rErr r then Inl CertsTruncated else parse_certs n r (out(ct \<mapsto> body)))"

definition parseCertsCell :: "bytes \<Rightarrow> cert_err + (byte \<rightharpoonup> bytes)" where
  "parseCertsCell p =
     (let (n, r) = rByte (newReader p) in
      bindE (parse_certs (unat n) r Map.empty)
        (\<lambda>(out, r). if rErr r then Inl CertsMalformed else Inr out))"

definition verifyCerts :: "crypto \<Rightarrow> bytes \<Rightarrow> bytes \<Rightarrow> int \<Rightarrow> cert_err + bytes" where
  "verifyCerts K p tlsCertDER now =
     bindE (parseCertsCell p) (\<lambda>certs.
       case certs certTypeEd25519SigningCert of
         None \<Rightarrow> Inl MissingSigningCert
       | Some signingRaw \<Rightarrow>
         (case certs certTypeEd25519LinkCert of
            None \<Rightarrow> Inl MissingLinkCert
          | Some linkRaw \<Rightarrow>
            bindE (parseEd25519Cert signingRaw) (\<lambda>signingCert.
              if certType signingCert \<noteq> edCertInnerTypeSigning then Inl ErrBadCert
              else if keyType signingCert \<noteq> edCertKeyTypeEd25519 then Inl ErrBadCert
              else case signerKey signingCert of
                     None \<Rightarrow> Inl MissingIdentityExt
                   | Some identityKey \<Rightarrow>
                     (case cert_verify K signingCert identityKey now of
                        Some e \<Rightarrow> Inl e
                      | None \<Rightarrow>
                        bindE (parseEd25519Cert linkRaw) (\<lambda>linkCert.
                          if certType linkCert \<noteq> edCertInnerTypeLinkAuth then Inl ErrBadCert
                          else case cert_verify K linkCert (certifiedKey signingCert) now of
                                 Some e \<Rightarrow> Inl e
                               | None \<Rightarrow>
                                 let wantDigest = sha256_prim K tlsCertDER in
                                 if length (certifiedKey linkCert) \<noteq> 32 \<or> certifiedKey linkCert \<noteq> wantDigest
                                 then Inl TLSCertMismatch
                                 else Inr identityKey)))))"

section \<open>The accepted language\<close>

definition ext_bytes :: "edExtension \<Rightarrow> bytes" where
  "ext_bytes e = be16 (of_nat (length (extData e))) @ [extTyp e, extFlags e] @ extData e"

definition cert_body :: "ed25519Cert \<Rightarrow> bytes" where
  "cert_body c = [edCertVersion, certType c] @ be32 (expiration c) @ [keyType c] @ certifiedKey c @
     [of_nat (length (extensions c))] @ concat (map ext_bytes (extensions c))"

definition cert_wf :: "ed25519Cert \<Rightarrow> bool" where
  "cert_wf c \<longleftrightarrow> length (certifiedKey c) = 32 \<and> length (extensions c) < 256 \<and>
     (\<forall>e \<in> set (extensions c). length (extData e) < 65536) \<and> length (signature c) = 64 \<and>
     signedPart c = cert_body c"

lemma read_inv:
  assumes "reader_wf r" and "reader_abs r = Some b"
  shows inv_rByte: "reader_abs (snd (rByte r)) = Some b' \<Longrightarrow> b = [fst (rByte r)] @ b'"
    and inv_rU16: "reader_abs (snd (rU16 r)) = Some b' \<Longrightarrow> b = be16 (fst (rU16 r)) @ b'"
    and inv_rU32: "reader_abs (snd (rU32 r)) = Some b' \<Longrightarrow> b = be32 (fst (rU32 r)) @ b'"
    and inv_rBytes: "0 \<le> n \<Longrightarrow> reader_abs (snd (rBytes n r)) = Some b' \<Longrightarrow>
      b = fst (rBytes n r) @ b' \<and> int (length (fst (rBytes n r))) = n"
proof -
  have sp: "k \<le> length b \<Longrightarrow> reader_abs r = Some (take k b @ drop k b)" for k using assms(2) by simp
  show "reader_abs (snd (rByte r)) = Some b' \<Longrightarrow> b = [fst (rByte r)] @ b'"
    using read_short(1) [OF assms] abs_rByte [OF assms(1) sp [of 1]]
    by (cases b) (auto simp: Suc_le_eq)
  show "reader_abs (snd (rU16 r)) = Some b' \<Longrightarrow> b = be16 (fst (rU16 r)) @ b'"
    using read_short(2) [OF assms] abs_rU16 [OF assms(1) sp [of 2]]
    by (cases "length b < 2") (auto simp: get_be16)
  show "reader_abs (snd (rU32 r)) = Some b' \<Longrightarrow> b = be32 (fst (rU32 r)) @ b'"
    using read_short(3) [OF assms] abs_rU32 [OF assms(1) sp [of 4]]
    by (cases "length b < 4") (auto simp: get_be32)
  show "0 \<le> n \<Longrightarrow> reader_abs (snd (rBytes n r)) = Some b' \<Longrightarrow>
      b = fst (rBytes n r) @ b' \<and> int (length (fst (rBytes n r))) = n"
    using rBytes_refines [of n r] assms by (auto split: if_splits)
qed

text \<open>A read that left the reader without error determines what was there before it.\<close>

lemma read_back:
  assumes "reader_wf r"
  shows back_rByte: "reader_abs (snd (rByte r)) = Some b' \<Longrightarrow> reader_abs r = Some ([fst (rByte r)] @ b')"
    and back_rU16: "reader_abs (snd (rU16 r)) = Some b' \<Longrightarrow> reader_abs r = Some (be16 (fst (rU16 r)) @ b')"
    and back_rU32: "reader_abs (snd (rU32 r)) = Some b' \<Longrightarrow> reader_abs r = Some (be32 (fst (rU32 r)) @ b')"
    and back_rBytes: "0 \<le> n \<Longrightarrow> reader_abs (snd (rBytes n r)) = Some b' \<Longrightarrow>
      reader_abs r = Some (fst (rBytes n r) @ b') \<and> int (length (fst (rBytes n r))) = n"
  using read_sticky [of r] read_inv [OF assms] by (cases "reader_abs r"; auto)+

lemma parse_exts_wf [simp]: "reader_wf r \<Longrightarrow> reader_wf (snd (parse_exts n r))"
  by (induction n arbitrary: r) (simp_all add: Let_def case_prod_unfold)

lemma parse_exts_enc:
  "reader_wf r \<Longrightarrow> reader_abs r = Some (concat (map ext_bytes es) @ rest) \<Longrightarrow>
   (\<forall>e \<in> set es. length (extData e) < 65536) \<Longrightarrow>
   fst (parse_exts (length es) r) = es \<and> reader_abs (snd (parse_exts (length es) r)) = Some rest"
proof (induction es arbitrary: r)
  case (Cons e es)
  define r1 r2 r3 r4 where "r1 = snd (rU16 r)" and "r2 = snd (rByte r1)" and "r3 = snd (rByte r2)"
    and "r4 = snd (rBytes (uint (fst (rU16 r))) r3)"
  let ?d = "extData e" and ?tail = "concat (map ext_bytes es) @ rest"
  have wf: "reader_wf r1" "reader_wf r2" "reader_wf r3" "reader_wf r4"
    using Cons.prems(1) by (simp_all add: r1_def r2_def r3_def r4_def)
  have l: "uint (of_nat (length ?d) :: u16) = int (length ?d)"
    using Cons.prems(3) unat_of_nat_u16 [of "length ?d"] by (simp add: uint_nat)
  have a0: "reader_abs r = Some (be16 (of_nat (length ?d)) @ [extTyp e] @ [extFlags e] @ ?d @ ?tail)"
    using Cons.prems(2) by (simp add: ext_bytes_def [of e])
  have a1: "fst (rU16 r) = of_nat (length ?d)" "reader_abs r1 = Some ([extTyp e] @ [extFlags e] @ ?d @ ?tail)"
    using abs_rU16 [OF Cons.prems(1) a0] by (simp_all add: r1_def)
  have a2: "fst (rByte r1) = extTyp e" "reader_abs r2 = Some ([extFlags e] @ ?d @ ?tail)"
    using abs_rByte [OF wf(1) a1(2)] by (simp_all add: r2_def)
  have a3: "fst (rByte r2) = extFlags e" "reader_abs r3 = Some (?d @ ?tail)"
    using abs_rByte [OF wf(2) a2(2)] by (simp_all add: r3_def)
  have a4: "fst (rBytes (uint (fst (rU16 r))) r3) = ?d" "reader_abs r4 = Some ?tail"
    using abs_rBytes [OF wf(3) a3(2)] by (simp_all add: r4_def a1 l)
  have "fst (parse_exts (length es) r4) = es \<and> reader_abs (snd (parse_exts (length es) r4)) = Some rest"
    by (rule Cons.IH [OF wf(4) a4(2)]) (use Cons.prems(3) in simp)
  then show ?case
    using a2 a3 a4 by (simp add: Let_def case_prod_unfold flip: r1_def r2_def r3_def r4_def)
qed simp

lemma parse_exts_inv:
  "reader_wf r \<Longrightarrow> reader_abs (snd (parse_exts n r)) = Some rest \<Longrightarrow>
   reader_abs r = Some (concat (map ext_bytes (fst (parse_exts n r))) @ rest) \<and> length (fst (parse_exts n r)) = n \<and>
   (\<forall>e \<in> set (fst (parse_exts n r)). length (extData e) < 65536)"
proof (induction n arbitrary: r)
  case (Suc n)
  define r1 r2 r3 r4 where "r1 = snd (rU16 r)" and "r2 = snd (rByte r1)" and "r3 = snd (rByte r2)"
    and "r4 = snd (rBytes (uint (fst (rU16 r))) r3)"
  define d es where "d = fst (rBytes (uint (fst (rU16 r))) r3)" and "es = fst (parse_exts n r4)"
  have wf: "reader_wf r1" "reader_wf r2" "reader_wf r3" "reader_wf r4"
    using Suc.prems(1) by (simp_all add: r1_def r2_def r3_def r4_def)
  have p: "fst (parse_exts (Suc n) r) = \<lparr>extTyp = fst (rByte r1), extFlags = fst (rByte r2), extData = d\<rparr> # es"
    "snd (parse_exts (Suc n) r) = snd (parse_exts n r4)"
    by (simp_all add: Let_def case_prod_unfold es_def d_def r1_def r2_def r3_def r4_def)
  have ih: "reader_abs r4 = Some (concat (map ext_bytes es) @ rest)" "length es = n"
    "\<forall>e \<in> set es. length (extData e) < 65536"
    using Suc.IH [OF wf(4)] Suc.prems(2) p(2) by (simp_all add: es_def)
  have a3: "reader_abs r3 = Some (d @ concat (map ext_bytes es) @ rest)" "int (length d) = uint (fst (rU16 r))"
    using back_rBytes [OF wf(3), of "uint (fst (rU16 r))"] ih(1) by (simp_all add: r4_def d_def)
  have a2: "reader_abs r2 = Some ([fst (rByte r2)] @ d @ concat (map ext_bytes es) @ rest)"
    using back_rByte [OF wf(2)] a3(1) by (simp add: r3_def)
  have a1: "reader_abs r1 = Some ([fst (rByte r1)] @ [fst (rByte r2)] @ d @ concat (map ext_bytes es) @ rest)"
    using back_rByte [OF wf(1)] a2 by (simp add: r2_def)
  have "(of_int (int (length d)) :: u16) = of_int (uint (fst (rU16 r)))" by (simp only: a3(2))
  then have ld: "of_nat (length d) = fst (rU16 r)" by simp
  have "length d = unat (fst (rU16 r))" using a3(2) by (metis nat_int unat_eq_nat_uint)
  then have ld2: "length d < 65536" using unat_u16_lt [of "fst (rU16 r)"] by simp
  have "reader_abs r = Some (be16 (fst (rU16 r)) @ [fst (rByte r1)] @ [fst (rByte r2)] @ d @ concat (map ext_bytes es) @ rest)"
    using back_rU16 [OF Suc.prems(1)] a1 by (simp add: r1_def)
  then show ?case using ih(2,3) ld ld2 unfolding p
    by (simp add: ext_bytes_def [of "\<lparr>extTyp = fst (rByte r1), extFlags = fst (rByte r2), extData = d\<rparr>"])
qed simp

text \<open>The certificate parser accepts exactly the well-formed certificates.\<close>

lemma parse_cert_enc:
  assumes "cert_wf c"
  shows "parseEd25519Cert (cert_body c @ signature c) = Inr c"
proof -
  let ?b = "cert_body c @ signature c" and ?x = "concat (map ext_bytes (extensions c))"
  have wf: "length (certifiedKey c) = 32" "length (extensions c) < 256" "length (signature c) = 64"
    "\<forall>e \<in> set (extensions c). length (extData e) < 65536" "signedPart c = cert_body c"
    using assms by (simp_all add: cert_wf_def)
  have lb: "\<not> length ?b < edCertMinLen" using wf by (simp add: cert_body_def)
  define r0 r1 r2 r3 r4 r5 r6 where "r0 = newReader ?b" and "r1 = snd (rByte r0)" and "r2 = snd (rByte r1)"
    and "r3 = snd (rU32 r2)" and "r4 = snd (rByte r3)" and "r5 = snd (rBytes (int ed25519PublicKeyLen) r4)"
    and "r6 = snd (rByte r5)"
  define r7 r8 where "r7 = snd (parse_exts (unat (fst (rByte r5))) r6)"
    and "r8 = snd (rBytes (int edCertSignatureLen) r7)"
  have rw: "reader_wf r0" "reader_wf r1" "reader_wf r2" "reader_wf r3" "reader_wf r4" "reader_wf r5" "reader_wf r6"
    "reader_wf r7"
    by (simp_all add: r0_def r1_def r2_def r3_def r4_def r5_def r6_def r7_def)
  have a0: "reader_abs r0 = Some ([1] @ [certType c] @ be32 (expiration c) @ [keyType c] @ certifiedKey c @
      [of_nat (length (extensions c))] @ ?x @ signature c)"
    by (simp add: r0_def cert_body_def)
  have b1: "fst (rByte r0) = 1" "reader_abs r1 = Some ([certType c] @ be32 (expiration c) @ [keyType c] @ certifiedKey c @
      [of_nat (length (extensions c))] @ ?x @ signature c)"
    using abs_rByte [OF rw(1) a0] by (simp_all add: r1_def)
  have b2: "fst (rByte r1) = certType c" "reader_abs r2 = Some (be32 (expiration c) @ [keyType c] @ certifiedKey c @
      [of_nat (length (extensions c))] @ ?x @ signature c)"
    using abs_rByte [OF rw(2) b1(2)] by (simp_all add: r2_def)
  have b3: "fst (rU32 r2) = expiration c" "reader_abs r3 = Some ([keyType c] @ certifiedKey c @
      [of_nat (length (extensions c))] @ ?x @ signature c)"
    using abs_rU32 [OF rw(3) b2(2)] by (simp_all add: r3_def)
  have b4: "fst (rByte r3) = keyType c" "reader_abs r4 = Some (certifiedKey c @
      [of_nat (length (extensions c))] @ ?x @ signature c)"
    using abs_rByte [OF rw(4) b3(2)] by (simp_all add: r4_def)
  have b5: "fst (rBytes (int ed25519PublicKeyLen) r4) = certifiedKey c"
    "reader_abs r5 = Some ([of_nat (length (extensions c))] @ ?x @ signature c)"
    using abs_rBytes [OF rw(5) b4(2)] wf(1) by (simp_all add: r5_def)
  have b6: "fst (rByte r5) = of_nat (length (extensions c))" "reader_abs r6 = Some (?x @ signature c)"
    using abs_rByte [OF rw(6) b5(2)] by (simp_all add: r6_def)
  have n: "unat (fst (rByte r5)) = length (extensions c)" using b6(1) unat_of_nat_byte [OF wf(2)] by simp
  have b7: "fst (parse_exts (unat (fst (rByte r5))) r6) = extensions c" "reader_abs r7 = Some (signature c)"
    using parse_exts_enc [OF rw(7) b6(2) wf(4)] by (simp_all add: r7_def n)
  have b8: "fst (rBytes (int edCertSignatureLen) r7) = signature c" "reader_abs r8 = Some []"
    using abs_rBytes [OF rw(8), of "signature c" "[]"] b7(2) wf(3) by (simp_all add: r8_def)
  have fin: "\<not> rErr r8" "rRemaining r8 = 0"
    using b8(2) by (auto simp: rErr_abs reader_abs_def rRemaining_def split: if_splits)
      (use rw(8) in \<open>auto simp: r8_def reader_wf_def rBytes_def split: if_splits\<close>)
  show ?thesis
    unfolding parseEd25519Cert_def Let_def case_prod_unfold
      r0_def [symmetric] r1_def [symmetric] r2_def [symmetric] r3_def [symmetric] r4_def [symmetric]
      r5_def [symmetric] r6_def [symmetric] r7_def [symmetric] r8_def [symmetric]
    using lb fin b1(1) b2(1) b3(1) b4(1) b5(1) b6(1) b7(1) b8(1) wf(3,5) by (cases c) simp
qed

lemma parse_cert_inv:
  assumes "parseEd25519Cert b = Inr c"
  shows "cert_wf c \<and> b = cert_body c @ signature c"
proof -
  define r0 r1 r2 r3 r4 r5 r6 where "r0 = newReader b" and "r1 = snd (rByte r0)" and "r2 = snd (rByte r1)"
    and "r3 = snd (rU32 r2)" and "r4 = snd (rByte r3)" and "r5 = snd (rBytes (int ed25519PublicKeyLen) r4)"
    and "r6 = snd (rByte r5)"
  define r7 r8 where "r7 = snd (parse_exts (unat (fst (rByte r5))) r6)"
    and "r8 = snd (rBytes (int edCertSignatureLen) r7)"
  have rw: "reader_wf r0" "reader_wf r1" "reader_wf r2" "reader_wf r3" "reader_wf r4" "reader_wf r5" "reader_wf r6"
    "reader_wf r7"
    by (simp_all add: r0_def r1_def r2_def r3_def r4_def r5_def r6_def r7_def)
  from assms have v: "fst (rByte r0) = 1" and fin: "\<not> rErr r8" "rRemaining r8 = 0"
    and c: "c = \<lparr>certType = fst (rByte r1), expiration = fst (rU32 r2), keyType = fst (rByte r3),
       certifiedKey = fst (rBytes (int ed25519PublicKeyLen) r4),
       extensions = fst (parse_exts (unat (fst (rByte r5))) r6),
       signature = fst (rBytes (int edCertSignatureLen) r7), signedPart = take (length b - edCertSignatureLen) b\<rparr>"
    unfolding parseEd25519Cert_def Let_def case_prod_unfold
      r0_def [symmetric] r1_def [symmetric] r2_def [symmetric] r3_def [symmetric] r4_def [symmetric]
      r5_def [symmetric] r6_def [symmetric] r7_def [symmetric] r8_def [symmetric]
    by (auto split: if_splits)
  have a8: "reader_abs r8 = Some []" using fin by (auto simp: rErr_def reader_abs_def rRemaining_def)
  have a7: "reader_abs r7 = Some (signature c)" "length (signature c) = 64"
    using back_rBytes [OF rw(8), of "int edCertSignatureLen" "[]"] a8 by (simp_all add: r8_def c)
  have a6: "reader_abs r6 = Some (concat (map ext_bytes (extensions c)) @ signature c)"
    "length (extensions c) = unat (fst (rByte r5))" "\<forall>e \<in> set (extensions c). length (extData e) < 65536"
    using parse_exts_inv [OF rw(7)] a7(1) by (simp_all add: r7_def c)
  have n: "fst (rByte r5) = of_nat (length (extensions c))" "length (extensions c) < 256"
    using a6(2) unat_byte_lt [of "fst (rByte r5)"] by simp_all
  have a5: "reader_abs r5 = Some ([of_nat (length (extensions c))] @ concat (map ext_bytes (extensions c)) @ signature c)"
    using back_rByte [OF rw(6)] a6(1) by (simp add: r6_def n(1))
  have a4: "reader_abs r4 = Some (certifiedKey c @ [of_nat (length (extensions c))] @
      concat (map ext_bytes (extensions c)) @ signature c)" "length (certifiedKey c) = 32"
    using back_rBytes [OF rw(5), of "int ed25519PublicKeyLen"] a5 by (simp_all add: r5_def c)
  have "reader_abs r3 = Some ([keyType c] @ certifiedKey c @ [of_nat (length (extensions c))] @
      concat (map ext_bytes (extensions c)) @ signature c)"
    using back_rByte [OF rw(4)] a4(1) by (simp add: r4_def c)
  then have "reader_abs r2 = Some (be32 (expiration c) @ [keyType c] @ certifiedKey c @ [of_nat (length (extensions c))] @
      concat (map ext_bytes (extensions c)) @ signature c)"
    using back_rU32 [OF rw(3)] by (simp add: r3_def c)
  then have "reader_abs r1 = Some ([certType c] @ be32 (expiration c) @ [keyType c] @ certifiedKey c @
      [of_nat (length (extensions c))] @ concat (map ext_bytes (extensions c)) @ signature c)"
    using back_rByte [OF rw(2)] by (simp add: r2_def c)
  then have "reader_abs r0 = Some (cert_body c @ signature c)"
    using back_rByte [OF rw(1)] v by (simp add: r1_def cert_body_def)
  then have b: "b = cert_body c @ signature c" by (simp add: r0_def)
  have "signedPart c = take (length b - edCertSignatureLen) b" by (simp add: c)
  then have "signedPart c = cert_body c" using a7(2) b by (metis add_diff_cancel_right' append_eq_conv_conj length_append)
  with a4(2) a6(3) a7(2) n(2) b show ?thesis by (simp add: cert_wf_def)
qed

section \<open>The CERTS cell, read back\<close>

definition cert_entry :: "byte \<times> bytes \<Rightarrow> bytes" where
  "cert_entry e = [fst e] @ be16 (of_nat (length (snd e))) @ snd e"

lemma parse_certs_enc:
  "reader_wf r \<Longrightarrow> reader_abs r = Some (concat (map cert_entry es) @ rest) \<Longrightarrow>
   (\<forall>e \<in> set es. length (snd e) < 65536) \<Longrightarrow>
   \<exists>r'. parse_certs (length es) r out = Inr (out ++ map_of (rev es), r') \<and> reader_abs r' = Some rest"
proof (induction es arbitrary: r out)
  case (Cons e es)
  define r1 r2 r3 where "r1 = snd (rByte r)" and "r2 = snd (rU16 r1)"
    and "r3 = snd (rBytes (uint (fst (rU16 r1))) r2)"
  let ?d = "snd e" and ?tail = "concat (map cert_entry es) @ rest"
  have wf: "reader_wf r1" "reader_wf r2" "reader_wf r3"
    using Cons.prems(1) by (simp_all add: r1_def r2_def r3_def)
  have l: "uint (of_nat (length ?d) :: u16) = int (length ?d)"
    using Cons.prems(3) unat_of_nat_u16 [of "length ?d"] by (simp add: uint_nat)
  have a0: "reader_abs r = Some ([fst e] @ be16 (of_nat (length ?d)) @ ?d @ ?tail)"
    using Cons.prems(2) by (simp add: cert_entry_def [of e])
  have a1: "fst (rByte r) = fst e" "reader_abs r1 = Some (be16 (of_nat (length ?d)) @ ?d @ ?tail)"
    using abs_rByte [OF Cons.prems(1) a0] by (simp_all add: r1_def)
  have a2: "fst (rU16 r1) = of_nat (length ?d)" "reader_abs r2 = Some (?d @ ?tail)"
    using abs_rU16 [OF wf(1) a1(2)] by (simp_all add: r2_def)
  have a3: "fst (rBytes (uint (fst (rU16 r1))) r2) = ?d" "reader_abs r3 = Some ?tail"
    using abs_rBytes [OF wf(2) a2(2)] by (simp_all add: r3_def a2(1) l)
  have "\<exists>r'. parse_certs (length es) r3 (out(fst e \<mapsto> ?d)) = Inr (out(fst e \<mapsto> ?d) ++ map_of (rev es), r') \<and>
      reader_abs r' = Some rest"
    by (rule Cons.IH [OF wf(3) a3(2)]) (use Cons.prems(3) in simp)
  moreover have "parse_certs (length (e # es)) r out = parse_certs (length es) r3 (out(fst e \<mapsto> ?d))"
    using a1(1) a3 by (simp add: Let_def case_prod_unfold rErr_abs flip: r1_def r2_def r3_def)
  moreover have "out(fst e \<mapsto> ?d) ++ map_of (rev es) = out ++ map_of (rev (e # es))"
    by (simp add: map_of_append map_add_assoc map_add_upd_left map_upd_triv)
  ultimately show ?case by metis
qed simp

lemma parseCertsCell_enc:
  assumes "length es < 256" "\<forall>e \<in> set es. length (snd e) < 65536"
  shows "parseCertsCell ([of_nat (length es)] @ concat (map cert_entry es) @ pad) = Inr (map_of (rev es))"
proof -
  let ?r = "newReader ([of_nat (length es)] @ concat (map cert_entry es) @ pad)"
  have a: "fst (rByte ?r) = of_nat (length es)" "reader_abs (snd (rByte ?r)) = Some (concat (map cert_entry es) @ pad)"
    using abs_rByte [of ?r "[of_nat (length es)]" "concat (map cert_entry es) @ pad"] by simp_all
  obtain r' where "parse_certs (length es) (snd (rByte ?r)) Map.empty = Inr (Map.empty ++ map_of (rev es), r')"
    "reader_abs r' = Some pad"
    using parse_certs_enc [OF _ a(2) assms(2), of Map.empty] by auto
  then show ?thesis
    unfolding parseCertsCell_def Let_def case_prod_unfold
    using a(1) unat_of_nat_byte [OF assms(1)] by (simp add: rErr_abs)
qed

section \<open>The chain of trust\<close>

text \<open>What a relay identity rests on: the identity key signs the signing key, the signing key signs
  the digest of the TLS certificate, and neither certificate has expired.\<close>

definition identity_chain :: "crypto \<Rightarrow> bytes \<Rightarrow> bytes \<Rightarrow> bytes \<Rightarrow> bytes \<Rightarrow> int \<Rightarrow> bool" where
  "identity_chain K signingRaw linkRaw der ident now \<longleftrightarrow>
     (\<exists>sc lc. cert_wf sc \<and> signingRaw = cert_body sc @ signature sc \<and>
        cert_wf lc \<and> linkRaw = cert_body lc @ signature lc \<and>
        certType sc = 4 \<and> keyType sc = 1 \<and> first_signer (extensions sc) = Some ident \<and>
        now \<le> expiryNanos (expiration sc) \<and> ed25519_verify K ident (cert_body sc) (signature sc) \<and>
        certType lc = 5 \<and> now \<le> expiryNanos (expiration lc) \<and>
        ed25519_verify K (certifiedKey sc) (cert_body lc) (signature lc) \<and>
        certifiedKey lc = sha256_prim K der)"

lemma first_signer_length: "first_signer es = Some k \<Longrightarrow> length k = 32"
  by (induction es) (auto split: if_splits)

lemma parse_cert_iff:
  "parseEd25519Cert b = Inr c \<longleftrightarrow> cert_wf c \<and> b = cert_body c @ signature c"
  using parse_cert_inv parse_cert_enc by blast

lemma cert_verify_None:
  "cert_verify K c pub now = None \<longleftrightarrow> length pub = 32 \<and> now \<le> expiryNanos (expiration c) \<and>
     ed25519_verify K pub (signedPart c) (signature c)"
  by (auto simp: cert_verify_def)

lemma verifyCerts_iff:
  "verifyCerts K p der now = Inr ident \<longleftrightarrow>
     (\<exists>certs sr lr. parseCertsCell p = Inr certs \<and> certs 4 = Some sr \<and> certs 5 = Some lr \<and>
        identity_chain K sr lr der ident now)"
proof
  assume "verifyCerts K p der now = Inr ident"
  note h = this [unfolded verifyCerts_def bindE_eq_Inr]
  from h obtain certs where c0: "parseCertsCell p = Inr certs" by blast
  from h c0 obtain sr lr where c1: "certs 4 = Some sr" "certs 5 = Some lr"
    by (auto split: option.splits)
  note 1 = c0 c1
  from h 1 obtain sc where sc: "parseEd25519Cert sr = Inr sc" "certType sc = 4" "keyType sc = 1"
    by (cases "parseEd25519Cert sr") (auto split: if_splits)
  from h 1 sc obtain k where k: "signerKey sc = Some k" "cert_verify K sc k now = None"
    by (auto split: option.splits)
  from h 1 sc k obtain lc where lc: "parseEd25519Cert lr = Inr lc" "certType lc = 5"
      "cert_verify K lc (certifiedKey sc) now = None" and fin: "certifiedKey lc = sha256_prim K der" "k = ident"
    by (auto simp: bindE_eq_Inr Let_def split: if_splits option.splits)
  note 2 = sc k [unfolded fin(2)] and 3 = lc fin(1)
  from 2 3 have "identity_chain K sr lr der ident now"
    unfolding identity_chain_def parse_cert_iff cert_verify_None
    by (intro exI [of _ sc] exI [of _ lc]) (simp add: signerKey_def cert_wf_def)
  with 1 show "\<exists>certs sr lr. parseCertsCell p = Inr certs \<and> certs 4 = Some sr \<and> certs 5 = Some lr \<and>
        identity_chain K sr lr der ident now" by blast
next
  assume "\<exists>certs sr lr. parseCertsCell p = Inr certs \<and> certs 4 = Some sr \<and> certs 5 = Some lr \<and>
        identity_chain K sr lr der ident now"
  then obtain certs sr lr sc lc where
    1: "parseCertsCell p = Inr certs" "certs 4 = Some sr" "certs 5 = Some lr" and
    2: "cert_wf sc" "sr = cert_body sc @ signature sc" "cert_wf lc" "lr = cert_body lc @ signature lc"
      "certType sc = 4" "keyType sc = 1" "first_signer (extensions sc) = Some ident"
      "now \<le> expiryNanos (expiration sc)" "ed25519_verify K ident (cert_body sc) (signature sc)"
      "certType lc = 5" "now \<le> expiryNanos (expiration lc)"
      "ed25519_verify K (certifiedKey sc) (cert_body lc) (signature lc)" "certifiedKey lc = sha256_prim K der"
    unfolding identity_chain_def by blast
  have 3: "parseEd25519Cert sr = Inr sc" "parseEd25519Cert lr = Inr lc" using 2(1-4) parse_cert_iff by blast+
  have "signedPart sc = cert_body sc" "signedPart lc = cert_body lc" "length (certifiedKey sc) = 32"
    "length (certifiedKey lc) = 32"
    using 2(1,3) by (simp_all add: cert_wf_def)
  then show "verifyCerts K p der now = Inr ident"
    using 1 2(5-) 3 first_signer_length [OF 2(7)]
    by (simp add: verifyCerts_def signerKey_def cert_verify_def Let_def)
qed

section \<open>Properties\<close>

text \<open>The certificate parser accepts exactly the well-formed version-1 certificates: parsing the
  encoding of one returns it, and whatever it accepts is the encoding of the certificate it
  returns, whose signature is checked over every byte before the signature.\<close>

theorem certificate_language:
  "parseEd25519Cert b = Inr c \<longleftrightarrow> cert_wf c \<and> b = cert_body c @ signature c"
  by (rule parse_cert_iff)

text \<open>C14: A relay identity is accepted exactly when the CERTS cell holds an unexpired signing
  certificate that carries and is signed by that identity key and an unexpired link certificate
  signed by the certified signing key over the SHA-256 digest of the connection's TLS certificate.\<close>

theorem identity_accepted_iff_chain:
  "verifyCerts K p der now = Inr ident \<longleftrightarrow>
     (\<exists>certs sr lr. parseCertsCell p = Inr certs \<and> certs 4 = Some sr \<and> certs 5 = Some lr \<and>
        identity_chain K sr lr der ident now)"
  by (rule verifyCerts_iff)

end
