(* ===== verification/Cell.thy ===== *)
theory Cell
  imports Byteutil
begin

text \<open>
  Model of \<^verbatim>\<open>pkg/cell/cell.go\<close> and \<^verbatim>\<open>pkg/cell/relay.go\<close>: link cells (\<open>cell_Encode\<close>, \<open>readCell\<close>)
  and the relay-cell layout inside the 509-byte payload (\<open>relay_Encode\<close>, \<open>decodeRelay\<close>).  The
  lemmas give the exact byte layout of both encoders, the round trips in both directions,
  the allocation bound of the reader, and, through the locale \<open>wire_codec\<close>, that a
  concatenation of encoded cells is read back cell by cell.
\<close>

section \<open>Link cells\<close>

abbreviation (input) PayloadLen :: nat where "PayloadLen \<equiv> 509"
abbreviation (input) MaxVariableBody :: nat where "MaxVariableBody \<equiv> 16384"
abbreviation (input) CircIDLenShort :: nat where "CircIDLenShort \<equiv> 2"
abbreviation (input) CircIDLenWide :: nat where "CircIDLenWide \<equiv> 4"

text \<open>\<^verbatim>\<open>Command\<close> is a \<^verbatim>\<open>uint8\<close> with named values; unnamed values occur on the wire too.\<close>

type_synonym command = byte

abbreviation (input) CmdPadding :: command where "CmdPadding \<equiv> 0"
abbreviation (input) CmdRelay :: command where "CmdRelay \<equiv> 3"
abbreviation (input) CmdDestroy :: command where "CmdDestroy \<equiv> 4"
abbreviation (input) CmdVersions :: command where "CmdVersions \<equiv> 7"
abbreviation (input) CmdNetinfo :: command where "CmdNetinfo \<equiv> 8"
abbreviation (input) CmdRelayEarly :: command where "CmdRelayEarly \<equiv> 9"
abbreviation (input) CmdCreate2 :: command where "CmdCreate2 \<equiv> 10"
abbreviation (input) CmdCreated2 :: command where "CmdCreated2 \<equiv> 11"
abbreviation (input) CmdVPadding :: command where "CmdVPadding \<equiv> 128"
abbreviation (input) CmdCerts :: command where "CmdCerts \<equiv> 129"
abbreviation (input) CmdAuthChallenge :: command where "CmdAuthChallenge \<equiv> 130"

definition isVariable :: "command \<Rightarrow> bool" where
  "isVariable c \<longleftrightarrow> c = CmdVersions \<or> c \<ge> 128"

record cell =
  circID :: u32
  cmd :: command
  payload :: bytes

definition cell_Encode :: "nat \<Rightarrow> cell \<Rightarrow> bytes" where
  "cell_Encode circIDLen c =
     (let w = newWriter (circIDLen + 3 + length (payload c));
          w = (if circIDLen = CircIDLenShort then wU16 (ucast (circID c)) w else wU32 (circID c) w);
          w = wByte (cmd c) w
      in if isVariable (cmd c)
         then wBytes (wWrite (payload c) (wU16 (of_nat (length (payload c))) w))
         else let p = payload c in
              if length p \<ge> PayloadLen then wBytes (wWrite (take PayloadLen p) w)
              else wBytes (wWrite (replicate (PayloadLen - length p) 0) (wWrite p w)))"

datatype cell_err = ReadErr io_err | BodyTooLarge nat

text \<open>\<open>readCell circIDLen inp\<close> returns the cell and the unread input.\<close>

definition liftIO :: "io_err + 'a \<Rightarrow> cell_err + 'a" where
  "liftIO r = map_sum ReadErr id r"

definition readCell :: "nat \<Rightarrow> bytes \<Rightarrow> cell_err + cell \<times> bytes" where
  "readCell circIDLen inp =
     bindE (liftIO (readFull (circIDLen + 1) inp)) (\<lambda>(header, inp1).
       let cid = (if circIDLen = CircIDLenShort then ucast (get16 header) else get32 header);
           cm = header ! circIDLen
       in if isVariable cm then
            bindE (liftIO (readFull 2 inp1)) (\<lambda>(lenBuf, inp2).
              let n = unat (get16 lenBuf) in
              if n > MaxVariableBody then Inl (BodyTooLarge n)
              else bindE (liftIO (readFull n inp2)) (\<lambda>(body, inp3).
                Inr (\<lparr>circID = cid, cmd = cm, payload = body\<rparr>, inp3)))
          else bindE (liftIO (readFull PayloadLen inp1)) (\<lambda>(pl, inp2).
                Inr (\<lparr>circID = cid, cmd = cm, payload = pl\<rparr>, inp2)))"

lemma liftIO_simps [simp]: "liftIO (Inr x) = Inr x" "liftIO (Inl e) = Inl (ReadErr e)"
  by (simp_all add: liftIO_def)

lemma liftIO_Inr [simp]: "liftIO r = Inr x \<longleftrightarrow> r = Inr x"
  by (cases r) (auto simp: liftIO_def)

lemma liftIO_readFull [simp]: "length b = n \<Longrightarrow> liftIO (readFull n (b @ rest)) = Inr (b, rest)"
  by (simp add: readFull_appendI)

subsection \<open>Layout\<close>

definition cid_bytes :: "nat \<Rightarrow> u32 \<Rightarrow> bytes" where
  "cid_bytes n v = (if n = CircIDLenShort then be16 (ucast v) else be32 v)"

definition cid_of :: "nat \<Rightarrow> bytes \<Rightarrow> u32" where
  "cid_of n h = (if n = CircIDLenShort then ucast (get16 h) else get32 h)"

definition fit_payload :: "bytes \<Rightarrow> bytes" where
  "fit_payload p = (if length p \<ge> PayloadLen then take PayloadLen p
                    else p @ replicate (PayloadLen - length p) 0)"

lemma length_fit_payload [simp]: "length (fit_payload p) = PayloadLen"
  by (simp add: fit_payload_def)

lemma fit_payload_id [simp]: "length p = PayloadLen \<Longrightarrow> fit_payload p = p"
  by (simp add: fit_payload_def)

lemma cell_Encode_eq:
  "cell_Encode n c = cid_bytes n (circID c) @ [cmd c] @
     (if isVariable (cmd c) then be16 (of_nat (length (payload c))) @ payload c
      else fit_payload (payload c))"
  by (simp add: cell_Encode_def cid_bytes_def fit_payload_def Let_def)

abbreviation (input) id_len :: "nat \<Rightarrow> bool" where
  "id_len n \<equiv> n = CircIDLenShort \<or> n = CircIDLenWide"

lemma length_cid_bytes [simp]: "id_len n \<Longrightarrow> length (cid_bytes n v) = n"
  by (auto simp: cid_bytes_def)

lemma cid_bytes_of:
  "id_len n \<Longrightarrow> cid_of n (cid_bytes n v @ xs) = (if n = CircIDLenShort then ucast (ucast v :: u16) else v)"
  by (auto simp: cid_bytes_def cid_of_def)

lemma readCell_header:
  assumes "id_len n"
  shows "readCell n (cid_bytes n v @ [cm] @ inp) =
     (let cid = (if n = CircIDLenShort then ucast (ucast v :: u16) else v) in
      if isVariable cm then
            bindE (liftIO (readFull 2 inp)) (\<lambda>(lenBuf, inp2).
              let k = unat (get16 lenBuf) in
              if k > MaxVariableBody then Inl (BodyTooLarge k)
              else bindE (liftIO (readFull k inp2)) (\<lambda>(body, inp3).
                Inr (\<lparr>circID = cid, cmd = cm, payload = body\<rparr>, inp3)))
          else bindE (liftIO (readFull PayloadLen inp)) (\<lambda>(pl, inp2).
                Inr (\<lparr>circID = cid, cmd = cm, payload = pl\<rparr>, inp2)))"
proof -
  have "readFull (n + 1) ((cid_bytes n v @ [cm]) @ inp) = Inr (cid_bytes n v @ [cm], inp)"
    by (rule readFull_appendI) (simp add: assms)
  then have "readFull (Suc n) (cid_bytes n v @ cm # inp) = Inr (cid_bytes n v @ [cm], inp)"
    by simp
  moreover have "(cid_bytes n v @ [cm]) ! n = cm"
    using nth_append_length [of "cid_bytes n v" cm "[]"] assms by simp
  moreover have "(if n = 2 then ucast (get16 (cid_bytes n v @ [cm])) else get32 (cid_bytes n v @ [cm]))
      = (if n = CircIDLenShort then ucast (ucast v :: u16) else v)"
    using cid_bytes_of [OF assms, of v "[cm]"] by (simp add: cid_of_def)
  ultimately show ?thesis
    unfolding readCell_def by (simp only: append_Cons append_Nil Suc_eq_plus1 liftIO_simps bindE.simps split Let_def)
qed

subsection \<open>Round trips\<close>

text \<open>What the peer reads when a cell is sent: the payload of a fixed-length cell is fitted to
  509 bytes and the short form keeps the low 16 bits of the circuit id.\<close>

definition on_wire :: "nat \<Rightarrow> cell \<Rightarrow> cell" where
  "on_wire n c = c\<lparr>circID := (if n = CircIDLenShort then ucast (ucast (circID c) :: u16) else circID c),
                   payload := (if isVariable (cmd c) then payload c else fit_payload (payload c))\<rparr>"

lemma readCell_Encode:
  assumes "id_len n" and "isVariable (cmd c) \<Longrightarrow> length (payload c) \<le> MaxVariableBody"
  shows "readCell n (cell_Encode n c @ rest) = Inr (on_wire n c, rest)"
proof -
  obtain v cm p where c: "c = \<lparr>circID = v, cmd = cm, payload = p\<rparr>" by (cases c) auto
  show ?thesis
  proof (cases "isVariable cm")
    case True
    then have len: "unat (of_nat (length p) :: u16) = length p" "length p \<le> MaxVariableBody"
      using assms(2) c by (auto intro: unat_of_nat_u16)
    have "liftIO (readFull 2 (be16 (of_nat (length p)) @ p @ rest))
            = Inr (be16 (of_nat (length p)), p @ rest)" by simp
    with True len show ?thesis
      using readCell_header [OF assms(1), of v cm "be16 (of_nat (length p)) @ p @ rest"]
      by (simp add: c cell_Encode_eq on_wire_def Let_def)
  next
    case False
    then show ?thesis
      using readCell_header [OF assms(1), of v cm "fit_payload p @ rest"]
      by (simp add: c cell_Encode_eq on_wire_def Let_def)
  qed
qed

definition cell_wf :: "cell \<Rightarrow> bool" where
  "cell_wf c \<longleftrightarrow> (if isVariable (cmd c) then length (payload c) \<le> MaxVariableBody
                  else length (payload c) = PayloadLen)"

lemma on_wire_wide [simp]: "cell_wf c \<Longrightarrow> on_wire CircIDLenWide c = c"
  by (simp add: on_wire_def cell_wf_def split: if_splits)

text \<open>A variable-length body beyond the cap is refused by the reader.\<close>

lemma readCell_oversize:
  assumes "id_len n" and "isVariable (cmd c)"
    and "MaxVariableBody < length (payload c)" "length (payload c) < 65536"
  shows "readCell n (cell_Encode n c @ rest) = Inl (BodyTooLarge (length (payload c)))"
proof -
  have len: "unat (of_nat (length (payload c)) :: u16) = length (payload c)"
    using assms(4) by (rule unat_of_nat_u16)
  have "liftIO (readFull 2 (be16 (of_nat (length (payload c))) @ payload c @ rest))
            = Inr (be16 (of_nat (length (payload c))), payload c @ rest)" by simp
  with assms len show ?thesis
    using readCell_header [OF assms(1), of "circID c" "cmd c" "be16 (of_nat (length (payload c))) @ payload c @ rest"]
    by (simp add: cell_Encode_eq Let_def)
qed

lemma cid_of_bytes: "id_len n \<Longrightarrow> length h = n \<Longrightarrow> cid_bytes n (cid_of n h) = h"
proof -
  assume a: "id_len n" "length h = n"
  have "ucast (ucast (get16 h) :: u32) = get16 h"
    by (rule bit_word_eqI) (auto simp: bit_simps)
  with a show ?thesis by (auto simp: cid_bytes_def cid_of_def get_be16 get_be32)
qed

text \<open>Conversely the reader accepts nothing but encodings: what it consumed is the encoding of
  the cell it returns.\<close>

lemma readCell_consumes:
  assumes "id_len n" and "readCell n inp = Inr (c, rest)"
  shows "cell_wf c" and "inp = cell_Encode n c @ rest"
proof -
  from assms(2) obtain header inp1 where h: "readFull (n + 1) inp = Inr (header, inp1)"
    by (auto simp: readCell_def bindE_eq_Inr)
  then have inp: "inp = header @ inp1" and lh: "length header = Suc n"
    by (auto simp: readFull_Inr)
  define hd0 where "hd0 = take n header"
  have header: "header = cid_bytes n (cid_of n hd0) @ [header ! n]"
    using lh cid_of_bytes [OF assms(1), of hd0]
    by (simp add: hd0_def take_Suc_conv_app_nth [symmetric])
  define v cm where "v = cid_of n hd0" and "cm = header ! n"
  have same: "(if n = CircIDLenShort then ucast (ucast v :: u16) else v) = v"
    using cid_bytes_of [OF assms(1), of v "[]"] cid_of_bytes [OF assms(1), of hd0] lh
    by (simp add: v_def hd0_def)
  have split: "readCell n (cid_bytes n v @ [cm] @ inp1) = Inr (c, rest)"
    using assms(2) inp header by (metis append.assoc v_def cm_def)
  have key: "cell_wf c \<and> cid_bytes n v @ [cm] @ inp1 = cell_Encode n c @ rest"
  proof (cases "isVariable cm")
    case True
    with split obtain lenBuf inp2 body where
      "readFull 2 inp1 = Inr (lenBuf, inp2)" "\<not> unat (get16 lenBuf) > MaxVariableBody"
      "readFull (unat (get16 lenBuf)) inp2 = Inr (body, rest)"
      "c = \<lparr>circID = v, cmd = cm, payload = body\<rparr>"
      unfolding readCell_header [OF assms(1)] same Let_def
      by (auto simp: bindE_eq_Inr split: if_splits)
    with True show ?thesis
      by (auto simp: readFull_Inr cell_Encode_eq cell_wf_def get_be16)
  next
    case False
    with split obtain pl where
      "readFull PayloadLen inp1 = Inr (pl, rest)" "c = \<lparr>circID = v, cmd = cm, payload = pl\<rparr>"
      unfolding readCell_header [OF assms(1)] same Let_def
      by (auto simp: bindE_eq_Inr)
    with False show ?thesis
      by (auto simp: readFull_Inr cell_Encode_eq cell_wf_def)
  qed
  then show "cell_wf c" and "inp = cell_Encode n c @ rest"
    using inp header by (metis append.assoc v_def cm_def)+
qed

subsection \<open>Reading a stream of cells\<close>

text \<open>A codec whose decoder undoes its encoder in front of any further input reads back a
  concatenation of encodings; \<open>decode_stream\<close> is the loop of a receiver that decodes until the
  first error, with fuel for the number of items.\<close>

fun decode_stream :: "(bytes \<Rightarrow> 'e + 'a \<times> bytes) \<Rightarrow> nat \<Rightarrow> bytes \<Rightarrow> 'a list \<times> bytes" where
  "decode_stream dec 0 inp = ([], inp)"
| "decode_stream dec (Suc k) inp =
     (case dec inp of Inl e \<Rightarrow> ([], inp)
      | Inr (x, rest) \<Rightarrow> (let (xs, left) = decode_stream dec k rest in (x # xs, left)))"

locale wire_codec =
  fixes enc :: "'a \<Rightarrow> bytes" and dec :: "bytes \<Rightarrow> 'e + 'a \<times> bytes" and ok :: "'a \<Rightarrow> bool"
  assumes dec_enc: "ok x \<Longrightarrow> dec (enc x @ rest) = Inr (x, rest)"
    and dec_inv: "dec inp = Inr (x, rest) \<Longrightarrow> ok x \<and> inp = enc x @ rest"
begin

lemma decode_stream_enc:
  "(\<forall>x \<in> set xs. ok x) \<Longrightarrow>
   decode_stream dec (length xs) (concat (map enc xs) @ rest) = (xs, rest)"
  by (induction xs) (auto simp: dec_enc)

lemma decode_stream_inv:
  "decode_stream dec k inp = (xs, left) \<Longrightarrow>
   inp = concat (map enc xs) @ left \<and> (\<forall>x \<in> set xs. ok x)"
  by (induction k arbitrary: inp xs)
     (auto split: sum.splits prod.splits dest!: dec_inv)

lemma enc_prefix_free: "ok x \<Longrightarrow> ok y \<Longrightarrow> enc x @ r = enc y @ s \<Longrightarrow> x = y \<and> r = s"
  by (metis Inr_inject Pair_inject dec_enc)

end

interpretation link: wire_codec "cell_Encode CircIDLenWide" "readCell CircIDLenWide" cell_wf
proof
  fix c rest assume "cell_wf c"
  then show "readCell CircIDLenWide (cell_Encode CircIDLenWide c @ rest) = Inr (c, rest)"
    using readCell_Encode [of CircIDLenWide c rest] by (auto simp: cell_wf_def split: if_splits)
next
  fix inp c rest assume "readCell CircIDLenWide inp = Inr (c, rest)"
  then show "cell_wf c \<and> inp = cell_Encode CircIDLenWide c @ rest"
    using readCell_consumes [of CircIDLenWide inp c rest] by simp
qed

section \<open>Relay cells\<close>

abbreviation (input) RelayHeaderLen :: nat where "RelayHeaderLen \<equiv> 11"
abbreviation (input) RelayDataLen :: nat where "RelayDataLen \<equiv> 498"
abbreviation (input) relayRecognizedOff :: nat where "relayRecognizedOff \<equiv> 1"
abbreviation (input) relayStreamIDOff :: nat where "relayStreamIDOff \<equiv> 3"
abbreviation (input) relayDigestOff :: nat where "relayDigestOff \<equiv> 5"
abbreviation (input) relayLengthOff :: nat where "relayLengthOff \<equiv> 9"
abbreviation (input) relayDataOff :: nat where "relayDataOff \<equiv> 11"
abbreviation (input) RelayDigestLen :: nat where "RelayDigestLen \<equiv> 4"

type_synonym relay_command = byte

abbreviation (input) RelayBegin :: relay_command where "RelayBegin \<equiv> 1"
abbreviation (input) RelayData :: relay_command where "RelayData \<equiv> 2"
abbreviation (input) RelayEnd :: relay_command where "RelayEnd \<equiv> 3"
abbreviation (input) RelayConnected :: relay_command where "RelayConnected \<equiv> 4"
abbreviation (input) RelaySendme :: relay_command where "RelaySendme \<equiv> 5"
abbreviation (input) RelayTruncated :: relay_command where "RelayTruncated \<equiv> 9"
abbreviation (input) RelayBeginDir :: relay_command where "RelayBeginDir \<equiv> 13"
abbreviation (input) RelayExtend2 :: relay_command where "RelayExtend2 \<equiv> 14"
abbreviation (input) RelayExtended2 :: relay_command where "RelayExtended2 \<equiv> 15"
abbreviation (input) RelayEstablishRendezvous :: relay_command where "RelayEstablishRendezvous \<equiv> 33"
abbreviation (input) RelayIntroduce1 :: relay_command where "RelayIntroduce1 \<equiv> 34"
abbreviation (input) RelayRendezvous2 :: relay_command where "RelayRendezvous2 \<equiv> 37"
abbreviation (input) RelayRendezvousEstablished :: relay_command where "RelayRendezvousEstablished \<equiv> 39"
abbreviation (input) RelayIntroduceAck :: relay_command where "RelayIntroduceAck \<equiv> 40"

text \<open>\<open>rdigest\<close> is the source's \<^verbatim>\<open>[4]byte\<close>: \<open>relay_wf\<close> fixes its length.\<close>

record relay_cell =
  rcommand :: relay_command
  recognized :: u16
  streamID :: u16
  rdigest :: bytes
  rdata :: bytes

definition relay_Encode :: "relay_cell \<Rightarrow> bytes" where
  "relay_Encode rc =
     (let buf = replicate PayloadLen 0;
          buf = buf[0 := rcommand rc];
          buf = blit relayRecognizedOff (be16 (recognized rc)) buf;
          buf = blit relayStreamIDOff (be16 (streamID rc)) buf;
          buf = blit relayDigestOff (rdigest rc) buf;
          n = min (length (rdata rc)) RelayDataLen;
          buf = blit relayLengthOff (be16 (of_nat n)) buf
      in blit relayDataOff (take n (rdata rc)) buf)"

definition decodeRelay :: "bytes \<Rightarrow> relay_cell option" where
  "decodeRelay pl =
     (if length pl \<noteq> PayloadLen then None
      else let n = unat (get16 (drop relayLengthOff pl)) in
           if n > RelayDataLen then None
           else Some \<lparr>rcommand = pl ! 0, recognized = get16 (drop relayRecognizedOff pl),
                      streamID = get16 (drop relayStreamIDOff pl),
                      rdigest = take 4 (drop relayDigestOff pl),
                      rdata = slice relayDataOff (relayDataOff + n) pl\<rparr>)"

definition relay_wf :: "relay_cell \<Rightarrow> bool" where
  "relay_wf rc \<longleftrightarrow> length (rdigest rc) = RelayDigestLen"

lemma blit_mid: "length a = off \<Longrightarrow> length m = length src \<Longrightarrow> blit off src (a @ m @ z) = a @ src @ z"
  by (simp add: blit_def)

lemma relay_Encode_eq:
  assumes "relay_wf rc"
  shows "relay_Encode rc =
     (let n = min (length (rdata rc)) RelayDataLen in
      [rcommand rc] @ be16 (recognized rc) @ be16 (streamID rc) @ rdigest rc @ be16 (of_nat n) @
      take n (rdata rc) @ replicate (RelayDataLen - n) 0)"
proof -
  define n where "n = min (length (rdata rc)) RelayDataLen"
  have n: "n \<le> RelayDataLen" "length (take n (rdata rc)) = n" by (auto simp: n_def)
  have "replicate PayloadLen (0 :: byte) = replicate (1 + (2 + (2 + (4 + (2 + (n + (RelayDataLen - n))))))) 0"
    using n(1) by simp
  then have z: "replicate PayloadLen (0 :: byte) = [0] @ replicate 2 0 @ replicate 2 0 @ replicate 4 0 @
      replicate 2 0 @ replicate n 0 @ replicate (RelayDataLen - n) 0"
    by (simp only: replicate_add) simp
  have d: "length (rdigest rc) = 4" using assms by (simp add: relay_wf_def)
  have "relay_Encode rc = blit 11 (take n (rdata rc)) (blit 9 (be16 (of_nat n))
     (blit 5 (rdigest rc) (blit 3 (be16 (streamID rc)) (blit 1 (be16 (recognized rc))
       ([rcommand rc] @ replicate 2 0 @ replicate 2 0 @ replicate 4 0 @
      replicate 2 0 @ replicate n 0 @ replicate (RelayDataLen - n) 0)))))"
    unfolding relay_Encode_def Let_def z n_def [symmetric] by simp
  also have "\<dots> = blit 11 (take n (rdata rc)) (blit 9 (be16 (of_nat n))
     (blit 5 (rdigest rc) (blit 3 (be16 (streamID rc)) ([rcommand rc] @ be16 (recognized rc) @ replicate 2 0 @
      replicate 4 0 @ replicate 2 0 @ replicate n 0 @ replicate (RelayDataLen - n) 0))))"
    by (subst blit_mid) simp_all
  also have "\<dots> = blit 11 (take n (rdata rc)) (blit 9 (be16 (of_nat n))
     (blit 5 (rdigest rc) (([rcommand rc] @ be16 (recognized rc)) @ be16 (streamID rc) @
      replicate 4 0 @ replicate 2 0 @ replicate n 0 @ replicate (RelayDataLen - n) 0)))"
    by (subst append_assoc [symmetric], subst blit_mid) simp_all
  also have "\<dots> = blit 11 (take n (rdata rc)) (blit 9 (be16 (of_nat n))
     (([rcommand rc] @ be16 (recognized rc) @ be16 (streamID rc)) @ rdigest rc @ replicate 2 0 @
      replicate n 0 @ replicate (RelayDataLen - n) 0))"
    by (subst append_assoc [symmetric], subst blit_mid) (simp_all add: d)
  also have "\<dots> = blit 11 (take n (rdata rc)) (([rcommand rc] @ be16 (recognized rc) @ be16 (streamID rc) @
      rdigest rc) @ be16 (of_nat n) @ replicate n 0 @ replicate (RelayDataLen - n) 0)"
    by (subst append_assoc [symmetric], subst blit_mid) (simp_all add: d)
  also have "\<dots> = ([rcommand rc] @ be16 (recognized rc) @ be16 (streamID rc) @ rdigest rc @
      be16 (of_nat n)) @ take n (rdata rc) @ replicate (RelayDataLen - n) 0"
    using blit_mid [of "[rcommand rc] @ be16 (recognized rc) @ be16 (streamID rc) @ rdigest rc @
      be16 (of_nat n)" 11 "replicate n 0" "take n (rdata rc)"] n(2) d
    by simp
  finally show ?thesis by (simp add: n_def [symmetric] Let_def)
qed

lemma length_relay_Encode [simp]: "length (relay_Encode rc) = PayloadLen"
  by (simp add: relay_Encode_def Let_def)

lemma decodeRelay_layout:
  assumes "length d = 4" "length body \<le> RelayDataLen" "length body + length pad = RelayDataLen"
  shows "decodeRelay ([c] @ be16 r @ be16 s @ d @ be16 (of_nat (length body)) @ body @ pad)
    = Some \<lparr>rcommand = c, recognized = r, streamID = s, rdigest = d, rdata = body\<rparr>"
proof -
  let ?p = "[c] @ be16 r @ be16 s @ d @ be16 (of_nat (length body)) @ body @ pad"
  have o3: "drop relayStreamIDOff ?p = be16 s @ d @ be16 (of_nat (length body)) @ body @ pad" by simp
  have o5: "drop relayDigestOff ?p = d @ be16 (of_nat (length body)) @ body @ pad" by simp
  have o9: "drop relayLengthOff ?p = be16 (of_nat (length body)) @ body @ pad"
    using assms(1) by simp
  have o11: "drop relayDataOff ?p = body @ pad" using assms(1) by simp
  have n: "unat (of_nat (length body) :: u16) = length body"
    using assms(2) by (intro unat_of_nat_u16) simp
  have "length ?p = PayloadLen" using assms by simp
  then show ?thesis
    unfolding decodeRelay_def slice_def o3 o5 o9 o11 get16_be16 n
    using assms by simp
qed

text \<open>Decoding an encoded relay cell returns it, with the data cut at 498 bytes.\<close>

lemma decodeRelay_Encode:
  assumes "relay_wf rc"
  shows "decodeRelay (relay_Encode rc) = Some (rc\<lparr>rdata := take RelayDataLen (rdata rc)\<rparr>)"
proof -
  let ?body = "take RelayDataLen (rdata rc)"
  have "relay_Encode rc = [rcommand rc] @ be16 (recognized rc) @ be16 (streamID rc) @ rdigest rc @
      be16 (of_nat (length ?body)) @ ?body @ replicate (RelayDataLen - length ?body) 0"
    unfolding relay_Encode_eq [OF assms] Let_def by (simp add: min_def)
  moreover have "decodeRelay \<dots> = Some \<lparr>rcommand = rcommand rc, recognized = recognized rc,
      streamID = streamID rc, rdigest = rdigest rc, rdata = ?body\<rparr>"
    using assms by (intro decodeRelay_layout) (auto simp: relay_wf_def)
  ultimately show ?thesis by (cases rc) simp
qed

lemma decodeRelay_wf: "decodeRelay pl = Some rc \<Longrightarrow> relay_wf rc \<and> length (rdata rc) \<le> RelayDataLen"
  by (auto simp: decodeRelay_def relay_wf_def slice_def Let_def split: if_splits)

section \<open>Properties\<close>

text \<open>C18: On a link with four-byte circuit identifiers a receiver that reads cells off the
  concatenation of what a sender encoded gets exactly the cells sent and leaves the rest of the
  input; and whatever a receiver accepts is such a concatenation (no two cell sequences share an
  encoding).\<close>

theorem link_cells_roundtrip:
  "((\<forall>c \<in> set cs. cell_wf c) \<longrightarrow>
     decode_stream (readCell CircIDLenWide) (length cs) (concat (map (cell_Encode CircIDLenWide) cs) @ rest) = (cs, rest)) \<and>
   (decode_stream (readCell CircIDLenWide) k inp = (ds, left) \<longrightarrow>
     inp = concat (map (cell_Encode CircIDLenWide) ds) @ left \<and> (\<forall>c \<in> set ds. cell_wf c))"
  using link.decode_stream_enc link.decode_stream_inv by blast

theorem link_cells_roundtrip_witness:
  "decode_stream (readCell CircIDLenWide) 1
     (concat (map (cell_Encode CircIDLenWide) [\<lparr>circID = 7, cmd = CmdVersions, payload = [0, 4]\<rparr>]) @ [9])
   = ([\<lparr>circID = 7, cmd = CmdVersions, payload = [0, 4]\<rparr>], [9])"
  using link_cells_roundtrip [of "[\<lparr>circID = 7, cmd = CmdVersions, payload = [0, 4]\<rparr>]" "[9]"]
  by (simp add: cell_wf_def isVariable_def)

text \<open>The reader refuses a variable-length cell whose declared body exceeds 16384 bytes as soon
  as it has read the length, so it never allocates more than that for a body.\<close>

theorem readCell_body_bounded:
  assumes "id_len n" "isVariable (cmd c)" "length (payload c) < 65536"
  shows "readCell n (cell_Encode n c @ rest) =
    (if length (payload c) \<le> MaxVariableBody then Inr (on_wire n c, rest)
     else Inl (BodyTooLarge (length (payload c))))"
  using readCell_Encode [OF assms(1), of c rest] readCell_oversize [OF assms(1,2) _ assms(3), of rest] by auto

theorem readCell_body_bounded_witness:
  "readCell 4 (cell_Encode 4 \<lparr>circID = 0, cmd = CmdCerts, payload = replicate 16385 0\<rparr> @ [])
     = Inl (BodyTooLarge 16385)"
  using readCell_body_bounded [of 4 "\<lparr>circID = 0, cmd = CmdCerts, payload = replicate 16385 0\<rparr>" "[]"]
  by (simp add: isVariable_def)

text \<open>Every relay cell fits the 509-byte payload, and decoding what was encoded returns its
  command, recognised and digest fields, stream and data, the data cut at 498 bytes; the decoder
  refuses every payload whose length field exceeds 498.\<close>

theorem relay_cell_roundtrip:
  assumes "relay_wf rc"
  shows "length (relay_Encode rc) = PayloadLen \<and>
    decodeRelay (relay_Encode rc) = Some (rc\<lparr>rdata := take RelayDataLen (rdata rc)\<rparr>) \<and>
    (\<forall>p. decodeRelay p \<noteq> None \<longleftrightarrow> length p = PayloadLen \<and> unat (get16 (drop relayLengthOff p)) \<le> RelayDataLen)"
  using decodeRelay_Encode [OF assms] by (auto simp: decodeRelay_def Let_def)

theorem relay_cell_roundtrip_witness:
  "decodeRelay (relay_Encode \<lparr>rcommand = RelayData, recognized = 0, streamID = 5, rdigest = [1, 2, 3, 4], rdata = [104, 105]\<rparr>)
     = Some \<lparr>rcommand = RelayData, recognized = 0, streamID = 5, rdigest = [1, 2, 3, 4], rdata = [104, 105]\<rparr>"
  using relay_cell_roundtrip [of "\<lparr>rcommand = RelayData, recognized = 0, streamID = 5, rdigest = [1, 2, 3, 4], rdata = [104, 105]\<rparr>"]
  by (simp add: relay_wf_def)

end
