(* ===== verification/Go_Std.thy ===== *)
theory Go_Std
  imports Tor_Prelude
begin

text \<open>
  The parts of Go's standard library the sources call on text: \<^verbatim>\<open>strconv\<close> (\<open>Itoa\<close>, \<open>Atoi\<close>,
  \<open>ParseUint\<close>), \<^verbatim>\<open>net\<close> (\<open>SplitHostPort\<close>, \<open>JoinHostPort\<close>, \<open>ParseIP\<close>, \<open>IP.To4\<close>, \<open>IP.String\<close>) and the
  \<^verbatim>\<open>strings\<close> helpers, as executable functions on \<open>string\<close> and \<open>bytes\<close>.  A nil IP is \<open>None\<close>.
  The lemmas are the print/parse round trips the components need.
\<close>

section \<open>Decimal numbers\<close>

definition digit_char :: "nat \<Rightarrow> char" where
  "digit_char d = char_of (48 + d)"

definition is_digit :: "char \<Rightarrow> bool" where
  "is_digit c \<longleftrightarrow> 48 \<le> (of_char c :: nat) \<and> (of_char c :: nat) \<le> 57"

definition digit_val :: "char \<Rightarrow> nat" where
  "digit_val c = of_char c - 48"

fun dec_nat :: "nat \<Rightarrow> string" where
  "dec_nat n = (if n < 10 then [digit_char n] else dec_nat (n div 10) @ [digit_char (n mod 10)])"

declare dec_nat.simps [simp del]

definition Itoa :: "int \<Rightarrow> string" where
  "Itoa n = (if n < 0 then CHR ''-'' # dec_nat (nat (- n)) else dec_nat (nat n))"

definition dec_value :: "string \<Rightarrow> nat" where
  "dec_value s = foldl (\<lambda>a c. 10 * a + digit_val c) 0 s"

text \<open>\<^verbatim>\<open>strconv.ParseUint(s, 10, bits)\<close>: digits only, no sign, at least one, in range.\<close>

definition ParseUint :: "string \<Rightarrow> nat \<Rightarrow> nat option" where
  "ParseUint s bits = (if s = [] \<or> (\<exists>c \<in> set s. \<not> is_digit c) then None
                       else if dec_value s \<ge> 2 ^ bits then None else Some (dec_value s))"

text \<open>\<^verbatim>\<open>strconv.Atoi\<close> returns a value together with its error: 0 on a syntax error, the nearest
  64-bit integer when out of range.  The digits are read from the left, so that a prefix beyond 64 bits is
  a range error whatever follows it.\<close>

definition Atoi :: "string \<Rightarrow> int \<times> bool" where
  "Atoi s =
     (let (neg, ds) = (case s of c # r \<Rightarrow> if c = CHR ''-'' then (True, r)
                                          else if c = CHR ''+'' then (False, r) else (False, s)
                               | [] \<Rightarrow> (False, s))
      in if ds = [] \<or> takeWhile is_digit ds \<noteq> ds \<and> dec_value (takeWhile is_digit ds) < 2 ^ 64 then (0, False)
         else let v = int (dec_value (takeWhile is_digit ds)) in
              if neg then (if v > 2 ^ 63 then (- (2 ^ 63), False) else (- v, True))
              else (if v > 2 ^ 63 - 1 then (2 ^ 63 - 1, False) else (v, True)))"

lemma of_char_digit: "d < 10 \<Longrightarrow> (of_char (digit_char d) :: nat) = 48 + d"
  by (simp add: digit_char_def)

lemma is_digit_digit_char [simp]: "d < 10 \<Longrightarrow> is_digit (digit_char d)"
  by (simp add: is_digit_def of_char_digit)

lemma digit_val_digit_char [simp]: "d < 10 \<Longrightarrow> digit_val (digit_char d) = d"
  by (simp add: digit_val_def of_char_digit)

lemma dec_nat_digits: "c \<in> set (dec_nat n) \<Longrightarrow> is_digit c"
proof (induction n rule: dec_nat.induct)
  case (1 n)
  then show ?case
    by (cases "n < 10") (auto simp: dec_nat.simps [of n])
qed

lemma dec_nat_not_Nil [simp]: "dec_nat n \<noteq> []"
  by (simp add: dec_nat.simps [of n])

lemma dec_value_dec_nat [simp]: "dec_value (dec_nat n) = n"
proof (induction n rule: dec_nat.induct)
  case (1 n)
  show ?case
  proof (cases "n < 10")
    case False
    then have "dec_value (dec_nat n) = 10 * dec_value (dec_nat (n div 10)) + n mod 10"
      by (simp add: dec_nat.simps [of n] dec_value_def)
    with 1 False show ?thesis by simp
  qed (simp add: dec_nat.simps [of n] dec_value_def)
qed

lemma ParseUint_dec_nat [simp]: "n < 2 ^ bits \<Longrightarrow> ParseUint (dec_nat n) bits = Some n"
  by (auto simp: ParseUint_def dest: dec_nat_digits)

lemma Itoa_nat [simp]: "Itoa (int n) = dec_nat n"
  by (simp add: Itoa_def)

lemma digit_not_sep:
  "is_digit c \<Longrightarrow> c \<noteq> CHR '':'' \<and> c \<noteq> CHR ''['' \<and> c \<noteq> CHR '']'' \<and> c \<noteq> CHR ''.'' \<and> c \<noteq> CHR ''-'' \<and> c \<noteq> CHR ''+''"
  by (auto simp: is_digit_def)

lemma Atoi_dec_nat: "int n < 2 ^ 63 \<Longrightarrow> Atoi (dec_nat n) = (int n, True)"
proof -
  assume n: "int n < 2 ^ 63"
  obtain c r where c: "dec_nat n = c # r" by (cases "dec_nat n") auto
  then have "is_digit c" using dec_nat_digits [of c n] by simp
  then have "c \<noteq> CHR ''-''" "c \<noteq> CHR ''+''" by (auto dest: digit_not_sep)
  moreover have "dec_value (c # r) = n" using c dec_value_dec_nat [of n] by simp
  moreover have "\<forall>c' \<in> set (c # r). is_digit c'" using c dec_nat_digits by metis
  ultimately show ?thesis using n unfolding c Atoi_def Let_def by (auto simp: takeWhile_eq_all_conv [THEN iffD2])
qed

section \<open>Searching strings\<close>

fun index_of :: "char \<Rightarrow> string \<Rightarrow> nat option" where
  "index_of c [] = None"
| "index_of c (x # xs) = (if x = c then Some 0 else map_option Suc (index_of c xs))"

definition last_index_of :: "char \<Rightarrow> string \<Rightarrow> nat option" where
  "last_index_of c s = map_option (\<lambda>i. length s - 1 - i) (index_of c (rev s))"

lemma index_of_None [simp]: "index_of c s = None \<longleftrightarrow> c \<notin> set s"
  by (induction s) auto

lemma index_of_append: "c \<notin> set a \<Longrightarrow> index_of c (a @ c # b) = Some (length a)"
  by (induction a) auto

lemma last_index_of_append: "c \<notin> set b \<Longrightarrow> last_index_of c (a @ c # b) = Some (length a)"
  using index_of_append [of c "rev b" "rev a"] by (simp add: last_index_of_def)

text \<open>\<^verbatim>\<open>strings.Cut(s, sep)\<close> for a one-character separator.\<close>

definition str_cut :: "char \<Rightarrow> string \<Rightarrow> (string \<times> string) option" where
  "str_cut c s = (case index_of c s of None \<Rightarrow> None | Some i \<Rightarrow> Some (take i s, drop (Suc i) s))"

definition to_lower_char :: "char \<Rightarrow> char" where
  "to_lower_char c = (if 65 \<le> (of_char c :: nat) \<and> (of_char c :: nat) \<le> 90 then char_of (of_char c + 32 :: nat) else c)"

definition to_upper_char :: "char \<Rightarrow> char" where
  "to_upper_char c = (if 97 \<le> (of_char c :: nat) \<and> (of_char c :: nat) \<le> 122 then char_of (of_char c - 32 :: nat) else c)"

text \<open>\<^verbatim>\<open>strings.ToLower\<close> and \<^verbatim>\<open>strings.ToUpper\<close> on ASCII text.\<close>

definition ToLower :: "string \<Rightarrow> string" where "ToLower s = map to_lower_char s"
definition ToUpper :: "string \<Rightarrow> string" where "ToUpper s = map to_upper_char s"

definition TrimSuffix :: "string \<Rightarrow> string \<Rightarrow> string" where
  "TrimSuffix s suf = (if suffix suf s then take (length s - length suf) s else s)"

section \<open>Host and port\<close>

datatype addr_err = MissingPort | TooManyColons | MissingBracket | UnexpectedBracket

definition SplitHostPort :: "string \<Rightarrow> addr_err + string \<times> string" where
  "SplitHostPort hp =
     (case last_index_of CHR '':'' hp of
        None \<Rightarrow> Inl MissingPort
      | Some i \<Rightarrow>
        let finish = (\<lambda>host j k.
              if CHR ''['' \<in> set (drop j hp) then Inl UnexpectedBracket
              else if CHR '']'' \<in> set (drop k hp) then Inl UnexpectedBracket
              else Inr (host, drop (i + 1) hp))
        in if hp ! 0 = CHR ''['' then
             (case index_of CHR '']'' hp of
                None \<Rightarrow> Inl MissingBracket
              | Some e \<Rightarrow>
                if e + 1 = length hp then Inl MissingPort
                else if e + 1 = i then finish (slice 1 e hp) 1 (e + 1)
                else if hp ! (e + 1) = CHR '':'' then Inl TooManyColons
                else Inl MissingPort)
           else let host = take i hp in
                if CHR '':'' \<in> set host then Inl TooManyColons else finish host 0 0)"

definition JoinHostPort :: "string \<Rightarrow> string \<Rightarrow> string" where
  "JoinHostPort host port =
     (if CHR '':'' \<in> set host then ''['' @ host @ '']:'' @ port else host @ '':'' @ port)"

definition plain :: "string \<Rightarrow> bool" where
  "plain s \<longleftrightarrow> CHR ''['' \<notin> set s \<and> CHR '']'' \<notin> set s"

lemma SplitHostPort_Join:
  assumes "plain host" "plain port" "CHR '':'' \<notin> set port"
  shows "SplitHostPort (JoinHostPort host port) = Inr (host, port)"
proof (cases "CHR '':'' \<in> set host")
  case True
  let ?hp = "''['' @ host @ '']:'' @ port"
  have i: "last_index_of CHR '':'' ?hp = Some (length host + 2)"
    using last_index_of_append [OF assms(3), of "''['' @ host @ '']''"] by simp
  have e: "index_of CHR '']'' ?hp = Some (length host + 1)"
    using index_of_append [of "CHR '']''" "''['' @ host" "'':'' @ port"] assms(1)
    by (simp add: plain_def)
  have d: "drop (length host + 2) ?hp = '':'' @ port" "drop (length host + 2 + 1) ?hp = port"
    "slice 1 (length host + 1) ?hp = host" "drop 1 ?hp = host @ '']:'' @ port"
    by (simp_all add: slice_def)
  show ?thesis
    using True assms i e d by (simp add: JoinHostPort_def SplitHostPort_def plain_def Let_def)
next
  case False
  have i: "last_index_of CHR '':'' (host @ '':'' @ port) = Some (length host)"
    using last_index_of_append [OF assms(3), of host] by simp
  have "(host @ '':'' @ port) ! 0 \<noteq> CHR ''[''"
    using assms(1) by (cases host) (auto simp: plain_def)
  with False assms i show ?thesis
    by (simp add: JoinHostPort_def SplitHostPort_def plain_def Let_def)
qed

section \<open>IP addresses\<close>

text \<open>\<^verbatim>\<open>netip.parseIPv4Fields\<close>: the value and digit count of the current octet, the octets so far,
  and whether a dot here would be leading or doubled.\<close>

fun parse4 :: "string \<Rightarrow> nat \<Rightarrow> nat \<Rightarrow> bytes \<Rightarrow> bool \<Rightarrow> bytes option" where
  "parse4 [] val digLen fs dot = (if length fs < 3 then None else Some (fs @ [of_nat val]))"
| "parse4 (c # cs) val digLen fs dot =
     (if is_digit c then
        (if digLen = 1 \<and> val = 0 then None
         else let v = val * 10 + digit_val c in
              if v > 255 then None else parse4 cs v (digLen + 1) fs False)
      else if c = CHR ''.'' then
        (if dot \<or> cs = [] then None
         else if length fs = 3 then None
         else parse4 cs 0 0 (fs @ [of_nat val]) True)
      else None)"

definition is_hex :: "char \<Rightarrow> bool" where
  "is_hex c \<longleftrightarrow> is_digit c \<or> (97 \<le> (of_char c :: nat) \<and> (of_char c :: nat) \<le> 102)
                \<or> (65 \<le> (of_char c :: nat) \<and> (of_char c :: nat) \<le> 70)"

definition hex_val :: "char \<Rightarrow> nat" where
  "hex_val c = (if is_digit c then digit_val c
                else if 97 \<le> (of_char c :: nat) then of_char c - 87 else of_char c - 55)"

definition hex_value :: "string \<Rightarrow> nat" where
  "hex_value s = foldl (\<lambda>a c. 16 * a + hex_val c) 0 s"

text \<open>The loop of \<^verbatim>\<open>netip.parseIPv6\<close>: the bytes so far, the position of the ellipsis, the rest.\<close>

function parse6_loop :: "bytes \<Rightarrow> nat option \<Rightarrow> string \<Rightarrow> (bytes \<times> nat option \<times> string) option" where
  "parse6_loop ip ell s =
     (if length ip \<ge> 16 then Some (ip, ell, s)
      else let ds = takeWhile is_hex s; s1 = dropWhile is_hex s in
        if ds = [] \<or> length ds > 4 then None
        else if s1 \<noteq> [] \<and> hd s1 = CHR ''.'' then
          (if ell = None \<and> length ip \<noteq> 12 then None
           else if length ip + 4 > 16 then None
           else case parse4 s 0 0 [] True of None \<Rightarrow> None | Some f \<Rightarrow> Some (ip @ f, ell, []))
        else let ip' = ip @ be16 (of_nat (hex_value ds)) in
          if s1 = [] then Some (ip', ell, [])
          else if hd s1 \<noteq> CHR '':'' \<or> tl s1 = [] then None
          else if hd (tl s1) = CHR '':'' then
            (if ell \<noteq> None then None
             else if tl (tl s1) = [] then Some (ip', Some (length ip'), [])
             else parse6_loop ip' (Some (length ip')) (tl (tl s1)))
          else parse6_loop ip' ell (tl s1))"
  by pat_completeness auto
termination
  by (relation "measure (\<lambda>(ip, ell, s). 16 - length ip)") auto

declare parse6_loop.simps [simp del]

definition parse6 :: "string \<Rightarrow> bytes option" where
  "parse6 s0 =
     (let lead = take 2 s0 = ''::''; s = (if lead then drop 2 s0 else s0)
      in if lead \<and> s = [] then Some (replicate 16 0)
         else case parse6_loop [] (if lead then Some 0 else None) s of
                None \<Rightarrow> None
              | Some (ip, ell, left) \<Rightarrow>
                if left \<noteq> [] then None
                else if length ip < 16 then
                  (case ell of None \<Rightarrow> None
                   | Some e \<Rightarrow> Some (take e ip @ replicate (16 - length ip) 0 @ drop e ip))
                else if ell \<noteq> None then None else Some ip)"

definition v4InV6Prefix :: bytes where
  "v4InV6Prefix = replicate 10 0 @ [0xff, 0xff]"

text \<open>\<^verbatim>\<open>net.ParseIP\<close> returns the 16-byte form; an address with a zone is refused.\<close>

fun first_of :: "string \<Rightarrow> char option" where
  "first_of [] = None"
| "first_of (c # cs) = (if c = CHR ''.'' \<or> c = CHR '':'' \<or> c = CHR ''%'' then Some c else first_of cs)"

definition ParseIP :: "string \<Rightarrow> bytes option" where
  "ParseIP s =
     (if CHR ''%'' \<in> set s then None
      else case first_of s of
             None \<Rightarrow> None
           | Some c \<Rightarrow> if c = CHR ''.'' then map_option (\<lambda>f. v4InV6Prefix @ f) (parse4 s 0 0 [] True)
                       else parse6 s)"

definition To4 :: "bytes option \<Rightarrow> bytes option" where
  "To4 ip = (case ip of None \<Rightarrow> None
             | Some b \<Rightarrow> if length b = 4 then Some b
                         else if length b = 16 \<and> take 12 b = v4InV6Prefix then Some (drop 12 b) else None)"

definition To16 :: "bytes option \<Rightarrow> bytes option" where
  "To16 ip = (case ip of None \<Rightarrow> None
              | Some b \<Rightarrow> if length b = 4 then Some (v4InV6Prefix @ b)
                          else if length b = 16 then Some b else None)"

definition dotted :: "bytes \<Rightarrow> string" where
  "dotted b = dec_nat (unat (b ! 0)) @ ''.'' @ dec_nat (unat (b ! 1)) @ ''.'' @
              dec_nat (unat (b ! 2)) @ ''.'' @ dec_nat (unat (b ! 3))"

lemma parse4_digits_gen:
  "(\<forall>c \<in> set ds. is_digit c) \<Longrightarrow> foldl (\<lambda>a c. 10 * a + digit_val c) val ds \<le> 255 \<Longrightarrow>
   \<not> (digLen = 1 \<and> val = 0) \<Longrightarrow> (digLen = 0 \<longrightarrow> val = 0) \<Longrightarrow>
   (digLen = 0 \<longrightarrow> length ds > 1 \<longrightarrow> digit_val (hd ds) \<noteq> 0) \<Longrightarrow> ds \<noteq> [] \<Longrightarrow>
   (\<exists>k. parse4 (ds @ rest) val digLen fs dot =
     parse4 rest (foldl (\<lambda>a c. 10 * a + digit_val c) val ds) k fs False)"
proof (induction ds arbitrary: val digLen dot)
  case (Cons d ds)
  have mono: "v \<le> foldl (\<lambda>a c. 10 * a + digit_val c) v xs" for v xs
  proof (induction xs arbitrary: v)
    case (Cons a xs)
    have "v \<le> 10 * v + digit_val a" by simp
    also have "\<dots> \<le> foldl (\<lambda>a c. 10 * a + digit_val c) (10 * v + digit_val a) xs"
      by (rule Cons.IH)
    finally show ?case by simp
  qed simp
  let ?v = "10 * val + digit_val d"
  have v: "?v \<le> 255" using Cons.prems(2) mono [of ?v ds] by simp
  have step: "parse4 ((d # ds) @ rest) val digLen fs dot = parse4 (ds @ rest) ?v (digLen + 1) fs False"
    using Cons.prems v by (auto simp: Let_def mult.commute)
  show ?case
  proof (cases "ds = []")
    case True
    then show ?thesis using step by auto
  next
    case False
    have nz: "\<not> (digLen + 1 = 1 \<and> ?v = 0)"
      using Cons.prems False by (cases ds) auto
    have "\<exists>k. parse4 (ds @ rest) ?v (digLen + 1) fs False =
       parse4 rest (foldl (\<lambda>a c. 10 * a + digit_val c) ?v ds) k fs False"
      by (rule Cons.IH) (use Cons.prems nz False in auto)
    with step show ?thesis by simp
  qed
qed simp

lemma dec_nat_lead: "length (dec_nat n) > 1 \<Longrightarrow> digit_val (hd (dec_nat n)) \<noteq> 0"
proof (induction n rule: dec_nat.induct)
  case (1 n)
  show ?case
  proof (cases "n < 10")
    case False
    have eq: "dec_nat n = dec_nat (n div 10) @ [digit_char (n mod 10)]"
      using False by (simp add: dec_nat.simps [of n])
    show ?thesis
    proof (cases "length (dec_nat (n div 10)) > 1")
      case True
      then show ?thesis using 1 False eq by (simp add: hd_append)
    next
      case small: False
      then have "n div 10 < 10"
        by (metis dec_nat.simps dec_nat_not_Nil length_append length_greater_0_conv length_0_conv
            less_add_same_cancel2 less_one linorder_neqE_nat list.size(3) One_nat_def length_Cons
            nat_less_le not_less_eq_eq)
      then show ?thesis using False eq
        by (simp add: hd_append dec_nat.simps [of "n div 10"])
    qed
  qed (use 1 in \<open>simp add: dec_nat.simps [of n]\<close>)
qed

lemma parse4_octet:
  assumes "n \<le> 255"
  shows "\<exists>k. parse4 (dec_nat n @ rest) 0 0 fs dot = parse4 rest n k fs False"
proof -
  have "\<exists>k. parse4 (dec_nat n @ rest) 0 0 fs dot
      = parse4 rest (foldl (\<lambda>a c. 10 * a + digit_val c) 0 (dec_nat n)) k fs False"
    using assms dec_value_dec_nat [of n] dec_nat_lead [of n]
    by (intro parse4_digits_gen) (auto simp: dec_value_def dest: dec_nat_digits)
  then show ?thesis using dec_value_dec_nat [of n] by (simp add: dec_value_def)
qed

lemma parse4_octet_dot:
  assumes "n \<le> 255" "length fs < 3" "rest \<noteq> []"
  shows "parse4 (dec_nat n @ CHR ''.'' # rest) 0 0 fs dot = parse4 rest 0 0 (fs @ [of_nat n]) True"
  using parse4_octet [OF assms(1), of "''.'' @ rest" fs dot] assms(2,3)
  by (auto simp: is_digit_def)

lemma parse4_dotted: "length b = 4 \<Longrightarrow> parse4 (dotted b) 0 0 [] True = Some b"
proof -
  assume "length b = 4"
  then obtain x0 x1 x2 x3 where b: "b = [x0, x1, x2, x3]"
    by (auto simp: length_Suc_conv numeral_eq_Suc)
  have le: "unat x \<le> 255" for x :: byte using unat_byte_lt [of x] by simp
  obtain k where k: "parse4 (dec_nat (unat x3) @ []) 0 0 [x0, x1, x2] True
      = parse4 [] (unat x3) k [x0, x1, x2] False"
    using parse4_octet [OF le] by blast
  show ?thesis
    using k by (simp add: b dotted_def parse4_octet_dot le)
qed

end
