(* ===== verification/Relayinfo.thy ===== *)
theory Relayinfo
  imports Byteutil Go_Std
begin

text \<open>
  Model of \<^verbatim>\<open>pkg/circuit/relayinfo.go\<close> and of \<^verbatim>\<open>ParseLinkSpecifiers\<close> of \<^verbatim>\<open>pkg/onion/descriptor.go\<close>:
  the link-specifier list of EXTEND2 and INTRODUCE1 in both directions.  The lemmas give the
  layout of the encoding, that what a relay record encodes to is parsed back to the same
  address and identities, and that the parser refuses every truncated list.
\<close>

section \<open>Encoding\<close>

record relayInfo =
  Nickname :: string
  ORAddr :: string
  RSAIDDigest :: bytes
  EdIdentity :: bytes
  NtorOnionKey :: bytes

abbreviation (input) linkSpecIPv4 :: byte where "linkSpecIPv4 \<equiv> 0"
abbreviation (input) linkSpecIPv6 :: byte where "linkSpecIPv6 \<equiv> 1"
abbreviation (input) linkSpecLegacy :: byte where "linkSpecLegacy \<equiv> 2"
abbreviation (input) linkSpecEd25519 :: byte where "linkSpecEd25519 \<equiv> 3"

datatype relayinfo_err = BadORAddr addr_err | HostNotIP | BadPort | BadRSADigestLen | BadEdIdentityLen

definition put_spec :: "writer \<Rightarrow> byte \<times> bytes \<Rightarrow> writer" where
  "put_spec w s = wWrite (snd s) (wByte (of_nat (length (snd s))) (wByte (fst s) w))"

definition linkSpecifiers :: "relayInfo \<Rightarrow> relayinfo_err + bytes" where
  "linkSpecifiers r =
     (case SplitHostPort (ORAddr r) of
        Inl e \<Rightarrow> Inl (BadORAddr e)
      | Inr (host, portStr) \<Rightarrow>
        (case ParseIP host of
           None \<Rightarrow> Inl HostNotIP
         | Some ip \<Rightarrow>
           (case ParseUint portStr 16 of
              None \<Rightarrow> Inl BadPort
            | Some port64 \<Rightarrow>
              let port = (of_nat port64 :: u16) in
              if length (RSAIDDigest r) \<noteq> 20 then Inl BadRSADigestLen
              else if length (EdIdentity r) \<noteq> 32 then Inl BadEdIdentityLen
              else let addr = (case To4 (Some ip) of
                         Some ip4 \<Rightarrow> (linkSpecIPv4, wBytes (wU16 port (wWrite ip4 (newWriter 6))))
                       | None \<Rightarrow> (linkSpecIPv6, wBytes (wU16 port (wWrite (case To16 (Some ip) of
                             Some b \<Rightarrow> b | None \<Rightarrow> []) (newWriter 18)))));
                       specs = [addr, (linkSpecLegacy, RSAIDDigest r), (linkSpecEd25519, EdIdentity r)]
                   in Inr (wBytes (foldl put_spec (wByte (of_nat (length specs)) (newWriter 64)) specs)))))"

definition spec_bytes :: "byte \<times> bytes \<Rightarrow> bytes" where
  "spec_bytes s = [fst s, of_nat (length (snd s))] @ snd s"

lemma wBytes_put_spec [simp]: "wBytes (put_spec w s) = wBytes w @ spec_bytes s"
  by (simp add: put_spec_def spec_bytes_def)

lemma wBytes_put_specs: "wBytes (foldl put_spec w ss) = wBytes w @ concat (map spec_bytes ss)"
  by (induction ss arbitrary: w) simp_all

section \<open>Parsing\<close>

record linkSpecAddr =
  lsORAddr :: string
  lsRSAID :: bytes
  lsEdID :: bytes

datatype linkspec_err = EmptyLinkSpecs | TruncatedLinkSpec | LinkSpecOverflow | LinkSpecsMissing

definition put_link :: "byte \<Rightarrow> bytes \<Rightarrow> linkSpecAddr \<Rightarrow> linkSpecAddr" where
  "put_link lstype val out =
     (if lstype = linkSpecIPv4 then
        (if length val = 6
         then out\<lparr>lsORAddr := JoinHostPort (dotted (take 4 val)) (Itoa (uint (get16 (drop 4 val))))\<rparr>
         else out)
      else if lstype = linkSpecLegacy then (if length val = 20 then out\<lparr>lsRSAID := val\<rparr> else out)
      else if lstype = linkSpecEd25519 then (if length val = 32 then out\<lparr>lsEdID := val\<rparr> else out)
      else out)"

fun link_loop :: "nat \<Rightarrow> bytes \<Rightarrow> nat \<Rightarrow> linkSpecAddr \<Rightarrow> linkspec_err + linkSpecAddr" where
  "link_loop 0 raw pos out = Inr out"
| "link_loop (Suc n) raw pos out =
     (if pos + 2 > length raw then Inl TruncatedLinkSpec
      else let lstype = raw ! pos; lslen = unat (raw ! (pos + 1)); pos = pos + 2 in
           if pos + lslen > length raw then Inl LinkSpecOverflow
           else link_loop n raw (pos + lslen) (put_link lstype (slice pos (pos + lslen) raw) out))"

definition ParseLinkSpecifiers :: "bytes \<Rightarrow> linkspec_err + linkSpecAddr" where
  "ParseLinkSpecifiers raw =
     (if length raw < 1 then Inl EmptyLinkSpecs
      else bindE (link_loop (unat (raw ! 0)) raw 1 \<lparr>lsORAddr = [], lsRSAID = [], lsEdID = []\<rparr>)
        (\<lambda>out. if lsORAddr out = [] \<or> length (lsRSAID out) \<noteq> 20 then Inl LinkSpecsMissing else Inr out))"

section \<open>Round trip\<close>

lemma link_loop_step:
  assumes "length val < 256"
  shows "link_loop (Suc n) (pre @ spec_bytes (t, val) @ rest) (length pre) out
    = link_loop n (pre @ spec_bytes (t, val) @ rest) (length (pre @ spec_bytes (t, val))) (put_link t val out)"
proof -
  have l: "unat (of_nat (length val) :: byte) = length val" using assms by (rule unat_of_nat_byte)
  have s: "slice (length pre + 2) (length pre + 2 + length val) (pre @ spec_bytes (t, val) @ rest) = val"
    by (simp add: slice_def spec_bytes_def)
  have n: "(pre @ spec_bytes (t, val) @ rest) ! length pre = t"
    "(pre @ spec_bytes (t, val) @ rest) ! Suc (length pre) = of_nat (length val)"
    by (simp_all add: spec_bytes_def nth_append)
  show ?thesis using l s n by (simp add: Let_def) (simp add: spec_bytes_def)
qed

lemma link_loop_specs:
  "(\<forall>s \<in> set ss. length (snd s) < 256) \<Longrightarrow>
   link_loop (length ss) (pre @ concat (map spec_bytes ss) @ rest) (length pre) out
     = Inr (fold (\<lambda>(t, v). put_link t v) ss out)"
proof (induction ss arbitrary: pre out)
  case (Cons s ss)
  obtain t v where s: "s = (t, v)" by (cases s)
  have "link_loop (length (s # ss)) (pre @ concat (map spec_bytes (s # ss)) @ rest) (length pre) out
    = link_loop (length ss) ((pre @ spec_bytes s) @ concat (map spec_bytes ss) @ rest)
        (length (pre @ spec_bytes s)) (put_link t v out)"
    using link_loop_step [of v "length ss" pre t "concat (map spec_bytes ss) @ rest" out] Cons.prems
    by (simp add: s)
  also have "\<dots> = Inr (fold (\<lambda>(t, v). put_link t v) ss (put_link t v out))"
    using Cons.prems by (intro Cons.IH) simp
  finally show ?case by (simp add: s)
qed simp

lemma linkSpecifiers_layout:
  assumes "linkSpecifiers r = Inr raw"
  obtains host portStr ip port where
    "SplitHostPort (ORAddr r) = Inr (host, portStr)" "ParseIP host = Some ip"
    "ParseUint portStr 16 = Some port" "port < 65536"
    "length (RSAIDDigest r) = 20" "length (EdIdentity r) = 32"
    "raw = [3] @ concat (map spec_bytes
       [case To4 (Some ip) of Some ip4 \<Rightarrow> (linkSpecIPv4, ip4 @ be16 (of_nat port))
                            | None \<Rightarrow> (linkSpecIPv6, (case To16 (Some ip) of Some b \<Rightarrow> b | None \<Rightarrow> []) @ be16 (of_nat port)),
        (linkSpecLegacy, RSAIDDigest r), (linkSpecEd25519, EdIdentity r)])"
proof -
  from assms obtain host portStr where 1: "SplitHostPort (ORAddr r) = Inr (host, portStr)"
    by (auto simp: linkSpecifiers_def split: sum.splits prod.splits)
  from assms 1 obtain ip where 2: "ParseIP host = Some ip"
    by (auto simp: linkSpecifiers_def split: option.splits)
  from assms 1 2 obtain port where 3: "ParseUint portStr 16 = Some port"
    by (auto simp: linkSpecifiers_def split: option.splits)
  have p: "port < 65536" using 3 by (auto simp: ParseUint_def split: if_splits)
  from assms 1 2 3 have l: "length (RSAIDDigest r) = 20" "length (EdIdentity r) = 32"
    by (auto simp: linkSpecifiers_def Let_def split: if_splits)
  have "raw = [3] @ concat (map spec_bytes
       [case To4 (Some ip) of Some ip4 \<Rightarrow> (linkSpecIPv4, ip4 @ be16 (of_nat port))
                            | None \<Rightarrow> (linkSpecIPv6, (case To16 (Some ip) of Some b \<Rightarrow> b | None \<Rightarrow> []) @ be16 (of_nat port)),
        (linkSpecLegacy, RSAIDDigest r), (linkSpecEd25519, EdIdentity r)])"
    using assms 1 2 3 l
    by (cases "To4 (Some ip)") (auto simp: linkSpecifiers_def Let_def)
  with 1 2 3 p l that show thesis by blast
qed

lemma To4_length: "To4 (Some ip) = Some b \<Longrightarrow> length b = 4"
  by (auto simp: To4_def split: if_splits)

lemma To16_length: "To16 (Some ip) = Some b \<Longrightarrow> length b = 16"
  by (auto simp: To16_def v4InV6Prefix_def split: if_splits)

lemma dotted_plain: "plain (dotted b)" "CHR '':'' \<notin> set (dotted b)" "CHR ''%'' \<notin> set (dotted b)"
proof -
  have d: "c \<in> set (dotted b) \<Longrightarrow> is_digit c \<or> c = CHR ''.''" for c
    by (auto simp: dotted_def dest: dec_nat_digits)
  show "plain (dotted b)" "CHR '':'' \<notin> set (dotted b)" "CHR ''%'' \<notin> set (dotted b)"
    by (auto simp: plain_def is_digit_def dest!: d)
qed

lemma first_of_dotted: "first_of (dotted b) = Some CHR ''.''"
proof -
  have "(\<forall>c \<in> set ds. is_digit c) \<Longrightarrow> first_of (ds @ ''.'' @ rest) = Some CHR ''.''" for ds rest
    by (induction ds) (auto simp: is_digit_def)
  then show ?thesis using dec_nat_digits by (simp add: dotted_def)
qed

lemma ParseIP_dotted: "length b = 4 \<Longrightarrow> ParseIP (dotted b) = Some (v4InV6Prefix @ b)"
  by (simp add: ParseIP_def dotted_plain first_of_dotted parse4_dotted)

lemma To4_v4 [simp]: "length b = 4 \<Longrightarrow> To4 (Some (v4InV6Prefix @ b)) = Some b"
  by (simp add: To4_def v4InV6Prefix_def)

text \<open>The two cases of the encoder's input, through the parser.\<close>

lemma ParseLinkSpecifiers_linkSpecifiers:
  assumes "linkSpecifiers r = Inr raw" "SplitHostPort (ORAddr r) = Inr (host, portStr)"
    "ParseUint portStr 16 = Some port"
  shows "To4 (ParseIP host) = Some b \<Longrightarrow> ParseLinkSpecifiers raw =
      Inr \<lparr>lsORAddr = JoinHostPort (dotted b) (dec_nat port), lsRSAID = RSAIDDigest r, lsEdID = EdIdentity r\<rparr>"
    and "To4 (ParseIP host) = None \<Longrightarrow> ParseLinkSpecifiers raw = Inl LinkSpecsMissing"
proof -
  from assms obtain ip where ip: "ParseIP host = Some ip" and p: "port < 65536"
    and l: "length (RSAIDDigest r) = 20" "length (EdIdentity r) = 32"
    and raw: "raw = [3] @ concat (map spec_bytes
       [case To4 (Some ip) of Some ip4 \<Rightarrow> (linkSpecIPv4, ip4 @ be16 (of_nat port))
                            | None \<Rightarrow> (linkSpecIPv6, (case To16 (Some ip) of Some b \<Rightarrow> b | None \<Rightarrow> []) @ be16 (of_nat port)),
        (linkSpecLegacy, RSAIDDigest r), (linkSpecEd25519, EdIdentity r)])"
    by (elim linkSpecifiers_layout) auto
  have up: "uint (of_nat port :: u16) = int port"
    using unat_of_nat_u16 [OF p] by (metis uint_nat)
  define ss where "ss = [case To4 (Some ip) of Some ip4 \<Rightarrow> (linkSpecIPv4, ip4 @ be16 (of_nat port))
                            | None \<Rightarrow> (linkSpecIPv6, (case To16 (Some ip) of Some b \<Rightarrow> b | None \<Rightarrow> []) @ be16 (of_nat port)),
           (linkSpecLegacy, RSAIDDigest r), (linkSpecEd25519, EdIdentity r)]"
  have short: "\<forall>s \<in> set ss. length (snd s) < 256"
    using l by (auto simp: ss_def dest: To4_length To16_length split: option.splits)
  have raw': "raw = [3] @ concat (map spec_bytes ss) @ []" by (simp add: raw ss_def)
  have loop: "link_loop (unat (raw ! 0)) raw 1 out = Inr (fold (\<lambda>(t, v). put_link t v) ss out)" for out
  proof -
    have "unat (raw ! 0) = length ss" by (simp add: raw' ss_def)
    with link_loop_specs [OF short, of "[3]" "[]" out] show ?thesis unfolding raw' by simp
  qed
  have ne: "raw \<noteq> []" by (simp add: raw)
  show "ParseLinkSpecifiers raw =
      Inr \<lparr>lsORAddr = JoinHostPort (dotted b) (dec_nat port), lsRSAID = RSAIDDigest r, lsEdID = EdIdentity r\<rparr>"
    if "To4 (ParseIP host) = Some b"
    using that ip To4_length [of ip b] l loop ne up
    by (simp add: ss_def ParseLinkSpecifiers_def Suc_le_eq put_link_def JoinHostPort_def)
  show "ParseLinkSpecifiers raw = Inl LinkSpecsMissing" if "To4 (ParseIP host) = None"
    using that ip l loop ne by (simp add: ss_def ParseLinkSpecifiers_def Suc_le_eq put_link_def)
qed

text \<open>The parsed record encodes to the same list: nothing of the relay's identity is lost.\<close>

lemma linkSpecifiers_reencode:
  assumes "linkSpecifiers r = Inr raw" "ParseLinkSpecifiers raw = Inr a"
  shows "linkSpecifiers (r\<lparr>ORAddr := lsORAddr a, RSAIDDigest := lsRSAID a, EdIdentity := lsEdID a\<rparr>) = Inr raw"
proof -
  from assms(1) obtain host portStr ip port where 1: "SplitHostPort (ORAddr r) = Inr (host, portStr)"
    "ParseIP host = Some ip" "ParseUint portStr 16 = Some port" "port < 65536"
    by (elim linkSpecifiers_layout) blast
  from assms(2) ParseLinkSpecifiers_linkSpecifiers(2) [OF assms(1) 1(1,3)] obtain b
    where b: "To4 (ParseIP host) = Some b" by (cases "To4 (ParseIP host)") auto
  have b4: "length b = 4" using b 1(2) by (auto dest: To4_length)
  have a: "a = \<lparr>lsORAddr = JoinHostPort (dotted b) (dec_nat port), lsRSAID = RSAIDDigest r, lsEdID = EdIdentity r\<rparr>"
    using assms(2) ParseLinkSpecifiers_linkSpecifiers(1) [OF assms(1) 1(1,3) b] by simp
  have digits: "plain (dec_nat port)" "CHR '':'' \<notin> set (dec_nat port)"
    by (auto simp: plain_def is_digit_def dest!: dec_nat_digits)
  have "SplitHostPort (lsORAddr a) = Inr (dotted b, dec_nat port)"
    using SplitHostPort_Join [OF dotted_plain(1) digits] by (simp add: a)
  moreover have "ParseUint (dec_nat port) 16 = Some port" using 1(4) by simp
  moreover have "length (RSAIDDigest r) = 20" "length (EdIdentity r) = 32"
    using assms(1) by (auto elim: linkSpecifiers_layout)
  ultimately show ?thesis
    using assms(1) 1 b b4 ParseIP_dotted [OF b4] by (cases r) (simp add: a linkSpecifiers_def Let_def)
qed

section \<open>Properties\<close>

text \<open>The link specifiers of a relay with an IPv4 OR address are parsed back to its address and
  both identities, and the parsed record encodes to the same specifiers; those of a relay with an
  IPv6 address only are refused as lacking an IPv4 address.\<close>

theorem link_specifiers_roundtrip:
  assumes "linkSpecifiers r = Inr raw" "SplitHostPort (ORAddr r) = Inr (host, portStr)"
  shows "case To4 (ParseIP host) of
      None \<Rightarrow> ParseLinkSpecifiers raw = Inl LinkSpecsMissing
    | Some ip4 \<Rightarrow> \<exists>a. ParseLinkSpecifiers raw = Inr a \<and> lsRSAID a = RSAIDDigest r \<and> lsEdID a = EdIdentity r \<and>
        (\<exists>port. ParseUint portStr 16 = Some port \<and> lsORAddr a = JoinHostPort (dotted ip4) (dec_nat port)) \<and>
        linkSpecifiers (r\<lparr>ORAddr := lsORAddr a, RSAIDDigest := lsRSAID a, EdIdentity := lsEdID a\<rparr>) = Inr raw"
proof -
  from assms obtain port where p: "ParseUint portStr 16 = Some port"
    by (auto elim: linkSpecifiers_layout)
  show ?thesis
    using ParseLinkSpecifiers_linkSpecifiers [OF assms p] linkSpecifiers_reencode [OF assms(1)] p
    by (auto split: option.split)
qed

theorem link_specifiers_roundtrip_witness:
  "\<exists>a. ParseLinkSpecifiers ([3, 0, 6, 10, 0, 0, 1, 0x23, 0x29, 2, 20] @ replicate 20 1 @ [3, 32] @ replicate 32 2) = Inr a \<and>
     lsORAddr a = ''10.0.0.1:9001''"
proof -
  let ?r = "\<lparr>Nickname = [], ORAddr = ''10.0.0.1:9001'', RSAIDDigest = replicate 20 1, EdIdentity = replicate 32 2,
             NtorOnionKey = []\<rparr>"
  let ?raw = "[3, 0, 6, 10, 0, 0, 1, 0x23, 0x29, 2, 20] @ replicate 20 1 @ [3, 32] @ replicate 32 2 :: bytes"
  have s: "SplitHostPort ''10.0.0.1:9001'' = Inr (''10.0.0.1'', ''9001'')" by code_simp
  have i: "ParseIP ''10.0.0.1'' = Some (v4InV6Prefix @ [10, 0, 0, 1])" by code_simp
  have u: "ParseUint ''9001'' 16 = Some 9001"
    by (simp add: ParseUint_def dec_value_def is_digit_def digit_val_def)
  have be: "be16 9001 = [0x23, 0x29]" by (simp add: be16_def)
  have "linkSpecifiers ?r = Inr ?raw"
    by (simp add: linkSpecifiers_def s i u Let_def put_spec_def be)
  moreover have "JoinHostPort (dotted [10, 0, 0, 1]) (dec_nat 9001) = ''10.0.0.1:9001''"
    by (simp add: JoinHostPort_def dotted_def dec_nat.simps digit_char_def char_of_def bit_numeral_rec bit_0)
  ultimately show ?thesis
    using link_specifiers_roundtrip [of ?r ?raw "''10.0.0.1''" "''9001''"] s i u by auto
qed

end
