(* ===== verification/Circuit.thy ===== *)
theory Circuit
  imports Cell Torcrypto Relayinfo
begin

text \<open>
  Model of \<^verbatim>\<open>pkg/circuit/circuit.go\<close>: the hops and their onion crypto, the claim of a write
  ticket together with the encryption of a relay cell, the ordered-write turnstile, the
  receive loop with its dispatch, circuit-level flow control, the CREATE2/EXTEND2 handshakes,
  and teardown.  The link (\<^verbatim>\<open>SendCell\<close>) is a function on a link state that the operations take as
  an argument.  Tickets are natural numbers: the source's \<^verbatim>\<open>uint64\<close> counters would need
  \<open>2 ^ 64\<close> cells on one circuit to wrap.  What may happen between two sections guarded by
  \<^verbatim>\<open>c.mu\<close> is left to the step relation of the theory \<open>Turnstile\<close>.
\<close>

section \<open>State\<close>

abbreviation (input) handshakeTypeNtor :: u16 where "handshakeTypeNtor \<equiv> 2"
abbreviation (input) maxRelayEarly :: nat where "maxRelayEarly \<equiv> 8"
abbreviation (input) circWindowStart :: nat where "circWindowStart \<equiv> 1000"
abbreviation (input) circWindowIncrement :: nat where "circWindowIncrement \<equiv> 100"
abbreviation (input) sendmeVersionAuth :: byte where "sendmeVersionAuth \<equiv> 1"
abbreviation (input) sendmeTagLen :: nat where "sendmeTagLen \<equiv> 20"

datatype ctx_err = Canceled | DeadlineExceeded

datatype circ_err = ErrCircuitClosed | ErrRelayEarlyExpired | ErrDestroyed | ErrWrite | ErrCtx ctx_err
  | ErrEmptyPath | ErrNotCreated | ErrCrypto crypto_err | ErrRelayInfo relayinfo_err | ErrShortKeys

record hop =
  hinfo :: "relayInfo option"
  fwdCipher :: ctr
  bwdCipher :: ctr
  fwdDigest :: runningDigest
  bwdDigest :: runningDigest

text \<open>The handlers \<^verbatim>\<open>onStreamCell\<close> and \<^verbatim>\<open>onControlCell\<close> are represented by whether they are installed;
  what they are called with is the list of \<open>circ_event\<close>s an operation returns.\<close>

record circuit =
  cid :: u32
  hops :: "hop list"
  relayEarlyCount :: nat
  cclosed :: bool
  closeErr :: "circ_err option"
  sendNext :: nat
  sendTurn :: nat
  createdCh :: "bytes list"
  extendedCh :: "bytes list"
  destroyed :: bool
  circPkgTokens :: tokens
  circDeliverWindow :: int
  onStreamCell :: bool
  onControlCell :: bool

datatype circ_event = StreamCell relay_cell | ControlCell relay_cell

definition circuit_New :: "u32 \<Rightarrow> circuit" where
  "circuit_New i =
     \<lparr>cid = i, hops = [], relayEarlyCount = 0, cclosed = False, closeErr = None,
      sendNext = 0, sendTurn = 0, createdCh = [], extendedCh = [], destroyed = False,
      circPkgTokens = (case makeTokens circWindowStart of Some t \<Rightarrow> t
                       | None \<Rightarrow> \<lparr>tcap = circWindowStart, tlen = 0\<rparr>),
      circDeliverWindow = int circWindowStart, onStreamCell = False, onControlCell = False\<rparr>"

definition NumHops :: "circuit \<Rightarrow> nat" where
  "NumHops c = length (hops c)"

definition LastHop :: "circuit \<Rightarrow> (relayInfo option) option" where
  "LastHop c = (if hops c = [] then None else Some (hinfo (last (hops c))))"

definition SetStreamHandler :: "circuit \<Rightarrow> circuit" where
  "SetStreamHandler c = c\<lparr>onStreamCell := True\<rparr>"

definition SetControlHandler :: "circuit \<Rightarrow> circuit" where
  "SetControlHandler c = c\<lparr>onControlCell := True\<rparr>"

definition circ_fail :: "circ_err \<Rightarrow> circuit \<Rightarrow> circuit" where
  "circ_fail err c =
     (if cclosed c then c else c\<lparr>cclosed := True, closeErr := Some err, destroyed := True\<rparr>)"

section \<open>Onion crypto\<close>

fun layer_down :: "crypto \<Rightarrow> nat \<Rightarrow> bytes \<Rightarrow> hop list \<Rightarrow> bytes \<times> hop list" where
  "layer_down K 0 p hs = (p, hs)"
| "layer_down K (Suc i) p hs =
     (let (p', s) = xorKeyStream K p (fwdCipher (hs ! i))
      in layer_down K i p' (hs[i := (hs ! i)\<lparr>fwdCipher := s\<rparr>]))"

definition encryptForwardLocked :: "crypto \<Rightarrow> nat \<Rightarrow> relay_cell \<Rightarrow> hop list \<Rightarrow> bytes \<times> hop list" where
  "encryptForwardLocked K destHop rc hs =
     (let payload = relay_Encode (rc\<lparr>recognized := 0, rdigest := replicate 4 0\<rparr>);
          d = rd_Update payload (fwdDigest (hs ! destHop));
          hs = hs[destHop := (hs ! destHop)\<lparr>fwdDigest := d\<rparr>];
          snap = rd_Snapshot K d;
          payload = blit relayDigestOff (take RelayDigestLen snap) payload
      in layer_down K (Suc destHop) payload hs)"

text \<open>The result is the hop that recognised the cell with what \<^verbatim>\<open>DecodeRelay\<close> made of it, or
  \<open>None\<close> when no hop did.\<close>

fun decrypt_from :: "crypto \<Rightarrow> nat \<Rightarrow> hop list \<Rightarrow> bytes \<Rightarrow> (nat \<times> relay_cell option) option \<times> hop list" where
  "decrypt_from K i [] p = (None, [])"
| "decrypt_from K i (h # hs) p =
     (let (payload, s) = xorKeyStream K p (bwdCipher h);
          h = h\<lparr>bwdCipher := s\<rparr>;
          continue = (let (r, hs') = decrypt_from K (Suc i) hs payload in (r, h # hs'))
      in if get16 (drop relayRecognizedOff payload) \<noteq> 0 then continue
         else let want = take RelayDigestLen (drop relayDigestOff payload);
                  hashable = blit relayDigestOff (replicate RelayDigestLen 0) payload;
                  (ok, d) = verifyAndCommit K hashable want (bwdDigest h)
              in if \<not> ok then continue
                 else (Some (i, decodeRelay payload), h\<lparr>bwdDigest := d\<rparr> # hs))"

declare decrypt_from.simps(2) [simp del]

definition decryptInboundLocked ::
  "crypto \<Rightarrow> bytes \<Rightarrow> circuit \<Rightarrow> (nat \<times> relay_cell option) option \<times> circuit" where
  "decryptInboundLocked K p c =
     (let (r, hs) = decrypt_from K 0 (hops c) p in (r, c\<lparr>hops := hs\<rparr>))"

section \<open>Sending\<close>

text \<open>The first half of \<^verbatim>\<open>sendRelay\<close>, under \<^verbatim>\<open>c.mu\<close>: the guards, the encryption, the RELAY\_EARLY
  budget and the claim of the next ticket.\<close>

definition sendRelay_claim ::
  "crypto \<Rightarrow> nat \<Rightarrow> relay_cell \<Rightarrow> bool \<Rightarrow> circuit \<Rightarrow> (circ_err option + nat \<times> cell) \<times> circuit" where
  "sendRelay_claim K destHop rc early c =
     (if cclosed c then (Inl (closeErr c), c)
      else if destHop \<ge> length (hops c) then (Inl (Some ErrCircuitClosed), c)
      else if early \<and> relayEarlyCount c \<ge> maxRelayEarly then (Inl (Some ErrRelayEarlyExpired), c)
      else let (payload, hs) = encryptForwardLocked K destHop rc (hops c);
               command = (if early then CmdRelayEarly else CmdRelay);
               ticket = sendNext c
           in (Inr (ticket, \<lparr>circID = cid c, cmd = command, payload = payload\<rparr>),
               c\<lparr>hops := hs, sendNext := ticket + 1,
                 relayEarlyCount := relayEarlyCount c + (if early then 1 else 0)\<rparr>))"

text \<open>\<^verbatim>\<open>writeAtTurn\<close>: \<open>None\<close> while it is another ticket's turn (the caller waits).  The turn advances
  whatever the link answers; a failed write fails the circuit.\<close>

type_synonym 'l send_cell = "cell \<Rightarrow> 'l \<Rightarrow> circ_err option \<times> 'l"

definition writeAtTurn ::
  "'l send_cell \<Rightarrow> nat \<Rightarrow> cell \<Rightarrow> circuit \<times> 'l \<Rightarrow> (circ_err option \<times> circuit \<times> 'l) option" where
  "writeAtTurn snd_cell ticket cl s =
     (let (c, l) = s in
      if sendTurn c \<noteq> ticket then None
      else let (err, l') = snd_cell cl l;
               c' = c\<lparr>sendTurn := sendTurn c + 1\<rparr>
           in Some (err, (case err of None \<Rightarrow> c' | Some e \<Rightarrow> circ_fail e c'), l'))"

text \<open>\<^verbatim>\<open>sendRelay\<close> when no other sender holds an earlier ticket; \<open>None\<close> otherwise.\<close>

definition sendRelay ::
  "crypto \<Rightarrow> 'l send_cell \<Rightarrow> nat \<Rightarrow> relay_cell \<Rightarrow> bool \<Rightarrow> circuit \<times> 'l \<Rightarrow> (circ_err option \<times> circuit \<times> 'l) option" where
  "sendRelay K snd_cell destHop rc early s =
     (let (c, l) = s in
      case sendRelay_claim K destHop rc early c of
        (Inl err, c') \<Rightarrow> Some (err, c', l)
      | (Inr (ticket, cl), c') \<Rightarrow> writeAtTurn snd_cell ticket cl (c', l))"

definition SendRelayToHop ::
  "crypto \<Rightarrow> 'l send_cell \<Rightarrow> nat \<Rightarrow> relay_cell \<Rightarrow> circuit \<times> 'l \<Rightarrow> (circ_err option \<times> circuit \<times> 'l) option" where
  "SendRelayToHop K snd_cell hopIdx rc s = sendRelay K snd_cell hopIdx rc False s"

definition SendRelay ::
  "crypto \<Rightarrow> 'l send_cell \<Rightarrow> relay_cell \<Rightarrow> circuit \<times> 'l \<Rightarrow> (circ_err option \<times> circuit \<times> 'l) option" where
  "SendRelay K snd_cell rc s =
     (if hops (fst s) = [] then Some (Some ErrCircuitClosed, s)
      else sendRelay K snd_cell (length (hops (fst s)) - 1) rc False s)"

section \<open>Flow control\<close>

definition creditPackageWindow :: "nat \<Rightarrow> circuit \<Rightarrow> circuit" where
  "creditPackageWindow n c = c\<lparr>circPkgTokens := tok_credit n (circPkgTokens c)\<rparr>"

definition takePermit :: "circuit \<Rightarrow> circuit option" where
  "takePermit c = map_option (\<lambda>t. c\<lparr>circPkgTokens := t\<rparr>) (tok_recv (circPkgTokens c))"

text \<open>Which case of the \<^verbatim>\<open>select\<close> of \<^verbatim>\<open>SendData\<close>, \<^verbatim>\<open>Create\<close> and \<^verbatim>\<open>Extend\<close> fires; the first stands
  for the permit or the handshake response.  A case that is not ready blocks (\<open>None\<close>).\<close>

datatype wake = WakeReady | WakeCtx ctx_err | WakeDestroyed

definition SendData ::
  "crypto \<Rightarrow> 'l send_cell \<Rightarrow> wake \<Rightarrow> u16 \<Rightarrow> bytes \<Rightarrow> circuit \<times> 'l \<Rightarrow> (circ_err option \<times> circuit \<times> 'l) option" where
  "SendData K snd_cell w sid data s =
     (let (c, l) = s in
      case w of
        WakeCtx e \<Rightarrow> Some (Some (ErrCtx e), c, l)
      | WakeDestroyed \<Rightarrow> if destroyed c then Some (Some ErrCircuitClosed, c, l) else None
      | WakeReady \<Rightarrow>
        (case takePermit c of
           None \<Rightarrow> None
         | Some c1 \<Rightarrow>
           if hops c1 = [] then Some (Some ErrCircuitClosed, creditPackageWindow 1 c1, l)
           else (case sendRelay K snd_cell (length (hops c1) - 1)
                        \<lparr>rcommand = RelayData, recognized = 0, streamID = sid,
                         rdigest = replicate 4 0, rdata = data\<rparr> False (c1, l) of
                   None \<Rightarrow> None
                 | Some (None, c2, l2) \<Rightarrow> Some (None, c2, l2)
                 | Some (Some e, c2, l2) \<Rightarrow> Some (Some e, creditPackageWindow 1 c2, l2))))"

definition encodeSendmeV1 :: "bytes \<Rightarrow> bytes" where
  "encodeSendmeV1 tag =
     (let d = (if length tag > sendmeTagLen then take sendmeTagLen tag else tag)
      in wBytes (wWrite d (wU16 (of_nat (length d)) (wByte sendmeVersionAuth (newWriter (3 + length d))))))"

definition sendme_cell :: "bytes \<Rightarrow> relay_cell" where
  "sendme_cell tag = \<lparr>rcommand = RelaySendme, recognized = 0, streamID = 0, rdigest = replicate 4 0,
                      rdata = encodeSendmeV1 tag\<rparr>"

text \<open>The claim of a circuit-level SENDME; the write is a goroutine of its own.\<close>

definition accountInboundData :: "crypto \<Rightarrow> nat \<Rightarrow> bytes \<Rightarrow> circuit \<Rightarrow> (nat \<times> cell) option \<times> circuit" where
  "accountInboundData K hopIdx tag c =
     (let w = circDeliverWindow c - 1;
          send = (w \<le> int circWindowStart - int circWindowIncrement);
          c = c\<lparr>circDeliverWindow := (if send then w + int circWindowIncrement else w)\<rparr>
      in if \<not> send then (None, c)
         else if cclosed c \<or> hopIdx \<ge> length (hops c) then (None, c)
         else let (payload, hs) = encryptForwardLocked K hopIdx (sendme_cell tag) (hops c);
                  ticket = sendNext c
              in (Some (ticket, \<lparr>circID = cid c, cmd = CmdRelay, payload = payload\<rparr>),
                  c\<lparr>hops := hs, sendNext := ticket + 1\<rparr>))"

section \<open>Receiving\<close>

definition deliverHandshake :: "bytes option \<Rightarrow> bytes list \<Rightarrow> bytes list" where
  "deliverHandshake data ch = (case data of None \<Rightarrow> ch | Some d \<Rightarrow> trySend 1 d ch)"

text \<open>\<^verbatim>\<open>append([]byte(nil), data...)\<close> of an empty slice is nil, so an empty body is refused as well.\<close>

definition parseLenPrefixed :: "bytes \<Rightarrow> bytes option" where
  "parseLenPrefixed b =
     (let (n, r) = rU16 (newReader b);
          (data, r) = rBytes (uint n) r
      in if rErr r then None else if data = [] then None else Some data)"

text \<open>The locked section of \<^verbatim>\<open>handleRelay\<close> hands on the recognised cell, its hop, for RELAY\_DATA
  the backward digest after it, and which handlers are installed at that point.\<close>

record inbound =
  ihop :: nat
  icell :: relay_cell
  itag :: bytes
  ihandler :: bool
  icontrol :: bool

definition handleRelay_locked :: "crypto \<Rightarrow> bytes \<Rightarrow> circuit \<Rightarrow> inbound option \<times> circuit" where
  "handleRelay_locked K p c =
     (case decryptInboundLocked K p c of
        (Some (hopIdx, Some rc), c') \<Rightarrow>
          (Some \<lparr>ihop = hopIdx, icell = rc,
                 itag = (if rcommand rc = RelayData then rd_Snapshot K (bwdDigest (hops c' ! hopIdx)) else []),
                 ihandler = onStreamCell c', icontrol = onControlCell c'\<rparr>, c')
      | (_, c') \<Rightarrow> (None, c'))"

definition dispatchRelay ::
  "crypto \<Rightarrow> inbound \<Rightarrow> circuit \<Rightarrow> (nat \<times> cell) option \<times> circ_event list \<times> circuit" where
  "dispatchRelay K m c =
     (let rc = icell m;
          to_stream = (if ihandler m then [StreamCell rc] else [])
      in if rcommand rc = RelayExtended2 then
           (None, [], c\<lparr>extendedCh := deliverHandshake (parseLenPrefixed (rdata rc)) (extendedCh c)\<rparr>)
         else if rcommand rc = RelayTruncated then (None, [], circ_fail ErrDestroyed c)
         else if rcommand rc = RelaySendme then
           (if streamID rc = 0 then (None, [], creditPackageWindow circWindowIncrement c)
            else (None, to_stream, c))
         else if rcommand rc = RelayData then
           (let (claim, c') = accountInboundData K (ihop m) (itag m) c in (claim, to_stream, c'))
         else if streamID rc = 0 \<and> icontrol m then (None, [ControlCell rc], c)
         else (None, to_stream, c))"

definition handleRelay ::
  "crypto \<Rightarrow> cell \<Rightarrow> circuit \<Rightarrow> (nat \<times> cell) option \<times> circ_event list \<times> circuit" where
  "handleRelay K raw c =
     (case handleRelay_locked K (payload raw) c of
        (None, c') \<Rightarrow> (None, [], c')
      | (Some m, c') \<Rightarrow> dispatchRelay K m c')"

text \<open>One round of \<^verbatim>\<open>recvLoop\<close> on a cell from the inbox; the flag says whether the loop goes on.\<close>

definition recvLoop_cell ::
  "crypto \<Rightarrow> cell \<Rightarrow> circuit \<Rightarrow> bool \<times> (nat \<times> cell) option \<times> circ_event list \<times> circuit" where
  "recvLoop_cell K raw c =
     (if cmd raw = CmdCreated2 then
        (True, None, [], c\<lparr>createdCh := deliverHandshake (parseLenPrefixed (payload raw)) (createdCh c)\<rparr>)
      else if cmd raw = CmdRelay \<or> cmd raw = CmdRelayEarly then (True, handleRelay K raw c)
      else if cmd raw = CmdDestroy then (False, None, [], circ_fail ErrDestroyed c)
      else (True, None, [], c))"

text \<open>The other two cases of its \<^verbatim>\<open>select\<close>.\<close>

definition recvLoop_linkDone :: "circuit \<Rightarrow> circuit" where
  "recvLoop_linkDone c = circ_fail ErrCircuitClosed c"

section \<open>Building\<close>

definition addHop :: "relayInfo \<Rightarrow> bytes \<Rightarrow> circuit \<Rightarrow> circ_err option \<times> circuit" where
  "addHop info keyMaterial c =
     (case splitNtorKeys keyMaterial of
        None \<Rightarrow> (Some ErrShortKeys, c)
      | Some rk \<Rightarrow>
        (case newCTR (Kf rk) of
           Inl e \<Rightarrow> (Some (ErrCrypto e), c)
         | Inr fwd \<Rightarrow>
           (case newCTR (Kb rk) of
              Inl e \<Rightarrow> (Some (ErrCrypto e), c)
            | Inr bwd \<Rightarrow>
              (None, c\<lparr>hops := hops c @ [\<lparr>hinfo = Some info, fwdCipher = fwd, bwdCipher = bwd,
                  fwdDigest = newRunningDigestSHA1 (Df rk), bwdDigest = newRunningDigestSHA1 (Db rk)\<rparr>]\<rparr>))))"

definition AddRendezvousHop :: "bytes \<Rightarrow> bytes \<Rightarrow> bytes \<Rightarrow> bytes \<Rightarrow> circuit \<Rightarrow> circ_err option \<times> circuit" where
  "AddRendezvousHop df db kf kb c =
     (case newCTR kf of
        Inl e \<Rightarrow> (Some (ErrCrypto e), c)
      | Inr fwd \<Rightarrow>
        (case newCTR kb of
           Inl e \<Rightarrow> (Some (ErrCrypto e), c)
         | Inr bwd \<Rightarrow>
           (None, c\<lparr>hops := hops c @ [\<lparr>hinfo = None, fwdCipher = fwd, bwdCipher = bwd,
               fwdDigest = newRunningDigestSHA3 df, bwdDigest = newRunningDigestSHA3 db\<rparr>]\<rparr>)))"

definition handshake_body :: "bytes \<Rightarrow> bytes \<Rightarrow> bytes" where
  "handshake_body specs clientData =
     wBytes (wWrite clientData (wU16 (of_nat (length clientData)) (wU16 handshakeTypeNtor
       (wWrite specs (newWriter (length specs + 4 + length clientData))))))"

text \<open>While \<^verbatim>\<open>Create\<close> and \<^verbatim>\<open>Extend\<close> wait, other goroutines run: \<open>env\<close> is what they do to the state until
  the \<^verbatim>\<open>select\<close> fires, and which case fires.\<close>

definition finish_handshake ::
  "crypto \<Rightarrow> relayInfo \<Rightarrow> ntorClient \<Rightarrow> bytes \<Rightarrow> circuit \<Rightarrow> circ_err option \<times> circuit" where
  "finish_handshake K info st hdata c =
     (case ntor_Complete K st hdata NtorKeyMaterialLen of
        Inl e \<Rightarrow> (Some (ErrCrypto e), c)
      | Inr keys \<Rightarrow> addHop info keys c)"

definition Create ::
  "crypto \<Rightarrow> 'l send_cell \<Rightarrow> (circuit \<times> 'l \<Rightarrow> wake \<times> circuit \<times> 'l) \<Rightarrow> bytes \<Rightarrow> relayInfo \<Rightarrow>
   circuit \<times> 'l \<Rightarrow> (circ_err option \<times> circuit \<times> 'l) option" where
  "Create K snd_cell env eph first s =
     (let (c, l) = s in
      case finishClientHandshake K (RSAIDDigest first) (NtorOnionKey first) eph of
        Inl e \<Rightarrow> Some (Some (ErrCrypto e), c, l)
      | Inr (clientData, st) \<Rightarrow>
        (case snd_cell \<lparr>circID = cid c, cmd = CmdCreate2, payload = handshake_body [] clientData\<rparr> l of
           (Some e, l1) \<Rightarrow> Some (Some e, c, l1)
         | (None, l1) \<Rightarrow>
           (case env (c, l1) of
              (WakeCtx e, c2, l2) \<Rightarrow> Some (Some (ErrCtx e), c2, l2)
            | (WakeDestroyed, c2, l2) \<Rightarrow> if destroyed c2 then Some (Some ErrDestroyed, c2, l2) else None
            | (WakeReady, c2, l2) \<Rightarrow>
              (case createdCh c2 of
                 [] \<Rightarrow> None
               | hdata # rest \<Rightarrow>
                 (let (err, c3) = finish_handshake K first st hdata (c2\<lparr>createdCh := rest\<rparr>)
                  in Some (err, c3, l2))))))"

definition Extend ::
  "crypto \<Rightarrow> 'l send_cell \<Rightarrow> (circuit \<times> 'l \<Rightarrow> wake \<times> circuit \<times> 'l) \<Rightarrow> bytes \<Rightarrow> relayInfo \<Rightarrow>
   circuit \<times> 'l \<Rightarrow> (circ_err option \<times> circuit \<times> 'l) option" where
  "Extend K snd_cell env eph nxt s =
     (let (c, l) = s in
      if hops c = [] then Some (Some ErrNotCreated, c, l)
      else let lastHop = length (hops c) - 1 in
        case finishClientHandshake K (RSAIDDigest nxt) (NtorOnionKey nxt) eph of
          Inl e \<Rightarrow> Some (Some (ErrCrypto e), c, l)
        | Inr (clientData, st) \<Rightarrow>
          (case linkSpecifiers nxt of
             Inl e \<Rightarrow> Some (Some (ErrRelayInfo e), c, l)
           | Inr specs \<Rightarrow>
             (case sendRelay K snd_cell lastHop
                     \<lparr>rcommand = RelayExtend2, recognized = 0, streamID = 0, rdigest = replicate 4 0,
                      rdata = handshake_body specs clientData\<rparr> True (c, l) of
                None \<Rightarrow> None
              | Some (Some e, c1, l1) \<Rightarrow> Some (Some e, c1, l1)
              | Some (None, c1, l1) \<Rightarrow>
                (case env (c1, l1) of
                   (WakeCtx e, c2, l2) \<Rightarrow> Some (Some (ErrCtx e), c2, l2)
                 | (WakeDestroyed, c2, l2) \<Rightarrow> if destroyed c2 then Some (Some ErrDestroyed, c2, l2) else None
                 | (WakeReady, c2, l2) \<Rightarrow>
                   (case extendedCh c2 of
                      [] \<Rightarrow> None
                    | hdata # rest \<Rightarrow>
                      (let (err, c3) = finish_handshake K nxt st hdata (c2\<lparr>extendedCh := rest\<rparr>)
                       in Some (err, c3, l2)))))))"

fun extend_all ::
  "crypto \<Rightarrow> 'l send_cell \<Rightarrow> ((circuit \<times> 'l \<Rightarrow> wake \<times> circuit \<times> 'l) \<times> bytes) list \<Rightarrow> relayInfo list \<Rightarrow>
   circuit \<times> 'l \<Rightarrow> (circ_err option \<times> circuit \<times> 'l) option" where
  "extend_all K snd_cell envs [] s = Some (None, s)"
| "extend_all K snd_cell [] (r # rs) s = None"
| "extend_all K snd_cell ((env, eph) # envs) (r # rs) s =
     (case Extend K snd_cell env eph r s of
        None \<Rightarrow> None
      | Some (Some e, s') \<Rightarrow> Some (Some e, s')
      | Some (None, s') \<Rightarrow> extend_all K snd_cell envs rs s')"

text \<open>\<^verbatim>\<open>Build\<close>; one environment and one ephemeral key per hop.\<close>

fun Build ::
  "crypto \<Rightarrow> 'l send_cell \<Rightarrow> ((circuit \<times> 'l \<Rightarrow> wake \<times> circuit \<times> 'l) \<times> bytes) list \<Rightarrow> relayInfo list \<Rightarrow>
   circuit \<times> 'l \<Rightarrow> (circ_err option \<times> circuit \<times> 'l) option" where
  "Build K snd_cell envs [] s = Some (Some ErrEmptyPath, s)"
| "Build K snd_cell [] (r # rs) s = None"
| "Build K snd_cell ((env, eph) # envs) (r # rs) s =
     (case Create K snd_cell env eph r s of
        None \<Rightarrow> None
      | Some (Some e, s') \<Rightarrow> Some (Some e, s')
      | Some (None, s') \<Rightarrow> extend_all K snd_cell envs rs s')"

text \<open>\<^verbatim>\<open>Destroy\<close> sends DESTROY unless the circuit is closed already, and frees the identifier.\<close>

definition circ_Destroy ::
  "'l send_cell \<Rightarrow> (u32 \<Rightarrow> 'l \<Rightarrow> 'l) \<Rightarrow> circuit \<times> 'l \<Rightarrow> circuit \<times> 'l" where
  "circ_Destroy snd_cell free_circuit s =
     (let (c, l) = s;
          l1 = (if cclosed c then l
                else snd (snd_cell \<lparr>circID = cid c, cmd = CmdDestroy, payload = [0]\<rparr> l))
      in (circ_fail ErrCircuitClosed c, free_circuit (cid c) l1))"

end
