(* ===== verification/Circuit_Crypto.thy ===== *)
theory Circuit_Crypto
  imports Circuit
begin

text \<open>
  The onion crypto of a circuit.  A sender that layers its forward ciphers and a chain of
  receivers that peel backward ciphers in the same states (\<open>peers\<close>) agree: the cell is
  recognised at the hop it was made for and both sides are in the same states again.  The
  relation is used in both directions, since a circuit's relays are its hops with forward and
  backward exchanged (\<open>relay_side\<close>).  That no earlier hop takes the cell for its own, which
  the digest makes improbable and cannot exclude, is the hypothesis \<open>passes\<close>.
\<close>

section \<open>The sealed cell\<close>

definition seal_tag :: "crypto \<Rightarrow> relay_cell \<Rightarrow> runningDigest \<Rightarrow> bytes" where
  "seal_tag K rc d = take 4 (rd_Snapshot K (rd_Update (relay_Encode (rc\<lparr>recognized := 0, rdigest := replicate 4 0\<rparr>)) d))"

definition sealed :: "crypto \<Rightarrow> relay_cell \<Rightarrow> runningDigest \<Rightarrow> bytes" where
  "sealed K rc d = relay_Encode (rc\<lparr>recognized := 0, rdigest := seal_tag K rc d\<rparr>)"

lemma length_rd_Snapshot: "crypto_wf K \<Longrightarrow> 4 \<le> length (rd_Snapshot K d)"
  by (cases "dalg d") (simp_all add: rd_Snapshot_def)

lemma length_seal_tag [simp]: "crypto_wf K \<Longrightarrow> length (seal_tag K rc d) = 4"
  using length_rd_Snapshot [of K] by (simp add: seal_tag_def)

lemma blit_digest:
  assumes "length t = 4" "relay_wf rc"
  shows "blit relayDigestOff t (relay_Encode rc) = relay_Encode (rc\<lparr>rdigest := t\<rparr>)"
proof -
  have wf: "relay_wf (rc\<lparr>rdigest := t\<rparr>)" using assms by (simp add: relay_wf_def)
  have "length ([rcommand rc] @ be16 (recognized rc) @ be16 (streamID rc)) = relayDigestOff" by simp
  from blit_mid [OF this, of "rdigest rc" t] assms show ?thesis
    unfolding relay_Encode_eq [OF assms(2)] relay_Encode_eq [OF wf] Let_def
    by (simp add: relay_wf_def)
qed

lemma sealed_blit:
  assumes "crypto_wf K"
  shows "blit relayDigestOff (seal_tag K rc d) (relay_Encode (rc\<lparr>recognized := 0, rdigest := replicate 4 0\<rparr>))
      = sealed K rc d"
    and "blit relayDigestOff (replicate 4 0) (sealed K rc d) = relay_Encode (rc\<lparr>recognized := 0, rdigest := replicate 4 0\<rparr>)"
  using assms by (simp_all add: blit_digest sealed_def relay_wf_def)

lemma sealed_fields:
  assumes "crypto_wf K"
  shows "get16 (drop relayRecognizedOff (sealed K rc d)) = 0"
    and "take 4 (drop relayDigestOff (sealed K rc d)) = seal_tag K rc d"
    and "decodeRelay (sealed K rc d)
      = Some (rc\<lparr>recognized := 0, rdigest := seal_tag K rc d, rdata := take RelayDataLen (rdata rc)\<rparr>)"
proof -
  have wf: "relay_wf (rc\<lparr>recognized := 0, rdigest := seal_tag K rc d\<rparr>)"
    using assms by (simp add: relay_wf_def)
  show "get16 (drop relayRecognizedOff (sealed K rc d)) = 0"
    and "take 4 (drop relayDigestOff (sealed K rc d)) = seal_tag K rc d"
    using assms unfolding sealed_def relay_Encode_eq [OF wf] Let_def by simp_all
  show "decodeRelay (sealed K rc d)
      = Some (rc\<lparr>recognized := 0, rdigest := seal_tag K rc d, rdata := take RelayDataLen (rdata rc)\<rparr>)"
    unfolding sealed_def using decodeRelay_Encode [OF wf] by simp
qed

section \<open>Layers, hop by hop\<close>

lemma layer_down_Cons:
  "layer_down K (Suc i) p (h # hs) =
     (let (p1, hs1) = layer_down K i p hs; (p2, s) = xorKeyStream K p1 (fwdCipher h)
      in (p2, h\<lparr>fwdCipher := s\<rparr> # hs1))"
proof (induction i arbitrary: p hs)
  case (Suc i)
  obtain p' s where x: "xorKeyStream K p (fwdCipher (hs ! i)) = (p', s)" by fastforce
  have "layer_down K (Suc (Suc i)) p (h # hs) = layer_down K (Suc i) p' (h # hs[i := (hs ! i)\<lparr>fwdCipher := s\<rparr>])"
    by (simp add: x del: layer_down.simps(2) add: layer_down.simps(2) [of K "Suc i"])
  also have "\<dots> = (let (p1, hs1) = layer_down K i p' (hs[i := (hs ! i)\<lparr>fwdCipher := s\<rparr>]);
        (p2, s) = xorKeyStream K p1 (fwdCipher h) in (p2, h\<lparr>fwdCipher := s\<rparr> # hs1))"
    by (rule Suc.IH)
  finally show ?case by (simp add: x)
qed (simp add: Let_def)

definition fwd_tag :: "crypto \<Rightarrow> relay_cell \<Rightarrow> hop \<Rightarrow> hop" where
  "fwd_tag K rc h = h\<lparr>fwdDigest := rd_Update (relay_Encode (rc\<lparr>recognized := 0, rdigest := replicate 4 0\<rparr>)) (fwdDigest h)\<rparr>"

lemma encryptForwardLocked_eq:
  assumes "crypto_wf K"
  shows "encryptForwardLocked K d rc hs =
     layer_down K (Suc d) (sealed K rc (fwdDigest (hs ! d))) (hs[d := fwd_tag K rc (hs ! d)])"
  using sealed_blit(1) [OF assms, of rc "fwdDigest (hs ! d)"]
  by (simp add: encryptForwardLocked_def seal_tag_def fwd_tag_def Let_def)

lemma encryptForwardLocked_Cons:
  assumes "crypto_wf K"
  shows "encryptForwardLocked K 0 rc (h # hs) =
      (let (p, s) = xorKeyStream K (sealed K rc (fwdDigest h)) (fwdCipher h)
       in (p, (fwd_tag K rc h)\<lparr>fwdCipher := s\<rparr> # hs))"
    and "encryptForwardLocked K (Suc d) rc (h # hs) =
      (let (p, hs') = encryptForwardLocked K d rc hs; (q, s) = xorKeyStream K p (fwdCipher h)
       in (q, h\<lparr>fwdCipher := s\<rparr> # hs'))"
  unfolding encryptForwardLocked_eq [OF assms]
  by (simp_all add: layer_down_Cons fwd_tag_def del: layer_down.simps(2))

lemma length_layer_down [simp]:
  "length (fst (layer_down K i p hs)) = length p" "length (snd (layer_down K i p hs)) = length hs"
  by (induction i arbitrary: p hs) (simp_all add: Let_def case_prod_unfold)

lemma length_encryptForwardLocked [simp]:
  "length (fst (encryptForwardLocked K d rc hs)) = PayloadLen"
  "length (snd (encryptForwardLocked K d rc hs)) = length hs"
  by (simp_all add: encryptForwardLocked_def Let_def del: layer_down.simps)

section \<open>Recognition\<close>

definition recognises :: "crypto \<Rightarrow> hop \<Rightarrow> bytes \<Rightarrow> bool" where
  "recognises K h p =
     (let q = fst (xorKeyStream K p (bwdCipher h))
      in get16 (drop relayRecognizedOff q) = 0 \<and>
         fst (verifyAndCommit K (blit relayDigestOff (replicate 4 0) q) (take 4 (drop relayDigestOff q)) (bwdDigest h)))"

definition bwd_peel :: "crypto \<Rightarrow> hop \<Rightarrow> bytes \<Rightarrow> hop" where
  "bwd_peel K h p = h\<lparr>bwdCipher := snd (xorKeyStream K p (bwdCipher h))\<rparr>"

lemma decrypt_from_Cons:
  "decrypt_from K i (h # hs) p =
     (let q = fst (xorKeyStream K p (bwdCipher h))
      in if recognises K h p
         then (Some (i, decodeRelay q), (bwd_peel K h p)\<lparr>bwdDigest :=
                 rd_Update (blit relayDigestOff (replicate 4 0) q) (bwdDigest h)\<rparr> # hs)
         else (fst (decrypt_from K (Suc i) hs q), bwd_peel K h p # snd (decrypt_from K (Suc i) hs q)))"
  using rd.verify_state [of K _ _ "bwdDigest h"]
  by (simp add: decrypt_from.simps(2) Let_def case_prod_unfold recognises_def bwd_peel_def)

fun passes :: "crypto \<Rightarrow> nat \<Rightarrow> hop list \<Rightarrow> bytes \<Rightarrow> bool" where
  "passes K 0 hs p = True"
| "passes K (Suc d) [] p = True"
| "passes K (Suc d) (h # hs) p = (\<not> recognises K h p \<and> passes K d hs (fst (xorKeyStream K p (bwdCipher h))))"

definition hop_peer :: "hop \<Rightarrow> hop \<Rightarrow> bool" where
  "hop_peer h r \<longleftrightarrow> fwdCipher h = bwdCipher r \<and> fwdDigest h = bwdDigest r"

lemma hop_peerI:
  "hop_peer h r \<Longrightarrow> hop_peer (h\<lparr>fwdCipher := s\<rparr>) (r\<lparr>bwdCipher := s\<rparr>)"
  "hop_peer h r \<Longrightarrow> hop_peer (h\<lparr>fwdDigest := d, fwdCipher := s\<rparr>) (r\<lparr>bwdCipher := s, bwdDigest := d\<rparr>)"
  by (simp_all add: hop_peer_def)

abbreviation peers :: "hop list \<Rightarrow> hop list \<Rightarrow> bool" where
  "peers \<equiv> list_all2 hop_peer"

definition opened :: "crypto \<Rightarrow> relay_cell \<Rightarrow> runningDigest \<Rightarrow> relay_cell" where
  "opened K rc d = rc\<lparr>recognized := 0, rdigest := seal_tag K rc d, rdata := take RelayDataLen (rdata rc)\<rparr>"

lemma recognises_sealed:
  assumes "crypto_wf K" "hop_peer h r"
  shows "recognises K r (fst (xorKeyStream K (sealed K rc (fwdDigest h)) (fwdCipher h)))"
proof -
  have x: "fst (xorKeyStream K (fst (xorKeyStream K (sealed K rc (fwdDigest h)) (fwdCipher h))) (bwdCipher r))
      = sealed K rc (fwdDigest h)"
    using assms(2) by (simp add: hop_peer_def ctr.crypt_inv)
  have d: "bwdDigest r = fwdDigest h" using assms(2) by (simp add: hop_peer_def)
  have "fst (verifyAndCommit K (relay_Encode (rc\<lparr>recognized := 0, rdigest := replicate 4 0\<rparr>))
      (seal_tag K rc (fwdDigest h)) (fwdDigest h))"
    using rd.sender_accepted [of K _ 4 "fwdDigest h"] by (simp add: seal_tag_def)
  then show ?thesis
    by (simp add: recognises_def Let_def x d sealed_fields [OF assms(1)] sealed_blit [OF assms(1)]
        del: One_nat_def)
qed

text \<open>One cell: the receivers recognise it at the hop it was sealed for, and stay in step.\<close>

lemma decrypt_encrypt:
  assumes "crypto_wf K"
  shows "d < length hs \<Longrightarrow> peers hs rs \<Longrightarrow> encryptForwardLocked K d rc hs = (p, hs') \<Longrightarrow> passes K d rs p \<Longrightarrow>
    \<exists>rs'. decrypt_from K i rs p = (Some (i + d, Some (opened K rc (fwdDigest (hs ! d)))), rs') \<and> peers hs' rs'"
proof (induction d arbitrary: hs rs p hs' i)
  case 0
  then obtain h ht r rt where l: "hs = h # ht" "rs = r # rt" "hop_peer h r" "peers ht rt"
    by (cases hs; cases rs) auto
  let ?x = "xorKeyStream K (sealed K rc (fwdDigest h)) (fwdCipher h)"
  have e: "p = fst ?x" "hs' = (fwd_tag K rc h)\<lparr>fwdCipher := snd ?x\<rparr> # ht"
    using 0(3) encryptForwardLocked_Cons(1) [OF assms] by (simp_all add: l case_prod_unfold Let_def)
  have q: "xorKeyStream K p (bwdCipher r) = (sealed K rc (fwdDigest h), snd ?x)"
    using l(3) by (simp add: e hop_peer_def ctr.crypt_sync)
  have d: "bwdDigest r = fwdDigest h" using l(3) by (simp add: hop_peer_def)
  have "recognises K r p" using recognises_sealed [OF assms l(3), of rc] by (simp add: e(1))
  then show ?case
    using l hop_peerI(2) [OF l(3)]
    by (simp add: decrypt_from_Cons q sealed_fields(3) [OF assms] sealed_blit [OF assms] d
        opened_def bwd_peel_def e(2) fwd_tag_def)
next
  case (Suc d)
  then obtain h ht r rt where l: "hs = h # ht" "rs = r # rt" "hop_peer h r" "peers ht rt"
    by (cases hs; cases rs) auto
  obtain p1 ht' where e1: "encryptForwardLocked K d rc ht = (p1, ht')" by fastforce
  let ?x = "xorKeyStream K p1 (fwdCipher h)"
  have e: "p = fst ?x" "hs' = h\<lparr>fwdCipher := snd ?x\<rparr> # ht'"
    using Suc.prems(3) encryptForwardLocked_Cons(2) [OF assms] by (simp_all add: l e1 case_prod_unfold Let_def)
  have q: "xorKeyStream K p (bwdCipher r) = (p1, snd ?x)"
    using l(3) by (simp add: e hop_peer_def ctr.crypt_sync)
  have pass: "\<not> recognises K r p" "passes K d rt p1" using Suc.prems(4) by (simp_all add: l q)
  obtain rt' where "decrypt_from K (Suc i) rt p1
      = (Some (Suc i + d, Some (opened K rc (fwdDigest (ht ! d)))), rt')" "peers ht' rt'"
    using Suc.IH [OF _ l(4) e1 pass(2), of "Suc i"] Suc.prems(1) l by auto
  then show ?case
    using pass(1) l hop_peerI(1) [OF l(3)] by (simp add: decrypt_from_Cons q bwd_peel_def e(2))
qed

section \<open>A session\<close>

text \<open>A sequence of cells, each for a hop of its own, and its decryption in the same order.\<close>

fun encrypt_all :: "crypto \<Rightarrow> (nat \<times> relay_cell) list \<Rightarrow> hop list \<Rightarrow> bytes list \<times> hop list" where
  "encrypt_all K [] hs = ([], hs)"
| "encrypt_all K ((d, rc) # ms) hs =
     (let (p, hs1) = encryptForwardLocked K d rc hs; (ps, hs2) = encrypt_all K ms hs1 in (p # ps, hs2))"

fun decrypt_all :: "crypto \<Rightarrow> bytes list \<Rightarrow> hop list \<Rightarrow> (nat \<times> relay_cell option) option list \<times> hop list" where
  "decrypt_all K [] rs = ([], rs)"
| "decrypt_all K (p # ps) rs =
     (let (r, rs1) = decrypt_from K 0 rs p; (xs, rs2) = decrypt_all K ps rs1 in (r # xs, rs2))"

fun all_pass :: "crypto \<Rightarrow> (nat \<times> relay_cell) list \<Rightarrow> bytes list \<Rightarrow> hop list \<Rightarrow> bool" where
  "all_pass K ((d, rc) # ms) (p # ps) rs = (passes K d rs p \<and> all_pass K ms ps (snd (decrypt_from K 0 rs p)))"
| "all_pass K _ _ rs = True"

text \<open>What the receiver reports of a cell, the digest field aside.\<close>

definition report :: "(nat \<times> relay_cell option) option \<Rightarrow> (nat \<times> relay_cell) option" where
  "report r = (case r of Some (i, Some rc) \<Rightarrow> Some (i, rc\<lparr>rdigest := []\<rparr>) | _ \<Rightarrow> None)"

definition sent_as :: "nat \<times> relay_cell \<Rightarrow> nat \<times> relay_cell" where
  "sent_as m = (fst m, (snd m)\<lparr>recognized := 0, rdigest := [], rdata := take RelayDataLen (rdata (snd m))\<rparr>)"

lemma report_opened: "report (Some (d, Some (opened K rc g))) = Some (sent_as (d, rc))"
  by (simp add: report_def opened_def sent_as_def)

lemma session_delivered:
  assumes "crypto_wf K"
  shows "peers hs rs \<Longrightarrow> \<forall>m \<in> set ms. fst m < length hs \<Longrightarrow> encrypt_all K ms hs = (ps, hs') \<Longrightarrow>
    all_pass K ms ps rs \<Longrightarrow>
    map report (fst (decrypt_all K ps rs)) = map (Some \<circ> sent_as) ms \<and> peers hs' (snd (decrypt_all K ps rs))"
proof (induction ms arbitrary: hs rs ps)
  case (Cons m ms)
  obtain d rc where m: "m = (d, rc)" by (cases m)
  obtain p hs1 where e: "encryptForwardLocked K d rc hs = (p, hs1)" by fastforce
  obtain ps' where ps: "encrypt_all K ms hs1 = (ps', hs')" "ps = p # ps'"
    using Cons.prems(3) by (auto simp: m e split: prod.splits)
  have pass: "passes K d rs p" "all_pass K ms ps' (snd (decrypt_from K 0 rs p))"
    using Cons.prems(4) by (simp_all add: m ps)
  have dl: "d < length hs" using Cons.prems(2) by (simp add: m)
  obtain rs1 where d: "decrypt_from K 0 rs p = (Some (d, Some (opened K rc (fwdDigest (hs ! d)))), rs1)"
    and p1: "peers hs1 rs1"
    using decrypt_encrypt [OF assms dl Cons.prems(1) e pass(1), of 0] by auto
  have len: "length hs1 = length hs" using length_encryptForwardLocked(2) [of K d rc hs] e by simp
  have "map report (fst (decrypt_all K ps' rs1)) = map (Some \<circ> sent_as) ms
      \<and> peers hs' (snd (decrypt_all K ps' rs1))"
    using Cons.IH [OF p1 _ ps(1)] Cons.prems(2) pass(2) by (simp add: len d)
  then show ?case
    by (simp add: ps(2) m d case_prod_unfold Let_def report_opened)
qed simp

section \<open>The relays of a circuit\<close>

definition relay_side :: "hop \<Rightarrow> hop" where
  "relay_side h = h\<lparr>fwdCipher := bwdCipher h, bwdCipher := fwdCipher h,
                    fwdDigest := bwdDigest h, bwdDigest := fwdDigest h\<rparr>"

lemma relay_side_peers: "peers hs (map relay_side hs)" "peers (map relay_side hs) hs"
  by (simp_all add: list_all2_conv_all_nth hop_peer_def relay_side_def)

section \<open>Properties\<close>

text \<open>C11: A relay cell that the relay at hop \<open>h\<close> seals and sends back, layered by the relays before
  it, is recognised by the client at exactly that hop, with its stream, command and data, and the
  client's hops are again in step with the relays.\<close>

theorem inbound_cell_recognised:
  assumes "crypto_wf K" "h < length (hops c)"
    and "encryptForwardLocked K h rc (map relay_side (hops c)) = (p, relays)"
    and "passes K h (hops c) p"
  shows "\<exists>c'. decryptInboundLocked K p c = (Some (h, Some (opened K rc (bwdDigest (hops c ! h)))), c') \<and>
    peers relays (hops c')"
  using decrypt_encrypt [OF assms(1), of h "map relay_side (hops c)" "hops c" rc p relays 0]
    relay_side_peers(2) [of "hops c"] assms
  by (auto simp: decryptInboundLocked_def relay_side_def)

theorem inbound_cell_recognised_witness:
  "\<exists>h c p relays c' rc. hops c = [h] \<and> encryptForwardLocked toy_crypto 0 (sendme_cell []) (map relay_side [h]) = (p, relays) \<and>
     decryptInboundLocked toy_crypto p c = (Some (0, Some rc), c') \<and> rcommand rc = RelaySendme"
proof -
  let ?s = "\<lparr>ckey = replicate 16 1, civ = replicate 16 0, cpos = 0\<rparr>"
  let ?h = "\<lparr>hinfo = None, fwdCipher = ?s, bwdCipher = ?s, fwdDigest = newRunningDigestSHA1 [1], bwdDigest = newRunningDigestSHA1 [2]\<rparr>"
  obtain p relays where e: "encryptForwardLocked toy_crypto 0 (sendme_cell []) (map relay_side [?h]) = (p, relays)"
    by fastforce
  from inbound_cell_recognised [of toy_crypto 0 "(circuit_New 1)\<lparr>hops := [?h]\<rparr>" "sendme_cell []" p relays]
  obtain c' where "decryptInboundLocked toy_crypto p ((circuit_New 1)\<lparr>hops := [?h]\<rparr>)
      = (Some (0, Some (opened toy_crypto (sendme_cell []) (newRunningDigestSHA1 [2]))), c')"
    using e by auto
  moreover have "rcommand (opened toy_crypto (sendme_cell []) (newRunningDigestSHA1 [2])) = RelaySendme"
    by (simp add: opened_def sendme_cell_def)
  moreover have "hops ((circuit_New 1)\<lparr>hops := [?h]\<rparr>) = [?h]" by simp
  ultimately show ?thesis using e by blast
qed

end
