(* ===== verification/Circuit_Flow.thy ===== *)
theory Circuit_Flow
  imports Circuit_Crypto
begin

text \<open>
  The invariant of a circuit and its flow control.  \<open>circ_wf\<close> bounds the package window, the
  deliver window, the RELAY\_EARLY budget and the handshake channels, ties \<^verbatim>\<open>closed\<close>, \<^verbatim>\<open>closeErr\<close> and
  the \<^verbatim>\<open>destroyed\<close> channel together and keeps the turn behind the tickets; every operation keeps
  it.  The package window is an instance of \<open>permit_window\<close>; the deliver window emits one
  SENDME for every hundred data cells.
\<close>

section \<open>Invariant\<close>

definition circ_wf :: "circuit \<Rightarrow> bool" where
  "circ_wf c \<longleftrightarrow>
     tcap (circPkgTokens c) = circWindowStart \<and> tlen (circPkgTokens c) \<le> circWindowStart \<and>
     900 < circDeliverWindow c \<and> circDeliverWindow c \<le> 1000 \<and>
     relayEarlyCount c \<le> maxRelayEarly \<and>
     destroyed c = cclosed c \<and> (closeErr c \<noteq> None) = cclosed c \<and>
     sendTurn c \<le> sendNext c \<and> length (createdCh c) \<le> 1 \<and> length (extendedCh c) \<le> 1"

lemma circ_wf_New [simp]: "circ_wf (circuit_New i)"
  by (simp add: circ_wf_def circuit_New_def)

lemma circ_wf_fail [simp, tor_inv]: "circ_wf c \<Longrightarrow> circ_wf (circ_fail e c)"
  by (simp add: circ_wf_def circ_fail_def)

lemma circ_wf_hops [simp, tor_inv]: "circ_wf (c\<lparr>hops := hs\<rparr>) = circ_wf c"
  by (simp add: circ_wf_def)

lemma circ_wf_handlers [simp, tor_inv]:
  "circ_wf (SetStreamHandler c) = circ_wf c" "circ_wf (SetControlHandler c) = circ_wf c"
  by (simp_all add: circ_wf_def SetStreamHandler_def SetControlHandler_def)

lemma circ_wf_credit [simp, tor_inv]: "circ_wf c \<Longrightarrow> circ_wf (creditPackageWindow n c)"
  by (simp add: circ_wf_def creditPackageWindow_def tok_credit_eq)

lemma circ_wf_takePermit [tor_inv]: "circ_wf c \<Longrightarrow> takePermit c = Some c' \<Longrightarrow> circ_wf c'"
  by (auto simp: circ_wf_def takePermit_def tok_recv_def split: if_splits)

lemma circ_wf_claim [tor_inv]:
  "circ_wf c \<Longrightarrow> circ_wf (snd (sendRelay_claim K d rc early c))"
  by (auto simp: sendRelay_claim_def circ_wf_def case_prod_unfold Let_def)

lemma sendRelay_claim_ticket:
  "sendRelay_claim K d rc early c = (Inr (t, cl), c') \<Longrightarrow> t = sendNext c \<and> sendNext c' = Suc t \<and> sendTurn c' = sendTurn c"
  by (auto simp: sendRelay_claim_def case_prod_unfold Let_def split: if_splits)

lemma circ_wf_writeAtTurn [tor_inv]:
  assumes "circ_wf c" "writeAtTurn snd_cell t cl (c, l) = Some (err, c', l')" "t < sendNext c"
  shows "circ_wf c'"
proof -
  have "circ_wf (c\<lparr>sendTurn := sendTurn c + 1\<rparr>)" if "sendTurn c = t"
    using assms(1,3) that by (simp add: circ_wf_def)
  then show ?thesis
    using assms(2) by (auto simp: writeAtTurn_def case_prod_unfold Let_def split: if_splits option.splits)
qed

lemma circ_wf_sendRelay [tor_inv]:
  assumes "circ_wf c" "sendRelay K snd_cell d rc early (c, l) = Some (err, c', l')"
  shows "circ_wf c'"
proof (cases "sendRelay_claim K d rc early c")
  case (Pair r c1)
  have wf1: "circ_wf c1" using circ_wf_claim [OF assms(1), of K d rc early] Pair by simp
  show ?thesis
  proof (cases r)
    case (Inl e)
    then show ?thesis using assms(2) Pair wf1 by (simp add: sendRelay_def)
  next
    case (Inr tc)
    then obtain t cl where r: "r = Inr (t, cl)" by (cases tc) auto
    show ?thesis
      using sendRelay_claim_ticket [OF Pair [unfolded r]] assms(2)
      by (auto simp: sendRelay_def Pair r intro: circ_wf_writeAtTurn [OF wf1])
  qed
qed

lemma circ_wf_SendRelay [tor_inv]:
  "circ_wf c \<Longrightarrow> SendRelay K snd_cell rc (c, l) = Some (err, c', l') \<Longrightarrow> circ_wf c'"
  by (auto simp: SendRelay_def split: if_splits intro: circ_wf_sendRelay)

lemma circ_wf_SendData [tor_inv]:
  assumes "circ_wf c" "SendData K snd_cell w sid data (c, l) = Some (err, c', l')"
  shows "circ_wf c'"
  using assms circ_wf_takePermit [OF assms(1)] circ_wf_credit
  by (auto simp: SendData_def split: wake.splits option.splits if_splits prod.splits
      intro!: circ_wf_credit dest: circ_wf_sendRelay [rotated])

lemma circ_wf_account [tor_inv]:
  "circ_wf c \<Longrightarrow> circ_wf (snd (accountInboundData K i tag c))"
  by (auto simp: accountInboundData_def circ_wf_def case_prod_unfold Let_def)

lemma deliverHandshake_length: "length ch \<le> Suc 0 \<Longrightarrow> length (deliverHandshake d ch) \<le> Suc 0"
  by (simp add: deliverHandshake_def trySend_def split: option.split)

lemma circ_wf_channels [simp, tor_inv]:
  "circ_wf c \<Longrightarrow> circ_wf (c\<lparr>createdCh := deliverHandshake d (createdCh c)\<rparr>)"
  "circ_wf c \<Longrightarrow> circ_wf (c\<lparr>extendedCh := deliverHandshake d (extendedCh c)\<rparr>)"
  "circ_wf c \<Longrightarrow> createdCh c = x # xs \<Longrightarrow> circ_wf (c\<lparr>createdCh := xs\<rparr>)"
  "circ_wf c \<Longrightarrow> extendedCh c = x # xs \<Longrightarrow> circ_wf (c\<lparr>extendedCh := xs\<rparr>)"
  by (auto simp: circ_wf_def deliverHandshake_length)

lemma circ_wf_dispatch [tor_inv]:
  "circ_wf c \<Longrightarrow> circ_wf (snd (snd (dispatchRelay K m c)))"
  by (auto simp: dispatchRelay_def Let_def case_prod_unfold circ_wf_account)

lemma circ_wf_locked [tor_inv]: "circ_wf c \<Longrightarrow> circ_wf (snd (handleRelay_locked K p c))"
  by (auto simp: handleRelay_locked_def decryptInboundLocked_def case_prod_unfold Let_def
      split: option.split prod.split)

lemma circ_wf_handleRelay [tor_inv]: "circ_wf c \<Longrightarrow> circ_wf (snd (snd (handleRelay K raw c)))"
  using circ_wf_locked [of c K "payload raw"] circ_wf_dispatch
  by (auto simp: handleRelay_def split: prod.split option.split)

lemma circ_wf_recvLoop [tor_inv]: "circ_wf c \<Longrightarrow> circ_wf (snd (snd (snd (recvLoop_cell K raw c))))"
  by (simp add: recvLoop_cell_def circ_wf_handleRelay)

lemma circ_wf_addHop [tor_inv]: "circ_wf c \<Longrightarrow> circ_wf (snd (addHop info km c))"
  by (auto simp: addHop_def split: option.split sum.split)

lemma circ_wf_AddRendezvousHop [tor_inv]: "circ_wf c \<Longrightarrow> circ_wf (snd (AddRendezvousHop df db kf kb c))"
  by (auto simp: AddRendezvousHop_def split: sum.split)

lemma circ_wf_finish [tor_inv]: "circ_wf c \<Longrightarrow> circ_wf (snd (finish_handshake K info st hdata c))"
  by (auto simp: finish_handshake_def circ_wf_addHop split: sum.split)

text \<open>Waiting keeps the invariant when what the other goroutines do keeps it.\<close>

definition env_keeps :: "(circuit \<times> 'l \<Rightarrow> wake \<times> circuit \<times> 'l) \<Rightarrow> bool" where
  "env_keeps env \<longleftrightarrow> (\<forall>c l. circ_wf c \<longrightarrow> circ_wf (fst (snd (env (c, l)))))"

lemma circ_wf_Create [tor_inv]:
  assumes "circ_wf c" "env_keeps env" "Create K snd_cell env eph r (c, l) = Some (err, c', l')"
  shows "circ_wf c'"
proof -
  have k: "env (c, l1) = (w, c2, l2) \<Longrightarrow> circ_wf c2" for l1 w c2 l2
    using assms(1,2) by (metis env_keeps_def fst_conv snd_conv)
  show ?thesis
  proof (cases "finishClientHandshake K (RSAIDDigest r) (NtorOnionKey r) eph")
    case (Inl e)
    then show ?thesis using assms(1,3) by (simp add: Create_def)
  next
    case cd: (Inr cd)
    obtain e1 l1 where s1: "snd_cell \<lparr>circID = cid c, cmd = CmdCreate2,
        payload = handshake_body [] (fst cd)\<rparr> l = (e1, l1)"
      by fastforce
    obtain w c2 l2 where en: "env (c, l1) = (w, c2, l2)" by (metis surj_pair)
    show ?thesis
      using assms(1,3) cd s1 k [OF en] en
      by (cases e1; cases w)
         (auto simp: Create_def Let_def case_prod_unfold split: if_splits list.splits
           intro!: circ_wf_finish)
  qed
qed

lemma circ_wf_Extend [tor_inv]:
  assumes "circ_wf c" "env_keeps env" "Extend K snd_cell env eph r (c, l) = Some (err, c', l')"
  shows "circ_wf c'"
proof -
  have k: "circ_wf c1 \<Longrightarrow> env (c1, l1) = (w, c2, l2) \<Longrightarrow> circ_wf c2" for c1 l1 w c2 l2
    using assms(2) by (metis env_keeps_def fst_conv snd_conv)
  show ?thesis
  proof (cases "hops c = []")
    case ne: False
    show ?thesis
    proof (cases "finishClientHandshake K (RSAIDDigest r) (NtorOnionKey r) eph")
      case (Inl e)
      then show ?thesis using assms(1,3) ne by (simp add: Extend_def)
    next
      case cd: (Inr cd)
      show ?thesis
      proof (cases "linkSpecifiers r")
        case (Inl e)
        then show ?thesis using assms(1,3) ne cd by (simp add: Extend_def case_prod_unfold)
      next
        case sp: (Inr sp)
        obtain e1 c1 l1 where s1: "sendRelay K snd_cell (length (hops c) - 1)
            \<lparr>rcommand = RelayExtend2, recognized = 0, streamID = 0, rdigest = replicate 4 0,
              rdata = handshake_body sp (fst cd)\<rparr> True (c, l) = Some (e1, c1, l1)"
          using assms(3) ne cd sp
          by (auto simp: Extend_def Let_def case_prod_unfold split: option.splits)
        have w1: "circ_wf c1" by (rule circ_wf_sendRelay [OF assms(1) s1])
        obtain w c2 l2 where en: "env (c1, l1) = (w, c2, l2)" by (metis surj_pair)
        show ?thesis
          using assms(3) ne cd sp s1 w1 k [OF w1 en] en
          by (cases e1; cases w)
             (auto simp: Extend_def Let_def case_prod_unfold split: if_splits list.splits
               intro!: circ_wf_finish)
      qed
    qed
  qed (use assms in \<open>simp add: Extend_def\<close>)
qed

section \<open>Package window\<close>

text \<open>\<^verbatim>\<open>SendData\<close> takes a permit, a circuit-level SENDME returns up to a hundred.\<close>

interpretation circ_window: permit_window
  "\<lambda>c. tlen (circPkgTokens c)" "\<lambda>c. tcap (circPkgTokens c)" takePermit creditPackageWindow
  by unfold_locales
     (auto simp: takePermit_def creditPackageWindow_def tok_recv_def tok_credit_eq split: if_splits)

section \<open>Deliver window\<close>

text \<open>A run of inbound data cells from a hop, on an open circuit: the SENDME claims it makes.\<close>

fun account_run :: "crypto \<Rightarrow> nat \<Rightarrow> bytes list \<Rightarrow> circuit \<Rightarrow> (nat \<times> cell) list \<times> circuit" where
  "account_run K i [] c = ([], c)"
| "account_run K i (tag # tags) c =
     (let (claim, c1) = accountInboundData K i tag c; (claims, c2) = account_run K i tags c1
      in ((case claim of None \<Rightarrow> [] | Some x \<Rightarrow> [x]) @ claims, c2))"

lemma account_step:
  assumes "\<not> cclosed c" "i < length (hops c)"
  shows "(fst (accountInboundData K i tag c) \<noteq> None) = (circDeliverWindow c \<le> 901)"
    and "circDeliverWindow (snd (accountInboundData K i tag c))
      = (if circDeliverWindow c \<le> 901 then circDeliverWindow c + 99 else circDeliverWindow c - 1)"
    and "\<not> cclosed (snd (accountInboundData K i tag c))"
    and "length (hops (snd (accountInboundData K i tag c))) = length (hops c)"
    and "sendNext (snd (accountInboundData K i tag c))
      = sendNext c + (if circDeliverWindow c \<le> 901 then 1 else 0)"
    and "fst (accountInboundData K i tag c) = Some (t, cl) \<Longrightarrow> t = sendNext c"
  using assms by (auto simp: accountInboundData_def case_prod_unfold Let_def split: if_splits)

lemma account_run_count:
  assumes "\<not> cclosed c" "i < length (hops c)" "circDeliverWindow c = 1000 - int k" "k < 100"
  shows "length (fst (account_run K i tags c)) = (k + length tags) div 100 \<and>
    circDeliverWindow (snd (account_run K i tags c)) = 1000 - int ((k + length tags) mod 100) \<and>
    map fst (fst (account_run K i tags c)) = [sendNext c..<sendNext c + (k + length tags) div 100]"
  using assms
proof (induction tags arbitrary: c k)
  case (Cons tag tags)
  obtain claim c1 where a: "accountInboundData K i tag c = (claim, c1)" by fastforce
  note st = account_step [OF Cons.prems(1,2), of K tag, unfolded a fst_conv snd_conv]
  show ?case
  proof (cases "k = 99")
    case True
    then have w: "circDeliverWindow c1 = 1000 - int 0" using st(2) Cons.prems(3) by simp
    obtain t cl where cl: "claim = Some (t, cl)" "t = sendNext c"
      using st(1) st(6) Cons.prems(3) True by fastforce
    have "length (tag # tags) + k = length tags + 100" using True by simp
    then have d: "(k + length (tag # tags)) div 100 = Suc (length tags div 100)"
      "(k + length (tag # tags)) mod 100 = length tags mod 100"
      using True by (simp_all add: div_add_self2 add.commute)
    have "sendNext c1 = Suc (sendNext c)" using st(5) Cons.prems(3) True by simp
    then show ?thesis
      using Cons.IH [of c1 0] st(3,4) w Cons.prems(2) d
      by (simp add: a cl case_prod_unfold Let_def upt_conv_Cons del: upt_Suc)
  next
    case False
    then have k: "circDeliverWindow c1 = 1000 - int (Suc k)" "Suc k < 100" using st(2) Cons.prems(3,4) by auto
    have "claim = None" "sendNext c1 = sendNext c"
      using st(1,5) Cons.prems(3,4) False by (cases claim; auto)+
    then show ?thesis
      using Cons.IH [of c1 "Suc k"] st(3,4) k Cons.prems(2) by (simp add: a case_prod_unfold Let_def)
  qed
qed simp

text \<open>The body of an authenticated SENDME.\<close>

lemma encodeSendmeV1_layout:
  "length tag \<ge> 20 \<Longrightarrow> encodeSendmeV1 tag = [1, 0, 20] @ take 20 tag"
  by (simp add: encodeSendmeV1_def Let_def be16_def min_def)

section \<open>Building a path\<close>

lemma map_update_same: "g (f (xs ! i)) = g (xs ! i) \<Longrightarrow> map g (xs[i := f (xs ! i)]) = map g xs"
  by (cases "i < length xs") (simp_all add: map_update list_update_same_conv list_update_beyond)

lemma layer_down_hinfo [simp]: "map hinfo (snd (layer_down K i p hs)) = map hinfo hs"
proof (induction i arbitrary: p hs)
  case (Suc i)
  then show ?case
    using map_update_same [of hinfo "\<lambda>h. h\<lparr>fwdCipher := s\<rparr>" hs i for s]
    by (simp add: case_prod_unfold Let_def)
qed simp

lemma encryptForwardLocked_hinfo [simp]: "map hinfo (snd (encryptForwardLocked K d rc hs)) = map hinfo hs"
  using map_update_same [of hinfo "\<lambda>h. h\<lparr>fwdDigest := g\<rparr>" hs d for g]
  by (simp add: encryptForwardLocked_def Let_def del: layer_down.simps)

text \<open>The part of the state that a path of relays is built in: who the hops are, and the budget.\<close>

definition path_of :: "circuit \<Rightarrow> relayInfo option list \<times> nat" where
  "path_of c = (map hinfo (hops c), relayEarlyCount c)"

definition env_still :: "(circuit \<times> 'l \<Rightarrow> wake \<times> circuit \<times> 'l) \<Rightarrow> bool" where
  "env_still env \<longleftrightarrow> (\<forall>c l. path_of (fst (snd (env (c, l)))) = path_of c)"

lemma path_of_fail [simp]: "path_of (circ_fail e c) = path_of c"
  by (simp add: path_of_def circ_fail_def)

lemma path_of_sendRelay:
  "sendRelay K snd_cell d rc early (c, l) = Some (None, c', l') \<Longrightarrow>
   path_of c' = (fst (path_of c), snd (path_of c) + (if early then 1 else 0)) \<or> cclosed c \<and> closeErr c = None"
  by (auto simp: sendRelay_def sendRelay_claim_def writeAtTurn_def case_prod_unfold Let_def path_of_def
      split: if_splits option.splits)

lemma sendRelay_early_budget:
  "sendRelay K snd_cell d rc True (c, l) = Some (None, c', l') \<Longrightarrow> circ_wf c \<Longrightarrow> relayEarlyCount c < maxRelayEarly"
  by (auto simp: sendRelay_def sendRelay_claim_def circ_wf_def case_prod_unfold Let_def split: if_splits)

lemma addHop_ok: "addHop info km c = (None, c') \<Longrightarrow> path_of c' = (fst (path_of c) @ [Some info], snd (path_of c))"
  by (auto simp: addHop_def path_of_def split: option.splits sum.splits)

lemma finish_ok: "finish_handshake K info st hdata c = (None, c') \<Longrightarrow>
  path_of c' = (fst (path_of c) @ [Some info], snd (path_of c))"
  by (auto simp: finish_handshake_def addHop_ok split: sum.splits)

lemma path_of_channels [simp]:
  "path_of (c\<lparr>createdCh := x\<rparr>) = path_of c" "path_of (c\<lparr>extendedCh := x\<rparr>) = path_of c"
  by (simp_all add: path_of_def)

lemma Create_ok:
  assumes "Create K snd_cell env eph r (c, l) = Some (None, c', l')" "env_still env"
  shows "path_of c' = (fst (path_of c) @ [Some r], snd (path_of c))"
proof (cases "finishClientHandshake K (RSAIDDigest r) (NtorOnionKey r) eph")
  case (Inl e)
  then show ?thesis using assms(1) by (simp add: Create_def)
next
  case cd: (Inr cd)
  obtain e1 l1 where s1: "snd_cell \<lparr>circID = cid c, cmd = CmdCreate2,
      payload = handshake_body [] (fst cd)\<rparr> l = (e1, l1)"
    by fastforce
  obtain w c2 l2 where en: "env (c, l1) = (w, c2, l2)" by (metis surj_pair)
  have p2: "path_of c2 = path_of c" using assms(2) en by (metis env_still_def fst_conv snd_conv)
  show ?thesis
    using assms(1) cd s1 en p2
    by (cases e1; cases w)
       (auto simp: Create_def Let_def split: if_splits list.splits prod.splits dest: finish_ok)
qed

lemma Extend_ok:
  assumes "Extend K snd_cell env eph r (c, l) = Some (None, c', l')" "env_still env" "circ_wf c"
  shows "path_of c' = (fst (path_of c) @ [Some r], Suc (snd (path_of c)))"
    and "snd (path_of c) < maxRelayEarly"
proof -
  have ne: "hops c \<noteq> []" using assms(1) by (auto simp: Extend_def)
  obtain cd st where cd: "finishClientHandshake K (RSAIDDigest r) (NtorOnionKey r) eph = Inr (cd, st)"
    using assms(1) ne by (auto simp: Extend_def split: sum.splits)
  obtain sp where sp: "linkSpecifiers r = Inr sp"
    using assms(1) ne cd by (auto simp: Extend_def split: sum.splits)
  obtain c1 l1 where s1: "sendRelay K snd_cell (length (hops c) - 1)
      \<lparr>rcommand = RelayExtend2, recognized = 0, streamID = 0, rdigest = replicate 4 0,
        rdata = handshake_body sp cd\<rparr> True (c, l) = Some (None, c1, l1)"
    using assms(1) ne cd sp by (auto simp: Extend_def Let_def split: option.splits)
  have p1: "path_of c1 = (fst (path_of c), Suc (snd (path_of c)))"
    using path_of_sendRelay [OF s1] assms(3) by (auto simp: circ_wf_def)
  obtain w c2 l2 where en: "env (c1, l1) = (w, c2, l2)" by (metis surj_pair)
  have p2: "path_of c2 = path_of c1" using assms(2) en by (metis env_still_def fst_conv snd_conv)
  show "path_of c' = (fst (path_of c) @ [Some r], Suc (snd (path_of c)))"
    using assms(1) ne cd sp s1 en p1 p2
    by (cases w) (auto simp: Extend_def Let_def split: if_splits list.splits prod.splits dest: finish_ok)
  show "snd (path_of c) < maxRelayEarly"
    using sendRelay_early_budget [OF s1 assms(3)] by (simp add: path_of_def)
qed

definition envs_ok :: "((circuit \<times> 'l \<Rightarrow> wake \<times> circuit \<times> 'l) \<times> bytes) list \<Rightarrow> bool" where
  "envs_ok envs \<longleftrightarrow> (\<forall>e \<in> set envs. env_keeps (fst e) \<and> env_still (fst e))"

lemma extend_all_ok:
  "extend_all K snd_cell envs rs (c, l) = Some (None, c', l') \<Longrightarrow> envs_ok envs \<Longrightarrow> circ_wf c \<Longrightarrow>
   path_of c' = (fst (path_of c) @ map Some rs, snd (path_of c) + length rs) \<and> circ_wf c'"
proof (induction rs arbitrary: envs c l)
  case (Cons r rs)
  obtain env eph envs' where e: "envs = (env, eph) # envs'"
    using Cons.prems(1) by (cases envs) auto
  from Cons.prems(1) obtain c1 l1 where x: "Extend K snd_cell env eph r (c, l) = Some (None, c1, l1)"
    "extend_all K snd_cell envs' rs (c1, l1) = Some (None, c', l')"
    by (auto simp: e split: option.splits)
  have k: "env_keeps env" "env_still env" "envs_ok envs'" using Cons.prems(2) by (auto simp: envs_ok_def e)
  have w: "circ_wf c1" by (rule circ_wf_Extend [OF Cons.prems(3) k(1) x(1)])
  show ?case using Cons.IH [OF x(2) k(3) w] Extend_ok(1) [OF x(1) k(2) Cons.prems(3)] by simp
qed simp

lemma Build_ok:
  assumes "Build K snd_cell envs path (c, l) = Some (None, c', l')" "envs_ok envs" "circ_wf c"
  shows "path_of c' = (fst (path_of c) @ map Some path, snd (path_of c) + (length path - 1)) \<and> circ_wf c'"
proof -
  obtain r rs where p: "path = r # rs" using assms(1) by (cases path) auto
  obtain env eph envs' where e: "envs = (env, eph) # envs'" using assms(1) p by (cases envs) auto
  from assms(1) obtain c1 l1 where x: "Create K snd_cell env eph r (c, l) = Some (None, c1, l1)"
    "extend_all K snd_cell envs' rs (c1, l1) = Some (None, c', l')"
    by (auto simp: p e split: option.splits)
  have k: "env_keeps env" "env_still env" "envs_ok envs'" using assms(2) by (auto simp: envs_ok_def e)
  have w: "circ_wf c1" by (rule circ_wf_Create [OF assms(3) k(1) x(1)])
  show ?thesis using extend_all_ok [OF x(2) k(3) w] Create_ok [OF x(1) k(2)] by (simp add: p)
qed

lemma addHop_succeeds:
  assumes "length km = NtorKeyMaterialLen"
  obtains h where "addHop info km c = (None, c\<lparr>hops := hops c @ [h]\<rparr>)"
proof -
  obtain rk where rk: "splitNtorKeys km = Some rk" using assms by (simp add: splitNtorKeys_def)
  have "length (Kf rk) = 16" "length (Kb rk) = 16" using splitNtorKeys_parts [OF rk] by simp_all
  then show thesis using that rk by (simp add: addHop_def newCTR_def)
qed

section \<open>Properties\<close>

text \<open>C12: The circuit's invariant (package window at most 1000, deliver window in (900, 1000], at
  most 8 RELAY\_EARLY cells, the \<^verbatim>\<open>destroyed\<close> channel closed exactly when the circuit is closed
  with an error set, the turn never past the tickets, one-slot handshake channels) holds initially
  and is kept by sending, by data under flow control, by everything the receive loop does with a
  cell, by both kinds of hop, by failing and by destroying.\<close>

theorem circuit_invariant:
  assumes "circ_wf c"
  shows "circ_wf (circuit_New i) \<and>
    (\<forall>K snd_cell d rc early l err c' l'. sendRelay K snd_cell d rc early (c, l) = Some (err, c', l' :: 'l) \<longrightarrow> circ_wf c') \<and>
    (\<forall>K snd_cell w sid data l err c' l'. SendData K snd_cell w sid data (c, l) = Some (err, c', l' :: 'l) \<longrightarrow> circ_wf c') \<and>
    (\<forall>K raw. circ_wf (snd (snd (snd (recvLoop_cell K raw c))))) \<and> circ_wf (recvLoop_linkDone c) \<and>
    (\<forall>info km. circ_wf (snd (addHop info km c))) \<and>
    (\<forall>df db kf kb. circ_wf (snd (AddRendezvousHop df db kf kb c))) \<and>
    (\<forall>e. circ_wf (circ_fail e c)) \<and>
    (\<forall>snd_cell free l. circ_wf (fst (circ_Destroy snd_cell free (c, l :: 'l))))"
proof (intro conjI allI impI)
  show "circ_wf (fst (circ_Destroy snd_cell free (c, l)))" for snd_cell free and l :: 'l
    using assms by (simp add: circ_Destroy_def)
qed (use assms circ_wf_sendRelay [OF assms] circ_wf_SendData [OF assms] in
      \<open>simp_all add: circ_wf_recvLoop circ_wf_addHop circ_wf_AddRendezvousHop recvLoop_linkDone_def\<close>)

theorem circuit_invariant_witness: "circ_wf (circ_fail ErrDestroyed (circuit_New 5))"
  using circuit_invariant [of "circuit_New 5"] by simp

text \<open>On an open circuit the receive loop claims one authenticated SENDME, addressed to the hop
  the data came from, for every hundredth data cell, on consecutive tickets, and the deliver window
  returns to where it was.\<close>

theorem sendme_every_hundred_cells:
  assumes "\<not> cclosed c" "i < length (hops c)" "circDeliverWindow c = 1000"
  shows "length (fst (account_run K i tags c)) = length tags div 100 \<and>
    map fst (fst (account_run K i tags c)) = [sendNext c..<sendNext c + length tags div 100] \<and>
    circDeliverWindow (snd (account_run K i tags c)) = 1000 - int (length tags mod 100)"
  using account_run_count [OF assms(1,2), of 0 K tags] assms(3) by simp

theorem sendme_every_hundred_cells_witness:
  "\<exists>h. length (fst (account_run toy_crypto 0 (replicate 250 [7]) ((circuit_New 1)\<lparr>hops := [h]\<rparr>))) = 2"
  using sendme_every_hundred_cells [of "(circuit_New 1)\<lparr>hops := [h]\<rparr>" 0 toy_crypto "replicate 250 [7]" for h]
  by (simp add: circuit_New_def)

text \<open>However a circuit's data cells (each taking a permit) and its circuit-level SENDMEs (each
  returning up to 100) interleave, it never has more than 1000 permits, and the data cells sent
  never exceed the initial 1000 plus what the SENDMEs returned.\<close>

theorem circuit_package_window:
  assumes "window_run takePermit creditPackageWindow es (circuit_New i) = Some c"
  shows "tlen (circPkgTokens c) \<le> 1000 \<and> takes es + tlen (circPkgTokens c) \<le> 1000 + credits es"
  using circ_window.run_bounded [OF assms] circ_window.run_conserves [OF assms]
  by (simp add: circuit_New_def)

theorem circuit_package_window_witness:
  "\<exists>c. window_run takePermit creditPackageWindow [Take, Take, Credit 100] (circuit_New 1) = Some c \<and>
       tlen (circPkgTokens c) \<le> 1000"
proof -
  have "window_run takePermit creditPackageWindow [Take, Take, Credit 100] (circuit_New 1) \<noteq> None"
    by (simp add: takePermit_def tok_recv_def circuit_New_def)
  then obtain c where "window_run takePermit creditPackageWindow [Take, Take, Credit 100] (circuit_New 1) = Some c"
    by auto
  from circuit_package_window [OF this] this show ?thesis by auto
qed

text \<open>C17: When \<^verbatim>\<open>Build\<close> succeeds the circuit's hops are exactly the relays of the path, in order, and
  one RELAY\_EARLY cell was spent per extension, so no path of more than nine relays is built.\<close>

theorem build_follows_path:
  assumes "Build K snd_cell envs path (circuit_New i, l) = Some (None, c', l')" "envs_ok envs"
  shows "map hinfo (hops c') = map Some path \<and> relayEarlyCount c' = length path - 1 \<and> length path \<le> 9 \<and> circ_wf c'"
  using Build_ok [OF assms circ_wf_New]
  by (auto simp: path_of_def circuit_New_def circ_wf_def)

theorem build_follows_path_witness:
  "\<exists>env r c' l'. Build toy_crypto (\<lambda>cl l. (None, l @ [cl])) [(env, [7])] [r] (circuit_New 9, []) = Some (None, c', l' :: cell list) \<and>
     map hinfo (hops c') = [Some r]"
proof -
  let ?K = toy_crypto and ?id = "replicate 20 1 :: bytes" and ?sc = "\<lambda>cl l. (None :: circ_err option, l @ [cl] :: cell list)"
  define B where "B = x25519_pub ?K [5]"
  define r where "r = \<lparr>Nickname = [], ORAddr = [], RSAIDDigest = ?id, EdIdentity = [], NtorOnionKey = B\<rparr>"
  have B: "length B = 32" by (simp add: B_def)
  have "ntor_server ?K ?id [5] [6] (x25519_pub ?K [7]) 92 \<noteq> None"
    by (simp add: ntor_server_def toy_crypto_def toy_fit_def Let_def)
  then obtain reply keys where sv: "ntor_server ?K ?id [5] [6] (x25519_pub ?K [7]) 92 = Some (reply, keys)" by auto
  have lk: "length keys = NtorKeyMaterialLen"
    using sv by (auto simp: ntor_server_def Let_def split: option.splits)
  have cp: "ntor_Complete ?K \<lparr>neph = [7], nnodeID = ?id, nonionKey = B\<rparr> reply NtorKeyMaterialLen = Inr keys"
    using ntor_Complete_server(1) [OF toy_crypto_wf toy_dh_commutes _ sv] by (simp add: B_def)
  define env where "env = (\<lambda>(c :: circuit, l :: cell list). (WakeReady, c\<lparr>createdCh := [reply]\<rparr>, l))"
  have ok: "envs_ok [(env, [7])]"
    by (simp add: envs_ok_def env_keeps_def env_still_def env_def circ_wf_def)
  obtain h where h: "addHop r keys ((circuit_New 9)\<lparr>createdCh := []\<rparr>)
      = (None, ((circuit_New 9)\<lparr>createdCh := []\<rparr>)\<lparr>hops := hops ((circuit_New 9)\<lparr>createdCh := []\<rparr>) @ [h]\<rparr>)"
    by (rule addHop_succeeds [OF lk, of r "(circuit_New 9)\<lparr>createdCh := []\<rparr>"])
  have "\<exists>c' l'. Build ?K ?sc [(env, [7])] [r] (circuit_New 9, []) = Some (None, c', l')"
    using B cp h by (simp add: Create_def finishClientHandshake_def r_def env_def finish_handshake_def)
  then obtain c' l' where b: "Build ?K ?sc [(env, [7])] [r] (circuit_New 9, []) = Some (None, c', l')" by blast
  have "map hinfo (hops c') = [Some r]" using build_follows_path [OF b ok] by simp
  with b show ?thesis by (intro exI [of _ env] exI [of _ r] exI [of _ c'] exI [of _ l'] conjI)
qed

end
