(* ===== verification/Link_Channel.thy ===== *)
theory Link_Channel
  imports Channel_Cert Circuit_Flow
begin

text \<open>
  Model of \<^verbatim>\<open>pkg/channel/channel.go\<close>: the link handshake over a connection given by the bytes the
  relay sends and the writes that succeed, and the running channel, which allocates circuit
  identifiers, routes inbound cells to the circuits' inboxes and tears everything down on a read
  error.  An entry of the circuit table is an index into the list of entries ever made, since a
  circuit keeps its inbox and its \<^verbatim>\<open>done\<close> channel after the table has dropped them.  TLS itself is
  outside the model: the peer's leaf certificate is an argument.
\<close>

section \<open>Handshake\<close>

abbreviation (input) circuitInboxDepth :: nat where "circuitInboxDepth \<equiv> 256"
abbreviation (input) maxHandshakeCells :: nat where "maxHandshakeCells \<equiv> 64"

definition supportedLinkVersions :: "u16 list" where
  "supportedLinkVersions = [5, 4]"

datatype chan_err = ChanWrite | ChanRead cell_err | ExpectedVersions | NoCommonVersion | TooManyHandshakeCells
  | NoCerts | NoTLSPeerCert | CertErr cert_err | IdentityMismatch | ChanClosed

definition encodeVersions :: "u16 list \<Rightarrow> bytes" where
  "encodeVersions vs = wBytes (foldl (\<lambda>w v. wU16 v w) (newWriter (length vs * 2)) vs)"

function read_versions :: "reader \<Rightarrow> u16 list" where
  "read_versions r = (if rRemaining r \<ge> 2 \<and> \<not> rerr r
     then fst (rU16 r) # read_versions (snd (rU16 r)) else [])"
  by pat_completeness auto
termination
  by (relation "measure (\<lambda>r. nat (rRemaining r))") (auto simp: rRemaining_def rU16_def)

declare read_versions.simps [simp del]

definition negotiateVersion :: "bytes \<Rightarrow> chan_err + u16" where
  "negotiateVersion p =
     (let offered = read_versions (newReader p) in
      case find (\<lambda>v. v \<in> set offered) supportedLinkVersions of
        Some v \<Rightarrow> Inr v
      | None \<Rightarrow> Inl NoCommonVersion)"

definition writeNetinfoAddr :: "bytes option \<Rightarrow> writer \<Rightarrow> writer" where
  "writeNetinfoAddr ip w =
     (case To4 ip of
        Some ip4 \<Rightarrow> wWrite ip4 (wByte 4 (wByte 4 w))
      | None \<Rightarrow>
        (case To16 ip of
           Some ip16 \<Rightarrow> wWrite ip16 (wByte 16 (wByte 6 w))
         | None \<Rightarrow> wByte 0 (wByte 4 w)))"

definition encodeClientNetinfo :: "string \<Rightarrow> int \<Rightarrow> bytes" where
  "encodeClientNetinfo relayAddr now =
     (let w = wU32 (of_int (now div 1000000000)) (newWriter 16);
          ip = (case SplitHostPort relayAddr of Inr (host, _) \<Rightarrow> ParseIP host | Inl _ \<Rightarrow> None)
      in wBytes (wByte 0 (writeNetinfoAddr ip w)))"

text \<open>A connection: what is left of the relay's bytes, what was written, and how many more bytes it
  takes before a write fails (\<open>None\<close> when none does).  A failing write may leave a part of the
  cell behind, and after it every write fails, as \<^verbatim>\<open>crypto/tls\<close> documents.\<close>

record conn =
  cin :: bytes
  cout :: bytes
  cquota :: "nat option"

definition writeCell :: "nat \<Rightarrow> cell \<Rightarrow> conn \<Rightarrow> chan_err option \<times> conn" where
  "writeCell circIDLen c cn =
     (let enc = cell_Encode circIDLen c in
      case cquota cn of
        None \<Rightarrow> (None, cn\<lparr>cout := cout cn @ enc\<rparr>)
      | Some q \<Rightarrow>
        if length enc \<le> q then (None, cn\<lparr>cout := cout cn @ enc, cquota := Some (q - length enc)\<rparr>)
        else (Some ChanWrite, cn\<lparr>cout := cout cn @ take q enc, cquota := Some 0\<rparr>))"

definition SendCell :: "cell \<Rightarrow> conn \<Rightarrow> chan_err option \<times> conn" where
  "SendCell c cn = writeCell CircIDLenWide c cn"

text \<open>The loop that waits for NETINFO; \<open>fuel\<close> counts down from 64 cells.\<close>

fun hs_loop :: "nat \<Rightarrow> bytes option \<Rightarrow> bytes \<Rightarrow> chan_err + bytes option \<times> bytes" where
  "hs_loop 0 certs inp = Inl TooManyHandshakeCells"
| "hs_loop (Suc n) certs inp =
     (case readCell CircIDLenWide inp of
        Inl e \<Rightarrow> Inl (ChanRead e)
      | Inr (c, rest) \<Rightarrow>
        if cmd c = CmdCerts then hs_loop n (Some (payload c)) rest
        else if cmd c = CmdNetinfo then Inr (certs, rest)
        else hs_loop n certs rest)"

definition handshake ::
  "crypto \<Rightarrow> string \<Rightarrow> bytes option \<Rightarrow> bytes option \<Rightarrow> int \<Rightarrow> conn \<Rightarrow> chan_err + (u16 \<times> bytes) \<times> conn" where
  "handshake K addr expectedEd tlsLeaf now cn =
     (case writeCell CircIDLenShort \<lparr>circID = 0, cmd = CmdVersions, payload = encodeVersions supportedLinkVersions\<rparr> cn of
        (Some e, cn1) \<Rightarrow> Inl e
      | (None, cn1) \<Rightarrow>
        (case readCell CircIDLenShort (cin cn1) of
           Inl e \<Rightarrow> Inl (ChanRead e)
         | Inr (verCell, rest) \<Rightarrow>
           if cmd verCell \<noteq> CmdVersions then Inl ExpectedVersions
           else bindE (negotiateVersion (payload verCell)) (\<lambda>v.
             bindE (hs_loop maxHandshakeCells None rest) (\<lambda>(certs, rest).
               case certs of
                 None \<Rightarrow> Inl NoCerts
               | Some certsPayload \<Rightarrow>
                 (case tlsLeaf of
                    None \<Rightarrow> Inl NoTLSPeerCert
                  | Some der \<Rightarrow>
                    (case verifyCerts K certsPayload der now of
                       Inl e \<Rightarrow> Inl (CertErr e)
                     | Inr identity \<Rightarrow>
                       if expectedEd \<noteq> None \<and> expectedEd \<noteq> Some identity then Inl IdentityMismatch
                       else (case writeCell CircIDLenWide \<lparr>circID = 0, cmd = CmdNetinfo,
                                    payload = encodeClientNetinfo addr now\<rparr> (cn1\<lparr>cin := rest\<rparr>) of
                               (Some e, _) \<Rightarrow> Inl e
                             | (None, cn2) \<Rightarrow> Inr ((v, identity), cn2))))))))"

section \<open>The running channel\<close>

record circEntry =
  inbox :: "cell list"
  edone :: bool

text \<open>The table is an association list with one pair per identifier.\<close>

record channel =
  chCircuits :: "(u32 \<times> nat) list"
  chEntries :: "circEntry list"
  chClosed :: bool
  chCloseErr :: "chan_err option"
  chDone :: bool

definition channel_new :: channel where
  "channel_new = \<lparr>chCircuits = [], chEntries = [], chClosed = False, chCloseErr = None, chDone = False\<rparr>"

text \<open>\<^verbatim>\<open>AllocCircuit\<close> on the random numbers \<open>rnd\<close>; with none left it is still drawing.\<close>

fun AllocCircuit :: "u32 list \<Rightarrow> channel \<Rightarrow> (chan_err option + u32 \<times> nat) option \<times> channel" where
  "AllocCircuit rnd ch =
     (if chClosed ch then (Some (Inl (chCloseErr ch)), ch)
      else case rnd of
             [] \<Rightarrow> (None, ch)
           | x # rnd' \<Rightarrow>
             let i = x OR 0x80000000 in
             if map_of (chCircuits ch) i \<noteq> None then AllocCircuit rnd' ch
             else (Some (Inr (i, length (chEntries ch))),
                   ch\<lparr>chEntries := chEntries ch @ [\<lparr>inbox = [], edone = False\<rparr>],
                      chCircuits := (i, length (chEntries ch)) # chCircuits ch\<rparr>))"

declare AllocCircuit.simps [simp del]

definition close_entry :: "nat \<Rightarrow> channel \<Rightarrow> channel" where
  "close_entry e ch = ch\<lparr>chEntries := (chEntries ch)[e := (chEntries ch ! e)\<lparr>edone := True\<rparr>]\<rparr>"

definition FreeCircuit :: "u32 \<Rightarrow> channel \<Rightarrow> channel" where
  "FreeCircuit i ch =
     (case map_of (chCircuits ch) i of
        None \<Rightarrow> ch
      | Some e \<Rightarrow> close_entry e (ch\<lparr>chCircuits := filter (\<lambda>p. fst p \<noteq> i) (chCircuits ch)\<rparr>))"

text \<open>One round of \<^verbatim>\<open>readLoop\<close> with a cell that was read; \<open>None\<close> while the circuit's inbox is full.\<close>

definition readLoop_cell :: "cell \<Rightarrow> channel \<Rightarrow> channel option" where
  "readLoop_cell c ch =
     (if circID c = 0 then Some ch
      else case map_of (chCircuits ch) (circID c) of
             None \<Rightarrow> Some ch
           | Some e \<Rightarrow>
             let ent = chEntries ch ! e in
             if edone ent then Some ch
             else if length (inbox ent) < circuitInboxDepth
             then Some (ch\<lparr>chEntries := (chEntries ch)[e := ent\<lparr>inbox := inbox ent @ [c]\<rparr>]\<rparr>)
             else None)"

definition failAll :: "chan_err \<Rightarrow> channel \<Rightarrow> channel" where
  "failAll err ch =
     (if chClosed ch then ch
      else (fold (\<lambda>p. close_entry (snd p)) (chCircuits ch) ch)
             \<lparr>chClosed := True, chCloseErr := Some err, chDone := True, chCircuits := []\<rparr>)"

definition channel_Close :: "channel \<Rightarrow> channel" where
  "channel_Close ch = failAll ChanClosed ch"

text \<open>\<^verbatim>\<open>readLoop\<close>: cells are read off the connection and routed until a read fails.  The result is
  \<open>None\<close> when a full inbox blocks the loop.\<close>

lemma readCell_shorter:
  "readCell CircIDLenWide inp = Inr (c, rest) \<Longrightarrow> length rest < length inp"
  using readCell_consumes [of CircIDLenWide inp c rest] by (auto simp: cell_Encode_eq Let_def)

function readLoop :: "bytes \<Rightarrow> channel \<Rightarrow> channel option" where
  "readLoop inp ch =
     (case readCell CircIDLenWide inp of
        Inl e \<Rightarrow> Some (failAll (ChanRead e) ch)
      | Inr (c, rest) \<Rightarrow>
        (case readLoop_cell c ch of
           None \<Rightarrow> None
         | Some ch' \<Rightarrow> readLoop rest ch'))"
  by pat_completeness auto
termination
  by (relation "measure (\<lambda>(inp, ch). length inp)") (auto dest: readCell_shorter)

declare readLoop.simps [simp del]

section \<open>Invariant\<close>

definition chan_wf :: "channel \<Rightarrow> bool" where
  "chan_wf ch \<longleftrightarrow>
     distinct (map fst (chCircuits ch)) \<and> distinct (map snd (chCircuits ch)) \<and>
     (\<forall>p \<in> set (chCircuits ch). bit (fst p) 31 \<and> snd p < length (chEntries ch)) \<and>
     (\<forall>e < length (chEntries ch). edone (chEntries ch ! e) \<longleftrightarrow> e \<notin> snd ` set (chCircuits ch)) \<and>
     (\<forall>e < length (chEntries ch). length (inbox (chEntries ch ! e)) \<le> circuitInboxDepth) \<and>
     (chDone ch = chClosed ch) \<and> (chClosed ch \<longrightarrow> chCircuits ch = [])"

lemma chan_wf_new [simp]: "chan_wf channel_new"
  by (simp add: chan_wf_def channel_new_def)

lemma msb_set: "bit (x OR 0x80000000 :: u32) 31"
  by (simp add: bit_or_iff)

lemma AllocCircuit_fresh:
  "AllocCircuit rnd ch = (Some (Inr (i, e)), ch') \<Longrightarrow>
   \<not> chClosed ch \<and> bit i 31 \<and> i \<notin> fst ` set (chCircuits ch) \<and> e = length (chEntries ch) \<and>
   ch' = ch\<lparr>chEntries := chEntries ch @ [\<lparr>inbox = [], edone = False\<rparr>], chCircuits := (i, e) # chCircuits ch\<rparr>"
proof (induction rnd)
  case Nil
  then show ?case by (auto simp: AllocCircuit.simps [of "[]"] split: if_splits)
next
  case (Cons x rnd)
  then show ?case
    using msb_set [of x]
    by (auto simp: AllocCircuit.simps [of "x # rnd"] Let_def map_of_eq_None_iff image_iff split: if_splits)
qed

lemma AllocCircuit_other:
  "AllocCircuit rnd ch = (res, ch') \<Longrightarrow> (\<And>i e. res \<noteq> Some (Inr (i, e))) \<Longrightarrow> ch' = ch"
  by (induction rnd)
     (auto simp: AllocCircuit.simps [of "[]"] AllocCircuit.simps [of "_ # _"] Let_def split: if_splits)

text \<open>Among random numbers of which one is unused, an identifier is found.\<close>

lemma AllocCircuit_succeeds:
  "\<not> chClosed ch \<Longrightarrow> \<exists>x \<in> set rnd. x OR 0x80000000 \<notin> fst ` set (chCircuits ch) \<Longrightarrow>
   \<exists>i e ch'. AllocCircuit rnd ch = (Some (Inr (i, e)), ch')"
  by (induction rnd) (auto simp: AllocCircuit.simps [of "_ # _"] Let_def map_of_eq_None_iff)

lemma chan_wf_Alloc [tor_inv]:
  assumes "chan_wf ch" "AllocCircuit rnd ch = (res, ch')"
  shows "chan_wf ch'"
proof (cases "\<exists>i e. res = Some (Inr (i, e))")
  case True
  then obtain i e where "res = Some (Inr (i, e))" by blast
  with AllocCircuit_fresh [of rnd ch i e ch'] assms show ?thesis
    by (auto simp: chan_wf_def nth_append image_iff less_Suc_eq)
next
  case False
  with AllocCircuit_other [OF assms(2)] assms(1) show ?thesis by blast
qed

lemma chan_wf_Free [tor_inv]: "chan_wf ch \<Longrightarrow> chan_wf (FreeCircuit i ch)"
proof (cases "map_of (chCircuits ch) i")
  case (Some e)
  assume wf: "chan_wf ch"
  have mem: "(i, e) \<in> set (chCircuits ch)" using Some by (rule map_of_SomeD)
  have uniq: "p \<in> set (chCircuits ch) \<Longrightarrow> snd p = e \<Longrightarrow> p = (i, e)" for p
    using wf mem by (metis chan_wf_def distinct_map inj_on_eq_iff snd_conv)
  have keys: "(i, x) \<in> set (chCircuits ch) \<Longrightarrow> x = e" for x
    using Some wf by (metis chan_wf_def map_of_is_SomeI option.inject)
  have img: "snd ` set (filter (\<lambda>p. fst p \<noteq> i) (chCircuits ch)) = snd ` set (chCircuits ch) - {e}"
  proof -
    have "fst p \<noteq> i \<longleftrightarrow> snd p \<noteq> e" if "p \<in> set (chCircuits ch)" for p
      using that uniq [OF that] keys by (metis fst_conv prod.collapse snd_conv)
    then show ?thesis by auto
  qed
  show ?thesis
    using wf Some img
    by (auto simp: FreeCircuit_def chan_wf_def close_entry_def nth_list_update distinct_map_filter)
qed (simp add: FreeCircuit_def)

lemma close_all:
  assumes "\<forall>p \<in> set ps. snd p < length (chEntries ch)"
  shows "let ch' = fold (\<lambda>p. close_entry (snd p)) ps ch in
    chCircuits ch' = chCircuits ch \<and> length (chEntries ch') = length (chEntries ch) \<and>
    chClosed ch' = chClosed ch \<and> chDone ch' = chDone ch \<and>
    (\<forall>e < length (chEntries ch). chEntries ch' ! e =
       (if e \<in> snd ` set ps then (chEntries ch ! e)\<lparr>edone := True\<rparr> else chEntries ch ! e))"
  using assms
proof (induction ps arbitrary: ch)
  case (Cons p ps)
  have l: "\<forall>q \<in> set ps. snd q < length (chEntries (close_entry (snd p) ch))"
    using Cons.prems by (simp add: close_entry_def)
  show ?case
    using Cons.IH [OF l] Cons.prems
    by (auto simp: Let_def close_entry_def nth_list_update)
qed simp

lemma failAll_closes:
  assumes "chan_wf ch"
  shows "chClosed (failAll err ch) \<and> chCircuits (failAll err ch) = [] \<and>
    length (chEntries (failAll err ch)) = length (chEntries ch) \<and>
    (\<forall>e < length (chEntries ch). edone (chEntries (failAll err ch) ! e) \<and>
       inbox (chEntries (failAll err ch) ! e) = inbox (chEntries ch ! e))"
proof (cases "chClosed ch")
  case True
  then show ?thesis using assms by (simp add: failAll_def chan_wf_def)
next
  case False
  let ?ch = "fold (\<lambda>p. close_entry (snd p)) (chCircuits ch) ch"
  have "\<forall>p \<in> set (chCircuits ch). snd p < length (chEntries ch)" using assms by (simp add: chan_wf_def)
  note ca = close_all [OF this, unfolded Let_def]
  have "edone (chEntries ?ch ! e) \<and> inbox (chEntries ?ch ! e) = inbox (chEntries ch ! e)"
    if "e < length (chEntries ch)" for e
    using ca that assms by (cases "e \<in> snd ` set (chCircuits ch)") (simp_all add: chan_wf_def)
  then show ?thesis using ca False by (simp add: failAll_def)
qed

lemma chan_wf_failAll [tor_inv]: "chan_wf ch \<Longrightarrow> chan_wf (failAll err ch)"
proof -
  assume wf: "chan_wf ch"
  have "chDone (failAll err ch) = chClosed (failAll err ch)" using wf by (simp add: failAll_def chan_wf_def)
  with failAll_closes [OF wf, of err] wf show ?thesis by (simp add: chan_wf_def)
qed

lemma chan_wf_push:
  assumes "chan_wf ch" "length (inbox (chEntries ch ! e)) < circuitInboxDepth"
  shows "chan_wf (ch\<lparr>chEntries := (chEntries ch)[e := (chEntries ch ! e)\<lparr>inbox := inbox (chEntries ch ! e) @ [c]\<rparr>]\<rparr>)"
proof -
  let ?es = "(chEntries ch)[e := (chEntries ch ! e)\<lparr>inbox := inbox (chEntries ch ! e) @ [c]\<rparr>]"
  have "edone (?es ! k) = edone (chEntries ch ! k)" "length (inbox (?es ! k)) \<le> circuitInboxDepth"
    if "k < length (chEntries ch)" for k
    using that assms by (cases "k = e"; simp add: chan_wf_def)+
  then show ?thesis using assms(1) by (simp add: chan_wf_def)
qed

lemma chan_wf_readLoop_cell [tor_inv]:
  assumes "chan_wf ch" "readLoop_cell c ch = Some ch'"
  shows "chan_wf ch'"
proof (cases "map_of (chCircuits ch) (circID c)")
  case (Some e)
  show ?thesis
    using assms Some chan_wf_push [OF assms(1), of e c]
    by (simp add: readLoop_cell_def Let_def split: if_splits)
qed (use assms in \<open>simp add: readLoop_cell_def split: if_splits\<close>)

text \<open>A routed cell is appended to the inbox of its own circuit and of no other.\<close>

lemma readLoop_cell_routes:
  assumes "chan_wf ch" "readLoop_cell c ch = Some ch'" "e < length (chEntries ch)"
  shows "inbox (chEntries ch' ! e) = inbox (chEntries ch ! e) @
    (if circID c \<noteq> 0 \<and> map_of (chCircuits ch) (circID c) = Some e then [c] else [])"
    and "length (chEntries ch') = length (chEntries ch)" and "chCircuits ch' = chCircuits ch"
proof -
  have nd: "map_of (chCircuits ch) i = Some e' \<Longrightarrow> \<not> edone (chEntries ch ! e')" for i e'
    using assms(1) map_of_SomeD [of "chCircuits ch" i e'] unfolding chan_wf_def by (metis image_eqI snd_conv)
  show "inbox (chEntries ch' ! e) = inbox (chEntries ch ! e) @
      (if circID c \<noteq> 0 \<and> map_of (chCircuits ch) (circID c) = Some e then [c] else [])"
    and "length (chEntries ch') = length (chEntries ch)" and "chCircuits ch' = chCircuits ch"
    using assms(2,3) nd
    by (auto simp: readLoop_cell_def Let_def nth_list_update split: if_splits option.splits)
qed

lemma chan_wf_readLoop [tor_inv]: "readLoop inp ch = Some ch' \<Longrightarrow> chan_wf ch \<Longrightarrow> chan_wf ch' \<and> chClosed ch'"
proof (induction inp ch rule: readLoop.induct)
  case (1 inp ch)
  show ?case
  proof (cases "readCell CircIDLenWide inp")
    case (Inl e)
    then show ?thesis
      using 1(2,3) chan_wf_failAll [OF 1(3)] failAll_closes [OF 1(3)]
      by (auto simp: readLoop.simps [of inp])
  next
    case (Inr x)
    obtain c rest where x: "x = (c, rest)" by (cases x)
    obtain ch1 where c1: "readLoop_cell c ch = Some ch1" "readLoop rest ch1 = Some ch'"
      using 1(2) Inr by (auto simp: x readLoop.simps [of inp] split: option.splits)
    show ?thesis
      using 1(1) [OF Inr [unfolded x] refl c1(1) c1(2)] chan_wf_readLoop_cell [OF 1(3) c1(1)] by simp
  qed
qed

section \<open>Identifiers\<close>

interpretation chan_ids: id_pool "\<lambda>ch. fst ` set (chCircuits ch)" chan_wf
    "\<lambda>ch i ch'. \<exists>rnd e. AllocCircuit rnd ch = (Some (Inr (i, e)), ch')" FreeCircuit
proof
  fix ch ch' i
  assume wf: "chan_wf ch" and a: "\<exists>rnd e. AllocCircuit rnd ch = (Some (Inr (i, e)), ch')"
  then obtain rnd e where "AllocCircuit rnd ch = (Some (Inr (i, e)), ch')" by blast
  from AllocCircuit_fresh [OF this]
  show "i \<notin> fst ` set (chCircuits ch) \<and> fst ` set (chCircuits ch') = insert i (fst ` set (chCircuits ch))"
    by simp
  show "chan_wf ch'" using a chan_wf_Alloc [OF wf] by blast
next
  fix ch i assume wf: "chan_wf ch"
  show "fst ` set (chCircuits (FreeCircuit i ch)) = fst ` set (chCircuits ch) - {i}"
  proof (cases "map_of (chCircuits ch) i")
    case None
    moreover have "i \<notin> fst ` set (chCircuits ch)" using None by (simp add: map_of_eq_None_iff)
    ultimately show ?thesis by (simp add: FreeCircuit_def)
  qed (auto simp: FreeCircuit_def close_entry_def)
  show "chan_wf (FreeCircuit i ch)" by (rule chan_wf_Free [OF wf])
qed

section \<open>Handshake\<close>

lemma hs_loop_bound:
  "hs_loop n certs inp = Inr (certs', rest) \<Longrightarrow>
   \<exists>cs c. length cs < n \<and> cmd c = CmdNetinfo \<and> (\<forall>x \<in> set cs. cmd x \<noteq> CmdNetinfo) \<and>
     inp = concat (map (cell_Encode CircIDLenWide) (cs @ [c])) @ rest \<and>
     certs' = fold (\<lambda>x acc. if cmd x = CmdCerts then Some (payload x) else acc) cs certs"
proof (induction n arbitrary: certs inp)
  case (Suc n)
  from Suc.prems obtain c r where c: "readCell CircIDLenWide inp = Inr (c, r)"
    by (auto split: sum.splits)
  then have i: "inp = cell_Encode CircIDLenWide c @ r" using readCell_consumes(2) [OF _ c] by simp
  show ?case
  proof (cases "cmd c = CmdNetinfo")
    case True
    then show ?thesis using Suc.prems c i by (intro exI [of _ "[]"] exI [of _ c]) auto
  next
    case False
    let ?certs = "if cmd c = CmdCerts then Some (payload c) else certs"
    have "hs_loop n ?certs r = Inr (certs', rest)" using Suc.prems c False by (auto split: if_splits)
    from Suc.IH [OF this] obtain cs d where "length cs < n" "cmd d = CmdNetinfo" "\<forall>x \<in> set cs. cmd x \<noteq> CmdNetinfo"
      "r = concat (map (cell_Encode CircIDLenWide) (cs @ [d])) @ rest"
      "certs' = fold (\<lambda>x acc. if cmd x = CmdCerts then Some (payload x) else acc) cs ?certs"
      by blast
    then show ?thesis using False i by (intro exI [of _ "c # cs"] exI [of _ d]) auto
  qed
qed simp

lemma read_versions_enc:
  "reader_wf r \<Longrightarrow> reader_abs r = Some (concat (map be16 vs) @ rest) \<Longrightarrow> length rest < 2 \<Longrightarrow> read_versions r = vs"
proof (induction vs arbitrary: r)
  case Nil
  then show ?case
    by (auto simp: read_versions.simps [of r] rRemaining_def reader_abs_def reader_wf_def split: if_splits)
next
  case (Cons v vs)
  have a: "fst (rU16 r) = v" "reader_abs (snd (rU16 r)) = Some (concat (map be16 vs) @ rest)"
    using abs_rU16 [OF Cons.prems(1), of "be16 v" "concat (map be16 vs) @ rest"] Cons.prems(2) by simp_all
  have "length (rbuf r) - rpos r = 2 + length (concat (map be16 vs) @ rest)" "\<not> rerr r"
    using Cons.prems(2) by (auto simp: reader_abs_def split: if_splits dest!: arg_cong [where f = length])
  then have "rRemaining r \<ge> 2" by (simp add: rRemaining_def)
  then show ?case
    using Cons.IH [OF _ a(2) Cons.prems(3)] Cons.prems(1) a(1) \<open>\<not> rerr r\<close>
    by (simp add: read_versions.simps [of r])
qed

lemma wBytes_versions: "wBytes (foldl (\<lambda>w v. wU16 v w) w vs) = wBytes w @ concat (map be16 vs)"
  by (induction vs arbitrary: w) simp_all

lemma negotiate_encoded:
  "negotiateVersion (encodeVersions vs) =
     (if 5 \<in> set vs then Inr 5 else if 4 \<in> set vs then Inr 4 else Inl NoCommonVersion)"
proof -
  have "read_versions (newReader (encodeVersions vs)) = vs"
    by (rule read_versions_enc [of _ _ "[]"]) (simp_all add: encodeVersions_def wBytes_versions)
  then show ?thesis by (simp add: negotiateVersion_def supportedLinkVersions_def)
qed

lemma writeCell_in [simp]: "writeCell n c cn = (e, cn') \<Longrightarrow> cin cn' = cin cn"
  by (auto simp: writeCell_def Let_def split: option.splits if_splits)

lemma handshake_sound:
  assumes "handshake K addr expectedEd tlsLeaf now cn = Inr ((v, ident), cn')"
  obtains verCell cs netinfo certsPayload der where
    "cin cn = cell_Encode CircIDLenShort verCell @ concat (map (cell_Encode CircIDLenWide) (cs @ [netinfo])) @ cin cn'"
    "cmd verCell = CmdVersions" "negotiateVersion (payload verCell) = Inr v"
    "length cs < maxHandshakeCells" "cmd netinfo = CmdNetinfo" "\<forall>x \<in> set cs. cmd x \<noteq> CmdNetinfo"
    "fold (\<lambda>x acc. if cmd x = CmdCerts then Some (payload x) else acc) cs None = Some certsPayload"
    "tlsLeaf = Some der" "verifyCerts K certsPayload der now = Inr ident"
    "expectedEd = None \<or> expectedEd = Some ident"
proof -
  obtain cn1 where w1: "writeCell CircIDLenShort
      \<lparr>circID = 0, cmd = CmdVersions, payload = encodeVersions supportedLinkVersions\<rparr> cn = (None, cn1)"
    using assms by (auto simp: handshake_def split: prod.splits option.splits)
  obtain verCell rest where r1: "readCell CircIDLenShort (cin cn) = Inr (verCell, rest)" "cmd verCell = CmdVersions"
    using assms w1 by (auto simp: handshake_def split: sum.splits if_splits)
  obtain v' where n: "negotiateVersion (payload verCell) = Inr v'"
    using assms w1 r1 by (auto simp: handshake_def bindE_eq_Inr)
  obtain certs rest2 where l: "hs_loop maxHandshakeCells None rest = Inr (certs, rest2)"
    using assms w1 r1 n by (auto simp: handshake_def bindE_eq_Inr simp del: hs_loop.simps)
  obtain certsPayload der ident' where p: "certs = Some certsPayload" "tlsLeaf = Some der"
      "verifyCerts K certsPayload der now = Inr ident'" "expectedEd = None \<or> expectedEd = Some ident'"
    using assms w1 r1 n l
    by (auto simp: handshake_def simp del: hs_loop.simps split: option.splits sum.splits if_splits)
  obtain cn2 where w2: "writeCell CircIDLenWide \<lparr>circID = 0, cmd = CmdNetinfo,
      payload = encodeClientNetinfo addr now\<rparr> (cn1\<lparr>cin := rest2\<rparr>) = (None, cn2)"
    using assms w1 r1 n l p
    by (auto simp: handshake_def simp del: hs_loop.simps split: option.splits prod.splits if_splits)
  have fin: "v' = v" "ident' = ident" "cn2 = cn'"
    using assms w1 r1 n l p w2 by (auto simp: handshake_def simp del: hs_loop.simps split: if_splits)
  have i1: "cin cn = cell_Encode CircIDLenShort verCell @ rest"
    using readCell_consumes(2) [OF _ r1(1)] by simp
  have c2: "cin cn' = rest2" using writeCell_in [OF w2] fin by simp
  from hs_loop_bound [OF l] obtain cs c where cs: "length cs < maxHandshakeCells" "cmd c = CmdNetinfo"
    "\<forall>x \<in> set cs. cmd x \<noteq> CmdNetinfo" "rest = concat (map (cell_Encode CircIDLenWide) (cs @ [c])) @ rest2"
    "certs = fold (\<lambda>x acc. if cmd x = CmdCerts then Some (payload x) else acc) cs None"
    by blast
  show thesis
    by (rule that [OF _ r1(2) n [unfolded fin] cs(1-3) _ p(2) p(3) [unfolded fin] p(4) [unfolded fin]])
       (simp_all add: i1 cs(4) c2 cs(5) [symmetric] p(1))
qed

text \<open>An honest relay, which answers with VERSIONS, CERTS and NETINFO, is accepted.\<close>

lemma hs_loop_honest:
  assumes "cell_wf c" "cmd c = CmdCerts" "cell_wf n" "cmd n = CmdNetinfo"
  shows "hs_loop (Suc (Suc k)) x (cell_Encode CircIDLenWide c @ cell_Encode CircIDLenWide n @ rest)
    = Inr (Some (payload c), rest)"
  using link.dec_enc [OF assms(1)] link.dec_enc [OF assms(3)] assms(2,4) by simp

lemma handshake_complete:
  assumes "cin cn = cell_Encode CircIDLenShort \<lparr>circID = 0, cmd = CmdVersions, payload = encodeVersions vs\<rparr> @
      cell_Encode CircIDLenWide \<lparr>circID = 0, cmd = CmdCerts, payload = cp\<rparr> @
      cell_Encode CircIDLenWide \<lparr>circID = 0, cmd = CmdNetinfo, payload = np\<rparr> @ rest"
    and "cquota cn = None" "5 \<in> set vs" "length vs \<le> 1000" "length cp \<le> MaxVariableBody" "length np = PayloadLen"
    and "verifyCerts K cp der now = Inr ident" "expectedEd = None \<or> expectedEd = Some ident"
  shows "\<exists>cn'. handshake K addr expectedEd (Some der) now cn = Inr ((5, ident), cn') \<and> cin cn' = rest"
proof -
  let ?v = "\<lparr>circID = 0, cmd = CmdVersions, payload = encodeVersions vs\<rparr>"
  let ?rest = "cell_Encode CircIDLenWide \<lparr>circID = 0, cmd = CmdCerts, payload = cp\<rparr> @
      cell_Encode CircIDLenWide \<lparr>circID = 0, cmd = CmdNetinfo, payload = np\<rparr> @ rest"
  have lv: "length (encodeVersions vs) = 2 * length vs"
    by (simp add: encodeVersions_def wBytes_versions length_concat comp_def sum_list_triv)
  have r: "readCell CircIDLenShort (cin cn) = Inr (?v, ?rest)"
    using readCell_Encode [of CircIDLenShort ?v ?rest] assms(1,4) lv by (simp add: on_wire_def isVariable_def)
  have "hs_loop (Suc (Suc 62)) None ?rest = Inr (Some cp, rest)"
    using hs_loop_honest [of "\<lparr>circID = 0, cmd = CmdCerts, payload = cp\<rparr>" "\<lparr>circID = 0, cmd = CmdNetinfo, payload = np\<rparr>" 62 None rest]
      assms(5,6) by (simp add: cell_wf_def isVariable_def del: hs_loop.simps)
  moreover have "Suc (Suc 62) = maxHandshakeCells" by simp
  ultimately have l: "hs_loop maxHandshakeCells None ?rest = Inr (Some cp, rest)" by metis
  have n: "negotiateVersion (encodeVersions vs) = Inr 5" using assms(3) by (simp add: negotiate_encoded)
  show ?thesis
    using r l n assms(2,7,8)
    by (auto simp: handshake_def writeCell_def Let_def simp del: hs_loop.simps)
qed

section \<open>Properties\<close>

text \<open>When the handshake succeeds the relay sent VERSIONS and then, within 64 cells, NETINFO; the
  version is the highest of 5 and 4 that it offered; and the identity it is given is the expected
  one, verified from its last CERTS cell against the TLS certificate of this connection.\<close>

theorem handshake_authenticates:
  assumes "handshake K addr expectedEd tlsLeaf now cn = Inr ((v, ident), cn')"
  shows "\<exists>verCell cs netinfo certsPayload der.
    cin cn = cell_Encode CircIDLenShort verCell @ concat (map (cell_Encode CircIDLenWide) (cs @ [netinfo])) @ cin cn' \<and>
    cmd verCell = CmdVersions \<and> cmd netinfo = CmdNetinfo \<and> length cs < 64 \<and>
    (v = 5 \<or> v = 4) \<and> v \<in> set (read_versions (newReader (payload verCell))) \<and>
    (v = 4 \<longrightarrow> 5 \<notin> set (read_versions (newReader (payload verCell)))) \<and>
    fold (\<lambda>x acc. if cmd x = CmdCerts then Some (payload x) else acc) cs None = Some certsPayload \<and>
    tlsLeaf = Some der \<and> verifyCerts K certsPayload der now = Inr ident \<and>
    (expectedEd = None \<or> expectedEd = Some ident)"
proof -
  have nv: "negotiateVersion p = Inr v \<Longrightarrow> (v = 5 \<or> v = 4) \<and> v \<in> set (read_versions (newReader p)) \<and>
      (v = 4 \<longrightarrow> 5 \<notin> set (read_versions (newReader p)))" for p
    by (auto simp: negotiateVersion_def supportedLinkVersions_def Let_def split: if_splits)
  show ?thesis
    by (rule handshake_sound [OF assms]) (use nv in blast)
qed

text \<open>A small CERTS cell for the toy primitives.\<close>

definition toy_cert :: "byte \<Rightarrow> bytes \<Rightarrow> edExtension list \<Rightarrow> bytes \<Rightarrow> ed25519Cert" where
  "toy_cert t key exts signer =
     (let c = \<lparr>certType = t, expiration = 10, keyType = 1, certifiedKey = key, extensions = exts, signature = [], signedPart = []\<rparr>
      in c\<lparr>signature := replicate 64 (toy_sum signer + toy_sum (cert_body c)), signedPart := cert_body c\<rparr>)"

lemma toy_cert_simps [simp]:
  "certType (toy_cert t key exts signer) = t" "certifiedKey (toy_cert t key exts signer) = key"
  "expiration (toy_cert t key exts signer) = 10" "keyType (toy_cert t key exts signer) = 1"
  "extensions (toy_cert t key exts signer) = exts"
  "signedPart (toy_cert t key exts signer) = cert_body (toy_cert t key exts signer)"
  "ed25519_verify toy_crypto signer (cert_body (toy_cert t key exts signer)) (signature (toy_cert t key exts signer))"
  "length (signature (toy_cert t key exts signer)) = 64"
  by (simp_all add: toy_cert_def Let_def cert_body_def toy_crypto_def)

lemma toy_certs_verify:
  "\<exists>cp. length cp \<le> MaxVariableBody \<and> verifyCerts toy_crypto cp [9] 0 = Inr (replicate 32 1)"
proof -
  let ?ident = "replicate 32 1 :: bytes" and ?sk = "replicate 32 2 :: bytes"
  define sc where "sc = toy_cert 4 ?sk [\<lparr>extTyp = 4, extFlags = 0, extData = ?ident\<rparr>] ?ident"
  define lc where "lc = toy_cert 5 (sha256_prim toy_crypto [9]) [] ?sk"
  define es where "es = [(4 :: byte, cert_body sc @ signature sc), (5, cert_body lc @ signature lc)]"
  have ls: "length (cert_body sc @ signature sc) = 140" "length (cert_body lc @ signature lc) = 104"
    by (simp_all add: sc_def lc_def cert_body_def ext_bytes_def)
  have wf: "cert_wf sc" "cert_wf lc" by (simp_all add: cert_wf_def sc_def lc_def)
  define cp where "cp = [of_nat (length es)] @ concat (map cert_entry es) @ []"
  have lens: "\<forall>e \<in> set es. length (snd e) < 65536" using ls by (auto simp: es_def)
  have pc: "parseCertsCell cp = Inr (map_of (rev es))"
    unfolding cp_def by (rule parseCertsCell_enc) (use lens in \<open>simp_all add: es_def\<close>)
  have "identity_chain toy_crypto (cert_body sc @ signature sc) (cert_body lc @ signature lc) [9] ?ident 0"
    unfolding identity_chain_def
    by (intro exI [of _ sc] exI [of _ lc] conjI wf refl) (simp_all add: sc_def lc_def expiryNanos_def)
  then have "verifyCerts toy_crypto cp [9] 0 = Inr ?ident"
    using pc by (subst verifyCerts_iff) (auto simp: es_def)
  moreover have "length cp \<le> MaxVariableBody"
    using ls by (simp add: cp_def es_def cert_entry_def)
  ultimately show ?thesis by blast
qed

theorem handshake_authenticates_witness:
  "\<exists>cn v cn' cp. handshake toy_crypto [] (Some (replicate 32 1)) (Some [9]) 0 cn = Inr ((v, replicate 32 1), cn') \<and>
     (v = 5 \<or> v = 4) \<and> verifyCerts toy_crypto cp [9] 0 = Inr (replicate 32 1)"
proof -
  obtain cp where cp: "length cp \<le> MaxVariableBody" "verifyCerts toy_crypto cp [9] 0 = Inr (replicate 32 1)"
    using toy_certs_verify by blast
  define cn where "cn = \<lparr>cin = cell_Encode CircIDLenShort \<lparr>circID = 0, cmd = CmdVersions, payload = encodeVersions [3, 4, 5]\<rparr> @
      cell_Encode CircIDLenWide \<lparr>circID = 0, cmd = CmdCerts, payload = cp\<rparr> @
      cell_Encode CircIDLenWide \<lparr>circID = 0, cmd = CmdNetinfo, payload = replicate PayloadLen 0\<rparr> @ [], cout = [], cquota = None\<rparr>"
  obtain cn' where h: "handshake toy_crypto [] (Some (replicate 32 1)) (Some [9]) 0 cn = Inr ((5, replicate 32 1), cn')"
    using handshake_complete [of cn "[3, 4, 5]" cp "replicate PayloadLen 0" "[]" toy_crypto "[9]" 0 "replicate 32 1" "Some (replicate 32 1)" "[]"]
      cp by (auto simp: cn_def)
  from handshake_authenticates [OF h] h cp(2) show ?thesis by blast
qed

text \<open>The channel's table and its circuits stay consistent: identifiers have their top bit set
  and are unique, an entry is in the table exactly as long as its \<^verbatim>\<open>done\<close> channel is open (so it is
  closed once), inboxes hold at most 256 cells; a cell read from the link goes to the inbox of the
  circuit it names and no other; and a read error closes every circuit of the channel.\<close>

theorem channel_consistent:
  assumes "chan_wf ch"
  shows "(\<forall>rnd. chan_wf (snd (AllocCircuit rnd ch))) \<and> (\<forall>i. chan_wf (FreeCircuit i ch)) \<and>
    (\<forall>err. chan_wf (failAll err ch)) \<and>
    (\<forall>c ch'. readLoop_cell c ch = Some ch' \<longrightarrow> chan_wf ch' \<and>
       (\<forall>e < length (chEntries ch). inbox (chEntries ch' ! e) = inbox (chEntries ch ! e) @
          (if circID c \<noteq> 0 \<and> map_of (chCircuits ch) (circID c) = Some e then [c] else []))) \<and>
    (\<forall>inp ch'. readLoop inp ch = Some ch' \<longrightarrow> chClosed ch' \<and> chCircuits ch' = [] \<and>
       (\<forall>e < length (chEntries ch'). edone (chEntries ch' ! e)))"
proof (intro conjI allI impI)
  show "chan_wf (snd (AllocCircuit rnd ch))" for rnd using chan_wf_Alloc [OF assms] by (metis prod.collapse)
  show "chan_wf ch'" if "readLoop_cell c ch = Some ch'" for c ch' by (rule chan_wf_readLoop_cell [OF assms that])
  fix inp ch' assume "readLoop inp ch = Some ch'"
  note w = chan_wf_readLoop [OF this assms]
  then show "chClosed ch'" by simp
  from w show t: "chCircuits ch' = []" by (simp add: chan_wf_def)
  show "edone (chEntries ch' ! e)" if "e < length (chEntries ch')" for e
    using w that t by (simp add: chan_wf_def)
qed (use chan_wf_Free [OF assms] chan_wf_failAll [OF assms] readLoop_cell_routes(1) [OF assms] in auto)

theorem channel_consistent_witness:
  "chan_wf (FreeCircuit 5 (failAll ChanClosed channel_new)) \<and> chan_wf (failAll ChanClosed channel_new)"
proof -
  have "chan_wf (failAll ChanClosed channel_new)"
    using channel_consistent [OF chan_wf_new] by blast
  with channel_consistent [OF this] show ?thesis by blast
qed

text \<open>However circuits are opened and freed on a channel, no two of them ever hold the same
  identifier, and opening one succeeds as soon as the random numbers drawn include an unused one.\<close>

theorem circuit_ids_never_shared:
  assumes "pool_run (\<lambda>ch i ch'. \<exists>rnd e. AllocCircuit rnd ch = (Some (Inr (i, e)), ch')) FreeCircuit es channel_new ch"
  shows "distinct (held es []) \<and> set (held es []) = fst ` set (chCircuits ch) \<and>
    (\<forall>rnd. \<not> chClosed ch \<and> (\<exists>x \<in> set rnd. x OR 0x80000000 \<notin> set (held es [])) \<longrightarrow>
       (\<exists>i e ch'. AllocCircuit rnd ch = (Some (Inr (i, e)), ch')))"
proof -
  have h: "distinct (held es []) \<and> set (held es []) = fst ` set (chCircuits ch)"
    using chan_ids.run_held [OF assms chan_wf_new, of "[]"] by (simp add: channel_new_def)
  then show ?thesis using AllocCircuit_succeeds [of ch] by simp
qed

theorem circuit_ids_never_shared_witness:
  "\<exists>ch. pool_run (\<lambda>ch i ch'. \<exists>rnd e. AllocCircuit rnd ch = (Some (Inr (i, e)), ch')) FreeCircuit
       [Alloc 0x80000001] channel_new ch \<and> fst ` set (chCircuits ch) = {0x80000001}"
proof -
  have "\<exists>ch'. AllocCircuit [1] channel_new = (Some (Inr (0x80000001, 0)), ch')"
    by (simp add: AllocCircuit.simps channel_new_def)
  then obtain ch' where r: "pool_run (\<lambda>ch i ch'. \<exists>rnd e. AllocCircuit rnd ch = (Some (Inr (i, e)), ch')) FreeCircuit
       [Alloc 0x80000001] channel_new ch'"
    by (simp only: pool_run.simps) blast
  from circuit_ids_never_shared [OF r] r show ?thesis by (intro exI [of _ ch']) simp
qed

end
