(* ===== verification/Turnstile.thy ===== *)
theory Turnstile
  imports Circuit_Flow
begin

text \<open>
  The goroutines of a circuit as a step relation: callers of \<^verbatim>\<open>sendRelay\<close> claim a ticket under
  \<^verbatim>\<open>c.mu\<close> and then wait in \<^verbatim>\<open>writeAtTurn\<close>; the receive loop decrypts under \<^verbatim>\<open>c.mu\<close>, dispatches after
  releasing it, and hands its SENDMEs to goroutines that wait in \<^verbatim>\<open>writeAtTurn\<close> as well.  Each
  step is one section that the code runs under a lock, or the one write whose turn it is.
  Besides the circuit and the link the state records who waits (\<open>waiting\<close>), what the receive loop
  is about to dispatch (\<open>received\<close>), and, as histories, the cells in the order they were encrypted
  (\<open>issued\<close>) with the relay cells they carry (\<open>msgs\<close>), the writes in the order they were made with
  their outcome (\<open>written\<close>) and the states in which the hops were added (\<open>fresh_hops\<close>).
\<close>

record 'l csys =
  circ :: circuit
  lnk :: 'l
  waiting :: "(nat \<times> cell) set"
  received :: "inbound option"
  issued :: "cell list"
  msgs :: "(nat \<times> relay_cell) list"
  written :: "(cell \<times> bool) list"
  fresh_hops :: "hop list"

definition csys_init :: "u32 \<Rightarrow> 'l \<Rightarrow> 'l csys" where
  "csys_init i l = \<lparr>circ = circuit_New i, lnk = l, waiting = {}, received = None, issued = [], msgs = [],
                    written = [], fresh_hops = []\<rparr>"

definition add_claim :: "nat \<times> relay_cell \<Rightarrow> nat \<times> cell \<Rightarrow> 'l csys \<Rightarrow> 'l csys" where
  "add_claim m w s = s\<lparr>waiting := insert w (waiting s), issued := issued s @ [snd w], msgs := msgs s @ [m]\<rparr>"

inductive tstep :: "crypto \<Rightarrow> 'l send_cell \<Rightarrow> 'l csys \<Rightarrow> 'l csys \<Rightarrow> bool" for K snd_cell where
  claim: "sendRelay_claim K d rc early (circ s) = (Inr w, c') \<Longrightarrow>
    tstep K snd_cell s (add_claim (d, rc) w (s\<lparr>circ := c'\<rparr>))"
| refused: "sendRelay_claim K d rc early (circ s) = (Inl e, c') \<Longrightarrow> tstep K snd_cell s (s\<lparr>circ := c'\<rparr>)"
| turn: "(t, cl) \<in> waiting s \<Longrightarrow> writeAtTurn snd_cell t cl (circ s, lnk s) = Some (err, c', l') \<Longrightarrow>
    tstep K snd_cell s (s\<lparr>circ := c', lnk := l', waiting := waiting s - {(t, cl)},
                         written := written s @ [(cl, err = None)]\<rparr>)"
| decrypt: "received s = None \<Longrightarrow> handleRelay_locked K p (circ s) = (m, c') \<Longrightarrow>
    tstep K snd_cell s (s\<lparr>circ := c', received := m\<rparr>)"
| dispatch: "received s = Some m \<Longrightarrow> dispatchRelay K m (circ s) = (None, evs, c') \<Longrightarrow>
    tstep K snd_cell s (s\<lparr>circ := c', received := None\<rparr>)"
| dispatch_sendme: "received s = Some m \<Longrightarrow> dispatchRelay K m (circ s) = (Some w, evs, c') \<Longrightarrow>
    tstep K snd_cell s (add_claim (ihop m, sendme_cell (itag m)) w (s\<lparr>circ := c', received := None\<rparr>))"
| other_cell: "received s = None \<Longrightarrow> cmd raw \<noteq> CmdRelay \<Longrightarrow> cmd raw \<noteq> CmdRelayEarly \<Longrightarrow>
    recvLoop_cell K raw (circ s) = (go, None, evs, c') \<Longrightarrow> tstep K snd_cell s (s\<lparr>circ := c'\<rparr>)"
| link_done: "tstep K snd_cell s (s\<lparr>circ := recvLoop_linkDone (circ s)\<rparr>)"
| hop: "addHop info km (circ s) = (None, c') \<Longrightarrow>
    tstep K snd_cell s (s\<lparr>circ := c', fresh_hops := fresh_hops s @ [last (hops c')]\<rparr>)"
| rend_hop: "AddRendezvousHop df db kf kb (circ s) = (None, c') \<Longrightarrow>
    tstep K snd_cell s (s\<lparr>circ := c', fresh_hops := fresh_hops s @ [last (hops c')]\<rparr>)"
| permit: "takePermit (circ s) = Some c' \<Longrightarrow> tstep K snd_cell s (s\<lparr>circ := c'\<rparr>)"
| credit: "tstep K snd_cell s (s\<lparr>circ := creditPackageWindow n (circ s)\<rparr>)"
| handlers: "tstep K snd_cell s (s\<lparr>circ := SetStreamHandler (circ s)\<rparr>)"
| control: "tstep K snd_cell s (s\<lparr>circ := SetControlHandler (circ s)\<rparr>)"

section \<open>Tickets\<close>

text \<open>The cells claimed and not yet written are exactly the tickets from the turn on.\<close>

definition tickets_inv :: "'l csys \<Rightarrow> bool" where
  "tickets_inv s \<longleftrightarrow>
     sendNext (circ s) = length (issued s) \<and> sendTurn (circ s) \<le> sendNext (circ s) \<and>
     map fst (written s) = take (sendTurn (circ s)) (issued s) \<and>
     waiting s = {(t, issued s ! t) |t. sendTurn (circ s) \<le> t \<and> t < sendNext (circ s)}"

text \<open>The counters of a step that neither claims nor writes.\<close>

definition same_counters :: "circuit \<Rightarrow> circuit \<Rightarrow> bool" where
  "same_counters c c' \<longleftrightarrow> sendNext c' = sendNext c \<and> sendTurn c' = sendTurn c"

lemma same_counters_ops [simp]:
  "same_counters c (circ_fail e c)" "same_counters c (creditPackageWindow n c)"
  "same_counters c (SetStreamHandler c)" "same_counters c (SetControlHandler c)"
  "same_counters c (recvLoop_linkDone c)"
  "takePermit c = Some c' \<Longrightarrow> same_counters c c'"
  "handleRelay_locked K p c = (m, c') \<Longrightarrow> same_counters c c'"
  "addHop info km c = (None, c') \<Longrightarrow> same_counters c c'"
  "AddRendezvousHop df db kf kb c = (None, c') \<Longrightarrow> same_counters c c'"
  "sendRelay_claim K d rc early c = (Inl e', c') \<Longrightarrow> same_counters c c'"
  by (auto simp: same_counters_def circ_fail_def creditPackageWindow_def SetStreamHandler_def
      SetControlHandler_def recvLoop_linkDone_def takePermit_def handleRelay_locked_def
      decryptInboundLocked_def addHop_def AddRendezvousHop_def sendRelay_claim_def case_prod_unfold Let_def
      split: option.splits sum.splits if_splits prod.splits)

lemma dispatch_counters:
  "dispatchRelay K m c = (None, evs, c') \<Longrightarrow> same_counters c c'"
  "dispatchRelay K m c = (Some w, evs, c') \<Longrightarrow>
     fst w = sendNext c \<and> sendNext c' = Suc (sendNext c) \<and> sendTurn c' = sendTurn c"
  by (auto simp: dispatchRelay_def same_counters_def accountInboundData_def circ_fail_def
      creditPackageWindow_def case_prod_unfold Let_def split: if_splits)

lemma other_counters:
  "cmd raw \<noteq> CmdRelay \<Longrightarrow> cmd raw \<noteq> CmdRelayEarly \<Longrightarrow> recvLoop_cell K raw c = (go, None, evs, c') \<Longrightarrow>
   same_counters c c'"
  by (auto simp: recvLoop_cell_def same_counters_def circ_fail_def split: if_splits)

lemma tickets_same:
  "tickets_inv s \<Longrightarrow> same_counters (circ s) c' \<Longrightarrow> waiting s' = waiting s \<Longrightarrow> issued s' = issued s \<Longrightarrow>
   written s' = written s \<Longrightarrow> circ s' = c' \<Longrightarrow> tickets_inv s'"
  by (simp add: tickets_inv_def same_counters_def)

lemma tickets_claim:
  assumes "tickets_inv s" "fst w = sendNext (circ s)" "sendNext c' = Suc (sendNext (circ s))"
    "sendTurn c' = sendTurn (circ s)"
  shows "tickets_inv (add_claim m w (s\<lparr>circ := c', received := r\<rparr>))"
    and "tickets_inv (add_claim m w (s\<lparr>circ := c'\<rparr>))"
  using assms
  by (cases w; fastforce simp: tickets_inv_def add_claim_def nth_append less_Suc_eq)+

lemma tickets_write:
  assumes "tickets_inv s" "(t, cl) \<in> waiting s"
    "writeAtTurn snd_cell t cl (circ s, lnk s) = Some (err, c', l')"
  shows "tickets_inv (s\<lparr>circ := c', lnk := l', waiting := waiting s - {(t, cl)},
    written := written s @ [(cl, err = None)]\<rparr>)"
proof -
  have t: "sendTurn (circ s) = t" "sendTurn c' = Suc t" "sendNext c' = sendNext (circ s)"
    using assms(3)
    by (auto simp: writeAtTurn_def circ_fail_def case_prod_unfold Let_def split: if_splits option.splits)
  have cl: "cl = issued s ! t" "t < length (issued s)" using assms(1,2) by (auto simp: tickets_inv_def)
  have "waiting s - {(t, cl)} = {(u, issued s ! u) |u. Suc t \<le> u \<and> u < sendNext (circ s)}"
    using assms(1) cl t(1) by (auto simp: tickets_inv_def Suc_le_eq order_less_le)
  then show ?thesis
    using assms(1) t cl by (simp add: tickets_inv_def take_Suc_conv_app_nth Suc_le_eq)
qed

lemma tickets_step: "tstep K snd_cell s s' \<Longrightarrow> tickets_inv s \<Longrightarrow> tickets_inv s'"
proof (induction rule: tstep.induct)
  case (claim d rc early s w c')
  then show ?case
    using sendRelay_claim_ticket [of K d rc early "circ s" "fst w" "snd w" c'] by (intro tickets_claim(2)) auto
next
  case (dispatch_sendme s m w evs c')
  then show ?case using dispatch_counters(2) tickets_claim(1) by blast
next
  case (turn t cl s err c' l')
  then show ?case by (intro tickets_write)
qed (auto elim!: tickets_same intro: dispatch_counters other_counters simp: other_counters dispatch_counters)

lemma tickets_init: "tickets_inv (csys_init i l)"
  by (simp add: tickets_inv_def csys_init_def circuit_New_def)

lemma tickets_reachable: "(tstep K snd_cell)\<^sup>*\<^sup>* (csys_init i l) s \<Longrightarrow> tickets_inv s"
  by (induction rule: rtranclp_induct) (auto intro: tickets_init tickets_step)

text \<open>No ticket is stranded: while a cell is unwritten, the write whose turn it is can proceed.\<close>

lemma turn_enabled:
  assumes "tickets_inv s" "sendTurn (circ s) < sendNext (circ s)"
  shows "\<exists>s'. tstep K snd_cell s s' \<and> sendTurn (circ s') = Suc (sendTurn (circ s)) \<and> sendNext (circ s') = sendNext (circ s)"
proof -
  let ?t = "sendTurn (circ s)" and ?cl = "issued s ! sendTurn (circ s)"
  have w: "(?t, ?cl) \<in> waiting s" using assms by (auto simp: tickets_inv_def)
  obtain err c' l' where x: "writeAtTurn snd_cell ?t ?cl (circ s, lnk s) = Some (err, c', l')"
    "sendTurn c' = Suc ?t" "sendNext c' = sendNext (circ s)"
    by (fastforce simp: writeAtTurn_def circ_fail_def case_prod_unfold Let_def split: option.splits)
  show ?thesis using tstep.turn [OF w x(1)] x(2,3) by fastforce
qed

section \<open>Encryption order\<close>

definition fwd :: "hop \<Rightarrow> ctr \<times> runningDigest" where
  "fwd h = (fwdCipher h, fwdDigest h)"

lemma fwd_upd [simp]:
  "fwd (h\<lparr>fwdCipher := x\<rparr>) = (x, fwdDigest h)" "fwd (h\<lparr>fwdDigest := d\<rparr>) = (fwdCipher h, d)"
  "fwd (h\<lparr>bwdCipher := x\<rparr>) = fwd h" "fwd (h\<lparr>bwdDigest := d\<rparr>) = fwd h"
  by (simp_all add: fwd_def)

lemma fwd_nth:
  "map fwd hs = map fwd hs' \<Longrightarrow> i < length hs \<Longrightarrow>
   fwdCipher (hs ! i) = fwdCipher (hs' ! i) \<and> fwdDigest (hs ! i) = fwdDigest (hs' ! i)"
  by (metis (no_types, lifting) fwd_def nth_map length_map prod.inject)

lemma layer_down_fwd:
  "map fwd hs = map fwd hs' \<Longrightarrow> i \<le> length hs \<Longrightarrow>
   fst (layer_down K i p hs) = fst (layer_down K i p hs') \<and>
   map fwd (snd (layer_down K i p hs)) = map fwd (snd (layer_down K i p hs'))"
proof (induction i arbitrary: p hs hs')
  case (Suc i)
  have "map fwd (hs[i := (hs ! i)\<lparr>fwdCipher := x\<rparr>]) = map fwd (hs'[i := (hs' ! i)\<lparr>fwdCipher := x\<rparr>])" for x
    using Suc.prems fwd_nth [OF Suc.prems(1), of i] by (simp add: map_update)
  with Suc.IH Suc.prems fwd_nth [OF Suc.prems(1), of i] show ?case
    by (simp add: case_prod_unfold Let_def)
qed simp

lemma encryptForwardLocked_fwd:
  assumes "map fwd hs = map fwd hs'" "d < length hs"
  shows "fst (encryptForwardLocked K d rc hs) = fst (encryptForwardLocked K d rc hs') \<and>
    map fwd (snd (encryptForwardLocked K d rc hs)) = map fwd (snd (encryptForwardLocked K d rc hs'))"
proof -
  have "map fwd (hs[d := (hs ! d)\<lparr>fwdDigest := x\<rparr>]) = map fwd (hs'[d := (hs' ! d)\<lparr>fwdDigest := x\<rparr>])" for x
    using assms fwd_nth [OF assms, of] by (simp add: map_update)
  then show ?thesis
    using layer_down_fwd [of "hs[d := (hs ! d)\<lparr>fwdDigest := x\<rparr>]" _ "Suc d" for x] assms fwd_nth [OF assms]
    by (simp add: encryptForwardLocked_def Let_def del: layer_down.simps)
qed

lemma decrypt_from_fwd: "map fwd (snd (decrypt_from K i hs p)) = map fwd hs"
  by (induction hs arbitrary: i p) (simp_all add: decrypt_from_Cons Let_def bwd_peel_def)

lemma layer_down_append:
  "i \<le> length hs \<Longrightarrow> layer_down K i p (hs @ ys) = (fst (layer_down K i p hs), snd (layer_down K i p hs) @ ys)"
  by (induction i arbitrary: p hs) (simp_all add: case_prod_unfold Let_def nth_append list_update_append1)

lemma encryptForwardLocked_append:
  "d < length hs \<Longrightarrow> encryptForwardLocked K d rc (hs @ ys)
     = (fst (encryptForwardLocked K d rc hs), snd (encryptForwardLocked K d rc hs) @ ys)"
  using layer_down_append [of "Suc d"]
  by (simp add: encryptForwardLocked_def Let_def nth_append list_update_append1 del: layer_down.simps)

lemma encrypt_all_length [simp]: "length (snd (encrypt_all K ms hs)) = length hs"
  by (induction ms arbitrary: hs) (auto simp: case_prod_unfold Let_def)

lemma encrypt_all_hop:
  "\<forall>m \<in> set ms. fst m < length hs \<Longrightarrow>
   encrypt_all K ms (hs @ ys) = (fst (encrypt_all K ms hs), snd (encrypt_all K ms hs) @ ys)"
  by (induction ms arbitrary: hs) (auto simp: case_prod_unfold Let_def encryptForwardLocked_append)

lemma encrypt_all_snoc:
  "encrypt_all K (ms @ [(d, rc)]) hs =
     (let (ps, hs1) = encrypt_all K ms hs; (p, hs2) = encryptForwardLocked K d rc hs1 in (ps @ [p], hs2))"
  by (induction ms arbitrary: hs) (auto simp: case_prod_unfold Let_def)

text \<open>The cells issued are the encryptions of the messages, in order, and the hops' forward state
  is where that leaves it.\<close>

definition crypt_inv :: "crypto \<Rightarrow> 'l csys \<Rightarrow> bool" where
  "crypt_inv K s \<longleftrightarrow>
     (\<forall>m \<in> set (msgs s). fst m < length (fresh_hops s)) \<and>
     length (hops (circ s)) = length (fresh_hops s) \<and> length (msgs s) = length (issued s) \<and>
     fst (encrypt_all K (msgs s) (fresh_hops s)) = map payload (issued s) \<and>
     map fwd (snd (encrypt_all K (msgs s) (fresh_hops s))) = map fwd (hops (circ s))"

definition same_fwd :: "circuit \<Rightarrow> circuit \<Rightarrow> bool" where
  "same_fwd c c' \<longleftrightarrow> map fwd (hops c') = map fwd (hops c)"

lemma same_fwd_ops [simp]:
  "same_fwd c (circ_fail e c)" "same_fwd c (creditPackageWindow n c)"
  "same_fwd c (SetStreamHandler c)" "same_fwd c (SetControlHandler c)"
  "same_fwd c (recvLoop_linkDone c)"
  "takePermit c = Some c' \<Longrightarrow> same_fwd c c'"
  "sendRelay_claim K d rc early c = (Inl e', c') \<Longrightarrow> same_fwd c c'"
  "writeAtTurn snd_cell t cl (c, l) = Some (err, c', l') \<Longrightarrow> same_fwd c c'"
  by (auto simp: same_fwd_def circ_fail_def creditPackageWindow_def SetStreamHandler_def
      SetControlHandler_def recvLoop_linkDone_def takePermit_def sendRelay_claim_def writeAtTurn_def
      case_prod_unfold Let_def split: option.splits if_splits)

lemma same_fwd_locked: "handleRelay_locked K p c = (m, c') \<Longrightarrow> same_fwd c c'"
  using decrypt_from_fwd [of K 0 "hops c" p]
  by (auto simp: same_fwd_def handleRelay_locked_def decryptInboundLocked_def case_prod_unfold Let_def
      split: option.splits prod.splits)

lemma same_fwd_dispatch: "dispatchRelay K m c = (None, evs, c') \<Longrightarrow> same_fwd c c'"
  by (auto simp: dispatchRelay_def same_fwd_def accountInboundData_def circ_fail_def
      creditPackageWindow_def case_prod_unfold Let_def split: if_splits)

lemma same_fwd_other:
  "cmd raw \<noteq> CmdRelay \<Longrightarrow> cmd raw \<noteq> CmdRelayEarly \<Longrightarrow> recvLoop_cell K raw c = (go, None, evs, c') \<Longrightarrow>
   same_fwd c c'"
  by (auto simp: recvLoop_cell_def same_fwd_def circ_fail_def split: if_splits)

lemma crypt_same:
  "crypt_inv K s \<Longrightarrow> same_fwd (circ s) (circ s') \<Longrightarrow> issued s' = issued s \<Longrightarrow> msgs s' = msgs s \<Longrightarrow>
   fresh_hops s' = fresh_hops s \<Longrightarrow> crypt_inv K s'"
  by (auto simp: crypt_inv_def same_fwd_def dest: map_eq_imp_length_eq)

text \<open>A claim encrypts with the circuit's hops.\<close>

definition claims :: "crypto \<Rightarrow> nat \<times> relay_cell \<Rightarrow> circuit \<Rightarrow> nat \<times> cell \<Rightarrow> circuit \<Rightarrow> bool" where
  "claims K m c w c' \<longleftrightarrow> fst m < length (hops c) \<and>
     payload (snd w) = fst (encryptForwardLocked K (fst m) (snd m) (hops c)) \<and>
     hops c' = snd (encryptForwardLocked K (fst m) (snd m) (hops c))"

lemma claims_sendRelay: "sendRelay_claim K d rc early c = (Inr w, c') \<Longrightarrow> claims K (d, rc) c w c'"
  by (auto simp: claims_def sendRelay_claim_def case_prod_unfold Let_def split: if_splits)

lemma claims_dispatch:
  "dispatchRelay K m c = (Some w, evs, c') \<Longrightarrow> claims K (ihop m, sendme_cell (itag m)) c w c'"
  by (auto simp: claims_def dispatchRelay_def accountInboundData_def case_prod_unfold Let_def
      split: if_splits)

lemma crypt_claim:
  assumes "crypt_inv K s" "claims K m (circ s) w c'" "circ s' = c'" "issued s' = issued s"
    "msgs s' = msgs s" "fresh_hops s' = fresh_hops s"
  shows "crypt_inv K (add_claim m w s')"
proof -
  obtain d rc where m: "m = (d, rc)" by (cases m)
  let ?hs = "snd (encrypt_all K (msgs s) (fresh_hops s))"
  have d: "d < length ?hs" using assms(1,2) by (simp add: crypt_inv_def claims_def m)
  have f: "map fwd ?hs = map fwd (hops (circ s))" using assms(1) by (simp add: crypt_inv_def)
  show ?thesis
    using assms encryptForwardLocked_fwd [OF f d, of K rc] d
    by (auto simp: crypt_inv_def add_claim_def claims_def m encrypt_all_snoc case_prod_unfold Let_def)
qed

lemma crypt_hop:
  assumes "crypt_inv K s" "hops c' = hops (circ s) @ [h]"
  shows "crypt_inv K (s\<lparr>circ := c', fresh_hops := fresh_hops s @ [last (hops c')]\<rparr>)"
  using assms by (auto simp: crypt_inv_def encrypt_all_hop)

lemma hop_added:
  "addHop info km c = (None, c') \<Longrightarrow> \<exists>h. hops c' = hops c @ [h]"
  "AddRendezvousHop df db kf kb c = (None, c') \<Longrightarrow> \<exists>h. hops c' = hops c @ [h]"
  by (auto simp: addHop_def AddRendezvousHop_def split: option.splits sum.splits)

lemma crypt_step: "tstep K snd_cell s s' \<Longrightarrow> crypt_inv K s \<Longrightarrow> crypt_inv K s'"
proof (induction rule: tstep.induct)
  case (claim d rc early s w c')
  then show ?case by (auto intro: crypt_claim claims_sendRelay)
next
  case (dispatch_sendme s m w evs c')
  then show ?case by (auto intro: crypt_claim claims_dispatch)
next
  case (hop info km s c')
  then show ?case using hop_added(1) crypt_hop by blast
next
  case (rend_hop df db kf kb s c')
  then show ?case using hop_added(2) crypt_hop by blast
qed (auto elim!: crypt_same simp: same_fwd_locked same_fwd_dispatch same_fwd_other)

lemma crypt_reachable: "(tstep K snd_cell)\<^sup>*\<^sup>* (csys_init i l) s \<Longrightarrow> crypt_inv K s"
proof (induction rule: rtranclp_induct)
  case base
  show ?case by (simp add: crypt_inv_def csys_init_def circuit_New_def)
qed (rule crypt_step)

section \<open>Delivery\<close>

lemma encrypt_all_take:
  "fst (encrypt_all K (take n ms) hs) = take n (fst (encrypt_all K ms hs))"
proof (induction ms arbitrary: hs n)
  case (Cons m ms)
  then show ?case by (cases m; cases n) (auto simp: case_prod_unfold Let_def)
qed simp

text \<open>Relays that start where the hops started recognise what was written, cell by cell, as the
  messages in the order of their encryption.\<close>

lemma written_delivered:
  assumes "(tstep K snd_cell)\<^sup>*\<^sup>* (csys_init i l) s" "crypto_wf K"
    and "peers (fresh_hops s) rs"
    and "all_pass K (take (length (written s)) (msgs s)) (map (payload \<circ> fst) (written s)) rs"
  shows "map report (fst (decrypt_all K (map (payload \<circ> fst) (written s)) rs))
      = map (Some \<circ> sent_as) (take (length (written s)) (msgs s))"
proof -
  let ?n = "length (written s)"
  have t: "tickets_inv s" and c: "crypt_inv K s"
    using tickets_reachable [OF assms(1)] crypt_reachable [OF assms(1)] by simp_all
  have w0: "map fst (written s) = take (sendTurn (circ s)) (issued s)"
    using t by (simp add: tickets_inv_def)
  have "length (map fst (written s)) = length (take (sendTurn (circ s)) (issued s))" by (simp only: w0)
  then have n: "?n = sendTurn (circ s)" using t by (simp add: tickets_inv_def)
  have w: "map (payload \<circ> fst) (written s) = take ?n (map payload (issued s))"
    using arg_cong [OF w0, of "map payload"] by (simp add: n take_map)
  have "fst (encrypt_all K (take ?n (msgs s)) (fresh_hops s)) = map (payload \<circ> fst) (written s)"
    using c by (simp add: encrypt_all_take w crypt_inv_def)
  then obtain hs' where "encrypt_all K (take ?n (msgs s)) (fresh_hops s) = (map (payload \<circ> fst) (written s), hs')"
    by (metis prod.collapse)
  moreover have "\<forall>m \<in> set (take ?n (msgs s)). fst m < length (fresh_hops s)"
    using c by (auto simp: crypt_inv_def dest: in_set_takeD)
  ultimately show ?thesis using session_delivered [OF assms(2,3)] assms(4) by blast
qed

section \<open>Properties\<close>

text \<open>Whatever the interleaving of senders, of the receive loop with its SENDMEs and of the
  writes, relays that start in the states in which the circuit's hops were added recognise the
  cells written on the link, one by one, as the relay cells that were encrypted, at the hops they
  were meant for and in the order of encryption.\<close>

theorem written_cells_are_delivered_in_order:
  assumes "(tstep K snd_cell)\<^sup>*\<^sup>* (csys_init i l) s" "crypto_wf K"
    and "peers (fresh_hops s) rs"
    and "all_pass K (take (length (written s)) (msgs s)) (map (payload \<circ> fst) (written s)) rs"
  shows "map report (fst (decrypt_all K (map (payload \<circ> fst) (written s)) rs))
      = map (Some \<circ> sent_as) (take (length (written s)) (msgs s))"
  by (rule written_delivered [OF assms])

text \<open>C10: Cells are written in the order of their tickets, which is the order of encryption, each
  exactly once; and while a ticket is unwritten the write whose turn it is is enabled and advances
  the turn, whatever the link answers, so no ticket is stranded.\<close>

theorem turnstile_order_and_progress:
  assumes "(tstep K snd_cell)\<^sup>*\<^sup>* (csys_init i l) s"
  shows "map fst (written s) = take (sendTurn (circ s)) (issued s) \<and>
    (sendTurn (circ s) < sendNext (circ s) \<longrightarrow>
       (\<exists>s'. tstep K snd_cell s s' \<and> sendTurn (circ s') = Suc (sendTurn (circ s)) \<and>
             sendNext (circ s') = sendNext (circ s)))"
  using tickets_reachable [OF assms] turn_enabled [OF tickets_reachable [OF assms]]
  by (auto simp: tickets_inv_def)

text \<open>A run that adds a hop, claims a ticket for one relay cell and writes it.\<close>

lemma small_run:
  assumes "\<And>cl. fst (snd_cell cl l0) = None"
  shows "\<exists>s. (tstep toy_crypto snd_cell)\<^sup>*\<^sup>* (csys_init 5 l0) s \<and> length (written s) = 1 \<and>
     list_all snd (written s) \<and> msgs s = [(0, sendme_cell [])] \<and> sendTurn (circ s) = 1"
proof -
  let ?sc = snd_cell and ?rc = "sendme_cell []"
  let ?info = "\<lparr>Nickname = [], ORAddr = [], RSAIDDigest = [], EdIdentity = [], NtorOnionKey = []\<rparr>"
  define s0 where "s0 = csys_init 5 l0"
  obtain h where "addHop ?info (replicate 92 1) (circ s0) = (None, (circ s0)\<lparr>hops := hops (circ s0) @ [h]\<rparr>)"
    using addHop_succeeds [of "replicate 92 1" ?info "circ s0"] by auto
  then obtain c1 where c1: "addHop ?info (replicate 92 1) (circ s0) = (None, c1)" "hops c1 = [h]"
    "\<not> cclosed c1" "sendNext c1 = 0" "sendTurn c1 = 0"
    by (auto simp: s0_def csys_init_def circuit_New_def)
  obtain s1 where s1: "tstep toy_crypto ?sc s0 s1" "circ s1 = c1" "msgs s1 = []" "written s1 = []" "lnk s1 = l0"
    using tstep.hop [OF c1(1), of toy_crypto ?sc] by (fastforce simp: s0_def csys_init_def)
  obtain p hs where e: "encryptForwardLocked toy_crypto 0 ?rc [h] = (p, hs)" by fastforce
  obtain cl c2 where c2: "sendRelay_claim toy_crypto 0 ?rc False c1 = (Inr (0, cl), c2)" "sendTurn c2 = 0"
    using c1(2-5) by (simp add: sendRelay_claim_def e)
  obtain s2 where s2: "tstep toy_crypto ?sc s1 s2" "circ s2 = c2" "msgs s2 = [(0, ?rc)]" "written s2 = []"
    "(0, cl) \<in> waiting s2" "lnk s2 = l0"
    using tstep.claim [of toy_crypto 0 ?rc False s1 "(0, cl)" c2 ?sc] c2 s1
    by (fastforce simp: add_claim_def)
  obtain l1 where "snd_cell cl l0 = (None, l1)" using assms [of cl] by (metis prod.collapse)
  then have "writeAtTurn ?sc 0 cl (circ s2, lnk s2) = Some (None, c2\<lparr>sendTurn := 1\<rparr>, l1)"
    by (simp add: writeAtTurn_def s2(2,6) c2(2))
  from tstep.turn [OF s2(5) this, of toy_crypto]
  obtain s3 where s3: "tstep toy_crypto ?sc s2 s3" "length (written s3) = 1" "list_all snd (written s3)" "msgs s3 = [(0, ?rc)]"
    "sendTurn (circ s3) = 1"
    using s2 by fastforce
  have "(tstep toy_crypto ?sc)\<^sup>*\<^sup>* s0 s3"
    using s1(1) s2(1) s3(1) by (meson r_into_rtranclp rtranclp.rtrancl_into_rtrancl)
  with s3 show ?thesis unfolding s0_def by blast
qed

theorem written_cells_are_delivered_in_order_witness:
  "\<exists>(s :: cell list csys) rs. length (written s) = 1 \<and>
     map report (fst (decrypt_all toy_crypto (map (payload \<circ> fst) (written s)) rs)) = [Some (sent_as (0, sendme_cell []))]"
proof -
  from small_run [of "\<lambda>cl l. (None, l @ [cl])" "[]"] obtain s :: "cell list csys"
    where s: "(tstep toy_crypto (\<lambda>cl l. (None, l @ [cl])))\<^sup>*\<^sup>* (csys_init 5 []) s"
    "length (written s) = 1" "msgs s = [(0, sendme_cell [])]" by auto
  obtain w where w: "written s = [w]" using s(2) by (cases "written s") auto
  have "all_pass toy_crypto (take (length (written s)) (msgs s)) (map (payload \<circ> fst) (written s))
      (map relay_side (fresh_hops s))"
    by (simp add: w s(3))
  from written_cells_are_delivered_in_order [OF s(1) toy_crypto_wf relay_side_peers(1) this] s(2,3)
  show ?thesis by (intro exI [of _ s] exI) (auto simp: comp_def)
qed

theorem turnstile_order_and_progress_witness:
  "\<exists>s :: cell list csys. length (written s) = 1 \<and> map fst (written s) = take 1 (issued s)"
proof -
  from small_run [of "\<lambda>cl l. (None, l @ [cl])" "[]"] obtain s :: "cell list csys"
    where s: "(tstep toy_crypto (\<lambda>cl l. (None, l @ [cl])))\<^sup>*\<^sup>* (csys_init 5 []) s"
    "length (written s) = 1" "sendTurn (circ s) = 1" by auto
  from turnstile_order_and_progress [OF s(1)] s(2,3) show ?thesis by auto
qed

end
