(* ===== verification/Link_Circuit.thy ===== *)
theory Link_Circuit
  imports Link_Channel Turnstile
begin

text \<open>
  A circuit on a link.  \<open>cell_link\<close> is what \<^verbatim>\<open>circuit.Link\<close> promises of \<^verbatim>\<open>SendCell\<close>: an accepted cell is
  on the wire, encoded, after everything before it, and nothing already there is lost.  From it
  and the turnstile follows what the relay at the other end of the connection can read; the
  channel of \<^verbatim>\<open>pkg/channel\<close> is the instance.
\<close>

section \<open>Cells a circuit issues\<close>

definition early_cells :: "cell list \<Rightarrow> cell list" where
  "early_cells cs = filter (\<lambda>c. cmd c = CmdRelayEarly) cs"

text \<open>Every cell a circuit issues is a RELAY or RELAY\_EARLY cell of its own circuit ID with a full
  payload, and the RELAY\_EARLY ones are those the budget counts.\<close>

definition issued_wf :: "'l csys \<Rightarrow> bool" where
  "issued_wf s \<longleftrightarrow>
     (\<forall>c \<in> set (issued s). cmd c \<in> {CmdRelay, CmdRelayEarly} \<and> length (payload c) = PayloadLen \<and>
        circID c = cid (circ s)) \<and>
     length (early_cells (issued s)) = relayEarlyCount (circ s) \<and> relayEarlyCount (circ s) \<le> maxRelayEarly"

lemma not_variable [simp]: "\<not> isVariable CmdRelay" "\<not> isVariable CmdRelayEarly"
  by (simp_all add: isVariable_def)

lemma cid_ops:
  "sendRelay_claim K d rc early c = (r, c') \<Longrightarrow> cid c' = cid c"
  "writeAtTurn snd_cell t cl (c, l) = Some (err, c', l') \<Longrightarrow> cid c' = cid c"
  "handleRelay_locked K p c = (m', c') \<Longrightarrow> cid c' = cid c"
  "dispatchRelay K m c = (w, evs, c') \<Longrightarrow> cid c' = cid c"
  "recvLoop_cell K raw c = (go, w, evs, c') \<Longrightarrow> cmd raw \<noteq> CmdRelay \<Longrightarrow> cmd raw \<noteq> CmdRelayEarly \<Longrightarrow> cid c' = cid c"
  "addHop info km c = (e, c') \<Longrightarrow> cid c' = cid c"
  "AddRendezvousHop df db kf kb c = (e, c') \<Longrightarrow> cid c' = cid c"
  "takePermit c = Some c' \<Longrightarrow> cid c' = cid c"
  "cid (recvLoop_linkDone c) = cid c" "cid (creditPackageWindow n c) = cid c"
  "cid (SetStreamHandler c) = cid c" "cid (SetControlHandler c) = cid c"
  by (auto simp: sendRelay_claim_def writeAtTurn_def handleRelay_locked_def decryptInboundLocked_def
      dispatchRelay_def recvLoop_cell_def addHop_def AddRendezvousHop_def takePermit_def
      recvLoop_linkDone_def creditPackageWindow_def SetStreamHandler_def SetControlHandler_def circ_fail_def
      accountInboundData_def case_prod_unfold Let_def
      split: if_splits option.splits sum.splits prod.splits)

lemma relayEarly_ops:
  "sendRelay_claim K d rc early c = (Inl e', c') \<Longrightarrow> relayEarlyCount c' = relayEarlyCount c"
  "writeAtTurn snd_cell t cl (c, l) = Some (err, c', l') \<Longrightarrow> relayEarlyCount c' = relayEarlyCount c"
  "handleRelay_locked K p c = (m', c') \<Longrightarrow> relayEarlyCount c' = relayEarlyCount c"
  "dispatchRelay K m c = (w, evs, c') \<Longrightarrow> relayEarlyCount c' = relayEarlyCount c"
  "recvLoop_cell K raw c = (go, w, evs, c') \<Longrightarrow> cmd raw \<noteq> CmdRelay \<Longrightarrow> cmd raw \<noteq> CmdRelayEarly \<Longrightarrow>
     relayEarlyCount c' = relayEarlyCount c"
  "addHop info km c = (e, c') \<Longrightarrow> relayEarlyCount c' = relayEarlyCount c"
  "AddRendezvousHop df db kf kb c = (e, c') \<Longrightarrow> relayEarlyCount c' = relayEarlyCount c"
  "takePermit c = Some c' \<Longrightarrow> relayEarlyCount c' = relayEarlyCount c"
  "relayEarlyCount (recvLoop_linkDone c) = relayEarlyCount c"
  "relayEarlyCount (creditPackageWindow n c) = relayEarlyCount c"
  "relayEarlyCount (SetStreamHandler c) = relayEarlyCount c"
  "relayEarlyCount (SetControlHandler c) = relayEarlyCount c"
  by (auto simp: sendRelay_claim_def writeAtTurn_def handleRelay_locked_def decryptInboundLocked_def
      dispatchRelay_def recvLoop_cell_def addHop_def AddRendezvousHop_def takePermit_def
      recvLoop_linkDone_def creditPackageWindow_def SetStreamHandler_def SetControlHandler_def circ_fail_def
      accountInboundData_def case_prod_unfold Let_def
      split: if_splits option.splits sum.splits prod.splits)

lemma claim_cell:
  "sendRelay_claim K d rc early c = (Inr (t, cl), c') \<Longrightarrow>
     cmd cl = (if early then CmdRelayEarly else CmdRelay) \<and> length (payload cl) = PayloadLen \<and> circID cl = cid c \<and>
     relayEarlyCount c' = relayEarlyCount c + (if early then 1 else 0) \<and>
     (early \<longrightarrow> relayEarlyCount c < maxRelayEarly)"
  by (auto simp: sendRelay_claim_def case_prod_unfold Let_def split: if_splits)

lemma dispatch_cell:
  "dispatchRelay K m c = (Some (t, cl), evs, c') \<Longrightarrow>
     cmd cl = CmdRelay \<and> length (payload cl) = PayloadLen \<and> circID cl = cid c"
  by (auto simp: dispatchRelay_def accountInboundData_def case_prod_unfold Let_def split: if_splits)

lemma issued_wf_step: "tstep K snd_cell s s' \<Longrightarrow> issued_wf s \<Longrightarrow> issued_wf s'"
proof (induction rule: tstep.induct)
  case (claim d rc early s w c')
  then show ?case
    using claim_cell [of K d rc early "circ s" "fst w" "snd w" c'] cid_ops(1) [OF claim(1)]
    by (auto simp: issued_wf_def add_claim_def early_cells_def)
next
  case (dispatch_sendme s m w evs c')
  then show ?case
    using dispatch_cell [of K m "circ s" "fst w" "snd w" evs c'] cid_ops(4) [OF dispatch_sendme(2)]
      relayEarly_ops(4) [OF dispatch_sendme(2)]
    by (auto simp: issued_wf_def add_claim_def early_cells_def)
qed (auto simp: issued_wf_def cid_ops relayEarly_ops)

lemma issued_wf_reachable: "(tstep K snd_cell)\<^sup>*\<^sup>* (csys_init i l) s \<Longrightarrow> issued_wf s"
proof (induction rule: rtranclp_induct)
  case base
  show ?case by (simp add: issued_wf_def csys_init_def circuit_New_def early_cells_def)
qed (rule issued_wf_step)

lemma cid_step: "tstep K snd_cell s s' \<Longrightarrow> cid (circ s') = cid (circ s)"
  by (induction rule: tstep.induct) (auto simp: cid_ops add_claim_def)

lemma cid_reachable: "(tstep K snd_cell)\<^sup>*\<^sup>* (csys_init i l) s \<Longrightarrow> cid (circ s) = i"
proof (induction rule: rtranclp_induct)
  case base
  show ?case by (simp add: csys_init_def circuit_New_def)
qed (simp add: cid_step)



section \<open>The link's contract\<close>

locale cell_link =
  fixes snd_cell :: "'l send_cell" and wire :: "'l \<Rightarrow> bytes"
  assumes sent_on_wire: "snd_cell c l = (None, l') \<Longrightarrow> wire l' = wire l @ cell_Encode CircIDLenWide c"
    and wire_grows: "snd_cell c l = (e, l') \<Longrightarrow> prefix (wire l) (wire l')"
begin

lemma lnk_same:
  assumes "tstep K snd_cell s s'"
  shows "lnk s' = lnk s \<and> written s' = written s \<or>
    (\<exists>cl e. snd_cell cl (lnk s) = (e, lnk s') \<and> written s' = written s @ [(cl, e = None)])"
  using assms
proof (induction rule: tstep.induct)
  case (turn t cl s err c' l')
  then have "snd_cell cl (lnk s) = (err, l')"
    by (auto simp: writeAtTurn_def case_prod_unfold Let_def split: if_splits)
  then show ?case by auto
qed (simp_all add: add_claim_def)

text \<open>Up to the first failed write the wire holds the encodings of the cells written.\<close>

lemma wire_written:
  "(tstep K snd_cell)\<^sup>*\<^sup>* (csys_init i l) s \<Longrightarrow>
   prefix (wire l @ concat (map (cell_Encode CircIDLenWide \<circ> fst) (takeWhile snd (written s)))) (wire (lnk s)) \<and>
   (list_all snd (written s) \<longrightarrow>
     wire (lnk s) = wire l @ concat (map (cell_Encode CircIDLenWide \<circ> fst) (written s)))"
proof (induction rule: rtranclp_induct)
  case base
  show ?case by (simp add: csys_init_def)
next
  case (step s s')
  from lnk_same [OF step(2)] show ?case
  proof
    assume "lnk s' = lnk s \<and> written s' = written s"
    with step(3) show ?thesis by simp
  next
    assume "\<exists>cl e. snd_cell cl (lnk s) = (e, lnk s') \<and> written s' = written s @ [(cl, e = None)]"
    then obtain cl e where x: "snd_cell cl (lnk s) = (e, lnk s')" "written s' = written s @ [(cl, e = None)]" by blast
    show ?thesis
    proof (cases "list_all snd (written s)")
      case True
      then have tw: "takeWhile snd (written s) = written s" by (simp add: takeWhile_eq_all_conv list_all_iff)
      have tw': "takeWhile snd (written s') = (if e = None then written s' else written s)"
        using True by (auto simp: x(2) takeWhile_append2 list_all_iff)
      show ?thesis
        using step(3) True x tw tw' sent_on_wire [of cl "lnk s" "lnk s'"] wire_grows [OF x(1)]
        by (cases e) auto
    next
      case False
      then have "takeWhile snd (written s') = takeWhile snd (written s)"
        by (auto simp: x(2) takeWhile_append list_all_iff)
      then show ?thesis
        using step(3) False wire_grows [OF x(1)] x(2) by (auto intro: prefix_order.trans)
    qed
  qed
qed

text \<open>So the relay that reads the connection gets the cells written, in order.\<close>

lemma relay_reads_written:
  assumes "(tstep K snd_cell)\<^sup>*\<^sup>* (csys_init i l) s" "wire l = []" "list_all snd (written s)"
  shows "decode_stream (readCell CircIDLenWide) (length (written s)) (wire (lnk s)) = (map fst (written s), [])"
proof -
  have t: "map fst (written s) = take (sendTurn (circ s)) (issued s)"
    using tickets_reachable [OF assms(1)] by (simp add: tickets_inv_def)
  have ok: "\<forall>c \<in> set (map fst (written s)). cell_wf c"
    using issued_wf_reachable [OF assms(1)] unfolding t issued_wf_def cell_wf_def by (auto dest!: in_set_takeD)
  have "wire (lnk s) = concat (map (cell_Encode CircIDLenWide) (map fst (written s))) @ []"
    using wire_written [OF assms(1)] assms(2,3) by (simp add: comp_def)
  with link.decode_stream_enc [OF ok, of "[]"] show ?thesis by simp
qed

end

section \<open>The channel as a link\<close>

text \<open>\<^verbatim>\<open>Channel.SendCell\<close> as the circuit sees it.\<close>

definition chan_send :: "conn send_cell" where
  "chan_send c cn = (case SendCell c cn of (None, cn') \<Rightarrow> (None, cn') | (Some e, cn') \<Rightarrow> (Some ErrWrite, cn'))"

lemma writeCell_out:
  "writeCell n c cn = (None, cn') \<Longrightarrow> cout cn' = cout cn @ cell_Encode n c"
  "writeCell n c cn = (e, cn') \<Longrightarrow> prefix (cout cn) (cout cn')"
  by (cases "cquota cn"; force simp: writeCell_def Let_def split: if_splits)+

interpretation chan_link: cell_link chan_send cout
proof
  fix c cn cn'
  show "cout cn' = cout cn @ cell_Encode CircIDLenWide c" if "chan_send c cn = (None, cn')"
    using that writeCell_out(1) [of CircIDLenWide c cn cn']
    by (cases "writeCell CircIDLenWide c cn") (auto simp: chan_send_def SendCell_def split: option.splits)
  show "prefix (cout cn) (cout cn')" if "chan_send c cn = (e, cn')" for e
    using that writeCell_out(2) [of CircIDLenWide c cn _ cn']
    by (cases "writeCell CircIDLenWide c cn") (auto simp: chan_send_def SendCell_def split: option.splits)
qed

end
