(* ===== verification/Stream_Mgr.thy ===== *)
theory Stream_Mgr
  imports Circuit_Flow
begin

text \<open>
  Model of \<^verbatim>\<open>pkg/stream/stream.go\<close> and \<^verbatim>\<open>pkg/stream/manager.go\<close>: application streams multiplexed over
  one circuit.  A \<^verbatim>\<open>*Stream\<close> is an index into the manager's list of stream objects, because the
  application keeps its reference after the manager has dropped the identifier.  The carrier
  (the circuit, through the interface \<^verbatim>\<open>Carrier\<close>) is a pair of functions on its own state; an
  operation that blocks is \<open>None\<close>.  Deadlines and cancellation appear as the case of a \<^verbatim>\<open>select\<close>
  that fires.
\<close>

section \<open>State\<close>

abbreviation (input) streamWindowStart :: nat where "streamWindowStart \<equiv> 500"
abbreviation (input) streamWindowIncrement :: nat where "streamWindowIncrement \<equiv> 50"
abbreviation (input) beginFlagIPv6OK :: u32 where "beginFlagIPv6OK \<equiv> 1"
abbreviation (input) endReasonMisc :: byte where "endReasonMisc \<equiv> 1"
abbreviation (input) endReasonDone :: byte where "endReasonDone \<equiv> 6"

datatype stream_err = SEof | EndError byte | SErrClosed | STimeout | SCtx ctx_err | SendErr circ_err
  | NoFreeStreamIDs

record stream =
  sid :: u16
  sdone :: bool
  readChunks :: "bytes list"
  readErr :: "stream_err option"
  readSig :: bool
  consumedCells :: nat
  connectCh :: "stream_err option list"
  pkgTokens :: tokens
  closeOnce :: bool

record manager =
  streams :: "u16 \<rightharpoonup> nat"
  nextID :: u16
  objs :: "stream list"

type_synonym 'k carrier_relay = "relay_cell \<Rightarrow> 'k \<Rightarrow> (circ_err option \<times> 'k) option"
type_synonym 'k carrier_data = "wake \<Rightarrow> u16 \<Rightarrow> bytes \<Rightarrow> 'k \<Rightarrow> (circ_err option \<times> 'k) option"

definition new_stream :: "u16 \<Rightarrow> stream" where
  "new_stream i =
     \<lparr>sid = i, sdone = False, readChunks = [], readErr = None, readSig = False, consumedCells = 0,
      connectCh = [], pkgTokens = (case makeTokens streamWindowStart of Some t \<Rightarrow> t
        | None \<Rightarrow> \<lparr>tcap = streamWindowStart, tlen = 0\<rparr>), closeOnce = False\<rparr>"

definition NewManager :: manager where
  "NewManager = \<lparr>streams = Map.empty, nextID = 1, objs = []\<rparr>"

definition upd_obj :: "nat \<Rightarrow> (stream \<Rightarrow> stream) \<Rightarrow> manager \<Rightarrow> manager" where
  "upd_obj r f m = m\<lparr>objs := (objs m)[r := f (objs m ! r)]\<rparr>"

definition mgr_remove :: "u16 \<Rightarrow> manager \<Rightarrow> manager" where
  "mgr_remove i m = m\<lparr>streams := (streams m)(i := None)\<rparr>"

section \<open>Inbound cells\<close>

definition signalRead :: "stream \<Rightarrow> stream" where
  "signalRead s = s\<lparr>readSig := True\<rparr>"

definition onData :: "bytes \<Rightarrow> stream \<Rightarrow> stream" where
  "onData data s =
     (if data = [] then s
      else if readErr s \<noteq> None then s
      else signalRead (s\<lparr>readChunks := readChunks s @ [data]\<rparr>))"

definition onEnd :: "byte \<Rightarrow> nat \<Rightarrow> manager \<Rightarrow> manager" where
  "onEnd reason r m =
     (let m1 = upd_obj r (\<lambda>s.
            let s1 = (if readErr s = None
                      then s\<lparr>readErr := Some (if reason = endReasonDone then SEof else EndError reason)\<rparr> else s)
            in (signalRead s1)\<lparr>connectCh := trySend 1 (readErr s1) (connectCh s1), sdone := True\<rparr>) m
      in mgr_remove (sid (objs m ! r)) m1)"

definition creditPackage :: "nat \<Rightarrow> stream \<Rightarrow> stream" where
  "creditPackage n s = s\<lparr>pkgTokens := tok_credit n (pkgTokens s)\<rparr>"

definition handleCell :: "relay_cell \<Rightarrow> nat \<Rightarrow> manager \<Rightarrow> manager" where
  "handleCell rc r m =
     (if rcommand rc = RelayConnected then
        upd_obj r (\<lambda>s. s\<lparr>connectCh := trySend 1 None (connectCh s)\<rparr>) m
      else if rcommand rc = RelayData then upd_obj r (onData (rdata rc)) m
      else if rcommand rc = RelayEnd then
        onEnd (case rdata rc of [] \<Rightarrow> endReasonMisc | b # _ \<Rightarrow> b) r m
      else if rcommand rc = RelaySendme then upd_obj r (creditPackage streamWindowIncrement) m
      else m)"

definition dispatch :: "relay_cell \<Rightarrow> manager \<Rightarrow> manager" where
  "dispatch rc m =
     (if streamID rc = 0 then m
      else case streams m (streamID rc) of
             None \<Rightarrow> m
           | Some r \<Rightarrow> handleCell rc r m)"

section \<open>Opening a stream\<close>

fun newStream_loop :: "nat \<Rightarrow> manager \<Rightarrow> (nat \<times> u16) option \<times> manager" where
  "newStream_loop 0 m = (None, m)"
| "newStream_loop (Suc n) m =
     (let i = nextID m;
          nxt = (if i + 1 = 0 then 1 else i + 1);
          m = m\<lparr>nextID := nxt\<rparr>
      in if i = 0 then newStream_loop n m
         else if streams m i \<noteq> None then newStream_loop n m
         else (Some (length (objs m), i),
               m\<lparr>objs := objs m @ [new_stream i], streams := (streams m)(i \<mapsto> length (objs m))\<rparr>))"

definition newStream :: "manager \<Rightarrow> (stream_err + nat \<times> u16) \<times> manager" where
  "newStream m =
     (case newStream_loop 0x10000 m of
        (Some x, m') \<Rightarrow> (Inr x, m')
      | (None, m') \<Rightarrow> (Inl NoFreeStreamIDs, m'))"

definition relay_msg :: "relay_command \<Rightarrow> u16 \<Rightarrow> bytes \<Rightarrow> relay_cell" where
  "relay_msg command i data = \<lparr>rcommand = command, recognized = 0, streamID = i, rdigest = replicate 4 0, rdata = data\<rparr>"

text \<open>While \<^verbatim>\<open>begin\<close> waits, inbound cells are dispatched: \<open>env\<close>.\<close>

datatype bwake = BConnect | BCtx ctx_err

definition mgr_begin ::
  "'k carrier_relay \<Rightarrow> (manager \<times> 'k \<Rightarrow> bwake \<times> manager \<times> 'k) \<Rightarrow> relay_command \<Rightarrow> bytes \<Rightarrow>
   manager \<times> 'k \<Rightarrow> ((stream_err + nat) \<times> manager \<times> 'k) option" where
  "mgr_begin send_relay env command body st =
     (let (m, k) = st in
      case newStream m of
        (Inl e, m1) \<Rightarrow> Some (Inl e, m1, k)
      | (Inr (r, i), m1) \<Rightarrow>
        (case send_relay (relay_msg command i body) k of
           None \<Rightarrow> None
         | Some (Some e, k1) \<Rightarrow> Some (Inl (SendErr e), mgr_remove i m1, k1)
         | Some (None, k1) \<Rightarrow>
           (case env (m1, k1) of
              (BConnect, m2, k2) \<Rightarrow>
                (case connectCh (objs m2 ! r) of
                   [] \<Rightarrow> None
                 | a # rest \<Rightarrow>
                   (let m3 = upd_obj r (\<lambda>s. s\<lparr>connectCh := rest\<rparr>) m2 in
                    case a of Some e \<Rightarrow> Some (Inl e, mgr_remove i m3, k2)
                            | None \<Rightarrow> Some (Inr r, m3, k2)))
            | (BCtx e, m2, k2) \<Rightarrow>
                (case send_relay (relay_msg RelayEnd i [endReasonDone]) k2 of
                   None \<Rightarrow> None
                 | Some (_, k3) \<Rightarrow> Some (Inl (SCtx e), mgr_remove i m2, k3)))))"

definition begin_body :: "string \<Rightarrow> bytes" where
  "begin_body addr =
     wBytes (wU32 beginFlagIPv6OK (wByte 0 (wWrite (bytes_of addr) (newWriter (length addr + 5)))))"

definition mgr_Begin where
  "mgr_Begin send_relay env addr st = mgr_begin send_relay env RelayBegin (begin_body addr) st"

definition mgr_BeginDir where
  "mgr_BeginDir send_relay env st = mgr_begin send_relay env RelayBeginDir [] st"

section \<open>Reading\<close>

text \<open>\<^verbatim>\<open>drainLocked\<close> for a buffer of \<open>room\<close> bytes: the bytes copied, the chunks left, the count of
  consumed cells not yet acknowledged, and how many SENDMEs are due.\<close>

fun drain :: "nat \<Rightarrow> bytes list \<Rightarrow> nat \<Rightarrow> bytes \<times> bytes list \<times> nat \<times> nat" where
  "drain room [] cons = ([], [], cons, 0)"
| "drain room (c # cs) cons =
     (if room = 0 then ([], c # cs, cons, 0)
      else let k = min room (length c) in
        if k = length c then
          (let cons' = cons + 1;
               due = (if cons' \<ge> streamWindowIncrement then 1 else 0);
               (out, rest, cons'', sendmes) = drain (room - k) cs (cons' - due * streamWindowIncrement)
           in (c @ out, rest, cons'', due + sendmes))
        else (take k c, drop k c # cs, cons, 0))"

definition drainLocked :: "nat \<Rightarrow> stream \<Rightarrow> bytes \<times> nat \<times> stream" where
  "drainLocked room s =
     (let (out, rest, cons, sendmes) = drain room (readChunks s) (consumedCells s)
      in (out, sendmes, s\<lparr>readChunks := rest, consumedCells := cons\<rparr>))"

fun send_sendmes :: "'k carrier_relay \<Rightarrow> nat \<Rightarrow> u16 \<Rightarrow> 'k \<Rightarrow> 'k option" where
  "send_sendmes send_relay 0 i k = Some k"
| "send_sendmes send_relay (Suc n) i k =
     (case send_relay (relay_msg RelaySendme i []) k of
        None \<Rightarrow> None
      | Some (_, k') \<Rightarrow> send_sendmes send_relay n i k')"

datatype rwake = RSig | RTimeout | RDone

text \<open>\<^verbatim>\<open>Read\<close>; each element of \<open>envs\<close> is what other goroutines do during one wait and the case that
  ends it.  With no element left the call is still waiting.\<close>

fun Read ::
  "'k carrier_relay \<Rightarrow> (manager \<times> 'k \<Rightarrow> rwake \<times> manager \<times> 'k) list \<Rightarrow> nat \<Rightarrow> nat \<Rightarrow> manager \<times> 'k \<Rightarrow>
   ((stream_err + bytes) \<times> manager \<times> 'k) option" where
  "Read send_relay envs r room (m, k) =
     (let s = objs m ! r in
      if readChunks s \<noteq> [] then
        (let (out, sendmes, s') = drainLocked room s in
         case send_sendmes send_relay sendmes (sid s) k of
           None \<Rightarrow> None
         | Some k' \<Rightarrow> Some (Inr out, upd_obj r (\<lambda>_. s') m, k'))
      else case readErr s of
             Some e \<Rightarrow> Some (Inl e, m, k)
           | None \<Rightarrow>
             (case envs of
                [] \<Rightarrow> None
              | env # envs' \<Rightarrow>
                (case env (m, k) of
                   (RSig, m1, k1) \<Rightarrow>
                     if readSig (objs m1 ! r)
                     then Read send_relay envs' r room (upd_obj r (\<lambda>s. s\<lparr>readSig := False\<rparr>) m1, k1)
                     else None
                 | (RTimeout, m1, k1) \<Rightarrow> Some (Inl STimeout, m1, k1)
                 | (RDone, m1, k1) \<Rightarrow>
                     if \<not> sdone (objs m1 ! r) then None
                     else if readChunks (objs m1 ! r) \<noteq> [] then Read send_relay envs' r room (m1, k1)
                     else Some (Inl (case readErr (objs m1 ! r) of None \<Rightarrow> SErrClosed | Some e \<Rightarrow> e), m1, k1))))"

section \<open>Writing\<close>

datatype swake = SToken | STimeoutFired | SDoneFired

definition writeErr :: "stream \<Rightarrow> stream_err" where
  "writeErr s = (case readErr s of Some e \<Rightarrow> if e \<noteq> SEof then e else SErrClosed | None \<Rightarrow> SErrClosed)"

text \<open>The loop of \<^verbatim>\<open>Write\<close>; \<open>sched j\<close> are the cases that fire for the \<open>j\<close>-th chunk, here and in
  \<^verbatim>\<open>SendData\<close>.\<close>

function Write_loop ::
  "'k carrier_data \<Rightarrow> (nat \<Rightarrow> swake \<times> wake) \<Rightarrow> nat \<Rightarrow> nat \<Rightarrow> nat \<Rightarrow> bytes \<Rightarrow> manager \<times> 'k \<Rightarrow>
   (nat \<times> stream_err option \<times> manager \<times> 'k) option" where
  "Write_loop send_data sched r j tot p (m, k) =
     (if p = [] then Some (tot, None, m, k)
      else let chunk = (if length p > RelayDataLen then take RelayDataLen p else p);
               s = objs m ! r in
        case fst (sched j) of
          STimeoutFired \<Rightarrow> Some (tot, Some STimeout, m, k)
        | SDoneFired \<Rightarrow> if sdone s then Some (tot, Some (writeErr s), m, k) else None
        | SToken \<Rightarrow>
          (case tok_recv (pkgTokens s) of
             None \<Rightarrow> None
           | Some t \<Rightarrow>
             let m1 = upd_obj r (\<lambda>s. s\<lparr>pkgTokens := t\<rparr>) m in
             (case send_data (snd (sched j)) (sid s) chunk k of
                None \<Rightarrow> None
              | Some (Some e, k1) \<Rightarrow>
                Some (tot, Some (if e = ErrCtx DeadlineExceeded then STimeout else SendErr e),
                      upd_obj r (creditPackage 1) m1, k1)
              | Some (None, k1) \<Rightarrow>
                Write_loop send_data sched r (Suc j) (tot + length chunk) (drop (length chunk) p) (m1, k1))))"
  by pat_completeness auto
termination
  by (relation "measure (\<lambda>(send_data, sched, r, j, tot, p, st). length p)") auto

declare Write_loop.simps [simp del] Read.simps [simp del]

definition Write where
  "Write send_data sched r p st = Write_loop send_data sched r 0 0 p st"

section \<open>Closing\<close>

definition stream_Close ::
  "'k carrier_relay \<Rightarrow> nat \<Rightarrow> manager \<times> 'k \<Rightarrow> (manager \<times> 'k) option" where
  "stream_Close send_relay r st =
     (let (m, k) = st; s = objs m ! r in
      if closeOnce s then Some (m, k)
      else case send_relay (relay_msg RelayEnd (sid s) [endReasonDone]) k of
             None \<Rightarrow> None
           | Some (_, k1) \<Rightarrow>
             (let m1 = upd_obj r (\<lambda>s. (signalRead (s\<lparr>readErr := (if readErr s = None then Some SErrClosed else readErr s)\<rparr>))
                         \<lparr>sdone := True, closeOnce := True\<rparr>) m
              in Some (mgr_remove (sid s) m1, k1)))"

end
