(* ===== verification/Stream_Flow.thy ===== *)
theory Stream_Flow
  imports Stream_Mgr
begin

text \<open>
  What the stream layer guarantees: bytes come out of \<^verbatim>\<open>Read\<close> in the order they came in and every
  fiftieth consumed cell is acknowledged, so that an exit that respects the window never makes
  the buffer exceed 500 cells; stream identifiers are fresh and non-zero, and allocation fails
  only when all of them are taken; a cell reaches only the stream it names; \<^verbatim>\<open>Write\<close> hands the
  carrier exactly the prefix it reports.  The carrier's contract is the locale \<open>carrier\<close>, which
  the circuit satisfies.
\<close>

section \<open>Draining\<close>

lemma drain_spec:
  "drain room cs n = (out, rest, n', sm) \<Longrightarrow> n < 50 \<Longrightarrow>
   out @ concat rest = concat cs \<and> length out = min room (length (concat cs)) \<and> n' < 50 \<and>
   length rest \<le> length cs \<and> n' + 50 * sm = n + (length cs - length rest)"
proof (induction cs arbitrary: room n out rest n' sm)
  case (Cons c cs)
  show ?case
  proof (cases "room = 0")
    case False
    show ?thesis
    proof (cases "min room (length c) = length c")
      case True
      define due :: nat where "due = (if n + 1 \<ge> 50 then 1 else 0)"
      obtain o' r' c' s' where d: "drain (room - length c) cs (n + 1 - due * 50) = (o', r', c', s')"
        by (metis surj_pair)
      have e: "out = c @ o'" "rest = r'" "n' = c'" "sm = due + s'"
        using Cons.prems(1) False True d
        by (simp_all add: Let_def due_def split: if_splits)
      have small: "n + 1 - due * 50 < 50" using Cons.prems(2) by (auto simp: due_def)
      have ih: "o' @ concat r' = concat cs \<and> length o' = min (room - length c) (length (concat cs)) \<and>
          c' < 50 \<and> length r' \<le> length cs \<and> c' + 50 * s' = n + 1 - due * 50 + (length cs - length r')"
        by (rule Cons.IH [OF d small])
      have lc: "length c \<le> room" using True by simp
      show ?thesis
      proof (intro conjI)
        show "out @ concat rest = concat (c # cs)" using ih by (simp add: e)
        show "length out = min room (length (concat (c # cs)))" using ih lc by (simp add: e)
        show "n' < 50" using ih by (simp add: e)
        show "length rest \<le> length (c # cs)" using ih by (simp add: e)
        show "n' + 50 * sm = n + (length (c # cs) - length rest)"
        proof -
          have "c' + 50 * s' = n + 1 - due * 50 + (length cs - length r')" "length r' \<le> length cs"
            using ih by blast+
          then show ?thesis using Cons.prems(2) by (cases "n = 49") (simp_all add: e due_def)
        qed
      qed
    next
      case small: False
      then have "room < length c" by (simp add: min_def split: if_splits)
      then show ?thesis using Cons.prems False by (auto simp: Let_def)
    qed
  qed (use Cons.prems in auto)
qed auto

section \<open>A stream under load\<close>

datatype stream_event = Arrive bytes | Drain nat

fun stream_run :: "stream_event list \<Rightarrow> stream \<Rightarrow> bytes \<times> nat \<times> stream" where
  "stream_run [] s = ([], 0, s)"
| "stream_run (Arrive d # es) s = stream_run es (onData d s)"
| "stream_run (Drain room # es) s =
     (let (out, sm, s1) = drainLocked room s; (outs, sms, s2) = stream_run es s1
      in (out @ outs, sm + sms, s2))"

fun arrived :: "stream_event list \<Rightarrow> bytes list" where
  "arrived [] = []"
| "arrived (Arrive d # es) = (if d = [] then arrived es else d # arrived es)"
| "arrived (Drain room # es) = arrived es"

lemma stream_run_spec:
  "stream_run es s = (out, sm, s') \<Longrightarrow> consumedCells s < 50 \<Longrightarrow> readErr s = None \<Longrightarrow>
   out @ concat (readChunks s') = concat (readChunks s @ arrived es) \<and> consumedCells s' < 50 \<and>
   consumedCells s' + 50 * sm + length (readChunks s')
     = consumedCells s + length (readChunks s) + length (arrived es)"
proof (induction es arbitrary: s out sm)
  case (Cons e es)
  show ?case
  proof (cases e)
    case (Arrive d)
    then show ?thesis
      using Cons.IH [of "onData d s" out sm] Cons.prems by (simp add: onData_def signalRead_def)
  next
    case (Drain room)
    obtain o1 r1 c1 m1 where d: "drain room (readChunks s) (consumedCells s) = (o1, r1, c1, m1)"
      by (metis surj_pair)
    obtain o2 m2 where r: "stream_run es (s\<lparr>readChunks := r1, consumedCells := c1\<rparr>) = (o2, m2, s')"
      and o: "out = o1 @ o2" "sm = m1 + m2"
      using Cons.prems(1) by (auto simp: Drain drainLocked_def d split: prod.splits)
    note sp = drain_spec [OF d Cons.prems(2)]
    have ih: "o2 @ concat (readChunks s') = concat (r1 @ arrived es) \<and> consumedCells s' < 50 \<and>
        consumedCells s' + 50 * m2 + length (readChunks s') = c1 + length r1 + length (arrived es)"
      using Cons.IH [OF r] sp Cons.prems(3) by simp
    show ?thesis
    proof (intro conjI)
      have "out @ concat (readChunks s') = o1 @ concat r1 @ concat (arrived es)" using ih o by simp
      also have "\<dots> = concat (readChunks s @ arrived es)" using sp by simp
      finally show "out @ concat (readChunks s') = concat (readChunks s @ arrived (e # es))"
        by (simp add: Drain)
      show "consumedCells s' + 50 * sm + length (readChunks s')
          = consumedCells s + length (readChunks s) + length (arrived (e # es))"
      proof -
        have "c1 + 50 * m1 + length r1 = consumedCells s + length (readChunks s)" using sp by linarith
        moreover have "consumedCells s' + 50 * m2 + length (readChunks s') = c1 + length r1 + length (arrived es)"
          using ih by simp
        ultimately show ?thesis using o(2) by (simp add: Drain)
      qed
    qed (use ih in simp)
  qed
qed simp

section \<open>Stream identifiers\<close>

definition next_id :: "u16 \<Rightarrow> u16" where
  "next_id i = (if i + 1 = 0 then 1 else i + 1)"

lemma unat_next_id:
  assumes "i \<noteq> 0"
  shows "unat (next_id i) = (unat i - 1 + 1) mod 65535 + 1"
proof (cases "i + 1 = 0")
  case True
  then have "i = - 1" by (simp add: eq_neg_iff_add_eq_0)
  then have "unat i = 65535" by (simp add: unsigned_minus_1_eq_mask mask_eq_exp_minus_1)
  then show ?thesis using True by (simp add: next_id_def)
next
  case False
  have l: "unat i < 65536" by (rule unat_u16_lt)
  have "unat (i + 1) = unat i + 1" using False using unatSuc [of i] by (simp add: add.commute)
  moreover have "unat i \<noteq> 0" "unat i \<noteq> 65535"
    using assms False l calculation unat_u16_lt [of "i + 1"] by (simp_all add: unat_eq_zero)
  ultimately show ?thesis using False l by (simp add: next_id_def)
qed

lemma next_id_nz: "next_id i \<noteq> 0"
  by (simp add: next_id_def)

lemma next_id_pow:
  "i \<noteq> 0 \<Longrightarrow> (next_id ^^ k) i \<noteq> 0 \<and> unat ((next_id ^^ k) i) = (unat i - 1 + k) mod 65535 + 1"
proof (induction k)
  case 0
  have "unat i \<noteq> 0" "unat i < 65536" using 0 unat_u16_lt [of i] by (simp_all add: unat_eq_zero)
  then show ?case using 0 by simp
next
  case (Suc k)
  let ?j = "(next_id ^^ k) i"
  have "?j \<noteq> 0" "unat ?j = (unat i - 1 + k) mod 65535 + 1" using Suc by simp_all
  then show ?case
    using unat_next_id [of ?j] next_id_nz by (simp add: mod_Suc_eq)
qed

lemma next_id_covers:
  assumes "i \<noteq> 0" "j \<noteq> 0"
  shows "\<exists>k < 65535. (next_id ^^ k) i = j"
proof -
  let ?a = "unat i - 1" and ?b = "unat j - 1"
  have ab: "?a < 65535" "?b < 65535" "unat j = ?b + 1"
    using unat_u16_lt [of i] unat_u16_lt [of j] assms(2) unat_gt_0 [of j] by linarith+
  define k where "k = (?b + 65535 - ?a) mod 65535"
  have k: "k < 65535" by (simp add: k_def)
  have "(?a + k) mod 65535 = (?a + (?b + 65535 - ?a)) mod 65535" by (simp add: k_def mod_add_right_eq)
  also have "?a + (?b + 65535 - ?a) = ?b + 65535" using ab(1) by simp
  finally have "(?a + k) mod 65535 = ?b" using ab(2) by simp
  then have "unat ((next_id ^^ k) i) = unat j" using next_id_pow [OF assms(1), of k] ab(3) by simp
  with k show ?thesis by (metis word_unat_eq_iff)
qed

lemma newStream_loop_None:
  "newStream_loop n m = (None, m') \<Longrightarrow> nextID m \<noteq> 0 \<Longrightarrow>
   \<forall>k < n. streams m ((next_id ^^ k) (nextID m)) \<noteq> None"
proof (induction n arbitrary: m)
  case (Suc n)
  have used: "streams m (nextID m) \<noteq> None"
    using Suc.prems by (auto simp: Let_def split: if_splits)
  have "newStream_loop n (m\<lparr>nextID := next_id (nextID m)\<rparr>) = (None, m')"
    using Suc.prems used by (simp add: Let_def next_id_def split: if_splits)
  from Suc.IH [OF this] next_id_nz
  have ih: "\<forall>k < n. streams m ((next_id ^^ k) (next_id (nextID m))) \<noteq> None" by simp
  show ?case
  proof (intro allI impI)
    fix k assume "k < Suc n"
    then show "streams m ((next_id ^^ k) (nextID m)) \<noteq> None"
      using ih used by (cases k) (auto simp: funpow_swap1)
  qed
qed simp

lemma newStream_loop_Some:
  "newStream_loop n m = (Some (r, i), m') \<Longrightarrow>
   i \<noteq> 0 \<and> streams m i = None \<and> r = length (objs m) \<and> objs m' = objs m @ [new_stream i] \<and>
   streams m' = (streams m)(i \<mapsto> r)"
proof (induction n arbitrary: m)
  case (Suc n)
  show ?case
  proof (cases "nextID m = 0 \<or> streams m (nextID m) \<noteq> None")
    case True
    then have "newStream_loop n (m\<lparr>nextID := next_id (nextID m)\<rparr>) = (Some (r, i), m')"
      using Suc.prems by (simp add: Let_def next_id_def split: if_splits)
    from Suc.IH [OF this] show ?thesis by auto
  next
    case False
    then show ?thesis using Suc.prems by (auto simp: Let_def)
  qed
qed simp

lemma newStream_loop_full:
  assumes "nextID m \<noteq> 0" "65535 \<le> n"
  shows "fst (newStream_loop n m) = None \<longleftrightarrow> (\<forall>i. i \<noteq> 0 \<longrightarrow> streams m i \<noteq> None)"
proof
  assume "fst (newStream_loop n m) = None"
  then obtain m' where "newStream_loop n m = (None, m')" by (metis prod.collapse)
  note none = newStream_loop_None [OF this assms(1)]
  show "\<forall>i. i \<noteq> 0 \<longrightarrow> streams m i \<noteq> None"
  proof (intro allI impI)
    fix i :: u16
    assume "i \<noteq> 0"
    from next_id_covers [OF assms(1) this] obtain k
      where "k < 65535" "(next_id ^^ k) (nextID m) = i" by blast
    with none assms(2) show "streams m i \<noteq> None" by (metis order_less_le_trans)
  qed
next
  assume full: "\<forall>i. i \<noteq> 0 \<longrightarrow> streams m i \<noteq> None"
  show "fst (newStream_loop n m) = None"
  proof (rule ccontr)
    assume "fst (newStream_loop n m) \<noteq> None"
    then obtain r i m' where "newStream_loop n m = (Some (r, i), m')" by (metis option.exhaust prod.collapse)
    with newStream_loop_Some full show False by blast
  qed
qed

lemma newStream_cases:
  "(\<exists>m'. newStream_loop 0x10000 m = (None, m') \<and> newStream m = (Inl NoFreeStreamIDs, m')) \<or>
   (\<exists>x m'. newStream_loop 0x10000 m = (Some x, m') \<and> newStream m = (Inr x, m'))"
proof (cases "newStream_loop 0x10000 m")
  case (Pair a m')
  then show ?thesis unfolding newStream_def by (cases a) simp_all
qed

lemma newStream_fails_iff:
  assumes "nextID m \<noteq> 0"
  shows "fst (newStream m) = Inl NoFreeStreamIDs \<longleftrightarrow> (\<forall>i. i \<noteq> 0 \<longrightarrow> streams m i \<noteq> None)"
  using newStream_cases [where m = m] newStream_loop_full [OF assms, where n = 65536] by auto

lemma newStream_ok:
  assumes "newStream m = (Inr (r, i), m')"
  shows "i \<noteq> 0 \<and> streams m i = None \<and> r = length (objs m) \<and> objs m' = objs m @ [new_stream i] \<and>
   streams m' = (streams m)(i \<mapsto> r)"
  using newStream_cases [where m = m] newStream_loop_Some [where n = 65536 and m = m and r = r and i = i and m' = m'] assms by auto

section \<open>Invariant of the manager\<close>

definition stream_wf :: "stream \<Rightarrow> bool" where
  "stream_wf s \<longleftrightarrow> consumedCells s < 50 \<and> tcap (pkgTokens s) = streamWindowStart \<and>
     tlen (pkgTokens s) \<le> streamWindowStart \<and> length (connectCh s) \<le> 1 \<and> [] \<notin> set (readChunks s)"

definition mgr_wf :: "manager \<Rightarrow> bool" where
  "mgr_wf m \<longleftrightarrow> nextID m \<noteq> 0 \<and> list_all stream_wf (objs m) \<and>
     (\<forall>i r. streams m i = Some r \<longrightarrow> i \<noteq> 0 \<and> r < length (objs m) \<and> sid (objs m ! r) = i)"

lemma mgr_wf_New [simp]: "mgr_wf NewManager"
  by (simp add: mgr_wf_def NewManager_def)

lemma mgr_wf_upd [tor_inv]:
  assumes "mgr_wf m" "\<And>s. stream_wf s \<Longrightarrow> stream_wf (f s) \<and> sid (f s) = sid s"
  shows "mgr_wf (upd_obj r f m)"
  using assms by (cases "r < length (objs m)")
    (auto simp: mgr_wf_def upd_obj_def list_all_length nth_list_update list_update_beyond)

lemma mgr_wf_remove [simp, tor_inv]: "mgr_wf m \<Longrightarrow> mgr_wf (mgr_remove i m)"
  by (auto simp: mgr_wf_def mgr_remove_def)

lemma sid_new_stream [simp]: "sid (new_stream i) = i"
  by (simp add: new_stream_def)

lemma stream_wf_ops [simp]:
  "stream_wf s \<Longrightarrow> stream_wf (onData d s) \<and> sid (onData d s) = sid s"
  "stream_wf s \<Longrightarrow> stream_wf (creditPackage n s) \<and> sid (creditPackage n s) = sid s"
  "stream_wf (new_stream i)"
  by (auto simp: stream_wf_def onData_def signalRead_def creditPackage_def tok_credit_eq new_stream_def)

lemma drain_nonempty: "[] \<notin> set cs \<Longrightarrow> [] \<notin> set (fst (snd (drain room cs n)))"
proof (induction cs arbitrary: room n)
  case (Cons c cs)
  then show ?case by (cases "room < length c") (auto simp: Let_def case_prod_unfold)
qed simp

lemma stream_wf_drain:
  assumes "stream_wf s" "drainLocked room s = (out, sm, s')"
  shows "stream_wf s' \<and> sid s' = sid s"
proof -
  obtain o' r' c' m' where e: "drain room (readChunks s) (consumedCells s) = (o', r', c', m')" by (metis surj_pair)
  have s': "s' = s\<lparr>readChunks := r', consumedCells := c'\<rparr>"
    using assms(2) by (simp add: drainLocked_def e)
  have "c' < 50" using drain_spec [OF e] assms(1) by (simp add: stream_wf_def)
  moreover have "[] \<notin> set r'" using drain_nonempty [of "readChunks s" room "consumedCells s"] assms(1)
    by (simp add: stream_wf_def e)
  ultimately show ?thesis using assms(1) by (simp add: s' stream_wf_def)
qed

lemma stream_wf_connect: "stream_wf s \<Longrightarrow> connectCh s = [] \<Longrightarrow> stream_wf (s\<lparr>connectCh := [x]\<rparr>)"
  by (simp add: stream_wf_def)

lemma mgr_wf_onEnd [tor_inv]: "mgr_wf m \<Longrightarrow> mgr_wf (onEnd b r m)"
  unfolding onEnd_def Let_def
  by (intro mgr_wf_remove mgr_wf_upd) (auto simp: stream_wf_def signalRead_def trySend_def)

lemma mgr_wf_handleCell [tor_inv]: "mgr_wf m \<Longrightarrow> mgr_wf (handleCell rc r m)"
  by (auto simp: handleCell_def mgr_wf_onEnd trySend_def stream_wf_connect intro!: mgr_wf_upd)

lemma mgr_wf_dispatch [tor_inv]: "mgr_wf m \<Longrightarrow> mgr_wf (dispatch rc m)"
  by (auto simp: dispatch_def mgr_wf_handleCell split: option.split)

lemma newStream_loop_nextID: "nextID m \<noteq> 0 \<Longrightarrow> nextID (snd (newStream_loop n m)) \<noteq> 0"
proof (induction n arbitrary: m)
  case (Suc n)
  show ?case using Suc.IH [of "m\<lparr>nextID := next_id (nextID m)\<rparr>"] Suc.prems next_id_nz [of "nextID m"]
    by (auto simp: Let_def next_id_def)
qed simp

lemma newStream_loop_fail: "fst (newStream_loop n m) = None \<Longrightarrow>
  objs (snd (newStream_loop n m)) = objs m \<and> streams (snd (newStream_loop n m)) = streams m"
proof (induction n arbitrary: m)
  case (Suc n)
  show ?case using Suc.IH [of "m\<lparr>nextID := next_id (nextID m)\<rparr>"] Suc.prems
    by (auto simp: Let_def next_id_def split: if_splits)
qed simp

lemma mgr_wf_newStream [tor_inv]: "mgr_wf m \<Longrightarrow> mgr_wf (snd (newStream m))"
proof -
  assume wf: "mgr_wf m"
  have nz: "nextID (snd (newStream_loop 0x10000 m)) \<noteq> 0"
    using wf newStream_loop_nextID [where n = 65536 and m = m] by (simp add: mgr_wf_def)
  from newStream_cases [where m = m] show ?thesis
  proof
    assume "\<exists>m'. newStream_loop 0x10000 m = (None, m') \<and> newStream m = (Inl NoFreeStreamIDs, m')"
    then show ?thesis
      using wf nz newStream_loop_fail [where n = 65536 and m = m] by (clarsimp simp: mgr_wf_def)
  next
    assume "\<exists>x m'. newStream_loop 0x10000 m = (Some x, m') \<and> newStream m = (Inr x, m')"
    then obtain r i m' where e: "newStream_loop 0x10000 m = (Some (r, i), m')" "newStream m = (Inr (r, i), m')"
      by auto
    from newStream_ok [OF e(2)] wf nz e show ?thesis
      by (auto simp: mgr_wf_def nth_append intro: less_SucI)
  qed
qed

interpretation stream_ids: id_pool "\<lambda>m. dom (streams m)" mgr_wf "\<lambda>m i m'. \<exists>r. newStream m = (Inr (r, i), m')" mgr_remove
proof
  fix m m' i assume wf: "mgr_wf m" and a: "\<exists>r. newStream m = (Inr (r, i), m')"
  then obtain r where r: "newStream m = (Inr (r, i), m')" by blast
  show "i \<notin> dom (streams m) \<and> dom (streams m') = insert i (dom (streams m))"
    using newStream_ok [OF r] by auto
  show "mgr_wf m'" using mgr_wf_newStream [OF wf] r by simp
next
  fix m i
  show "dom (streams (mgr_remove i m)) = dom (streams m) - {i}" by (simp add: mgr_remove_def)
qed simp

section \<open>Isolation and termination of streams\<close>

text \<open>A dispatched cell changes only the stream registered under its identifier.\<close>

lemma dispatch_isolated:
  assumes "mgr_wf m"
  shows "streams m (streamID rc) \<noteq> Some r \<Longrightarrow> objs (dispatch rc m) ! r = objs m ! r"
    and "i \<noteq> streamID rc \<Longrightarrow> streams (dispatch rc m) i = streams m i"
    and "length (objs (dispatch rc m)) = length (objs m)"
  using assms
  by (auto simp: dispatch_def handleCell_def onEnd_def upd_obj_def mgr_remove_def Let_def mgr_wf_def
      split: option.splits)

text \<open>An end, once reported, is not replaced; data after it is dropped.\<close>

lemma readErr_sticky:
  assumes "r < length (objs m)" "readErr (objs m ! r) = Some e"
  shows "readErr (objs (dispatch rc m) ! r) = Some e"
    and "readChunks (objs (dispatch rc m) ! r) = readChunks (objs m ! r)"
proof -
  have "readErr (objs (dispatch rc m) ! r) = Some e \<and>
      readChunks (objs (dispatch rc m) ! r) = readChunks (objs m ! r)"
  proof (cases "streams m (streamID rc)")
    case (Some r')
    show ?thesis
      using assms Some
      by (cases "r' = r")
         (simp_all add: dispatch_def handleCell_def onEnd_def upd_obj_def mgr_remove_def onData_def
           signalRead_def creditPackage_def Let_def)
  qed (use assms in \<open>simp add: dispatch_def\<close>)
  then show "readErr (objs (dispatch rc m) ! r) = Some e"
    and "readChunks (objs (dispatch rc m) ! r) = readChunks (objs m ! r)" by simp_all
qed

lemma stream_Close_spec:
  assumes "mgr_wf m" "stream_Close send_relay r (m, k) = Some (m', k')"
  shows "mgr_wf m'" and "r < length (objs m) \<Longrightarrow> closeOnce (objs m' ! r)"
    and "stream_Close send_relay r (m', k') = Some (m', k') \<or> length (objs m) \<le> r"
    and "\<not> closeOnce (objs m ! r) \<Longrightarrow> streams m' = (streams m)(sid (objs m ! r) := None)"
proof -
  show "mgr_wf m'"
    using assms
    by (auto simp: stream_Close_def Let_def split: if_splits option.splits intro!: mgr_wf_remove mgr_wf_upd)
       (auto simp: stream_wf_def signalRead_def)
  show "r < length (objs m) \<Longrightarrow> closeOnce (objs m' ! r)"
    using assms(2)
    by (auto simp: stream_Close_def Let_def upd_obj_def mgr_remove_def split: if_splits option.splits)
  then show "stream_Close send_relay r (m', k') = Some (m', k') \<or> length (objs m) \<le> r"
    by (simp add: stream_Close_def Let_def) linarith
  show "\<not> closeOnce (objs m ! r) \<Longrightarrow> streams m' = (streams m)(sid (objs m ! r) := None)"
    using assms(2)
    by (auto simp: stream_Close_def Let_def upd_obj_def mgr_remove_def split: if_splits option.splits)
qed

section \<open>The carrier\<close>

lemma Write_loop_token:
  assumes "p \<noteq> []" "fst (sched j) = SToken"
  shows "Write_loop send_data sched r j tot p (m, k) =
    (case tok_recv (pkgTokens (objs m ! r)) of
       None \<Rightarrow> None
     | Some t \<Rightarrow>
       (case send_data (snd (sched j)) (sid (objs m ! r)) (take RelayDataLen p) k of
          None \<Rightarrow> None
        | Some (Some e, k1) \<Rightarrow>
          Some (tot, Some (if e = ErrCtx DeadlineExceeded then STimeout else SendErr e),
                upd_obj r (creditPackage 1) (upd_obj r (\<lambda>s. s\<lparr>pkgTokens := t\<rparr>) m), k1)
        | Some (None, k1) \<Rightarrow>
          Write_loop send_data sched r (Suc j) (tot + length (take RelayDataLen p))
            (drop (length (take RelayDataLen p)) p) (upd_obj r (\<lambda>s. s\<lparr>pkgTokens := t\<rparr>) m, k1)))"
proof -
  have "(if length p > RelayDataLen then take RelayDataLen p else p) = take RelayDataLen p" by simp
  then show ?thesis
    unfolding Write_loop.simps [of send_data sched r j tot p m k] Let_def
    using assms by (simp only: if_False swake.case simp_thms)
qed

text \<open>What the stream layer relies on: a data cell is carried or it is not; a refused one costs no
  permit and a carried one costs exactly one.\<close>

locale carrier =
  fixes send_data :: "'k carrier_data" and good :: "'k \<Rightarrow> bool"
    and sent :: "'k \<Rightarrow> (u16 \<times> bytes) list" and permits :: "'k \<Rightarrow> nat"
  assumes data_good: "good k \<Longrightarrow> send_data w i d k = Some (res, k') \<Longrightarrow> good k'"
    and data_ok: "good k \<Longrightarrow> send_data w i d k = Some (None, k') \<Longrightarrow>
          sent k' = sent k @ [(i, d)] \<and> permits k = Suc (permits k')"
    and data_err: "good k \<Longrightarrow> send_data w i d k = Some (Some e, k') \<Longrightarrow> sent k' = sent k \<and> permits k' = permits k"
begin

lemma Write_loop_sound:
  "Write_loop send_data sched r j tot p (m, k) = Some (n, err, m', k') \<Longrightarrow> good k \<Longrightarrow> mgr_wf m \<Longrightarrow>
   r < length (objs m) \<Longrightarrow>
   \<exists>ds. sent k' = sent k @ map (Pair (sid (objs m ! r))) ds \<and> concat ds = take (n - tot) p \<and>
     (\<forall>d \<in> set ds. d \<noteq> [] \<and> length d \<le> RelayDataLen) \<and> tot \<le> n \<and> n - tot \<le> length p \<and>
     (err = None \<longleftrightarrow> n = tot + length p) \<and>
     permits k = permits k' + length ds \<and>
     tlen (pkgTokens (objs m ! r)) = tlen (pkgTokens (objs m' ! r)) + length ds"
proof (induction "length p" arbitrary: j tot p m k rule: less_induct)
  case less
  let ?s = "objs m ! r" and ?chunk = "take RelayDataLen p"
  have swf: "stream_wf ?s" using less.prems(3,4) by (simp add: mgr_wf_def list_all_length)
  show ?case
  proof (cases "p = []")
    case True
    then show ?thesis using less.prems by (intro exI [of _ "[]"]) (auto simp: Write_loop.simps)
  next
    case ne: False
    show ?thesis
    proof (cases "fst (sched j)")
      case SToken
      note unf = less.prems(1) [unfolded Write_loop_token [where sched = sched and j = j, OF ne SToken]]
      then obtain t where t: "tok_recv (pkgTokens ?s) = Some t" by (auto split: option.splits)
      let ?m1 = "upd_obj r (\<lambda>s. s\<lparr>pkgTokens := t\<rparr>) m"
      have tl: "tlen (pkgTokens ?s) = Suc (tlen t)" "tcap t = tcap (pkgTokens ?s)"
        using tok.recv_avail [OF t] tok.recv_capacity [OF t] by simp_all
      obtain e k1 where sd: "send_data (snd (sched j)) (sid ?s) ?chunk k = Some (e, k1)"
        using unf t by (auto split: option.splits)
      show ?thesis
      proof (cases e)
        case (Some x)
        have fin: "n = tot" "err \<noteq> None" "m' = upd_obj r (creditPackage 1) ?m1" "k' = k1"
          using unf by (auto simp: t sd Some)
        have "tlen (pkgTokens (objs m' ! r)) = tlen (pkgTokens ?s)"
          using fin(3) less.prems(4) tl swf
          by (simp add: upd_obj_def creditPackage_def tok_send_def stream_wf_def)
        then show ?thesis
          using fin data_err [OF less.prems(2) sd [unfolded Some]] ne
          by (intro exI [of _ "[]"]) auto
      next
        case None
        have rec: "Write_loop send_data sched r (Suc j) (tot + length ?chunk) (drop (length ?chunk) p) (?m1, k1)
            = Some (n, err, m', k')"
          using unf by (simp add: t sd None)
        have wf1: "mgr_wf ?m1"
          using less.prems(3) tl swf less.prems(4)
          by (auto simp: mgr_wf_def upd_obj_def list_all_length nth_list_update stream_wf_def)
        have shorter: "length (drop (length ?chunk) p) < length p" using ne by simp
        have g1: "good k1" by (rule data_good [OF less.prems(2) sd])
        have r1: "r < length (objs ?m1)" using less.prems(4) by (simp add: upd_obj_def)
        from less.hyps [OF shorter rec g1 wf1 r1]
        obtain ds where ds: "sent k' = sent k1 @ map (Pair (sid (objs ?m1 ! r))) ds"
          "concat ds = take (n - (tot + length ?chunk)) (drop (length ?chunk) p)"
          "\<forall>d \<in> set ds. d \<noteq> [] \<and> length d \<le> RelayDataLen" "tot + length ?chunk \<le> n"
          "n - (tot + length ?chunk) \<le> length (drop (length ?chunk) p)"
          "(err = None) = (n = tot + length ?chunk + length (drop (length ?chunk) p))"
          "permits k1 = permits k' + length ds"
          "tlen (pkgTokens (objs ?m1 ! r)) = tlen (pkgTokens (objs m' ! r)) + length ds"
          by blast
        have o1: "sid (objs ?m1 ! r) = sid ?s" "pkgTokens (objs ?m1 ! r) = t"
          using less.prems(4) by (simp_all add: upd_obj_def)
        have cl: "length ?chunk \<le> length p" by simp
        have cat: "concat (?chunk # ds) = take (n - tot) p"
        proof -
          have "take (n - tot) p = take (length ?chunk + (n - (tot + length ?chunk))) p"
            using ds(4) by (intro arg_cong [where f = "\<lambda>i. take i p"]) linarith
          also have "\<dots> = ?chunk @ take (n - (tot + length ?chunk)) (drop (length ?chunk) p)"
            unfolding take_add by (metis append_eq_conv_conj append_take_drop_id)
          finally show ?thesis using ds(2) by simp
        qed
        note dk = data_ok [OF less.prems(2) sd [unfolded None]]
        show ?thesis
        proof (intro exI [of _ "?chunk # ds"] conjI cat)
          show "sent k' = sent k @ map (Pair (sid ?s)) (?chunk # ds)" using ds(1) dk o1(1) by simp
          show "\<forall>d \<in> set (?chunk # ds). d \<noteq> [] \<and> length d \<le> RelayDataLen" using ds(3) ne by auto
          show "tot \<le> n" using ds(4) by linarith
          show "n - tot \<le> length p" using ds(4,5) cl by simp
          show "(err = None) = (n = tot + length p)" using ds(6) cl by simp
          show "permits k = permits k' + length (?chunk # ds)" using ds(7) dk by simp
          show "tlen (pkgTokens ?s) = tlen (pkgTokens (objs m' ! r)) + length (?chunk # ds)"
            using ds(8) tl(1) o1(2) by simp
        qed
      qed
    next
      case STimeoutFired
      then show ?thesis using less.prems(1) ne
        by (subst (asm) Write_loop.simps) (auto intro!: exI [of _ "[]"] simp: Let_def)
    next
      case SDoneFired
      then show ?thesis using less.prems(1) ne
        by (subst (asm) Write_loop.simps) (auto intro!: exI [of _ "[]"] simp: Let_def split: if_splits)
    qed
  qed
qed

end

text \<open>The circuit, with the data cells it accepted as a history.\<close>

definition circ_data ::
  "crypto \<Rightarrow> 'l send_cell \<Rightarrow> ((circuit \<times> 'l) \<times> (u16 \<times> bytes) list) carrier_data" where
  "circ_data K snd_cell w i d k =
     (case SendData K snd_cell w i d (fst k) of
        None \<Rightarrow> None
      | Some (e, s) \<Rightarrow> Some (e, s, if e = None then snd k @ [(i, d)] else snd k))"

lemma sendRelay_tokens:
  "sendRelay K snd_cell d rc early (c, l) = Some (e, c', l') \<Longrightarrow> circPkgTokens c' = circPkgTokens c"
  by (auto simp: sendRelay_def sendRelay_claim_def writeAtTurn_def circ_fail_def case_prod_unfold Let_def
      split: if_splits option.splits)

lemma SendData_permits:
  assumes "circ_wf c" "SendData K snd_cell w i d (c, l) = Some (e, c', l')"
  shows "e = None \<Longrightarrow> tlen (circPkgTokens c) = Suc (tlen (circPkgTokens c'))"
    and "e \<noteq> None \<Longrightarrow> tlen (circPkgTokens c') = tlen (circPkgTokens c)"
proof -
  have one: "e \<noteq> None \<Longrightarrow> takePermit c = Some c1 \<Longrightarrow> circPkgTokens c2 = circPkgTokens c1 \<Longrightarrow>
      tlen (circPkgTokens (creditPackageWindow 1 c2)) = tlen (circPkgTokens c)" for c1 c2
    using circ_window.recv_avail [of c c1] circ_window.recv_capacity [of c c1] assms(1)
    by (simp add: creditPackageWindow_def tok_send_def circ_wf_def)
  show "e = None \<Longrightarrow> tlen (circPkgTokens c) = Suc (tlen (circPkgTokens c'))"
    using assms(2) circ_window.recv_avail [of c]
    by (auto simp: SendData_def split: wake.splits option.splits if_splits dest!: sendRelay_tokens)
  show "e \<noteq> None \<Longrightarrow> tlen (circPkgTokens c') = tlen (circPkgTokens c)"
    using assms(2) one
    by (auto simp: SendData_def split: wake.splits option.splits if_splits dest!: sendRelay_tokens)
qed

interpretation circ_carrier: carrier "circ_data K snd_cell" "\<lambda>k. circ_wf (fst (fst k))" snd
    "\<lambda>k. tlen (circPkgTokens (fst (fst k)))" for K snd_cell
proof
  fix w i d res and k k' :: "(circuit \<times> 'a) \<times> (u16 \<times> bytes) list"
  assume g: "circ_wf (fst (fst k))"
  show "circ_wf (fst (fst k'))" if "circ_data K snd_cell w i d k = Some (res, k')"
    using that g circ_wf_SendData [of "fst (fst k)" K snd_cell w i d "snd (fst k)"]
    by (auto simp: circ_data_def split: option.splits)
next
  fix w i d and k k' :: "(circuit \<times> 'a) \<times> (u16 \<times> bytes) list"
  assume g: "circ_wf (fst (fst k))" and s: "circ_data K snd_cell w i d k = Some (None, k')"
  then show "snd k' = snd k @ [(i, d)] \<and>
      tlen (circPkgTokens (fst (fst k))) = Suc (tlen (circPkgTokens (fst (fst k'))))"
    using SendData_permits(1) [of "fst (fst k)" K snd_cell w i d "snd (fst k)"]
    by (auto simp: circ_data_def split: option.splits)
next
  fix w i d e and k k' :: "(circuit \<times> 'a) \<times> (u16 \<times> bytes) list"
  assume g: "circ_wf (fst (fst k))" and s: "circ_data K snd_cell w i d k = Some (Some e, k')"
  then show "snd k' = snd k \<and>
      tlen (circPkgTokens (fst (fst k'))) = tlen (circPkgTokens (fst (fst k)))"
    using SendData_permits(2) [of "fst (fst k)" K snd_cell w i d "snd (fst k)"]
    by (auto simp: circ_data_def split: option.splits)
qed

section \<open>Properties\<close>

text \<open>C16: However arriving data cells and reads interleave on a stream, the bytes read so far
  followed by what is still buffered are the bytes of the cells in order of arrival, and one stream
  SENDME has been emitted for every fiftieth cell fully read.\<close>

theorem stream_reads_in_order:
  assumes "stream_run es (new_stream i) = (out, sendmes, s)"
  shows "out @ concat (readChunks s) = concat (arrived es) \<and>
    length (readChunks s) \<le> length (arrived es) \<and>
    sendmes = (length (arrived es) - length (readChunks s)) div 50"
proof -
  have a: "out @ concat (readChunks s) = concat (arrived es)" "consumedCells s < 50"
    "consumedCells s + 50 * sendmes + length (readChunks s) = length (arrived es)"
    using stream_run_spec [OF assms] by (simp_all add: new_stream_def)
  have "length (arrived es) - length (readChunks s) = consumedCells s + 50 * sendmes" using a(3) by simp
  then show ?thesis using a by simp
qed

theorem stream_reads_in_order_witness:
  "\<exists>out sendmes s. stream_run [Arrive [1, 2, 3], Drain 2, Arrive [4], Drain 9] (new_stream 1) = (out, sendmes, s) \<and>
     out @ concat (readChunks s) = [1, 2, 3, 4]"
proof -
  obtain out sendmes s where r: "stream_run [Arrive [1, 2, 3], Drain 2, Arrive [4], Drain 9] (new_stream 1) = (out, sendmes, s)"
    by (metis surj_pair)
  from stream_reads_in_order [OF r] r show ?thesis by auto
qed

text \<open>Flow control bounds the memory of a stream: while the exit has sent no more than the
  initial 500 cells plus 50 for each SENDME it was given, at most 500 cells are buffered.\<close>

theorem stream_buffer_bounded:
  assumes "stream_run es (new_stream i) = (out, sendmes, s)"
    and "length (arrived es) \<le> streamWindowStart + streamWindowIncrement * sendmes"
  shows "length (readChunks s) \<le> streamWindowStart"
  using stream_run_spec [OF assms(1)] assms(2) by (simp add: new_stream_def)

theorem stream_buffer_bounded_witness:
  "\<exists>out sendmes s. stream_run [Arrive [1], Arrive [2], Drain 1] (new_stream 3) = (out, sendmes, s) \<and> length (readChunks s) \<le> 500"
proof -
  obtain out sendmes s where r: "stream_run [Arrive [1], Arrive [2], Drain 1] (new_stream 3) = (out, sendmes, s)"
    by (metis surj_pair)
  from stream_buffer_bounded [OF r] r show ?thesis by auto
qed

text \<open>A new stream gets a non-zero identifier that no open stream has, and allocation fails
  only when every one of the 65535 identifiers is in use.\<close>

theorem stream_ids_fresh:
  assumes "mgr_wf m"
  shows "case fst (newStream m) of
      Inl e \<Rightarrow> e = NoFreeStreamIDs \<and> (\<forall>i. i \<noteq> 0 \<longrightarrow> streams m i \<noteq> None)
    | Inr (r, i) \<Rightarrow> i \<noteq> 0 \<and> streams m i = None \<and> streams (snd (newStream m)) = (streams m)(i \<mapsto> r) \<and>
        objs (snd (newStream m)) = objs m @ [new_stream i] \<and> r = length (objs m) \<and> mgr_wf (snd (newStream m))"
proof (cases "newStream m")
  case (Pair a m')
  have nz: "nextID m \<noteq> 0" using assms by (simp add: mgr_wf_def)
  show ?thesis
  proof (cases a)
    case (Inl e)
    then show ?thesis
      using newStream_cases [where m = m] newStream_fails_iff [OF nz] Pair by auto
  next
    case (Inr x)
    then show ?thesis
      using newStream_ok [of m "fst x" "snd x" m'] mgr_wf_newStream [OF assms] Pair by (cases x) auto
  qed
qed

theorem stream_ids_fresh_witness:
  "case fst (newStream NewManager) of Inl e \<Rightarrow> e = NoFreeStreamIDs \<and> (\<forall>i. i \<noteq> 0 \<longrightarrow> streams NewManager i \<noteq> None)
     | Inr (r, i) \<Rightarrow> i \<noteq> 0 \<and> r = 0"
proof -
  have "objs NewManager = []" by (simp add: NewManager_def)
  with stream_ids_fresh [OF mgr_wf_New] show ?thesis by (auto split: sum.splits prod.splits)
qed

text \<open>An inbound cell changes only the stream registered under its identifier: every other
  stream object and every other registration is untouched; and a stream that has ended keeps its
  end reason and buffers no more data.\<close>

theorem dispatch_touches_one_stream:
  assumes "mgr_wf m"
  shows "(\<forall>r. streams m (streamID rc) \<noteq> Some r \<longrightarrow> objs (dispatch rc m) ! r = objs m ! r) \<and>
    (\<forall>i. i \<noteq> streamID rc \<longrightarrow> streams (dispatch rc m) i = streams m i) \<and> mgr_wf (dispatch rc m) \<and>
    (\<forall>r e. r < length (objs m) \<and> readErr (objs m ! r) = Some e \<longrightarrow>
       readErr (objs (dispatch rc m) ! r) = Some e \<and>
       readChunks (objs (dispatch rc m) ! r) = readChunks (objs m ! r))"
  using dispatch_isolated [OF assms] readErr_sticky mgr_wf_dispatch [OF assms] by blast

theorem dispatch_touches_one_stream_witness:
  "streams (dispatch (relay_msg RelayEnd 4 []) NewManager) 9 = streams NewManager 9"
  using dispatch_touches_one_stream [OF mgr_wf_New, of "relay_msg RelayEnd 4 []"] by (simp add: relay_msg_def)



end
