(* ===== verification/Go_Text.thy ===== *)
theory Go_Text
  imports Go_Std "HOL-Library.Signed_Division"
begin

text \<open>
  More of Go's standard library, for the documents the client parses: \<^verbatim>\<open>bufio.Scanner\<close> on lines,
  \<^verbatim>\<open>strings.Fields\<close>, \<^verbatim>\<open>strings.Split\<close>, \<^verbatim>\<open>encoding/hex\<close>, \<^verbatim>\<open>encoding/base64\<close> (with its partial
  result on an error) and 64-bit signed arithmetic with its wrap-around.  A Go string is the list of
  its bytes; \<^verbatim>\<open>Fields\<close>, \<^verbatim>\<open>ToLower\<close> and \<^verbatim>\<open>ToUpper\<close> are as on ASCII text, which is what the document
  formats consist of.  The lemmas are the print/parse round trips.
\<close>

section \<open>Signed 64-bit integers\<close>

definition wrap64 :: "int \<Rightarrow> int" where
  "wrap64 x = (x + 2 ^ 63) mod 2 ^ 64 - 2 ^ 63"

lemma wrap64_id [simp]: "- (2 ^ 63) \<le> x \<Longrightarrow> x < 2 ^ 63 \<Longrightarrow> wrap64 x = x"
  by (simp add: wrap64_def)

lemma wrap64_range: "- (2 ^ 63) \<le> wrap64 x \<and> wrap64 x < 2 ^ 63"
proof -
  have "0 \<le> (x + 2 ^ 63) mod 2 ^ 64" "(x + 2 ^ 63) mod 2 ^ 64 < (2 :: int) ^ 64" by simp_all
  then show ?thesis by (auto simp: wrap64_def)
qed

section \<open>Lines\<close>

fun split_on :: "char \<Rightarrow> string \<Rightarrow> string list" where
  "split_on c [] = [[]]"
| "split_on c (x # xs) = (if x = c then [] # split_on c xs
      else (case split_on c xs of [] \<Rightarrow> [[x]] | l # ls \<Rightarrow> (x # l) # ls))"

definition join_with :: "char \<Rightarrow> string list \<Rightarrow> string" where
  "join_with c ss = (case ss of [] \<Rightarrow> [] | s # r \<Rightarrow> s @ concat (map (\<lambda>t. c # t) r))"

definition dropCR :: "string \<Rightarrow> string" where
  "dropCR l = (if l \<noteq> [] \<and> last l = CHR 0x0D then butlast l else l)"

text \<open>The raw lines of a text: what follows the last newline is a line unless it is empty.\<close>

definition raw_lines :: "string \<Rightarrow> string list" where
  "raw_lines s = (let ls = split_on (CHR 0x0A) s in if last ls = [] then butlast ls else ls)"

text \<open>\<^verbatim>\<open>bufio.Scanner\<close> with \<^verbatim>\<open>ScanLines\<close> and a buffer of \<open>lim\<close> bytes: the lines it returns, and whether it
  ended without an error.  A line that fills the buffer ends the scan with \<^verbatim>\<open>ErrTooLong\<close>.\<close>

fun scan_raw :: "nat \<Rightarrow> string list \<Rightarrow> string list \<times> bool" where
  "scan_raw lim [] = ([], True)"
| "scan_raw lim (l # ls) = (if lim \<le> length l then ([], False)
      else (let (xs, ok) = scan_raw lim ls in (dropCR l # xs, ok)))"

definition scan_lines :: "nat \<Rightarrow> string \<Rightarrow> string list \<times> bool" where
  "scan_lines lim s = scan_raw lim (raw_lines s)"

definition unlines :: "string list \<Rightarrow> string" where
  "unlines ls = concat (map (\<lambda>l. l @ [CHR 0x0A]) ls)"

lemma split_on_not_Nil [simp]: "split_on c s \<noteq> []"
  by (induction s) (auto split: list.splits)

lemma split_on_single: "c \<notin> set s \<Longrightarrow> split_on c s = [s]"
  by (induction s) (auto split: list.splits)

lemma split_on_append: "c \<notin> set a \<Longrightarrow> split_on c (a @ c # b) = a # split_on c b"
  by (induction a) (auto split: list.splits)

lemma split_on_parts: "l \<in> set (split_on c s) \<Longrightarrow> c \<notin> set l"
  by (induction s arbitrary: l) (auto split: list.splits if_splits)

lemma split_on_join:
  "ss \<noteq> [] \<Longrightarrow> \<forall>s \<in> set ss. c \<notin> set s \<Longrightarrow> split_on c (join_with c ss) = ss"
proof (induction ss)
  case (Cons s r)
  show ?case
  proof (cases r)
    case Nil
    then show ?thesis using Cons by (simp add: join_with_def split_on_single)
  next
    case (Cons t r')
    then have "join_with c (s # r) = s @ c # join_with c r" by (simp add: join_with_def)
    then show ?thesis using Cons Cons.IH Cons.prems by (simp add: split_on_append)
  qed
qed simp

lemma join_split_on: "join_with c (split_on c s) = s"
proof (induction s)
  case (Cons x xs)
  obtain l ls where l: "split_on c xs = l # ls" by (cases "split_on c xs") auto
  with Cons show ?case by (auto simp: join_with_def)
qed (simp add: join_with_def)

lemma split_on_unlines:
  "\<forall>l \<in> set ls. CHR 0x0A \<notin> set l \<Longrightarrow> split_on (CHR 0x0A) (unlines ls @ t) = ls @ split_on (CHR 0x0A) t"
  by (induction ls) (auto simp: unlines_def split_on_append)

lemma raw_lines_unlines:
  "\<forall>l \<in> set ls. CHR 0x0A \<notin> set l \<Longrightarrow> raw_lines (unlines ls) = ls"
  using split_on_unlines [of ls "[]"] by (simp add: raw_lines_def)

definition line_ok :: "nat \<Rightarrow> string \<Rightarrow> bool" where
  "line_ok lim l \<longleftrightarrow> CHR 0x0A \<notin> set l \<and> length l < lim \<and> (l \<noteq> [] \<longrightarrow> last l \<noteq> CHR 0x0D)"

lemma scan_raw_ok: "list_all (line_ok lim) ls \<Longrightarrow> scan_raw lim ls = (ls, True)"
  by (induction ls) (auto simp: line_ok_def dropCR_def)

lemma scan_unlines: "list_all (line_ok lim) ls \<Longrightarrow> scan_lines lim (unlines ls) = (ls, True)"
  using raw_lines_unlines [of ls] scan_raw_ok [of lim ls]
  by (auto simp: scan_lines_def line_ok_def list_all_iff)

section \<open>Fields\<close>

definition is_space :: "char \<Rightarrow> bool" where
  "is_space c \<longleftrightarrow> c \<in> {CHR 0x09, CHR 0x0A, CHR 0x0B, CHR 0x0C, CHR 0x0D, CHR 0x20}"

fun fields_from :: "string \<Rightarrow> string \<Rightarrow> string list" where
  "fields_from acc [] = (if acc = [] then [] else [rev acc])"
| "fields_from acc (c # s) =
     (if is_space c then (if acc = [] then fields_from [] s else rev acc # fields_from [] s)
      else fields_from (c # acc) s)"

definition Fields :: "string \<Rightarrow> string list" where
  "Fields s = fields_from [] s"

definition token :: "string \<Rightarrow> bool" where
  "token t \<longleftrightarrow> t \<noteq> [] \<and> list_all (\<lambda>c. \<not> is_space c) t"

abbreviation unwords :: "string list \<Rightarrow> string" where
  "unwords \<equiv> join_with (CHR '' '')"

lemma fields_from_token: "list_all (\<lambda>c. \<not> is_space c) t \<Longrightarrow> fields_from acc (t @ s) = fields_from (rev t @ acc) s"
  by (induction t arbitrary: acc) auto

lemma fields_from_tokens: "f \<in> set (fields_from acc s) \<Longrightarrow> list_all (\<lambda>c. \<not> is_space c) acc \<Longrightarrow> token f"
proof (induction s arbitrary: acc)
  case Nil
  then show ?case by (cases "acc = []") (auto simp: token_def list_all_iff)
next
  case (Cons c s)
  show ?case
  proof (cases "is_space c")
    case True
    then show ?thesis using Cons.IH [of "[]"] Cons.prems
      by (cases "acc = []") (auto simp: token_def list_all_iff)
  next
    case False
    then show ?thesis using Cons.IH [of "c # acc"] Cons.prems by simp
  qed
qed

lemma Fields_tokens: "f \<in> set (Fields s) \<Longrightarrow> token f"
  unfolding Fields_def by (erule fields_from_tokens) simp

lemma is_space_blank [simp]: "is_space (CHR '' '')"
  by (simp add: is_space_def)

lemma Fields_unwords: "list_all token ts \<Longrightarrow> Fields (unwords ts) = ts"
proof (induction ts)
  case (Cons t r)
  have t: "list_all (\<lambda>c. \<not> is_space c) t" "t \<noteq> []" using Cons.prems by (auto simp: token_def)
  show ?case
  proof (cases r)
    case Nil
    then show ?thesis using t fields_from_token [of t "[]" "[]"] by (simp add: Fields_def join_with_def)
  next
    case (Cons u r')
    then have "unwords (t # r) = t @ CHR '' '' # unwords r" by (simp add: join_with_def)
    then show ?thesis
      using t Cons.IH Cons.prems fields_from_token [of t "[]" "CHR '' '' # unwords r"] by (simp add: Fields_def)
  qed
qed (simp add: Fields_def join_with_def)

lemma set_join_with: "set (join_with c ss) \<subseteq> insert c (\<Union> (set ` set ss))"
  by (auto simp: join_with_def split: list.splits)

lemma unwords_line:
  assumes "list_all token ts"
  shows "CHR 0x0A \<notin> set (unwords ts)" "unwords ts \<noteq> [] \<Longrightarrow> CHR 0x0D \<noteq> last (unwords ts)"
proof -
  have t: "CHR 0x0A \<notin> set u" "CHR 0x0D \<notin> set u" if "u \<in> set ts" for u
    using that assms by (auto simp: token_def list_all_iff is_space_def)
  have n: "CHR 0x0A \<notin> set (unwords ts) \<and> CHR 0x0D \<notin> set (unwords ts)"
    using t set_join_with [of "CHR '' ''" ts] by force
  then show "CHR 0x0A \<notin> set (unwords ts)" by simp
  show "unwords ts \<noteq> [] \<Longrightarrow> CHR 0x0D \<noteq> last (unwords ts)" using n by (metis last_in_set)
qed

section \<open>Hexadecimal\<close>

definition hex_digit :: "nat \<Rightarrow> char" where
  "hex_digit d = (if d < 10 then char_of (48 + d) else char_of (87 + d))"

text \<open>\<^verbatim>\<open>hex.EncodeToString\<close>.\<close>

definition hex_enc :: "bytes \<Rightarrow> string" where
  "hex_enc bs = concat (map (\<lambda>b. [hex_digit (unat b div 16), hex_digit (unat b mod 16)]) bs)"

text \<open>\<^verbatim>\<open>hex.DecodeString\<close>, the error as \<open>None\<close>.\<close>

fun hex_dec :: "string \<Rightarrow> bytes option" where
  "hex_dec [] = Some []"
| "hex_dec [a] = None"
| "hex_dec (a # b # r) =
     (if is_hex a \<and> is_hex b
      then map_option ((#) (of_nat (16 * hex_val a + hex_val b))) (hex_dec r) else None)"

lemma hex_digit_ok: "d < 16 \<Longrightarrow> is_hex (hex_digit d) \<and> hex_val (hex_digit d) = d"
  by (auto simp: hex_digit_def is_hex_def hex_val_def is_digit_def digit_val_def)

lemma hex_dec_enc: "hex_dec (hex_enc bs) = Some bs"
proof (induction bs)
  case (Cons b bs)
  have "unat b div 16 < 16" using unat_byte_lt [of b] by linarith
  moreover have "16 * (unat b div 16) + unat b mod 16 = unat b" by simp
  ultimately show ?case using Cons hex_digit_ok by (simp add: hex_enc_def del: mult_div_mod_eq)
qed (simp add: hex_enc_def)

lemma length_hex_enc [simp]: "length (hex_enc bs) = 2 * length bs"
  by (induction bs) (simp_all add: hex_enc_def)

lemma inj_hex_enc: "hex_enc a = hex_enc b \<Longrightarrow> a = b"
  by (metis hex_dec_enc option.inject)

text \<open>\<^verbatim>\<open>strings.TrimSpace\<close> on ASCII text.\<close>

definition TrimSpace :: "string \<Rightarrow> string" where
  "TrimSpace s = rev (dropWhile is_space (rev (dropWhile is_space s)))"

section \<open>Base64\<close>

definition b64_char :: "nat \<Rightarrow> char" where
  "b64_char v = (if v < 26 then char_of (65 + v) else if v < 52 then char_of (71 + v)
     else if v < 62 then char_of (v - 4) else if v = 62 then CHR ''+'' else CHR ''/'')"

definition b64_val :: "char \<Rightarrow> nat option" where
  "b64_val c = (let n = of_char c :: nat in
     if 65 \<le> n \<and> n \<le> 90 then Some (n - 65) else if 97 \<le> n \<and> n \<le> 122 then Some (n - 71)
     else if 48 \<le> n \<and> n \<le> 57 then Some (n + 4) else if n = 43 then Some 62
     else if n = 47 then Some 63 else None)"

text \<open>\<^verbatim>\<open>base64.RawStdEncoding.EncodeToString\<close>.\<close>

fun b64_raw :: "bytes \<Rightarrow> string" where
  "b64_raw [] = []"
| "b64_raw [a] = (let x = unat a in [b64_char (x div 4), b64_char (x mod 4 * 16)])"
| "b64_raw [a, b] = (let x = unat a; y = unat b in
     [b64_char (x div 4), b64_char (x mod 4 * 16 + y div 16), b64_char (y mod 16 * 4)])"
| "b64_raw (a # b # c # r) = (let x = unat a; y = unat b; z = unat c in
     [b64_char (x div 4), b64_char (x mod 4 * 16 + y div 16), b64_char (y mod 16 * 4 + z div 64), b64_char (z mod 64)]
     @ b64_raw r)"

definition b64_byte0 :: "nat \<Rightarrow> nat \<Rightarrow> byte" where "b64_byte0 a b = of_nat (a * 4 + b div 16)"
definition b64_byte1 :: "nat \<Rightarrow> nat \<Rightarrow> byte" where "b64_byte1 b c = of_nat (b mod 16 * 16 + c div 4)"
definition b64_byte2 :: "nat \<Rightarrow> nat \<Rightarrow> byte" where "b64_byte2 c d = of_nat (c mod 4 * 64 + d)"

text \<open>The quanta of \<^verbatim>\<open>Encoding.Decode\<close>, with \<open>p\<close> for the padded encoding.  On a corrupt input the bytes
  decoded so far are returned with the error; trailing bits of the last quantum are not checked.\<close>

fun b64_quanta :: "bool \<Rightarrow> string \<Rightarrow> bytes \<times> bool" where
  "b64_quanta p [] = ([], True)"
| "b64_quanta p [a] = ([], False)"
| "b64_quanta p [a, b] =
     (case (b64_val a, b64_val b) of (Some x, Some y) \<Rightarrow> if p then ([], False) else ([b64_byte0 x y], True)
      | _ \<Rightarrow> ([], False))"
| "b64_quanta p [a, b, c] =
     (case (b64_val a, b64_val b, b64_val c) of
        (Some x, Some y, Some z) \<Rightarrow> if p then ([], False) else ([b64_byte0 x y, b64_byte1 y z], True)
      | _ \<Rightarrow> ([], False))"
| "b64_quanta p (a # b # c # d # r) =
     (case (b64_val a, b64_val b) of
        (Some x, Some y) \<Rightarrow>
          (case b64_val c of
             Some z \<Rightarrow>
               (case b64_val d of
                  Some v \<Rightarrow> (let (bs, ok) = b64_quanta p r in (b64_byte0 x y # b64_byte1 y z # b64_byte2 z v # bs, ok))
                | None \<Rightarrow> if p \<and> d = CHR ''='' then ([b64_byte0 x y, b64_byte1 y z], r = []) else ([], False))
           | None \<Rightarrow> if p \<and> c = CHR ''='' \<and> d = CHR ''='' then ([b64_byte0 x y], r = []) else ([], False))
      | _ \<Rightarrow> ([], False))"

text \<open>\<^verbatim>\<open>DecodeString\<close> skips newlines; \<open>p\<close> is \<^verbatim>\<open>True\<close> for \<^verbatim>\<open>StdEncoding\<close>, \<^verbatim>\<open>False\<close> for \<^verbatim>\<open>RawStdEncoding\<close>.\<close>

definition b64_decode :: "bool \<Rightarrow> string \<Rightarrow> bytes \<times> bool" where
  "b64_decode p s = b64_quanta p (filter (\<lambda>c. c \<noteq> CHR 0x0A \<and> c \<noteq> CHR 0x0D) s)"

lemma b64_val_char [simp]: "v < 64 \<Longrightarrow> b64_val (b64_char v) = Some v"
  by (auto simp: b64_char_def b64_val_def Let_def)

lemma b64_bytes:
  "b64_byte0 (unat a div 4) (unat a mod 4 * 16 + k) = a" if "k < 16" for a :: byte
  using that unat_byte_lt [of a] by (simp add: b64_byte0_def)

lemma b64_byte1_ok: "y < 256 \<Longrightarrow> k < 4 \<Longrightarrow> b64_byte1 (x mod 4 * 16 + y div 16) (y mod 16 * 4 + k) = of_nat y"
proof -
  assume "y < 256" "k < 4"
  then have "y div 16 < 16" by (simp add: less_mult_imp_div_less)
  then have "(x mod 4 * 16 + y div 16) mod 16 = y div 16" by simp
  moreover have "(y mod 16 * 4 + k) div 4 = y mod 16" using \<open>k < 4\<close> by simp
  moreover have "y div 16 * 16 + y mod 16 = y" by simp
  ultimately show ?thesis by (simp add: b64_byte1_def)
qed

lemma b64_byte2_ok: "z < 256 \<Longrightarrow> b64_byte2 (y mod 16 * 4 + z div 64) (z mod 64) = of_nat z"
proof -
  assume "z < 256"
  then have "z div 64 < 4" by (simp add: less_mult_imp_div_less)
  then have "(y mod 16 * 4 + z div 64) mod 4 = z div 64" by simp
  moreover have "z div 64 * 64 + z mod 64 = z" by simp
  ultimately show ?thesis by (simp add: b64_byte2_def)
qed

lemma b64_lt: "x < 256 \<Longrightarrow> x div 4 < (64 :: nat)" "k < 16 \<Longrightarrow> x mod 4 * 16 + k < (64 :: nat)"
  "k < 4 \<Longrightarrow> y mod 16 * 4 + k < (64 :: nat)" "y < 256 \<Longrightarrow> y div 16 < (16 :: nat)" "y < 256 \<Longrightarrow> y div 64 < (4 :: nat)"
  using mod_less_divisor [of 4 x] mod_less_divisor [of 16 y]
  by (simp_all add: less_mult_imp_div_less del: mod_less_divisor)

lemmas b64_simps = Let_def b64_lt unat_byte_lt b64_bytes b64_byte1_ok b64_byte2_ok

lemma b64_quanta_raw: "b64_quanta False (b64_raw bs) = (bs, True)"
proof (induction bs rule: b64_raw.induct)
  case (2 a)
  show ?case using b64_bytes [of 0 a] b64_lt(2) [of 0 "unat a"] by (simp add: b64_simps)
next
  case (3 a b)
  show ?case using b64_byte1_ok [of "unat b" 0 "unat a"] b64_lt(3) [of 0 "unat b"] by (simp add: b64_simps)
next
  case (4 a b c r)
  then show ?case by (simp add: b64_simps)
qed simp

lemma b64_char_plain: "b64_char v \<noteq> CHR 0x0A \<and> b64_char v \<noteq> CHR 0x0D \<and> b64_char v \<noteq> CHR ''='' \<and> \<not> is_space (b64_char v)"
  if "v < 64"
proof -
  have "b64_val (b64_char v) \<noteq> None" using that by simp
  then show ?thesis by (auto simp: is_space_def b64_val_def)
qed

lemma b64_raw_chars: "c \<in> set (b64_raw bs) \<Longrightarrow> \<exists>v < 64. c = b64_char v"
proof (induction bs rule: b64_raw.induct)
  case (2 a)
  then have "c = b64_char (unat a div 4) \<or> c = b64_char (unat a mod 4 * 16 + 0)" by (auto simp: Let_def)
  moreover have "unat a div 4 < 64" "unat a mod 4 * 16 + 0 < 64"
    using b64_lt(1) [OF unat_byte_lt, of a] b64_lt(2) [of 0 "unat a"] by simp_all
  ultimately show ?case by metis
next
  case (3 a b)
  then have "c = b64_char (unat a div 4) \<or> c = b64_char (unat a mod 4 * 16 + unat b div 16) \<or>
      c = b64_char (unat b mod 16 * 4 + 0)" by (auto simp: Let_def)
  moreover have "unat a div 4 < 64" "unat a mod 4 * 16 + unat b div 16 < 64" "unat b mod 16 * 4 + 0 < 64"
    using b64_lt(3) [of 0 "unat b"] by (simp_all add: b64_lt unat_byte_lt)
  ultimately show ?case by metis
next
  case (4 a b d r)
  then consider "c \<in> set (b64_raw r)" | "c = b64_char (unat a div 4)" | "c = b64_char (unat a mod 4 * 16 + unat b div 16)"
    | "c = b64_char (unat b mod 16 * 4 + unat d div 64)" | "c = b64_char (unat d mod 64)"
    by (auto simp: Let_def)
  moreover have "unat a div 4 < 64" "unat a mod 4 * 16 + unat b div 16 < 64" "unat b mod 16 * 4 + unat d div 64 < 64"
    "unat d mod 64 < 64" by (simp_all add: b64_lt unat_byte_lt)
  ultimately show ?case using 4(1) by metis
qed simp

lemma b64_raw_token: "bs \<noteq> [] \<Longrightarrow> token (b64_raw bs)"
proof -
  assume "bs \<noteq> []"
  then have "b64_raw bs \<noteq> []" by (cases bs rule: b64_raw.cases) (auto simp: Let_def)
  moreover have "\<not> is_space c" if "c \<in> set (b64_raw bs)" for c
    using b64_raw_chars [OF that] b64_char_plain by auto
  ultimately show ?thesis by (simp add: token_def list_all_iff)
qed

lemma b64_decode_raw: "b64_decode False (b64_raw bs) = (bs, True)"
proof -
  have "filter (\<lambda>c. c \<noteq> CHR 0x0A \<and> c \<noteq> CHR 0x0D) (b64_raw bs) = b64_raw bs"
    using b64_raw_chars b64_char_plain by (fastforce simp: filter_id_conv)
  then show ?thesis by (simp add: b64_decode_def b64_quanta_raw)
qed

end
