(* ===== verification/Go_Doc.thy ===== *)
theory Go_Doc
  imports Go_Text
begin

text \<open>
  Standard-library functions the directory documents need: searching for a text (\<^verbatim>\<open>bytes.Index\<close>,
  \<^verbatim>\<open>bytes.Cut\<close>), \<^verbatim>\<open>time.Parse\<close> for the layout \<^verbatim>\<open>2006-01-02 15:04:05\<close>, and \<^verbatim>\<open>pem.Decode\<close>.  A time is the
  number of nanoseconds since the Unix epoch.
\<close>

section \<open>Searching\<close>

text \<open>\<^verbatim>\<open>bytes.Index\<close>: the first position at which \<open>sep\<close> occurs.\<close>

fun str_index :: "string \<Rightarrow> string \<Rightarrow> nat option" where
  "str_index sep [] = (if sep = [] then Some 0 else None)"
| "str_index sep (c # s) = (if prefix sep (c # s) then Some 0 else map_option Suc (str_index sep s))"

lemma str_index_Some:
  "str_index sep s = Some i \<Longrightarrow> prefix sep (drop i s) \<and> (\<forall>j < i. \<not> prefix sep (drop j s))"
proof (induction s arbitrary: i)
  case (Cons c s)
  show ?case
  proof (cases "prefix sep (c # s)")
    case False
    with Cons.prems obtain k where k: "i = Suc k" "str_index sep s = Some k" by (auto split: if_splits)
    with Cons.IH [OF k(2)] False show ?thesis by (auto simp: less_Suc_eq_0_disj)
  qed (use Cons.prems in \<open>auto split: if_splits\<close>)
qed (auto split: if_splits)

lemma str_index_None: "str_index sep s = None \<longleftrightarrow> \<not> sublist sep s"
  by (induction s) (auto simp: sublist_Cons_right)

text \<open>\<^verbatim>\<open>bytes.Cut\<close>.\<close>

definition str_cut_at :: "string \<Rightarrow> string \<Rightarrow> (string \<times> string) option" where
  "str_cut_at sep s = (case str_index sep s of None \<Rightarrow> None | Some i \<Rightarrow> Some (take i s, drop (i + length sep) s))"

section \<open>Times\<close>

abbreviation (input) nanos :: int where "nanos \<equiv> 1000000000"

text \<open>The zero \<^verbatim>\<open>time.Time\<close>: January 1, year 1, 00:00:00 UTC.\<close>

definition time_zero :: int where
  "time_zero = - 62135596800 * nanos"

definition leap_year :: "int \<Rightarrow> bool" where
  "leap_year y \<longleftrightarrow> y mod 4 = 0 \<and> (y mod 100 \<noteq> 0 \<or> y mod 400 = 0)"

definition daysIn :: "int \<Rightarrow> int \<Rightarrow> int" where
  "daysIn m y = (if m = 2 then (if leap_year y then 29 else 28) else if m \<in> {4, 6, 9, 11} then 30 else 31)"

text \<open>Days from January 1, 1970 to a date of the proleptic Gregorian calendar.\<close>

definition unix_days :: "int \<Rightarrow> int \<Rightarrow> int \<Rightarrow> int" where
  "unix_days y m d =
     365 * (y - 1) + (y - 1) div 4 - (y - 1) div 100 + (y - 1) div 400 - 719162 +
     sum_list (map (\<lambda>k. daysIn k y) (filter (\<lambda>k. k < m) [1, 2, 3, 4, 5, 6, 7, 8, 9, 10, 11, 12])) + (d - 1)"

text \<open>\<^verbatim>\<open>getnum\<close>: one or two digits, two when \<open>fixed\<close>.\<close>

fun getnum :: "bool \<Rightarrow> string \<Rightarrow> (int \<times> string) option" where
  "getnum fixed [] = None"
| "getnum fixed [a] = (if is_digit a \<and> \<not> fixed then Some (int (digit_val a), []) else None)"
| "getnum fixed (a # b # r) =
     (if \<not> is_digit a then None
      else if \<not> is_digit b then (if fixed then None else Some (int (digit_val a), b # r))
      else Some (int (10 * digit_val a + digit_val b), r))"

fun skip_char :: "char \<Rightarrow> string \<Rightarrow> string option" where
  "skip_char c [] = None"
| "skip_char c (x # r) = (if x = c then Some r else None)"

text \<open>A blank of the layout stands for a run of blanks, or for the end of the value.\<close>

fun skip_blank :: "string \<Rightarrow> string option" where
  "skip_blank [] = Some []"
| "skip_blank (x # r) = (if x = CHR '' '' then Some (dropWhile (\<lambda>c. c = CHR '' '') r) else None)"

text \<open>A fraction after the seconds is accepted although the layout has none; digits beyond the ninth
  are dropped.\<close>

definition take_fraction :: "string \<Rightarrow> int \<times> string" where
  "take_fraction v =
     (case v of p # d # r \<Rightarrow>
        if (p = CHR ''.'' \<or> p = CHR '','') \<and> is_digit d then
          (let ds = takeWhile is_digit (d # r); kept = take 9 ds in
           (int (dec_value kept) * 10 ^ (9 - length kept), drop (length ds) (d # r)))
        else (0, v)
      | _ \<Rightarrow> (0, v))"

definition opt_guard :: "bool \<Rightarrow> 'a \<Rightarrow> 'a option" where
  "opt_guard b x = (if b then Some x else None)"

definition take_year :: "string \<Rightarrow> (int \<times> string) option" where
  "take_year v = (if 4 \<le> length v \<and> list_all is_digit (take 4 v) then Some (int (dec_value (take 4 v)), drop 4 v) else None)"

definition time_Parse :: "string \<Rightarrow> int option" where
  "time_Parse v =
     Option.bind (take_year v) (\<lambda>(year, v).
     Option.bind (skip_char (CHR ''-'') v) (\<lambda>v.
     Option.bind (getnum True v) (\<lambda>(month, v).
     if month \<le> 0 \<or> 12 < month then None else
     Option.bind (skip_char (CHR ''-'') v) (\<lambda>v.
     Option.bind (getnum True v) (\<lambda>(day, v).
     Option.bind (skip_blank v) (\<lambda>v.
     Option.bind (getnum False v) (\<lambda>(hour, v).
     if 24 \<le> hour then None else
     Option.bind (skip_char (CHR '':'') v) (\<lambda>v.
     Option.bind (getnum True v) (\<lambda>(mins, v).
     if 60 \<le> mins then None else
     Option.bind (skip_char (CHR '':'') v) (\<lambda>v.
     Option.bind (getnum True v) (\<lambda>(sec, v).
     if 60 \<le> sec then None else
     (case take_fraction v of (nsec, v) \<Rightarrow>
      if v \<noteq> [] \<or> day < 1 \<or> daysIn month year < day then None
      else Some ((unix_days year month day * 86400 + hour * 3600 + mins * 60 + sec) * nanos + nsec)))))))))))))"

section \<open>PEM\<close>

record pem_block =
  pemType :: string
  pemBytes :: bytes

text \<open>\<^verbatim>\<open>getLine\<close>: the first line without trailing blanks, tabs and carriage returns, and the rest.\<close>

definition trim_right_ws :: "string \<Rightarrow> string" where
  "trim_right_ws s = rev (dropWhile (\<lambda>c. c = CHR '' '' \<or> c = CHR 0x09 \<or> c = CHR 0x0D \<or> c = CHR 0x0A) (rev s))"

definition get_line :: "string \<Rightarrow> string \<times> string" where
  "get_line s = (case index_of (CHR 0x0A) s of
       None \<Rightarrow> (trim_right_ws s, [])
     | Some i \<Rightarrow> (trim_right_ws (take i s), drop (Suc i) s))"

abbreviation pemStart :: string where "pemStart \<equiv> ''-----BEGIN ''"
abbreviation pemEnd :: string where "pemEnd \<equiv> ''-----END ''"
abbreviation pemDashes :: string where "pemDashes \<equiv> ''-----''"

text \<open>Skip the header lines: those with a colon.  The flag says whether there was one; \<open>None\<close> when the
  text ends.\<close>

function pem_headers :: "bool \<Rightarrow> string \<Rightarrow> (bool \<times> string) option" where
  "pem_headers seen [] = None"
| "pem_headers seen (c # s) =
     (let (line, next) = get_line (c # s) in
      if CHR '':'' \<in> set line then pem_headers True next else Some (seen, c # s))"
  by pat_completeness auto
termination
  by (relation "measure (length \<circ> snd)") (auto simp: get_line_def split: option.splits)

text \<open>The body of a block whose type line and headers have been read.\<close>

definition pem_body :: "string \<Rightarrow> bool \<Rightarrow> string \<Rightarrow> pem_block option" where
  "pem_body typ hdrs rest =
     (case (if \<not> hdrs \<and> prefix pemEnd rest then Some (0, length pemEnd)
            else map_option (\<lambda>i. (i, Suc i + length pemEnd)) (str_index (CHR 0x0A # pemEnd) rest)) of
        None \<Rightarrow> None
      | Some (e, t) \<Rightarrow>
        let trailer = drop t rest; n = length typ + 5 in
        if length trailer < n then None
        else if take n trailer \<noteq> typ @ pemDashes then None
        else if fst (get_line (drop n trailer)) \<noteq> [] then None
        else let (bs, ok) = b64_decode True (filter (\<lambda>c. c \<noteq> CHR '' '' \<and> c \<noteq> CHR 0x09) (take e rest)) in
             if ok then Some \<lparr>pemType = typ, pemBytes = bs\<rparr> else None)"

text \<open>\<^verbatim>\<open>pem.Decode\<close>: the first well-formed block.  The next attempt starts behind the headers read.\<close>

definition pem_find :: "string \<Rightarrow> string option" where
  "pem_find s = (if prefix pemStart s then Some (drop (length pemStart) s)
                 else map_option snd (str_cut_at (CHR 0x0A # pemStart) s))"

lemma get_line_length: "length (snd (get_line s)) \<le> length s"
  by (auto simp: get_line_def split: option.splits)

lemma get_line_length': "(l, r) = get_line s \<Longrightarrow> length r \<le> length s"
  using get_line_length [of s] by (metis snd_conv)

lemma pem_headers_length: "pem_headers b s = Some (h, r) \<Longrightarrow> length r \<le> length s"
proof (induction b s rule: pem_headers.induct)
  case (2 seen c s)
  obtain line nxt where l: "get_line (c # s) = (line, nxt)" by (cases "get_line (c # s)")
  then have "length nxt \<le> length (c # s)" using get_line_length [of "c # s"] by simp
  then show ?case using 2(1) [OF l [symmetric] refl] 2(2) l by (auto split: if_splits)
qed simp

lemma pem_find_length: "pem_find s = Some r \<Longrightarrow> length r < length s"
  using prefix_length_le [of pemStart s] str_index_Some [of "CHR 0x0A # pemStart" s]
  by (auto simp: pem_find_def str_cut_at_def split: if_splits option.splits dest!: prefix_length_le)

function pem_Decode :: "string \<Rightarrow> pem_block option" where
  "pem_Decode s =
     (case pem_find s of
        None \<Rightarrow> None
      | Some found \<Rightarrow>
        (case get_line found of (typeLine, rest) \<Rightarrow>
           if \<not> suffix pemDashes typeLine then pem_Decode rest
           else (case pem_headers False rest of
                   None \<Rightarrow> None
                 | Some (h, rest') \<Rightarrow>
                     (case pem_body (take (length typeLine - 5) typeLine) h rest' of
                        Some b \<Rightarrow> Some b
                      | None \<Rightarrow> pem_Decode rest'))))"
  by pat_completeness auto
termination
proof (relation "measure length", goal_cases)
  case (2 s found typeLine rest)
  then show ?case using pem_find_length [of s found] get_line_length' [of typeLine rest found] by simp
next
  case (3 s found typeLine rest x h rest')
  then show ?case
    using pem_find_length [of s found] get_line_length' [of typeLine rest found] pem_headers_length [of False rest h rest'] by simp
qed simp

declare pem_Decode.simps [simp del]

end
