(* ===== verification/Consensus.thy ===== *)
theory Consensus
  imports Go_Doc Torcrypto
begin

text \<open>
  Model of \<^verbatim>\<open>pkg/directory\<close>, first part: the parser of the microdescriptor consensus (\<^verbatim>\<open>parse.go\<close>), the
  authority certificates and the verification of the consensus signatures (\<^verbatim>\<open>verify.go\<close>), and the
  authorities (\<^verbatim>\<open>authorities.go\<close>).  Documents are strings, times nanoseconds since the epoch.  The DER
  parser of RSA keys (\<^verbatim>\<open>x509.ParsePKCS1PublicKey\<close>) is the parameter \<open>pkcs1\<close>.  The lemmas characterise
  acceptance by the number of distinct authorities with a valid signature.
\<close>

datatype dir_err = NoSignatures | ScanTooLong | NoRouters | ShortRLine | BadIdentity
  | CertIdentityKey | CertSigningKey | CertNoExpiry | CertBadExpiry | CertNoCertification | CertNoSignature
  | CertWrongIdentity | CertExpired | BadSig | CertSigMismatch
  | NotYetValid | ConsensusExpired | TooFewSignatures nat
  | NoKnownAuthority | CertsMissing | FetchFailed | TunnelFailed | NoAuthorities

section \<open>Data\<close>

record routerStatus =
  rsNickname :: string
  rsIdentity :: bytes
  rsIP :: string
  rsORPort :: int
  rsDirPort :: int
  rsIPv6 :: string
  rsMicrodescHash :: string
  rsFlags :: "string set"
  rsBandwidth :: int
  rsUnmeasured :: bool

definition HasFlag :: "routerStatus \<Rightarrow> string \<Rightarrow> bool" where
  "HasFlag r f \<longleftrightarrow> f \<in> rsFlags r"

record consensusSig =
  sigAlg :: string
  sigIdentityFP :: string
  sigSigningKeyFP :: string
  sigBytes :: bytes

record consensus =
  ValidAfter :: int
  FreshUntil :: int
  ValidUntil :: int
  Routers :: "routerStatus list"
  Weights :: "string \<rightharpoonup> int"
  SharedRandPrevious :: bytes
  SharedRandCurrent :: bytes
  signedBody :: string
  signatures :: "consensusSig list"

section \<open>Lines\<close>

definition parseRouterLine :: "string list \<Rightarrow> dir_err + routerStatus" where
  "parseRouterLine f =
     (if length f < 8 then Inl ShortRLine
      else let (i, ok) = b64_decode False (f ! 2) in
           if \<not> ok then Inl BadIdentity
           else Inr \<lparr>rsNickname = f ! 1, rsIdentity = i, rsIP = f ! 5, rsORPort = fst (Atoi (f ! 6)),
                     rsDirPort = fst (Atoi (f ! 7)), rsIPv6 = [], rsMicrodescHash = [], rsFlags = {},
                     rsBandwidth = 0, rsUnmeasured = False\<rparr>)"

definition splitKV :: "string \<Rightarrow> (string \<times> int) option" where
  "splitKV kv =
     (case str_cut (CHR ''='') kv of
        None \<Rightarrow> None
      | Some (k, vs) \<Rightarrow> (let (v, ok) = Atoi vs in if ok then Some (k, v) else None))"

definition bandwidth_kv :: "string \<Rightarrow> routerStatus \<Rightarrow> routerStatus" where
  "bandwidth_kv kv r =
     (case splitKV kv of
        None \<Rightarrow> r
      | Some (k, v) \<Rightarrow> if k = ''Bandwidth'' then r\<lparr>rsBandwidth := v\<rparr>
                      else if k = ''Unmeasured'' then r\<lparr>rsUnmeasured := (v = 1)\<rparr> else r)"

definition parseBandwidthLine :: "string list \<Rightarrow> routerStatus \<Rightarrow> routerStatus" where
  "parseBandwidthLine kvs r = fold bandwidth_kv kvs r"

definition parseSigLine :: "string list \<Rightarrow> consensusSig option" where
  "parseSigLine f =
     (case f of
        [a, i, s] \<Rightarrow> Some \<lparr>sigAlg = a, sigIdentityFP = ToUpper i, sigSigningKeyFP = ToUpper s, sigBytes = []\<rparr>
      | [i, s] \<Rightarrow> Some \<lparr>sigAlg = ''sha1'', sigIdentityFP = ToUpper i, sigSigningKeyFP = ToUpper s, sigBytes = []\<rparr>
      | _ \<Rightarrow> None)"

definition parseDirTime :: "string list \<Rightarrow> int" where
  "parseDirTime f =
     (if length f < 2 then time_zero
      else case time_Parse (f ! 0 @ CHR '' '' # f ! 1) of Some t \<Rightarrow> t | None \<Rightarrow> time_zero)"

definition add_weight :: "string \<Rightarrow> (string \<rightharpoonup> int) \<Rightarrow> (string \<rightharpoonup> int)" where
  "add_weight kv m = (case splitKV kv of Some (k, v) \<Rightarrow> m(k \<mapsto> v) | None \<Rightarrow> m)"

section \<open>The consensus\<close>

text \<open>The variables of the loop of \<^verbatim>\<open>ParseConsensus\<close>.\<close>

record pstate =
  pCons :: consensus
  pCur :: "routerStatus option"
  pInSig :: bool
  pSigLines :: "string list"
  pPending :: "consensusSig option"

definition flush :: "pstate \<Rightarrow> pstate" where
  "flush st = (case pCur st of
       Some r \<Rightarrow> st\<lparr>pCons := (pCons st)\<lparr>Routers := Routers (pCons st) @ [r]\<rparr>, pCur := None\<rparr>
     | None \<Rightarrow> st)"

definition sig_line :: "string \<Rightarrow> pstate \<Rightarrow> pstate" where
  "sig_line line st =
     (let ls = pSigLines st @ [line] in
      if prefix ''-----END'' line then
        (let c = pCons st;
             c' = (case (pem_Decode (join_with (CHR 0x0A) ls @ [CHR 0x0A]), pPending st) of
                     (Some b, Some p) \<Rightarrow> c\<lparr>signatures := signatures c @ [p\<lparr>sigBytes := pemBytes b\<rparr>]\<rparr>
                   | _ \<Rightarrow> c)
         in st\<lparr>pCons := c', pInSig := False, pPending := None, pSigLines := []\<rparr>)
      else st\<lparr>pSigLines := ls\<rparr>)"

definition item_line :: "string list \<Rightarrow> pstate \<Rightarrow> pstate" where
  "item_line fs st =
     (case fs of
        [] \<Rightarrow> st
      | k # f \<Rightarrow>
        if k = ''valid-after'' then st\<lparr>pCons := (pCons st)\<lparr>ValidAfter := parseDirTime f\<rparr>\<rparr>
        else if k = ''fresh-until'' then st\<lparr>pCons := (pCons st)\<lparr>FreshUntil := parseDirTime f\<rparr>\<rparr>
        else if k = ''valid-until'' then st\<lparr>pCons := (pCons st)\<lparr>ValidUntil := parseDirTime f\<rparr>\<rparr>
        else if k = ''shared-rand-previous-value'' then
          (if 2 \<le> length f then st\<lparr>pCons := (pCons st)\<lparr>SharedRandPrevious := fst (b64_decode True (f ! 1))\<rparr>\<rparr> else st)
        else if k = ''shared-rand-current-value'' then
          (if 2 \<le> length f then st\<lparr>pCons := (pCons st)\<lparr>SharedRandCurrent := fst (b64_decode True (f ! 1))\<rparr>\<rparr> else st)
        else if k = ''r'' then
          (let st = flush st in
           case parseRouterLine fs of Inl e \<Rightarrow> st\<lparr>pCur := None\<rparr> | Inr r \<Rightarrow> st\<lparr>pCur := Some r\<rparr>)
        else if k = ''a'' then
          (case pCur st of Some r \<Rightarrow> if 1 \<le> length f then st\<lparr>pCur := Some (r\<lparr>rsIPv6 := f ! 0\<rparr>)\<rparr> else st | None \<Rightarrow> st)
        else if k = ''m'' then
          (case pCur st of Some r \<Rightarrow> if 1 \<le> length f then st\<lparr>pCur := Some (r\<lparr>rsMicrodescHash := f ! 0\<rparr>)\<rparr> else st | None \<Rightarrow> st)
        else if k = ''s'' then
          (case pCur st of Some r \<Rightarrow> st\<lparr>pCur := Some (r\<lparr>rsFlags := set f\<rparr>)\<rparr> | None \<Rightarrow> st)
        else if k = ''w'' then
          (case pCur st of Some r \<Rightarrow> st\<lparr>pCur := Some (parseBandwidthLine f r)\<rparr> | None \<Rightarrow> st)
        else if k = ''bandwidth-weights'' then
          (let st = flush st in st\<lparr>pCons := (pCons st)\<lparr>Weights := fold add_weight f (Weights (pCons st))\<rparr>\<rparr>)
        else if k = ''directory-signature'' then
          (flush st)\<lparr>pPending := parseSigLine f, pInSig := True, pSigLines := []\<rparr>
        else st)"

definition cons_line :: "string \<Rightarrow> pstate \<Rightarrow> pstate" where
  "cons_line line st = (if pInSig st then sig_line line st else item_line (Fields line) st)"

abbreviation dirSigMarker :: string where "dirSigMarker \<equiv> ''directory-signature ''"

definition cons_zero :: consensus where
  "cons_zero = \<lparr>ValidAfter = time_zero, FreshUntil = time_zero, ValidUntil = time_zero, Routers = [],
     Weights = Map.empty, SharedRandPrevious = [], SharedRandCurrent = [], signedBody = [], signatures = []\<rparr>"

definition ParseConsensus :: "string \<Rightarrow> dir_err + consensus" where
  "ParseConsensus raw =
     (case str_index (CHR 0x0A # dirSigMarker) raw of
        None \<Rightarrow> Inl NoSignatures
      | Some idx \<Rightarrow>
        let c = cons_zero\<lparr>signedBody := take (idx + 1 + length dirSigMarker) raw\<rparr>;
            (lines, ok) = scan_lines 4194304 raw;
            st = flush (fold cons_line lines
                   \<lparr>pCons = c, pCur = None, pInSig = False, pSigLines = [], pPending = None\<rparr>)
        in if \<not> ok then Inl ScanTooLong
           else if Routers (pCons st) = [] then Inl NoRouters
           else Inr (pCons st))"

section \<open>Authorities\<close>

record authority =
  auNickname :: string
  auV3Ident :: string
  auIP :: string
  auDirPort :: int
  auORPort :: int

function itoa_loop :: "int \<Rightarrow> string \<Rightarrow> string" where
  "itoa_loop n b = (if 0 < n then itoa_loop (n div 10) (digit_char (nat (n mod 10)) # b) else b)"
  by pat_completeness auto
termination by (relation "measure (nat \<circ> fst)") auto

declare itoa_loop.simps [simp del]

definition itoa :: "int \<Rightarrow> string" where
  "itoa n = (if n = 0 then ''0'' else itoa_loop n [])"

definition DirAddr :: "authority \<Rightarrow> string" where
  "DirAddr a = auIP a @ CHR '':'' # itoa (auDirPort a)"

definition DefaultAuthorities :: "authority list" where
  "DefaultAuthorities =
   [\<lparr>auNickname = ''moria1'', auV3Ident = ''F533C81CEF0BC0267857C99B2F471ADF249FA232'', auIP = ''128.31.0.39'', auDirPort = 9231, auORPort = 9201\<rparr>,
    \<lparr>auNickname = ''tor26'', auV3Ident = ''2F3DF9CA0E5D36F2685A2DA67184EB8DCB8CBA8C'', auIP = ''217.196.147.77'', auDirPort = 80, auORPort = 443\<rparr>,
    \<lparr>auNickname = ''dizum'', auV3Ident = ''E8A9C45EDE6D711294FADF8E7951F4DE6CA56B58'', auIP = ''45.66.35.11'', auDirPort = 80, auORPort = 443\<rparr>,
    \<lparr>auNickname = ''gabelmoo'', auV3Ident = ''ED03BB616EB2F60BEC80151114BB25CEF515B226'', auIP = ''131.188.40.189'', auDirPort = 80, auORPort = 443\<rparr>,
    \<lparr>auNickname = ''dannenberg'', auV3Ident = ''0232AF901C31A04EE9848595AF9BB7620D4C5B2E'', auIP = ''193.23.244.244'', auDirPort = 80, auORPort = 443\<rparr>,
    \<lparr>auNickname = ''maatuska'', auV3Ident = ''49015F787433103580E3B66A1707A00E60F2D15B'', auIP = ''171.25.193.9'', auDirPort = 443, auORPort = 80\<rparr>,
    \<lparr>auNickname = ''longclaw'', auV3Ident = ''23D15D965BC35114467363C165C4F724B64B4F66'', auIP = ''199.58.81.140'', auDirPort = 80, auORPort = 443\<rparr>,
    \<lparr>auNickname = ''bastet'', auV3Ident = ''27102BC123E7AF1D4741AE047E160C91ADC76B21'', auIP = ''204.13.164.118'', auDirPort = 80, auORPort = 443\<rparr>,
    \<lparr>auNickname = ''faravahar'', auV3Ident = ''70849B868D606BAECFB6128C5E3D782029AA394F'', auIP = ''216.218.219.41'', auDirPort = 80, auORPort = 443\<rparr>]"

abbreviation (input) MajorityThreshold :: nat where "MajorityThreshold \<equiv> 5"

section \<open>Certificates and signatures\<close>

record rsaKey =
  rsaN :: nat
  rsaE :: nat

record authCert =
  acIdentityFP :: string
  acSigningKeyFP :: string
  acIdentityKey :: rsaKey
  acSigningKey :: rsaKey
  acExpires :: int
  acSignedBody :: string
  acCertSig :: bytes

definition certKey :: "authCert \<Rightarrow> string" where
  "certKey c = acIdentityFP c @ CHR ''-'' # acSigningKeyFP c"

definition fieldValue :: "string \<Rightarrow> string \<Rightarrow> string" where
  "fieldValue raw key =
     (let kw = CHR 0x0A # key @ '' ''; until_nl = takeWhile (\<lambda>c. c \<noteq> CHR 0x0A) in
      case str_index kw raw of
        None \<Rightarrow> if prefix (key @ '' '') raw then until_nl (drop (length key + 1) raw) else []
      | Some i \<Rightarrow> until_nl (drop (i + length kw) raw))"

definition extractPEMAfter :: "string \<Rightarrow> string \<Rightarrow> bytes option" where
  "extractPEMAfter raw typ =
     (case pem_Decode raw of None \<Rightarrow> None
      | Some b \<Rightarrow> if typ \<noteq> [] \<and> pemType b \<noteq> typ then None else Some (pemBytes b))"

definition extractPEM :: "string \<Rightarrow> string \<Rightarrow> string \<Rightarrow> bytes option" where
  "extractPEM raw keyword typ =
     (case str_cut_at (keyword @ [CHR 0x0A]) raw of None \<Rightarrow> None | Some (_, after) \<Rightarrow> extractPEMAfter after typ)"

text \<open>Upper-case hexadecimal SHA-1 of a key's DER.\<close>

definition der_fp :: "crypto \<Rightarrow> bytes \<Rightarrow> string" where
  "der_fp K der = ToUpper (hex_enc (sha1_prim K der))"

definition parse_key :: "(bytes \<Rightarrow> rsaKey option) \<Rightarrow> string \<Rightarrow> string \<Rightarrow> (bytes \<times> rsaKey) option" where
  "parse_key pkcs1 raw keyword =
     Option.bind (extractPEM raw keyword ''RSA PUBLIC KEY'') (\<lambda>der. map_option (Pair der) (pkcs1 der))"

abbreviation certMarker :: string where "certMarker \<equiv> ''dir-key-certification'' @ [CHR 0x0A]"

definition ParseAuthCert :: "crypto \<Rightarrow> (bytes \<Rightarrow> rsaKey option) \<Rightarrow> string \<Rightarrow> dir_err + authCert" where
  "ParseAuthCert K pkcs1 raw =
     (case parse_key pkcs1 raw ''dir-identity-key'' of None \<Rightarrow> Inl CertIdentityKey | Some (idDER, idKey) \<Rightarrow>
      case parse_key pkcs1 raw ''dir-signing-key'' of None \<Rightarrow> Inl CertSigningKey | Some (skDER, skKey) \<Rightarrow>
      let e = fieldValue raw ''dir-key-expires'' in
      if e = [] then Inl CertNoExpiry else
      case time_Parse e of None \<Rightarrow> Inl CertBadExpiry | Some expires \<Rightarrow>
      case str_index certMarker raw of None \<Rightarrow> Inl CertNoCertification | Some mi \<Rightarrow>
      case extractPEMAfter (drop mi raw) ''SIGNATURE'' of None \<Rightarrow> Inl CertNoSignature | Some sig \<Rightarrow>
      Inr \<lparr>acIdentityFP = der_fp K idDER, acSigningKeyFP = der_fp K skDER, acIdentityKey = idKey, acSigningKey = skKey,
           acExpires = expires, acSignedBody = take (mi + length certMarker) raw, acCertSig = sig\<rparr>)"

text \<open>Big-endian naturals: \<^verbatim>\<open>SetBytes\<close>, \<^verbatim>\<open>FillBytes\<close>, \<^verbatim>\<open>BitLen\<close>.\<close>

definition be_nat :: "bytes \<Rightarrow> nat" where
  "be_nat bs = foldl (\<lambda>a b. 256 * a + unat b) 0 bs"

fun fill_bytes :: "nat \<Rightarrow> nat \<Rightarrow> bytes" where
  "fill_bytes 0 m = []"
| "fill_bytes (Suc k) m = fill_bytes k (m div 256) @ [of_nat m]"

fun bit_len :: "nat \<Rightarrow> nat" where
  "bit_len n = (if n = 0 then 0 else Suc (bit_len (n div 2)))"

declare bit_len.simps [simp del]

definition rsaRecover :: "rsaKey \<Rightarrow> bytes \<Rightarrow> bytes option" where
  "rsaRecover pub sig =
     (let m = (be_nat sig ^ rsaE pub) mod rsaN pub;
          k = (bit_len (rsaN pub) + 7) div 8;
          eb = fill_bytes k m in
      if length eb < 11 \<or> eb ! 0 \<noteq> 0 \<or> eb ! 1 \<noteq> 1 then None
      else case dropWhile (\<lambda>b. b = 255) (drop 2 eb) of
             [] \<Rightarrow> None
           | b # msg \<Rightarrow> if b \<noteq> 0 then None else Some msg)"

definition authCert_Verify :: "crypto \<Rightarrow> authCert \<Rightarrow> string \<Rightarrow> int \<Rightarrow> dir_err option" where
  "authCert_Verify K c expectedV3Ident now =
     (if acIdentityFP c \<noteq> ToUpper expectedV3Ident then Some CertWrongIdentity
      else if acExpires c = time_zero \<or> acExpires c < now then Some CertExpired
      else case rsaRecover (acIdentityKey c) (acCertSig c) of
             None \<Rightarrow> Some BadSig
           | Some recovered \<Rightarrow>
               if recovered \<noteq> sha1_prim K (bytes_of (acSignedBody c)) then Some CertSigMismatch else None)"

definition sig_digest :: "crypto \<Rightarrow> string \<Rightarrow> string \<Rightarrow> bytes option" where
  "sig_digest K alg body =
     (if alg = ''sha256'' then Some (sha256_prim K (bytes_of body))
      else if alg = ''sha1'' then Some (sha1_prim K (bytes_of body)) else None)"

text \<open>One round of the loop of \<^verbatim>\<open>VerifyConsensus\<close>; the keys of the map \<^verbatim>\<open>seen\<close> as a list without
  repetitions.\<close>

definition see_sig :: "crypto \<Rightarrow> string \<Rightarrow> (string \<rightharpoonup> authCert) \<Rightarrow> consensusSig \<Rightarrow> string list \<Rightarrow> string list" where
  "see_sig K body certs sig seen =
     (case certs (sigIdentityFP sig @ CHR ''-'' # sigSigningKeyFP sig) of
        None \<Rightarrow> seen
      | Some cert \<Rightarrow>
        (case sig_digest K (sigAlg sig) body of
           None \<Rightarrow> seen
         | Some digest \<Rightarrow>
             if rsaRecover (acSigningKey cert) (sigBytes sig) = Some digest then List.insert (sigIdentityFP sig) seen
             else seen))"

definition VerifyConsensus :: "crypto \<Rightarrow> consensus \<Rightarrow> (string \<rightharpoonup> authCert) \<Rightarrow> int \<Rightarrow> dir_err option" where
  "VerifyConsensus K c certs now =
     (if now < ValidAfter c then Some NotYetValid
      else if ValidUntil c < now then Some ConsensusExpired
      else let seen = fold (see_sig K (signedBody c) certs) (signatures c) [] in
           if length seen < MajorityThreshold then Some (TooFewSignatures (length seen)) else None)"

section \<open>Printing numbers\<close>

lemma itoa_loop_dec: "0 < n \<Longrightarrow> itoa_loop n b = dec_nat (nat n) @ b"
proof (induction n b rule: itoa_loop.induct)
  case (1 n b)
  have m: "nat (n mod 10) = nat n mod 10" "nat (n div 10) = nat n div 10"
    using 1(2) by (simp_all add: nat_mod_distrib nat_div_distrib)
  show ?case
  proof (cases "0 < n div 10")
    case True
    then have "\<not> nat n < 10" by linarith
    then show ?thesis using 1 True m by (simp add: itoa_loop.simps [of n] dec_nat.simps [of "nat n"])
  next
    case False
    then have "nat n < 10" "n div 10 = 0" using 1(2) by linarith+
    then show ?thesis
      using 1(2) m by (simp add: itoa_loop.simps [of n] itoa_loop.simps [of 0] dec_nat.simps [of "nat n"])
  qed
qed

lemma digit_char_0: "digit_char 0 = CHR ''0''"
  by code_simp

lemma itoa_Itoa: "0 \<le> n \<Longrightarrow> itoa n = Itoa n"
  using itoa_loop_dec [of n "[]"] by (cases "n = 0") (auto simp: itoa_def Itoa_def dec_nat.simps [of 0] digit_char_0)

section \<open>RSA blocks\<close>

lemma length_fill_bytes [simp]: "length (fill_bytes k m) = k"
  by (induction k arbitrary: m) auto

definition rsa_block :: "rsaKey \<Rightarrow> bytes \<Rightarrow> bytes" where
  "rsa_block pub sig = fill_bytes ((bit_len (rsaN pub) + 7) div 8) ((be_nat sig ^ rsaE pub) mod rsaN pub)"

lemma dropWhile_pad:
  "dropWhile (\<lambda>b. b = x) xs = y # ys \<longleftrightarrow> (\<exists>n. xs = replicate n x @ y # ys \<and> y \<noteq> x)"
proof
  assume "dropWhile (\<lambda>b. b = x) xs = y # ys"
  then show "\<exists>n. xs = replicate n x @ y # ys \<and> y \<noteq> x"
  proof (induction xs)
    case (Cons z zs)
    show ?case
    proof (cases "z = x")
      case True
      with Cons obtain n where "zs = replicate n x @ y # ys" "y \<noteq> x" by auto
      with True show ?thesis by (intro exI [of _ "Suc n"]) simp
    next
      case False
      with Cons.prems show ?thesis by (intro exI [of _ 0]) auto
    qed
  qed simp
next
  assume "\<exists>n. xs = replicate n x @ y # ys \<and> y \<noteq> x"
  then obtain n where n: "xs = replicate n x @ y # ys" "y \<noteq> x" by blast
  have "dropWhile (\<lambda>b. b = x) (replicate n x @ y # ys) = y # ys" using n(2) by (induction n) auto
  with n(1) show "dropWhile (\<lambda>b. b = x) xs = y # ys" by simp
qed

text \<open>A message is recovered exactly from blocks \<open>00 01 FF \<dots> FF 00 msg\<close>.\<close>

lemma rsaRecover_iff:
  "rsaRecover pub sig = Some msg \<longleftrightarrow>
     11 \<le> length (rsa_block pub sig) \<and> (\<exists>n. rsa_block pub sig = [0, 1] @ replicate n 255 @ 0 # msg)"
proof -
  let ?b = "rsa_block pub sig"
  have "rsaRecover pub sig = Some msg \<longleftrightarrow>
      11 \<le> length ?b \<and> ?b ! 0 = 0 \<and> ?b ! 1 = 1 \<and> dropWhile (\<lambda>b. b = 255) (drop 2 ?b) = 0 # msg"
    by (cases "dropWhile (\<lambda>b. b = 255) (drop 2 ?b)")
      (auto simp: rsaRecover_def rsa_block_def [symmetric] Let_def simp del: dropWhile_eq_Nil_conv length_fill_bytes)
  also have "\<dots> \<longleftrightarrow> 11 \<le> length ?b \<and> (\<exists>n. ?b = [0, 1] @ replicate n 255 @ 0 # msg)"
  proof (cases ?b)
    case (Cons a r)
    then show ?thesis by (cases r) (auto simp: dropWhile_pad)
  qed simp
  finally show ?thesis .
qed

section \<open>Counting authorities\<close>

definition valid_sig :: "crypto \<Rightarrow> string \<Rightarrow> (string \<rightharpoonup> authCert) \<Rightarrow> consensusSig \<Rightarrow> bool" where
  "valid_sig K body certs sig \<longleftrightarrow>
     (case certs (sigIdentityFP sig @ CHR ''-'' # sigSigningKeyFP sig) of
        None \<Rightarrow> False
      | Some cert \<Rightarrow> sig_digest K (sigAlg sig) body \<noteq> None \<and>
          rsaRecover (acSigningKey cert) (sigBytes sig) = sig_digest K (sigAlg sig) body)"

lemma see_sig_valid:
  "see_sig K body certs sig seen = (if valid_sig K body certs sig then List.insert (sigIdentityFP sig) seen else seen)"
  by (auto simp: see_sig_def valid_sig_def split: option.splits)

lemma see_all:
  "set (fold (see_sig K body certs) sigs seen) = set seen \<union> sigIdentityFP ` {s \<in> set sigs. valid_sig K body certs s}"
  "distinct seen \<Longrightarrow> distinct (fold (see_sig K body certs) sigs seen)"
  by (induction sigs arbitrary: seen) (auto simp: see_sig_valid)

definition signers :: "crypto \<Rightarrow> consensus \<Rightarrow> (string \<rightharpoonup> authCert) \<Rightarrow> string set" where
  "signers K c certs = sigIdentityFP ` {s \<in> set (signatures c). valid_sig K (signedBody c) certs s}"

lemma seen_card: "length (fold (see_sig K (signedBody c) certs) (signatures c) []) = card (signers K c certs)"
  using see_all(1) [of K "signedBody c" certs "signatures c" "[]"] see_all(2) [of "[]" K "signedBody c" certs "signatures c"]
  by (metis distinct.simps(1) distinct_card list.set(1) signers_def sup_bot_left)

lemma VerifyConsensus_iff:
  "VerifyConsensus K c certs now = None \<longleftrightarrow>
     ValidAfter c \<le> now \<and> now \<le> ValidUntil c \<and> MajorityThreshold \<le> card (signers K c certs)"
  by (auto simp: VerifyConsensus_def Let_def seen_card)

end
