(* ===== verification/Microdesc.thy ===== *)
theory Microdesc
  imports Go_Text Torcrypto
begin

text \<open>
  Model of \<^verbatim>\<open>pkg/directory/microdesc.go\<close>: exit policies, declared families and the splitting of a
  concatenated microdescriptor document into descriptors with their digests.  A document is the
  string of its bytes.  The lemmas show where a document is cut and that a printed sequence of
  microdescriptors is parsed back.
\<close>

section \<open>Exit policies and families\<close>

record portRange =
  Lo :: int
  Hi :: int

record exitPolicy =
  IsAccept :: bool
  Ports :: "portRange list"

fun in_ports :: "int \<Rightarrow> portRange list \<Rightarrow> bool" where
  "in_ports port [] = False"
| "in_ports port (r # rs) = (if Lo r \<le> port \<and> port \<le> Hi r then True else in_ports port rs)"

definition Allows :: "exitPolicy \<Rightarrow> int \<Rightarrow> bool" where
  "Allows p port = (let hit = in_ports port (Ports p) in if IsAccept p then hit else \<not> hit)"

definition parse_port :: "string \<Rightarrow> portRange" where
  "parse_port part =
     (case str_cut (CHR ''-'') part of
        Some (lo, hi) \<Rightarrow> \<lparr>Lo = fst (Atoi lo), Hi = fst (Atoi hi)\<rparr>
      | None \<Rightarrow> \<lparr>Lo = fst (Atoi part), Hi = fst (Atoi part)\<rparr>)"

definition parseExitPolicy :: "string \<Rightarrow> string \<Rightarrow> exitPolicy" where
  "parseExitPolicy action ports =
     \<lparr>IsAccept = (action = ''accept''),
      Ports = map parse_port (filter (\<lambda>part. part \<noteq> []) (split_on (CHR '','') ports))\<rparr>"

fun parseFamily :: "string list \<Rightarrow> string list" where
  "parseFamily [] = []"
| "parseFamily (m # ms) =
     (case m of
        c # rest \<Rightarrow>
          if c \<noteq> CHR ''$'' then parseFamily ms
          else let fp = takeWhile (\<lambda>x. x \<noteq> CHR ''='' \<and> x \<noteq> CHR ''~'') rest in
               if length fp = 40 then ToUpper fp # parseFamily ms else parseFamily ms
      | [] \<Rightarrow> parseFamily ms)"

definition fpHex :: "bytes \<Rightarrow> string" where
  "fpHex i = ToUpper (hex_enc i)"

section \<open>Microdescriptors\<close>

record microdescriptor =
  mdNtorOnionKey :: bytes
  mdEd25519ID :: bytes
  mdExitPolicy :: exitPolicy
  mdDigest :: string
  mdRaw :: string
  mdFamily :: "string list"

definition md_zero :: microdescriptor where
  "md_zero = \<lparr>mdNtorOnionKey = [], mdEd25519ID = [], mdExitPolicy = \<lparr>IsAccept = False, Ports = []\<rparr>,
              mdDigest = [], mdRaw = [], mdFamily = []\<rparr>"

definition SameFamily :: "microdescriptor \<Rightarrow> bytes \<Rightarrow> microdescriptor \<Rightarrow> bytes \<Rightarrow> bool" where
  "SameFamily a idA b idB \<longleftrightarrow> fpHex idB \<in> set (mdFamily a) \<and> fpHex idA \<in> set (mdFamily b)"

definition TrimRightEq :: "string \<Rightarrow> string" where
  "TrimRightEq s = rev (dropWhile (\<lambda>c. c = CHR ''='') (rev s))"

definition decodeBase64Flex :: "string \<Rightarrow> bytes" where
  "decodeBase64Flex s = (let (b, ok) = b64_decode False (TrimRightEq s) in if ok then b else [])"

definition md_line :: "string \<Rightarrow> microdescriptor \<Rightarrow> microdescriptor" where
  "md_line line md =
     (case Fields line of
        [] \<Rightarrow> md
      | k # f \<Rightarrow>
        if k = ''ntor-onion-key'' then
          (if 1 \<le> length f then md\<lparr>mdNtorOnionKey := decodeBase64Flex (f ! 0)\<rparr> else md)
        else if k = ''id'' then
          (if 2 \<le> length f \<and> f ! 0 = ''ed25519'' then md\<lparr>mdEd25519ID := decodeBase64Flex (f ! 1)\<rparr> else md)
        else if k = ''p'' then
          (if 2 \<le> length f then md\<lparr>mdExitPolicy := parseExitPolicy (f ! 0) (f ! 1)\<rparr> else md)
        else if k = ''family'' then md\<lparr>mdFamily := parseFamily f\<rparr>
        else md)"

definition parseOneMicrodesc :: "string \<Rightarrow> microdescriptor option" where
  "parseOneMicrodesc seg =
     (let md = fold md_line (fst (scan_lines 1048576 seg)) md_zero in
      if length (mdNtorOnionKey md) \<noteq> 32 then None else Some md)"

definition md_marker :: string where
  "md_marker = ''onion-key'' @ [CHR 0x0A]"

definition md_starts :: "string \<Rightarrow> nat list" where
  "md_starts raw =
     filter (\<lambda>i. (i = 0 \<or> raw ! (i - 1) = CHR 0x0A) \<and> prefix md_marker (drop i raw))
            [0..<Suc (length raw) - length md_marker]"

fun md_segs :: "string \<Rightarrow> nat list \<Rightarrow> string list" where
  "md_segs raw [] = []"
| "md_segs raw [s] = [drop s raw]"
| "md_segs raw (s # e # r) = slice s e raw # md_segs raw (e # r)"

fun md_collect :: "crypto \<Rightarrow> string list \<Rightarrow> microdescriptor list" where
  "md_collect K [] = []"
| "md_collect K (seg # segs) =
     (case parseOneMicrodesc seg of
        None \<Rightarrow> md_collect K segs
      | Some md \<Rightarrow> md\<lparr>mdDigest := b64_raw (sha256_prim K (bytes_of seg)), mdRaw := seg\<rparr> # md_collect K segs)"

definition ParseMicrodescriptors :: "crypto \<Rightarrow> string \<Rightarrow> microdescriptor list" where
  "ParseMicrodescriptors K raw = md_collect K (md_segs raw (md_starts raw))"

section \<open>Policies\<close>

lemma in_ports_iff: "in_ports port rs \<longleftrightarrow> (\<exists>r \<in> set rs. Lo r \<le> port \<and> port \<le> Hi r)"
  by (induction rs) auto

definition print_range :: "portRange \<Rightarrow> string" where
  "print_range r = (if Lo r = Hi r then Itoa (Lo r) else Itoa (Lo r) @ CHR ''-'' # Itoa (Hi r))"

definition range_ok :: "portRange \<Rightarrow> bool" where
  "range_ok r \<longleftrightarrow> 0 \<le> Lo r \<and> 0 \<le> Hi r \<and> Lo r < 65536 \<and> Hi r < 65536"

lemma digit_plain: "is_digit c \<Longrightarrow> \<not> is_space c \<and> c \<noteq> CHR ''-'' \<and> c \<noteq> CHR '',''"
  by (auto simp: is_digit_def is_space_def)

lemma Itoa_range:
  assumes "0 \<le> n" "n < 65536"
  shows "Atoi (Itoa n) = (n, True)" "CHR ''-'' \<notin> set (Itoa n)" "CHR '','' \<notin> set (Itoa n)" "Itoa n \<noteq> []"
    "list_all (\<lambda>c. \<not> is_space c) (Itoa n)"
proof -
  obtain m where m: "n = int m" using assms(1) nonneg_eq_int by blast
  have d: "is_digit c" if "c \<in> set (dec_nat m)" for c using dec_nat_digits that .
  show "Atoi (Itoa n) = (n, True)" using assms(2) Atoi_dec_nat [of m] by (simp add: m)
  show "CHR ''-'' \<notin> set (Itoa n)" "CHR '','' \<notin> set (Itoa n)" "Itoa n \<noteq> []"
    using digit_plain [OF d] by (auto simp: m)
  show "list_all (\<lambda>c. \<not> is_space c) (Itoa n)" using digit_plain [OF d] by (auto simp: m list_all_iff)
qed

lemma str_cut_append: "c \<notin> set a \<Longrightarrow> str_cut c (a @ c # b) = Some (a, b)"
  by (simp add: str_cut_def index_of_append)

lemma str_cut_none: "c \<notin> set a \<Longrightarrow> str_cut c a = None"
  using index_of_None [THEN iffD2, of c a] by (simp add: str_cut_def del: index_of_None)

lemma parse_print_range: "range_ok r \<Longrightarrow> parse_port (print_range r) = r"
  using Itoa_range [of "Lo r"] Itoa_range [of "Hi r"]
  by (cases r) (auto simp: parse_port_def print_range_def range_ok_def str_cut_append str_cut_none)

lemma print_range_chars:
  assumes "range_ok r"
  shows "CHR '','' \<notin> set (print_range r)" "print_range r \<noteq> []" "list_all (\<lambda>c. \<not> is_space c) (print_range r)"
  using assms Itoa_range [of "Lo r"] Itoa_range [of "Hi r"]
  by (auto simp: print_range_def range_ok_def list_all_iff is_space_def)

lemma parse_print_policy:
  assumes "ps \<noteq> []" "list_all range_ok ps"
  shows "parseExitPolicy action (join_with (CHR '','') (map print_range ps)) = \<lparr>IsAccept = (action = ''accept''), Ports = ps\<rparr>"
proof -
  have "split_on (CHR '','') (join_with (CHR '','') (map print_range ps)) = map print_range ps"
    using assms print_range_chars by (intro split_on_join) (auto simp: list_all_iff)
  moreover have "filter (\<lambda>part. part \<noteq> []) (map print_range ps) = map print_range ps"
    using assms(2) print_range_chars by (auto simp: filter_id_conv list_all_iff)
  moreover have "map parse_port (map print_range ps) = ps"
    using assms(2) parse_print_range by (auto simp: list_all_iff intro!: map_idI)
  ultimately show ?thesis by (simp add: parseExitPolicy_def)
qed

section \<open>Where a document is cut\<close>

lemma md_marker_facts: "length md_marker = 10" "last md_marker = CHR 0x0A" "CHR 0x0A \<notin> set (butlast md_marker)"
  by (simp_all add: md_marker_def)

lemma md_starts_mem:
  "i \<in> set (md_starts raw) \<longleftrightarrow> (i = 0 \<or> raw ! (i - 1) = CHR 0x0A) \<and> prefix md_marker (drop i raw)"
  by (auto simp: md_starts_def md_marker_facts dest: prefix_length_le)

lemma md_starts_sorted: "sorted (md_starts raw) \<and> distinct (md_starts raw)"
  by (simp add: md_starts_def sorted_wrt_filter del: upt_Suc)

lemma starts_unique:
  "sorted xs \<Longrightarrow> distinct xs \<Longrightarrow> set xs = set (md_starts raw) \<Longrightarrow> md_starts raw = xs"
  using md_starts_sorted [of raw] by (metis sorted_distinct_set_unique)

text \<open>A marker ends in its only newline, so none straddles the end of a line.\<close>

lemma marker_in_line:
  assumes "prefix md_marker (drop i (a @ b))" "last a = CHR 0x0A" "i < length a"
  shows "prefix md_marker (drop i a)"
proof (rule ccontr)
  assume n: "\<not> prefix md_marker (drop i a)"
  have p: "prefix md_marker (drop i a @ drop (i - length a) b)" using assms(1) by simp
  then obtain us where us: "md_marker = drop i a @ us" using n by (auto simp: prefix_append)
  then have "us \<noteq> []" using n by auto
  then have lt: "length (drop i a) < 10" using us md_marker_facts(1) by (metis add.right_neutral
        length_append length_greater_0_conv nat_add_left_cancel_less)
  let ?k = "length a - 1 - i"
  have k: "?k < length md_marker" using lt assms(3) md_marker_facts(1) by simp
  from p obtain z where "drop i a @ drop (i - length a) b = md_marker @ z" by (auto simp: prefix_def)
  then have "md_marker ! ?k = (drop i a @ drop (i - length a) b) ! ?k" using k by (simp add: nth_append_left)
  also have "\<dots> = drop i a ! ?k" using assms(3) by (intro nth_append_left) simp
  also have "\<dots> = a ! (length a - 1)" using assms(3) by simp
  also have "\<dots> = CHR 0x0A" using assms(2,3) by (metis last_conv_nth list.size(3) not_less_zero)
  finally have "md_marker ! ?k = CHR 0x0A" .
  moreover have "?k < 9" using lt assms(3) by simp
  ultimately have "butlast md_marker ! ?k = CHR 0x0A" "?k < length (butlast md_marker)"
    using md_marker_facts(1) by (simp_all add: nth_butlast)
  then have "CHR 0x0A \<in> set (butlast md_marker)" by (metis nth_mem)
  with md_marker_facts(3) show False by simp
qed

lemma md_starts_append:
  assumes "a \<noteq> []" "last a = CHR 0x0A"
  shows "md_starts (a @ b) = md_starts a @ map ((+) (length a)) (md_starts b)"
proof (rule starts_unique)
  have lt: "i < length a" if "i \<in> set (md_starts a)" for i
    using that by (auto simp: md_starts_mem md_marker_facts dest: prefix_length_le)
  show "sorted (md_starts a @ map ((+) (length a)) (md_starts b))"
    using md_starts_sorted [of a] md_starts_sorted [of b] lt
    by (fastforce simp: sorted_append sorted_map intro: sorted_wrt_mono_rel less_imp_le)
  show "distinct (md_starts a @ map ((+) (length a)) (md_starts b))"
    using md_starts_sorted [of a] md_starts_sorted [of b] lt by (fastforce simp: distinct_map)
  show "set (md_starts a @ map ((+) (length a)) (md_starts b)) = set (md_starts (a @ b))"
  proof (rule set_eqI)
    fix i
    have la: "a ! (length a - 1) = CHR 0x0A" using assms by (simp add: last_conv_nth)
    have s: "i \<in> set (map ((+) (length a)) (md_starts b)) \<longleftrightarrow> length a \<le> i \<and> i - length a \<in> set (md_starts b)"
      by (auto simp: image_iff) (metis le_add_diff_inverse)
    show "i \<in> set (md_starts a @ map ((+) (length a)) (md_starts b)) \<longleftrightarrow> i \<in> set (md_starts (a @ b))"
    proof (cases "i < length a")
      case True
      then have "i \<in> set (md_starts (a @ b)) \<longleftrightarrow> i \<in> set (md_starts a)"
        using marker_in_line [of i a b] assms(2) by (auto simp: md_starts_mem nth_append)
      then show ?thesis using True s by auto
    next
      case False
      then have "i \<in> set (md_starts (a @ b)) \<longleftrightarrow> i - length a \<in> set (md_starts b)"
        using la assms(1) by (cases "i = length a") (auto simp: md_starts_mem nth_append)
      then show ?thesis using False s lt by auto
    qed
  qed
qed

text \<open>In a text of lines the document is cut before every line \<open>onion-key\<close>.\<close>

lemma md_starts_line:
  assumes "CHR 0x0A \<notin> set l"
  shows "md_starts (l @ [CHR 0x0A]) = (if l = ''onion-key'' then [0] else [])"
proof (rule starts_unique)
  have "prefix md_marker (l @ [CHR 0x0A]) \<longleftrightarrow> l = ''onion-key''"
  proof
    assume "prefix md_marker (l @ [CHR 0x0A])"
    then obtain z where z: "l @ [CHR 0x0A] = ''onion-key'' @ CHR 0x0A # z" by (auto simp: md_marker_def prefix_def)
    have "z = []"
    proof (rule ccontr)
      assume "z \<noteq> []"
      then have "l = ''onion-key'' @ CHR 0x0A # butlast z" using arg_cong [OF z, of butlast] by (simp add: butlast_append)
      then have "CHR 0x0A \<in> set l" by simp
      with assms show False ..
    qed
    with z show "l = ''onion-key''" by simp
  qed (simp add: md_marker_def)
  then have "0 \<in> set (md_starts (l @ [CHR 0x0A])) \<longleftrightarrow> l = ''onion-key''" by (simp only: md_starts_mem drop_0) simp
  moreover have "i = 0" if "i \<in> set (md_starts (l @ [CHR 0x0A]))" for i
  proof (rule ccontr)
    assume "i \<noteq> 0"
    with that have x: "(l @ [CHR 0x0A]) ! (i - 1) = CHR 0x0A" "prefix md_marker (drop i (l @ [CHR 0x0A]))"
      by (auto simp: md_starts_mem)
    from x(2) have "i + 10 \<le> Suc (length l)" using prefix_length_le md_marker_facts(1) by fastforce
    then have "i - 1 < length l" by simp
    with x(1) have "CHR 0x0A \<in> set l" by (metis nth_append_left nth_mem)
    with assms show False ..
  qed
  ultimately show "set (if l = ''onion-key'' then [0] else []) = set (md_starts (l @ [CHR 0x0A]))"
    by (cases "l = ''onion-key''") (auto simp del: set_empty set_empty2, metis all_not_in_conv set_empty)
qed simp_all

definition md_seg_ok :: "string list \<Rightarrow> bool" where
  "md_seg_ok ls \<longleftrightarrow> ''onion-key'' \<notin> set ls \<and> (\<forall>l \<in> set ls. CHR 0x0A \<notin> set l)"

abbreviation md_seg :: "string list \<Rightarrow> string" where
  "md_seg ls \<equiv> unlines (''onion-key'' # ls)"

lemma md_starts_rest:
  assumes "md_seg_ok ls"
  shows "md_starts (unlines ls) = []"
  using assms
proof (induction ls)
  case Nil
  show ?case by (simp add: unlines_def md_starts_def md_marker_facts)
next
  case (Cons l ls)
  then have "md_starts (unlines ls) = []" "CHR 0x0A \<notin> set l" "l \<noteq> ''onion-key''" by (auto simp: md_seg_ok_def)
  then show ?case
    using md_starts_append [of "l @ [CHR 0x0A]" "unlines ls"] md_starts_line [of l] by (simp add: unlines_def)
qed

lemma md_starts_seg: "md_seg_ok ls \<Longrightarrow> md_starts (md_seg ls) = [0]"
  using md_starts_append [of "''onion-key'' @ [CHR 0x0A]" "unlines ls"] md_starts_line [of "''onion-key''"]
    md_starts_rest [of ls]
  by (simp add: unlines_def)

lemma md_seg_last: "md_seg ls \<noteq> []" "last (md_seg ls) = CHR 0x0A"
  by (induction ls) (auto simp: unlines_def split: if_splits)

lemma md_segs_shift: "md_segs (a @ b) (map ((+) (length a)) is) = md_segs b is"
  by (induction b "is" rule: md_segs.induct) (simp_all add: slice_def)

text \<open>Hence a sequence of such segments is taken apart exactly at their ends.\<close>

lemma md_segs_concat:
  "list_all md_seg_ok lss \<Longrightarrow> md_segs (concat (map md_seg lss)) (md_starts (concat (map md_seg lss))) = map md_seg lss"
proof (induction lss)
  case Nil
  show ?case by (simp add: md_starts_def md_marker_facts)
next
  case (Cons ls lss)
  let ?a = "md_seg ls" and ?b = "concat (map md_seg lss)"
  have st: "md_starts (?a @ ?b) = 0 # map ((+) (length ?a)) (md_starts ?b)"
    using md_starts_append [of ?a ?b, OF md_seg_last(1) md_seg_last(2)] md_starts_seg [of ls] Cons.prems by simp
  show ?case
  proof (cases lss)
    case Nil
    then show ?thesis using st by (simp add: md_starts_def md_marker_facts)
  next
    case (Cons l2 lss')
    then have "md_starts ?b = 0 # map ((+) (length (md_seg l2))) (md_starts (concat (map md_seg lss')))"
      using md_starts_append [of "md_seg l2" "concat (map md_seg lss')", OF md_seg_last(1) md_seg_last(2)]
        md_starts_seg [of l2] Cons.prems by simp
    then obtain r where r: "md_starts ?b = 0 # r" by blast
    have "md_segs (?a @ ?b) (md_starts (?a @ ?b)) = slice 0 (length ?a) (?a @ ?b) # md_segs (?a @ ?b) (map ((+) (length ?a)) (md_starts ?b))"
      using st r by simp
    also have "\<dots> = ?a # map md_seg lss"
      using Cons.IH Cons.prems md_segs_shift [of ?a ?b "md_starts ?b"] by (simp add: slice_def)
    finally show ?thesis by simp
  qed
qed

section \<open>Printing and parsing back\<close>

definition md_lines :: "microdescriptor \<Rightarrow> string list" where
  "md_lines md =
     [unwords [''ntor-onion-key'', b64_raw (mdNtorOnionKey md)],
      unwords [''id'', ''ed25519'', b64_raw (mdEd25519ID md)],
      unwords [''p'', if IsAccept (mdExitPolicy md) then ''accept'' else ''reject'',
               join_with (CHR '','') (map print_range (Ports (mdExitPolicy md)))],
      unwords (''family'' # map ((#) (CHR ''$'')) (mdFamily md))]"

definition fp_ok :: "string \<Rightarrow> bool" where
  "fp_ok fp \<longleftrightarrow> length fp = 40 \<and> ToUpper fp = fp \<and>
     list_all (\<lambda>c. c \<noteq> CHR ''='' \<and> c \<noteq> CHR ''~'' \<and> \<not> is_space c) fp"

definition md_ok :: "microdescriptor \<Rightarrow> bool" where
  "md_ok md \<longleftrightarrow> length (mdNtorOnionKey md) = 32 \<and> length (mdEd25519ID md) = 32 \<and>
     Ports (mdExitPolicy md) \<noteq> [] \<and> list_all range_ok (Ports (mdExitPolicy md)) \<and>
     list_all fp_ok (mdFamily md) \<and> list_all (\<lambda>l. length l < 1048576) (md_lines md)"

text \<open>Lines the parser skips, such as the PEM block of the legacy onion key.\<close>

definition md_ignored :: "string \<Rightarrow> bool" where
  "md_ignored l \<longleftrightarrow> line_ok 1048576 l \<and> l \<noteq> ''onion-key'' \<and>
     (Fields l = [] \<or> hd (Fields l) \<notin> {''ntor-onion-key'', ''id'', ''p'', ''family''})"

lemma decodeBase64Flex_raw [simp]: "decodeBase64Flex (b64_raw bs) = bs"
proof -
  have "c \<noteq> CHR ''=''" if "c \<in> set (rev (b64_raw bs))" for c
    using b64_raw_chars [of c bs] b64_char_plain that by auto
  then have "dropWhile (\<lambda>c. c = CHR ''='') (rev (b64_raw bs)) = rev (b64_raw bs)"
    by (cases "rev (b64_raw bs)") auto
  then show ?thesis by (simp add: decodeBase64Flex_def TrimRightEq_def b64_decode_raw)
qed

lemma parseFamily_print: "list_all fp_ok fs \<Longrightarrow> parseFamily (map ((#) (CHR ''$'')) fs) = fs"
proof (induction fs)
  case (Cons fp fs)
  then have "takeWhile (\<lambda>x. x \<noteq> CHR ''='' \<and> x \<noteq> CHR ''~'') fp = fp"
    by (auto simp: fp_ok_def takeWhile_eq_all_conv list_all_iff)
  with Cons show ?case by (simp add: fp_ok_def del: takeWhile_eq_all_conv)
qed simp

lemma ports_token:
  assumes "ps \<noteq> []" "list_all range_ok ps"
  shows "token (join_with (CHR '','') (map print_range ps))"
proof -
  have "\<not> is_space c" if c: "c \<in> set (join_with (CHR '','') (map print_range ps))" for c
  proof (cases "c = CHR '',''")
    case False
    then obtain r where r: "r \<in> set ps" "c \<in> set (print_range r)"
      using c set_join_with [of "CHR '',''" "map print_range ps"] by auto
    then show ?thesis using assms(2) print_range_chars(3) [of r] by (auto simp: list_all_iff)
  qed (simp add: is_space_def)
  moreover have "join_with (CHR '','') (map print_range ps) \<noteq> []"
    using assms print_range_chars(2) by (cases ps) (auto simp: join_with_def)
  ultimately show ?thesis by (simp add: token_def list_all_iff)
qed

lemma md_tokens:
  assumes "md_ok md"
  shows "list_all token [''ntor-onion-key'', b64_raw (mdNtorOnionKey md)]"
    "list_all token [''id'', ''ed25519'', b64_raw (mdEd25519ID md)]"
    "list_all token [''p'', if IsAccept (mdExitPolicy md) then ''accept'' else ''reject'',
               join_with (CHR '','') (map print_range (Ports (mdExitPolicy md)))]"
    "list_all token (''family'' # map ((#) (CHR ''$'')) (mdFamily md))"
proof -
  have ne: "mdNtorOnionKey md \<noteq> []" "mdEd25519ID md \<noteq> []" using assms by (auto simp: md_ok_def)
  have kw: "token ''ntor-onion-key''" "token ''id''" "token ''ed25519''" "token ''p''" "token ''accept''" "token ''reject''" "token ''family''"
    by (simp_all add: token_def is_space_def)
  show "list_all token [''ntor-onion-key'', b64_raw (mdNtorOnionKey md)]"
    "list_all token [''id'', ''ed25519'', b64_raw (mdEd25519ID md)]"
    using ne kw by (simp_all add: b64_raw_token)
  show "list_all token [''p'', if IsAccept (mdExitPolicy md) then ''accept'' else ''reject'',
               join_with (CHR '','') (map print_range (Ports (mdExitPolicy md)))]"
    using assms kw ports_token by (simp add: md_ok_def)
  show "list_all token (''family'' # map ((#) (CHR ''$'')) (mdFamily md))"
    using assms kw by (auto simp: md_ok_def fp_ok_def token_def list_all_iff is_space_def)
qed

lemma md_lines_parse:
  assumes "md_ok md"
  shows "fold md_line (md_lines md) m = m\<lparr>mdNtorOnionKey := mdNtorOnionKey md, mdEd25519ID := mdEd25519ID md,
           mdExitPolicy := mdExitPolicy md, mdFamily := mdFamily md\<rparr>"
proof -
  note t = md_tokens [OF assms, THEN Fields_unwords]
  have p: "parseExitPolicy (if IsAccept (mdExitPolicy md) then ''accept'' else ''reject'')
      (join_with (CHR '','') (map print_range (Ports (mdExitPolicy md)))) = mdExitPolicy md"
    using assms parse_print_policy by (cases "mdExitPolicy md") (auto simp: md_ok_def)
  have f: "parseFamily (map ((#) (CHR ''$'')) (mdFamily md)) = mdFamily md"
    using assms parseFamily_print by (simp add: md_ok_def)
  have "md_line (unwords [''ntor-onion-key'', b64_raw (mdNtorOnionKey md)]) m = m\<lparr>mdNtorOnionKey := mdNtorOnionKey md\<rparr>" for m
    unfolding md_line_def t(1) by simp
  moreover have "md_line (unwords [''id'', ''ed25519'', b64_raw (mdEd25519ID md)]) m = m\<lparr>mdEd25519ID := mdEd25519ID md\<rparr>" for m
    unfolding md_line_def t(2) by simp
  moreover have "md_line (unwords [''p'', if IsAccept (mdExitPolicy md) then ''accept'' else ''reject'',
      join_with (CHR '','') (map print_range (Ports (mdExitPolicy md)))]) m = m\<lparr>mdExitPolicy := mdExitPolicy md\<rparr>" for m
    unfolding md_line_def t(3) using p by simp
  moreover have "md_line (unwords (''family'' # map ((#) (CHR ''$'')) (mdFamily md))) m = m\<lparr>mdFamily := mdFamily md\<rparr>" for m
    unfolding md_line_def t(4) using f by simp
  ultimately show ?thesis by (simp add: md_lines_def)
qed

lemma md_line_ignored: "md_ignored l \<Longrightarrow> md_line l m = m"
  by (cases "Fields l") (simp_all add: md_ignored_def md_line_def)

lemma fold_ignored: "list_all md_ignored ls \<Longrightarrow> fold md_line ls m = m"
  by (induction ls arbitrary: m) (simp_all add: md_line_ignored)

lemma md_lines_ok:
  assumes "md_ok md"
  shows "list_all (line_ok 1048576) (md_lines md)" "''onion-key'' \<notin> set (md_lines md)"
proof -
  have len: "list_all (\<lambda>l. length l < 1048576) (md_lines md)" using assms by (simp add: md_ok_def)
  have w: "line_ok 1048576 (unwords ts)" if "list_all token ts" "length (unwords ts) < 1048576" for ts
    using unwords_line [OF that(1)] that(2) by (auto simp: line_ok_def)
  show "list_all (line_ok 1048576) (md_lines md)"
    using len w [OF md_tokens(1) [OF assms]] w [OF md_tokens(2) [OF assms]] w [OF md_tokens(3) [OF assms]]
      w [OF md_tokens(4) [OF assms]]
    by (simp add: md_lines_def)
  have "Fields l \<noteq> [''onion-key'']" if "l \<in> set (md_lines md)" for l
    using that md_tokens [OF assms, THEN Fields_unwords] unfolding md_lines_def by auto
  moreover have "Fields ''onion-key'' = [''onion-key'']" by (simp add: Fields_def is_space_def)
  ultimately show "''onion-key'' \<notin> set (md_lines md)" by blast
qed

definition md_text :: "string list \<times> microdescriptor \<Rightarrow> string" where
  "md_text d = md_seg (fst d @ md_lines (snd d))"

definition md_stamp :: "crypto \<Rightarrow> string \<Rightarrow> microdescriptor \<Rightarrow> microdescriptor" where
  "md_stamp K seg md = md\<lparr>mdDigest := b64_raw (sha256_prim K (bytes_of seg)), mdRaw := seg\<rparr>"

lemma parse_md_text:
  assumes "list_all md_ignored extra" "md_ok md"
  shows "\<exists>m. parseOneMicrodesc (md_text (extra, md)) = Some m \<and> md_stamp K seg m = md_stamp K seg md"
proof -
  have "list_all (line_ok 1048576) (''onion-key'' # extra @ md_lines md)"
    using assms md_lines_ok(1) [OF assms(2)] by (auto simp: list_all_iff md_ignored_def line_ok_def)
  then have "scan_lines 1048576 (md_text (extra, md)) = (''onion-key'' # extra @ md_lines md, True)"
    unfolding md_text_def fst_conv snd_conv by (rule scan_unlines)
  moreover have "md_line ''onion-key'' m = m" for m by (simp add: md_line_def Fields_def is_space_def)
  ultimately have "fold md_line (fst (scan_lines 1048576 (md_text (extra, md)))) md_zero =
      md_zero\<lparr>mdNtorOnionKey := mdNtorOnionKey md, mdEd25519ID := mdEd25519ID md,
           mdExitPolicy := mdExitPolicy md, mdFamily := mdFamily md\<rparr>"
    by (simp add: fold_ignored [OF assms(1)] md_lines_parse [OF assms(2)])
  then show ?thesis using assms(2) by (simp add: parseOneMicrodesc_def md_stamp_def md_ok_def)
qed

lemma md_collect_texts:
  "list_all (\<lambda>(extra, md). list_all md_ignored extra \<and> md_ok md) ds \<Longrightarrow>
   md_collect K (map md_text ds) = map (\<lambda>d. md_stamp K (md_text d) (snd d)) ds"
proof (induction ds)
  case (Cons d ds)
  obtain extra md where d: "d = (extra, md)" by (cases d)
  then obtain m where "parseOneMicrodesc (md_text d) = Some m" "md_stamp K (md_text d) m = md_stamp K (md_text d) md"
    using parse_md_text [of extra md] Cons.prems by auto
  with Cons d show ?case by (simp add: md_stamp_def)
qed simp

lemma md_text_seg_ok:
  assumes "list_all md_ignored extra" "md_ok md"
  shows "md_seg_ok (extra @ md_lines md)"
  using assms md_lines_ok [OF assms(2)] by (auto simp: md_seg_ok_def md_ignored_def line_ok_def list_all_iff)

lemma ParseMicrodescriptors_texts:
  assumes "list_all (\<lambda>(extra, md). list_all md_ignored extra \<and> md_ok md) ds"
  shows "ParseMicrodescriptors K (concat (map md_text ds)) = map (\<lambda>d. md_stamp K (md_text d) (snd d)) ds"
proof -
  have "list_all md_seg_ok (map (\<lambda>d. fst d @ md_lines (snd d)) ds)"
    using assms md_text_seg_ok by (auto simp: list_all_iff)
  from md_segs_concat [OF this] have "md_segs (concat (map md_text ds)) (md_starts (concat (map md_text ds))) = map md_text ds"
    by (simp add: md_text_def [abs_def] comp_def)
  then show ?thesis using md_collect_texts [OF assms] by (simp add: ParseMicrodescriptors_def)
qed

lemma md_collect_sound:
  "md \<in> set (md_collect K segs) \<Longrightarrow>
   mdRaw md \<in> set segs \<and> length (mdNtorOnionKey md) = 32 \<and> mdDigest md = b64_raw (sha256_prim K (bytes_of (mdRaw md)))"
  by (induction segs) (auto simp: parseOneMicrodesc_def Let_def split: option.splits if_splits)

lemma md_segs_sub: "s \<in> set (md_segs raw is) \<Longrightarrow> sublist s raw"
proof (induction raw "is" rule: md_segs.induct)
  case (3 raw s e r)
  then show ?case by (auto simp: slice_def intro: sublist_order.order_trans [OF sublist_take sublist_drop])
qed auto

lemma length_b64_raw: "length (b64_raw bs) \<le> 2 * length bs"
proof (induction bs rule: b64_raw.induct)
  case (4 a b c r)
  from 4 [OF refl refl refl] show ?case by (simp add: Let_def)
qed (simp_all add: Let_def)

text \<open>Whatever the document, every microdescriptor returned has a 32-byte ntor key, and its digest is
  the base64 SHA-256 of exactly the piece of the document kept with it.  A document printed from
  microdescriptors, each with any lines the format ignores in between, is cut at the right places
  and gives back every key, identity, policy and family, in order.\<close>

theorem microdescriptors_parsed:
  assumes "list_all (\<lambda>(extra, md). list_all md_ignored extra \<and> md_ok md) ds"
  shows "ParseMicrodescriptors K (concat (map md_text ds)) = map (\<lambda>d. md_stamp K (md_text d) (snd d)) ds \<and>
    (\<forall>raw. \<forall>md \<in> set (ParseMicrodescriptors K raw). length (mdNtorOnionKey md) = 32 \<and> sublist (mdRaw md) raw \<and>
       mdDigest md = b64_raw (sha256_prim K (bytes_of (mdRaw md))))"
  using ParseMicrodescriptors_texts [OF assms] md_collect_sound md_segs_sub
  unfolding ParseMicrodescriptors_def by blast

definition example_md :: "byte \<Rightarrow> microdescriptor" where
  "example_md k = md_zero\<lparr>mdNtorOnionKey := replicate 32 k, mdEd25519ID := replicate 32 (k + 1),
     mdExitPolicy := \<lparr>IsAccept = True, Ports = [\<lparr>Lo = 80, Hi = 80\<rparr>]\<rparr>\<rparr>"

lemma example_md_ok: "md_ok (example_md k)"
proof -
  have "length (b64_raw (replicate 32 k)) \<le> 64" "length (b64_raw (replicate 32 (k + 1))) \<le> 64"
    using length_b64_raw [of "replicate 32 k"] length_b64_raw [of "replicate 32 (k + 1)"] by simp_all
  then show ?thesis
    by (simp add: md_ok_def example_md_def md_zero_def range_ok_def md_lines_def join_with_def print_range_def
        Itoa_def dec_nat.simps)
qed

theorem microdescriptors_parsed_witness:
  "map mdNtorOnionKey (ParseMicrodescriptors toy_crypto (concat (map md_text [([''-----BEGIN''], example_md 1), ([], example_md 2)]))) =
     [replicate 32 1, replicate 32 2]"
proof -
  have ig: "md_ignored ''-----BEGIN''"
    by (simp add: md_ignored_def line_ok_def Fields_def is_space_def)
  have "list_all (\<lambda>(extra, md). list_all md_ignored extra \<and> md_ok md) [([''-----BEGIN''], example_md 1), ([], example_md 2)]"
    using ig example_md_ok by simp
  from microdescriptors_parsed [OF this, of toy_crypto] show ?thesis
    by (simp add: md_stamp_def) (simp add: example_md_def)
qed

end
