(* ===== verification/Dirclient.thy ===== *)
theory Dirclient
  imports Consensus Microdesc
begin

text \<open>
  Model of \<^verbatim>\<open>pkg/directory/client.go\<close> and \<^verbatim>\<open>cache.go\<close>: the directory client that fetches, verifies and
  caches the consensus, the authority certificates and the microdescriptors.  What lies outside
  the program (the network, the clock, random numbers, the cache's storage, the tunnel) is a world
  \<open>'w\<close> passed through every operation; an answer may depend on everything that happened before.  The
  decompressors of the standard library are parameters.
\<close>

section \<open>The world\<close>

record httpResp =
  respStatus :: nat
  respEncoding :: string
  respBody :: string
  respComplete :: bool

text \<open>A decompressor gives \<open>None\<close> on a bad header, otherwise all it can inflate and whether it ended
  without an error.\<close>

type_synonym codec = "string \<Rightarrow> (string \<times> bool) option"

record 'w denv =
  eHTTP :: "string \<Rightarrow> 'w \<Rightarrow> httpResp option \<times> 'w"
  eNow :: "'w \<Rightarrow> int \<times> 'w"
  eRand :: "nat \<Rightarrow> 'w \<Rightarrow> nat \<times> 'w"
  eGzip :: codec
  eZlib :: codec
  eFlate :: "string \<Rightarrow> string \<times> bool"

record 'w dirClient =
  dcAuthorities :: "authority list"
  dcCache :: "((string \<Rightarrow> 'w \<Rightarrow> string option \<times> 'w) \<times> (string \<Rightarrow> string \<Rightarrow> 'w \<Rightarrow> 'w)) option"
  dcTunnel :: "(string \<Rightarrow> 'w \<Rightarrow> string option \<times> 'w) option"
  dcAllowDirectFallback :: bool

definition NewClient :: "authority list \<Rightarrow> 'w dirClient" where
  "NewClient auths =
     \<lparr>dcAuthorities = (if auths = [] then DefaultAuthorities else auths), dcCache = None, dcTunnel = None,
      dcAllowDirectFallback = False\<rparr>"

definition UseCache :: "((string \<Rightarrow> 'w \<Rightarrow> string option \<times> 'w) \<times> (string \<Rightarrow> string \<Rightarrow> 'w \<Rightarrow> 'w)) option \<Rightarrow> 'w dirClient \<Rightarrow> 'w dirClient" where
  "UseCache cache c = c\<lparr>dcCache := cache\<rparr>"

definition UseTunnel :: "(string \<Rightarrow> 'w \<Rightarrow> string option \<times> 'w) option \<Rightarrow> 'w dirClient \<Rightarrow> 'w dirClient" where
  "UseTunnel t c = c\<lparr>dcTunnel := t\<rparr>"

definition AllowDirectFallback :: "bool \<Rightarrow> 'w dirClient \<Rightarrow> 'w dirClient" where
  "AllowDirectFallback allow c = c\<lparr>dcAllowDirectFallback := allow\<rparr>"

definition cacheGet :: "'w dirClient \<Rightarrow> string \<Rightarrow> 'w \<Rightarrow> string option \<times> 'w" where
  "cacheGet c key w = (case dcCache c of None \<Rightarrow> (None, w) | Some (get, _) \<Rightarrow> get key w)"

definition cachePut :: "'w dirClient \<Rightarrow> string \<Rightarrow> string \<Rightarrow> 'w \<Rightarrow> 'w" where
  "cachePut c key data w = (case dcCache c of None \<Rightarrow> w | Some (_, put) \<Rightarrow> put key data w)"

section \<open>Fetching\<close>

abbreviation (input) maxMicrodescPerRequest :: nat where "maxMicrodescPerRequest \<equiv> 92"
abbreviation (input) maxDecompressedSize :: nat where "maxDecompressedSize \<equiv> 67108864"

text \<open>\<^verbatim>\<open>io.ReadAll\<close> of a reader cut off one byte behind the limit.\<close>

definition readLimited :: "nat \<Rightarrow> string \<times> bool \<Rightarrow> string option" where
  "readLimited limit r =
     (let (data, ok) = r; got = take (limit + 1) data in
      if length data \<le> limit \<and> \<not> ok then None
      else if limit < length got then None else Some got)"

definition readAllLimited :: "string \<times> bool \<Rightarrow> string option" where
  "readAllLimited = readLimited maxDecompressedSize"

definition decompress :: "'w denv \<Rightarrow> string \<Rightarrow> string \<Rightarrow> string option" where
  "decompress E encoding body =
     (let e = ToLower (TrimSpace encoding) in
      if e = [] \<or> e = ''identity'' then Some body
      else if e = ''gzip'' \<or> e = ''x-gzip'' then Option.bind (eGzip E body) readAllLimited
      else if e = ''deflate'' then
        (case eZlib E body of
           Some r \<Rightarrow> readAllLimited r
         | None \<Rightarrow> readAllLimited (eFlate E body))
      else Some body)"

definition dir_get :: "'w denv \<Rightarrow> string \<Rightarrow> string \<Rightarrow> 'w \<Rightarrow> string option \<times> 'w" where
  "dir_get E hostport path w =
     (case eHTTP E (''http://'' @ hostport @ path) w of
        (None, w) \<Rightarrow> (None, w)
      | (Some resp, w) \<Rightarrow>
          if respStatus resp \<noteq> 200 then (None, w)
          else if length (respBody resp) < 67108864 \<and> \<not> respComplete resp then (None, w)
          else (decompress E (respEncoding resp) (take 67108864 (respBody resp)), w))"

text \<open>The loop of \<^verbatim>\<open>shuffledIndices\<close>, from \<open>i\<close> down to 1.\<close>

fun shuffle_from :: "'w denv \<Rightarrow> nat \<Rightarrow> nat list \<Rightarrow> 'w \<Rightarrow> nat list \<times> 'w" where
  "shuffle_from E 0 idx w = (idx, w)"
| "shuffle_from E (Suc i) idx w =
     (let (j, w) = eRand E (Suc (Suc i)) w in
      shuffle_from E i (idx[Suc i := idx ! j, j := idx ! Suc i]) w)"

definition shuffledIndices :: "'w denv \<Rightarrow> nat \<Rightarrow> 'w \<Rightarrow> nat list \<times> 'w" where
  "shuffledIndices E n w = shuffle_from E (n - 1) [0..<n] w"

fun try_authorities :: "'w denv \<Rightarrow> 'w dirClient \<Rightarrow> string \<Rightarrow> nat list \<Rightarrow> dir_err \<Rightarrow> 'w \<Rightarrow> (dir_err + string) \<times> 'w" where
  "try_authorities E c path [] lastErr w = (Inl lastErr, w)"
| "try_authorities E c path (i # order) lastErr w =
     (case dir_get E (DirAddr (dcAuthorities c ! i)) path w of
        (None, w) \<Rightarrow> try_authorities E c path order FetchFailed w
      | (Some body, w) \<Rightarrow> (Inr body, w))"

definition fetchDirect :: "'w denv \<Rightarrow> 'w dirClient \<Rightarrow> string \<Rightarrow> 'w \<Rightarrow> (dir_err + string) \<times> 'w" where
  "fetchDirect E c path w =
     (let (order, w) = shuffledIndices E (length (dcAuthorities c)) w in
      try_authorities E c path order NoAuthorities w)"

definition fetchFromAny :: "'w denv \<Rightarrow> 'w dirClient \<Rightarrow> string \<Rightarrow> 'w \<Rightarrow> (dir_err + string) \<times> 'w" where
  "fetchFromAny E c path w =
     (case dcTunnel c of
        None \<Rightarrow> fetchDirect E c path w
      | Some dirGet \<Rightarrow>
        (case dirGet path w of
           (Some body, w) \<Rightarrow> (Inr body, w)
         | (None, w) \<Rightarrow> if \<not> dcAllowDirectFallback c then (Inl TunnelFailed, w) else fetchDirect E c path w))"

section \<open>Certificates\<close>

abbreviation certVersionMarker :: string where "certVersionMarker \<equiv> ''dir-key-certificate-version''"

definition cert_starts :: "string \<Rightarrow> nat list" where
  "cert_starts raw =
     filter (\<lambda>i. (i = 0 \<or> raw ! (i - 1) = CHR 0x0A) \<and> prefix certVersionMarker (drop i raw))
            [0..<Suc (length raw) - length certVersionMarker]"

definition splitCerts :: "string \<Rightarrow> string list" where
  "splitCerts raw = md_segs raw (cert_starts raw)"

definition by_ident :: "authority list \<Rightarrow> (string \<rightharpoonup> authority)" where
  "by_ident auths = fold (\<lambda>a m. m(ToUpper (auV3Ident a) \<mapsto> a)) auths Map.empty"

fun parse_certs_loop :: "crypto \<Rightarrow> (bytes \<Rightarrow> rsaKey option) \<Rightarrow> 'w denv \<Rightarrow> (string \<rightharpoonup> authority) \<Rightarrow> string list \<Rightarrow>
    (string \<rightharpoonup> authCert) \<Rightarrow> 'w \<Rightarrow> (string \<rightharpoonup> authCert) \<times> 'w" where
  "parse_certs_loop K pkcs1 E byIdent [] out w = (out, w)"
| "parse_certs_loop K pkcs1 E byIdent (seg # segs) out w =
     (case ParseAuthCert K pkcs1 seg of
        Inl e \<Rightarrow> parse_certs_loop K pkcs1 E byIdent segs out w
      | Inr cert \<Rightarrow>
        (case byIdent (acIdentityFP cert) of
           None \<Rightarrow> parse_certs_loop K pkcs1 E byIdent segs out w
         | Some auth \<Rightarrow>
           (case eNow E w of (now, w) \<Rightarrow>
              if authCert_Verify K cert (auV3Ident auth) now \<noteq> None then parse_certs_loop K pkcs1 E byIdent segs out w
              else parse_certs_loop K pkcs1 E byIdent segs (out(certKey cert \<mapsto> cert)) w)))"

definition parseCerts :: "crypto \<Rightarrow> (bytes \<Rightarrow> rsaKey option) \<Rightarrow> 'w denv \<Rightarrow> (string \<rightharpoonup> authority) \<Rightarrow> string \<Rightarrow> 'w \<Rightarrow>
    (string \<rightharpoonup> authCert) \<times> 'w" where
  "parseCerts K pkcs1 E byIdent raw w = parse_certs_loop K pkcs1 E byIdent (splitCerts raw) Map.empty w"

definition certsCoverAll :: "(string \<rightharpoonup> authCert) \<Rightarrow> string list \<Rightarrow> bool" where
  "certsCoverAll certs need = list_all (\<lambda>k. certs k \<noteq> None) need"

definition needed_keys :: "(string \<rightharpoonup> authority) \<Rightarrow> consensusSig list \<Rightarrow> string list" where
  "needed_keys byIdent sigs =
     map (\<lambda>s. sigIdentityFP s @ CHR ''-'' # sigSigningKeyFP s) (filter (\<lambda>s. byIdent (sigIdentityFP s) \<noteq> None) sigs)"

definition fetch_new_certs :: "crypto \<Rightarrow> (bytes \<Rightarrow> rsaKey option) \<Rightarrow> 'w denv \<Rightarrow> 'w dirClient \<Rightarrow> (string \<rightharpoonup> authority) \<Rightarrow>
    string list \<Rightarrow> 'w \<Rightarrow> (dir_err + (string \<rightharpoonup> authCert)) \<times> 'w" where
  "fetch_new_certs K pkcs1 E c byIdent need w =
     (case fetchFromAny E c (''/tor/keys/fp-sk/'' @ join_with (CHR ''+'') need) w of
        (Inl e, w) \<Rightarrow> (Inl e, w)
      | (Inr raw, w) \<Rightarrow>
        (case parseCerts K pkcs1 E byIdent raw w of (certs, w) \<Rightarrow>
           if \<not> certsCoverAll certs need then (Inl CertsMissing, w)
           else (Inr certs, cachePut c ''certs'' raw w)))"

definition fetchCerts :: "crypto \<Rightarrow> (bytes \<Rightarrow> rsaKey option) \<Rightarrow> 'w denv \<Rightarrow> 'w dirClient \<Rightarrow> consensusSig list \<Rightarrow> 'w \<Rightarrow>
    (dir_err + (string \<rightharpoonup> authCert)) \<times> 'w" where
  "fetchCerts K pkcs1 E c sigs w =
     (let byIdent = by_ident (dcAuthorities c); need = needed_keys byIdent sigs in
      if need = [] then (Inl NoKnownAuthority, w)
      else
        case cacheGet c ''certs'' w of
          (None, w) \<Rightarrow> fetch_new_certs K pkcs1 E c byIdent need w
        | (Some raw, w) \<Rightarrow>
          (case parseCerts K pkcs1 E byIdent raw w of (certs, w) \<Rightarrow>
             if certsCoverAll certs need then (Inr certs, w)
             else fetch_new_certs K pkcs1 E c byIdent need w))"

section \<open>The consensus\<close>

definition fetchVerifyConsensus :: "crypto \<Rightarrow> (bytes \<Rightarrow> rsaKey option) \<Rightarrow> 'w denv \<Rightarrow> 'w dirClient \<Rightarrow> 'w \<Rightarrow>
    (dir_err + consensus) \<times> 'w" where
  "fetchVerifyConsensus K pkcs1 E c w =
     (case fetchFromAny E c ''/tor/status-vote/current/consensus-microdesc'' w of
        (Inl e, w) \<Rightarrow> (Inl e, w)
      | (Inr raw, w) \<Rightarrow>
        (case ParseConsensus raw of
           Inl e \<Rightarrow> (Inl e, w)
         | Inr cons \<Rightarrow>
           (case fetchCerts K pkcs1 E c (signatures cons) w of
              (Inl e, w) \<Rightarrow> (Inl e, w)
            | (Inr certs, w) \<Rightarrow>
              (case eNow E w of (now, w) \<Rightarrow>
                 (case VerifyConsensus K cons certs now of
                    Some e \<Rightarrow> (Inl e, w)
                  | None \<Rightarrow> (Inr cons, cachePut c ''consensus'' raw w))))))"

definition cachedConsensus :: "crypto \<Rightarrow> (bytes \<Rightarrow> rsaKey option) \<Rightarrow> 'w denv \<Rightarrow> 'w dirClient \<Rightarrow> 'w \<Rightarrow> consensus option \<times> 'w" where
  "cachedConsensus K pkcs1 E c w =
     (case cacheGet c ''consensus'' w of
        (None, w) \<Rightarrow> (None, w)
      | (Some raw, w) \<Rightarrow>
        (case ParseConsensus raw of
           Inl e \<Rightarrow> (None, w)
         | Inr cons \<Rightarrow>
           (case eNow E w of (now, w) \<Rightarrow>
              if now < ValidAfter cons \<or> ValidUntil cons < now then (None, w)
              else (case fetchCerts K pkcs1 E c (signatures cons) w of
                      (Inl e, w) \<Rightarrow> (None, w)
                    | (Inr certs, w) \<Rightarrow>
                        (if VerifyConsensus K cons certs now \<noteq> None then None else Some cons, w)))))"

definition Bootstrap :: "crypto \<Rightarrow> (bytes \<Rightarrow> rsaKey option) \<Rightarrow> 'w denv \<Rightarrow> 'w dirClient \<Rightarrow> 'w \<Rightarrow> (dir_err + consensus) \<times> 'w" where
  "Bootstrap K pkcs1 E c w =
     (case cachedConsensus K pkcs1 E c w of
        (Some cons, w) \<Rightarrow> (Inr cons, w)
      | (None, w) \<Rightarrow> fetchVerifyConsensus K pkcs1 E c w)"

definition Refresh :: "crypto \<Rightarrow> (bytes \<Rightarrow> rsaKey option) \<Rightarrow> 'w denv \<Rightarrow> 'w dirClient \<Rightarrow> 'w \<Rightarrow> (dir_err + consensus) \<times> 'w" where
  "Refresh K pkcs1 E c w = fetchVerifyConsensus K pkcs1 E c w"

section \<open>Microdescriptors\<close>

fun md_from_cache :: "crypto \<Rightarrow> 'w dirClient \<Rightarrow> string list \<Rightarrow> (string \<rightharpoonup> microdescriptor) \<Rightarrow> 'w \<Rightarrow>
    string list \<times> (string \<rightharpoonup> microdescriptor) \<times> 'w" where
  "md_from_cache K c [] out w = ([], out, w)"
| "md_from_cache K c (h # hs) out w =
     (case cacheGet c (''md/'' @ h) w of
        (None, w) \<Rightarrow> (let (missing, out, w) = md_from_cache K c hs out w in (h # missing, out, w))
      | (Some raw, w) \<Rightarrow>
        (case ParseMicrodescriptors K raw of
           [md] \<Rightarrow> if mdDigest md = h then md_from_cache K c hs (out(h \<mapsto> md)) w
                   else (let (missing, out, w) = md_from_cache K c hs out w in (h # missing, out, w))
         | _ \<Rightarrow> (let (missing, out, w) = md_from_cache K c hs out w in (h # missing, out, w))))"

fun md_store :: "'w dirClient \<Rightarrow> microdescriptor list \<Rightarrow> (string \<rightharpoonup> microdescriptor) \<Rightarrow> 'w \<Rightarrow> (string \<rightharpoonup> microdescriptor) \<times> 'w" where
  "md_store c [] out w = (out, w)"
| "md_store c (md # mds) out w =
     md_store c mds (out(mdDigest md \<mapsto> md)) (cachePut c (''md/'' @ mdDigest md) (mdRaw md) w)"

function md_batches :: "crypto \<Rightarrow> 'w dirClient \<Rightarrow> (string \<Rightarrow> 'w \<Rightarrow> (dir_err + string) \<times> 'w) \<Rightarrow> string list \<Rightarrow>
    (string \<rightharpoonup> microdescriptor) \<Rightarrow> 'w \<Rightarrow> (dir_err + (string \<rightharpoonup> microdescriptor)) \<times> 'w" where
  "md_batches K c fetch missing out w =
     (if missing = [] then (Inr out, w)
      else case fetch (''/tor/micro/d/'' @ join_with (CHR ''-'') (take maxMicrodescPerRequest missing)) w of
             (Inl e, w) \<Rightarrow> (Inl e, w)
           | (Inr raw, w) \<Rightarrow>
             (case md_store c (ParseMicrodescriptors K raw) out w of (out, w) \<Rightarrow>
                md_batches K c fetch (drop maxMicrodescPerRequest missing) out w))"
  by pat_completeness auto
termination
  by (relation "measure (\<lambda>(K, c, fetch, missing, out, w). length missing)") auto

declare md_batches.simps [simp del]

definition fetch_microdescriptors :: "crypto \<Rightarrow> 'w dirClient \<Rightarrow> (string \<Rightarrow> 'w \<Rightarrow> (dir_err + string) \<times> 'w) \<Rightarrow> string list \<Rightarrow>
    'w \<Rightarrow> (dir_err + (string \<rightharpoonup> microdescriptor)) \<times> 'w" where
  "fetch_microdescriptors K c fetch hashes w =
     (let (missing, out, w) = md_from_cache K c hashes Map.empty w in md_batches K c fetch missing out w)"

definition FetchMicrodescriptors :: "crypto \<Rightarrow> 'w denv \<Rightarrow> 'w dirClient \<Rightarrow> string list \<Rightarrow> 'w \<Rightarrow> (dir_err + (string \<rightharpoonup> microdescriptor)) \<times> 'w" where
  "FetchMicrodescriptors K E c hashes w = fetch_microdescriptors K c (fetchFromAny E c) hashes w"

definition FetchMicrodescriptorsDirect :: "crypto \<Rightarrow> 'w denv \<Rightarrow> 'w dirClient \<Rightarrow> string list \<Rightarrow> 'w \<Rightarrow> (dir_err + (string \<rightharpoonup> microdescriptor)) \<times> 'w" where
  "FetchMicrodescriptorsDirect K E c hashes w = fetch_microdescriptors K c (fetchDirect E c) hashes w"

section \<open>The disk cache\<close>

text \<open>\<^verbatim>\<open>sanitizeKey\<close>: the replacer compares its patterns at every position, in order.\<close>

fun sanitizeKey :: "string \<Rightarrow> string" where
  "sanitizeKey [] = []"
| "sanitizeKey (c # s) =
     (if c = CHR ''/'' then CHR ''_'' # sanitizeKey s
      else if c = CHR 0x5C then CHR ''_'' # sanitizeKey s
      else if c = CHR ''+'' then CHR ''-'' # sanitizeKey s
      else case s of
             d # r \<Rightarrow> if c = CHR ''.'' \<and> d = CHR ''.'' then CHR ''_'' # CHR ''_'' # sanitizeKey r else c # sanitizeKey s
           | [] \<Rightarrow> [c])"

text \<open>\<^verbatim>\<open>filepath.Clean\<close> and \<^verbatim>\<open>filepath.Join\<close> on Unix.\<close>

fun resolve :: "bool \<Rightarrow> string list \<Rightarrow> string list \<Rightarrow> string list" where
  "resolve rooted st [] = rev st"
| "resolve rooted st (c # cs) =
     (if c = [] \<or> c = ''.'' then resolve rooted st cs
      else if c = ''..'' then
        (case st of
           s # st' \<Rightarrow> if s = ''..'' then resolve rooted (c # st) cs else resolve rooted st' cs
         | [] \<Rightarrow> if rooted then resolve rooted [] cs else resolve rooted [c] cs)
      else resolve rooted (c # st) cs)"

definition clean_path :: "string \<Rightarrow> string" where
  "clean_path p =
     (let rooted = (p \<noteq> [] \<and> hd p = CHR ''/''); body = join_with (CHR ''/'') (resolve rooted [] (split_on (CHR ''/'') p)) in
      if rooted then CHR ''/'' # body else if body = [] then ''.'' else body)"

definition join_path :: "string list \<Rightarrow> string" where
  "join_path es = (let es = dropWhile (\<lambda>e. e = []) es in if es = [] then [] else clean_path (join_with (CHR ''/'') es))"

definition disk_path :: "string \<Rightarrow> string \<Rightarrow> string option" where
  "disk_path dir key =
     (let p = (case str_cut (CHR ''/'') key of
                 None \<Rightarrow> join_path [dir, sanitizeKey key]
               | Some (pre, rest) \<Rightarrow> join_path [dir, sanitizeKey pre, sanitizeKey rest])
      in if p \<noteq> dir \<and> \<not> prefix (dir @ ''/'') p then None else Some p)"

text \<open>The file system as a map from paths to contents, and how far a \<^verbatim>\<open>Put\<close> gets.\<close>

datatype put_outcome = MkdirFails | WriteFails "string option" | RenameFails | PutOk

definition disk_Get :: "string \<Rightarrow> (string \<rightharpoonup> string) \<Rightarrow> string \<Rightarrow> string option" where
  "disk_Get dir fs key = (case disk_path dir key of None \<Rightarrow> None | Some p \<Rightarrow> fs p)"

definition disk_Put :: "put_outcome \<Rightarrow> string \<Rightarrow> string \<Rightarrow> string \<Rightarrow> (string \<rightharpoonup> string) \<Rightarrow> (string \<rightharpoonup> string)" where
  "disk_Put out dir key data fs =
     (case disk_path dir key of
        None \<Rightarrow> fs
      | Some p \<Rightarrow>
        (let tmp = p @ ''.tmp'' in
         case out of
           MkdirFails \<Rightarrow> fs
         | WriteFails left \<Rightarrow> fs(tmp := left)
         | RenameFails \<Rightarrow> fs(tmp \<mapsto> data)
         | PutOk \<Rightarrow> fs(tmp := None, p \<mapsto> data)))"

definition NewDiskCache :: "string \<Rightarrow> string" where
  "NewDiskCache dir = clean_path dir"

end
