(* ===== verification/Dir_Trust.thy ===== *)
theory Dir_Trust
  imports Dirclient "HOL-Library.Multiset"
begin

text \<open>
  What the directory client guarantees: a consensus it returns carries valid signatures of at least
  five distinct configured authorities, each through a certificate signed by the authority's
  identity key; a microdescriptor it returns hashes to the name it is stored under; once a tunnel
  is set nothing is fetched directly; the disk cache keeps its keys apart and inside its directory.
\<close>

section \<open>Certificates that are kept\<close>

lemma hex_digit_plain: "d < 16 \<Longrightarrow> to_upper_char (hex_digit d) \<noteq> CHR ''-''"
proof
  assume d: "d < 16" and e: "to_upper_char (hex_digit d) = CHR ''-''"
  have "48 \<le> (of_char (to_upper_char (hex_digit d)) :: nat)"
    using d by (auto simp: to_upper_char_def hex_digit_def)
  with e show False by simp
qed

lemma der_fp_plain: "CHR ''-'' \<notin> set (der_fp K der)"
proof
  assume "CHR ''-'' \<in> set (der_fp K der)"
  then obtain b :: byte where b: "to_upper_char (hex_digit (unat b div 16)) = CHR ''-'' \<or> to_upper_char (hex_digit (unat b mod 16)) = CHR ''-''"
    unfolding der_fp_def ToUpper_def hex_enc_def by fastforce
  moreover have "unat b div 16 < 16" using unat_byte_lt [of b] by (simp add: less_mult_imp_div_less)
  ultimately show False using hex_digit_plain [of "unat b div 16"] hex_digit_plain [of "unat b mod 16"] by simp
qed

lemma ParseAuthCert_fps:
  assumes "ParseAuthCert K pkcs1 raw = Inr cert"
  shows "\<exists>idDER skDER. acIdentityFP cert = der_fp K idDER \<and> pkcs1 idDER = Some (acIdentityKey cert) \<and>
    acSigningKeyFP cert = der_fp K skDER \<and> pkcs1 skDER = Some (acSigningKey cert)"
  using assms
  by (auto simp: ParseAuthCert_def parse_key_def Let_def Option.bind_eq_Some_conv
      split: option.splits if_splits prod.splits) blast+

lemma by_ident_sound:
  "by_ident auths k = Some a \<Longrightarrow> a \<in> set auths \<and> ToUpper (auV3Ident a) = k"
proof -
  have "fold (\<lambda>a m. m(ToUpper (auV3Ident a) \<mapsto> a)) auths m k = Some a \<Longrightarrow>
      m k = Some a \<or> a \<in> set auths \<and> ToUpper (auV3Ident a) = k" for m
    by (induction auths arbitrary: m) (fastforce split: if_splits)+
  from this [of Map.empty] show "by_ident auths k = Some a \<Longrightarrow> ?thesis" by (simp add: by_ident_def)
qed

text \<open>A certificate bound to an authority: its identity key hashes to the authority's identity and
  signs the certificate, which had not expired when the clock was read.\<close>

definition bound_cert :: "crypto \<Rightarrow> (bytes \<Rightarrow> rsaKey option) \<Rightarrow> 'w denv \<Rightarrow> authority list \<Rightarrow> authCert \<Rightarrow> bool" where
  "bound_cert K pkcs1 E auths cert \<longleftrightarrow>
     (\<exists>a \<in> set auths. ToUpper (auV3Ident a) = acIdentityFP cert) \<and>
     (\<exists>idDER skDER. acIdentityFP cert = der_fp K idDER \<and> pkcs1 idDER = Some (acIdentityKey cert) \<and>
        acSigningKeyFP cert = der_fp K skDER \<and> pkcs1 skDER = Some (acSigningKey cert)) \<and>
     rsaRecover (acIdentityKey cert) (acCertSig cert) = Some (sha1_prim K (bytes_of (acSignedBody cert))) \<and>
     (\<exists>w. fst (eNow E w) \<le> acExpires cert)"

definition bound_certs :: "crypto \<Rightarrow> (bytes \<Rightarrow> rsaKey option) \<Rightarrow> 'w denv \<Rightarrow> authority list \<Rightarrow> (string \<rightharpoonup> authCert) \<Rightarrow> bool" where
  "bound_certs K pkcs1 E auths certs \<longleftrightarrow>
     (\<forall>k cert. certs k = Some cert \<longrightarrow> k = certKey cert \<and> bound_cert K pkcs1 E auths cert)"

lemma verified_bound:
  assumes "ParseAuthCert K pkcs1 seg = Inr cert" "by_ident auths (acIdentityFP cert) = Some a"
    "authCert_Verify K cert (auV3Ident a) (fst (eNow E w)) = None"
  shows "bound_cert K pkcs1 E auths cert"
  using ParseAuthCert_fps [OF assms(1)] by_ident_sound [OF assms(2)] assms(3)
  unfolding bound_cert_def authCert_Verify_def
  by (auto split: if_splits option.splits intro: exI [of _ w])

lemma parse_certs_loop_bound:
  "parse_certs_loop K pkcs1 E (by_ident auths) segs out w = (certs, w') \<Longrightarrow>
   bound_certs K pkcs1 E auths out \<Longrightarrow> bound_certs K pkcs1 E auths certs"
proof (induction segs arbitrary: out w)
  case (Cons seg segs)
  show ?case
  proof (cases "ParseAuthCert K pkcs1 seg")
    case (Inr cert)
    show ?thesis
    proof (cases "by_ident auths (acIdentityFP cert)")
      case None
      then show ?thesis using Cons Inr by simp
    next
      case (Some a)
      obtain now v where n: "eNow E w = (now, v)" by (cases "eNow E w")
      show ?thesis
      proof (cases "authCert_Verify K cert (auV3Ident a) now = None")
        case True
        then have "bound_cert K pkcs1 E auths cert"
          using verified_bound [OF Inr Some, of E w] n by simp
        then have "bound_certs K pkcs1 E auths (out(certKey cert \<mapsto> cert))"
          using Cons.prems(2) by (auto simp: bound_certs_def)
        then show ?thesis using Cons.IH Cons.prems(1) Inr Some n True by simp
      next
        case False
        then show ?thesis using Cons Inr Some n by simp
      qed
    qed
  qed (use Cons in simp)
qed simp

lemma parseCerts_bound:
  "parseCerts K pkcs1 E (by_ident auths) raw w = (certs, w') \<Longrightarrow> bound_certs K pkcs1 E auths certs"
  unfolding parseCerts_def by (erule parse_certs_loop_bound) (simp add: bound_certs_def)

lemma fetchCerts_bound:
  assumes "fetchCerts K pkcs1 E c sigs w = (Inr certs, w')"
  shows "bound_certs K pkcs1 E (dcAuthorities c) certs"
proof -
  have new: "bound_certs K pkcs1 E (dcAuthorities c) certs"
    if "fetch_new_certs K pkcs1 E c (by_ident (dcAuthorities c)) need w = (Inr certs, w')" for need w
    using that parseCerts_bound unfolding fetch_new_certs_def
    by (fastforce split: prod.splits sum.splits if_splits)
  show ?thesis
    using assms new parseCerts_bound unfolding fetchCerts_def Let_def
    by (fastforce split: prod.splits option.splits if_splits)
qed

section \<open>Accepted consensuses\<close>

definition authority_signed :: "crypto \<Rightarrow> (bytes \<Rightarrow> rsaKey option) \<Rightarrow> 'w denv \<Rightarrow> authority list \<Rightarrow> consensus \<Rightarrow> string \<Rightarrow> bool" where
  "authority_signed K pkcs1 E auths cons a \<longleftrightarrow>
     (\<exists>cert sig digest. bound_cert K pkcs1 E auths cert \<and> acIdentityFP cert = a \<and> sig \<in> set (signatures cons) \<and>
        sigIdentityFP sig = a \<and> sigSigningKeyFP sig = acSigningKeyFP cert \<and>
        sig_digest K (sigAlg sig) (signedBody cons) = Some digest \<and>
        rsaRecover (acSigningKey cert) (sigBytes sig) = Some digest)"

lemma signer_signed:
  assumes "bound_certs K pkcs1 E auths certs" "a \<in> signers K cons certs"
  shows "authority_signed K pkcs1 E auths cons a"
proof -
  from assms(2) obtain sig where s: "sig \<in> set (signatures cons)" "a = sigIdentityFP sig"
    "valid_sig K (signedBody cons) certs sig" by (auto simp: signers_def)
  then obtain cert digest where c: "certs (sigIdentityFP sig @ CHR ''-'' # sigSigningKeyFP sig) = Some cert"
    "sig_digest K (sigAlg sig) (signedBody cons) = Some digest" "rsaRecover (acSigningKey cert) (sigBytes sig) = Some digest"
    by (auto simp: valid_sig_def split: option.splits)
  with assms(1) have b: "bound_cert K pkcs1 E auths cert"
    and k: "acIdentityFP cert @ CHR ''-'' # acSigningKeyFP cert = sigIdentityFP sig @ CHR ''-'' # sigSigningKeyFP sig"
    by (auto simp: bound_certs_def certKey_def)
  have "CHR ''-'' \<notin> set (acIdentityFP cert) \<union> set (acSigningKeyFP cert)"
    using b der_fp_plain [of K] by (auto simp: bound_cert_def)
  with k have "acIdentityFP cert = sigIdentityFP sig" "acSigningKeyFP cert = sigSigningKeyFP sig"
    by (simp_all add: append_Cons_eq_iff)
  with b c s show ?thesis unfolding authority_signed_def by metis
qed

definition trusted :: "crypto \<Rightarrow> (bytes \<Rightarrow> rsaKey option) \<Rightarrow> 'w denv \<Rightarrow> authority list \<Rightarrow> consensus \<Rightarrow> bool" where
  "trusted K pkcs1 E auths cons \<longleftrightarrow>
     (\<exists>w. ValidAfter cons \<le> fst (eNow E w) \<and> fst (eNow E w) \<le> ValidUntil cons) \<and>
     (\<exists>A \<subseteq> ToUpper ` auV3Ident ` set auths. 5 \<le> card A \<and> (\<forall>a \<in> A. authority_signed K pkcs1 E auths cons a))"

lemma verified_trusted:
  assumes "bound_certs K pkcs1 E auths certs" "VerifyConsensus K cons certs (fst (eNow E w)) = None"
  shows "trusted K pkcs1 E auths cons"
proof -
  have "a \<in> ToUpper ` auV3Ident ` set auths" if "a \<in> signers K cons certs" for a
    using signer_signed [OF assms(1) that] unfolding authority_signed_def bound_cert_def by (metis image_eqI)
  then show ?thesis
    using assms(2) signer_signed [OF assms(1)] unfolding VerifyConsensus_iff trusted_def by blast
qed

lemma fetchVerifyConsensus_trusted:
  assumes "fetchVerifyConsensus K pkcs1 E c w = (Inr cons, w')"
  shows "trusted K pkcs1 E (dcAuthorities c) cons"
proof -
  from assms obtain certs w1 w2 w3 where
    "fetchCerts K pkcs1 E c (signatures cons) w1 = (Inr certs, w2)" "VerifyConsensus K cons certs (fst (eNow E w2)) = None"
    unfolding fetchVerifyConsensus_def
    by (auto split: prod.splits sum.splits option.splits)
  then show ?thesis by (rule verified_trusted [OF fetchCerts_bound])
qed

lemma cachedConsensus_trusted:
  assumes "cachedConsensus K pkcs1 E c w = (Some cons, w')"
  shows "trusted K pkcs1 E (dcAuthorities c) cons"
proof -
  from assms obtain certs w1 w2 w3 where
    "fetchCerts K pkcs1 E c (signatures cons) w2 = (Inr certs, w3)" "VerifyConsensus K cons certs (fst (eNow E w1)) = None"
    unfolding cachedConsensus_def
    by (auto split: prod.splits sum.splits option.splits if_splits) (metis fst_conv)
  then show ?thesis by (rule verified_trusted [OF fetchCerts_bound])
qed

lemma Bootstrap_trusted:
  "Bootstrap K pkcs1 E c w = (Inr cons, w') \<Longrightarrow> trusted K pkcs1 E (dcAuthorities c) cons"
  "Refresh K pkcs1 E c w = (Inr cons, w') \<Longrightarrow> trusted K pkcs1 E (dcAuthorities c) cons"
  using cachedConsensus_trusted fetchVerifyConsensus_trusted
  by (fastforce simp: Bootstrap_def Refresh_def split: prod.splits option.splits)+

section \<open>The quorum can be reached\<close>

lemma fill_bytes_be: "fill_bytes (length bs) (be_nat bs) = bs"
proof (induction bs rule: rev_induct)
  case (snoc b bs)
  have "be_nat (bs @ [b]) = 256 * be_nat bs + unat b" by (simp add: be_nat_def)
  moreover have "(256 * be_nat bs + unat b) div 256 = be_nat bs" using unat_byte_lt [of b] by simp
  moreover have "(of_nat (256 * be_nat bs + unat b) :: byte) = of_nat 256 * of_nat (be_nat bs) + b"
    by (simp only: of_nat_add of_nat_mult of_nat_unat ucast_id)
  moreover have "(of_nat 256 :: byte) = 0" by (simp add: word_of_nat_eq_0_iff)
  ultimately show ?case using snoc by (simp del: of_nat_numeral of_nat_add of_nat_mult)
qed (simp add: be_nat_def)

lemma be_nat_less: "be_nat bs < 256 ^ length bs"
proof (induction bs rule: rev_induct)
  case (snoc b bs)
  have "be_nat (bs @ [b]) = 256 * be_nat bs + unat b" by (simp add: be_nat_def)
  then show ?case using snoc unat_byte_lt [of b] by simp
qed (simp add: be_nat_def)

lemma bit_len_pow: "bit_len (2 ^ n) = Suc n"
  by (induction n) (simp_all add: bit_len.simps [of "Suc 0"] bit_len.simps [of 0] bit_len.simps [of "2 * 2 ^ n" for n])

text \<open>With exponent 1 and a modulus of \<open>2 ^ (8 * n - 1)\<close> the signature is the padded block itself.\<close>

lemma rsaRecover_plain:
  assumes "n = length msg + k + 3" "8 \<le> k"
  shows "rsaRecover \<lparr>rsaN = 2 ^ (8 * n - 1), rsaE = 1\<rparr> ([0, 1] @ replicate k 255 @ 0 # msg) = Some msg"
proof -
  let ?b = "[0, 1] @ replicate k 255 @ 0 # msg" and ?N = "2 ^ (8 * n - 1) :: nat"
  have len: "length ?b = n" using assms by simp
  have "be_nat (x # xs) = unat x * 256 ^ length xs + be_nat xs" for x xs
    by (induction xs rule: rev_induct) (simp_all add: be_nat_def)
  then have "be_nat ?b = be_nat ([1] @ replicate k 255 @ 0 # msg)" by simp
  also have "\<dots> < 256 ^ (n - 1)" using be_nat_less [of "[1] @ replicate k 255 @ 0 # msg"] assms(1) by (simp add: add.commute)
  also have "(256 :: nat) ^ (n - 1) = 2 ^ (8 * (n - 1))" by (simp add: power_mult)
  also have "\<dots> \<le> ?N" using assms(1) by (intro power_increasing) auto
  finally have "be_nat ?b mod ?N = be_nat ?b" by simp
  moreover have "(bit_len ?N + 7) div 8 = n" using assms(1) by (simp add: bit_len_pow)
  ultimately have "rsa_block \<lparr>rsaN = ?N, rsaE = 1\<rparr> ?b = ?b"
    using fill_bytes_be [of ?b] unfolding len by (simp add: rsa_block_def)
  then show ?thesis using assms unfolding rsaRecover_iff by auto
qed

section \<open>Microdescriptors are what their name says\<close>

text \<open>A microdescriptor that is genuine under a hash: the hash is that of its bytes, and every field is what
  those bytes parse to.\<close>

definition genuine :: "crypto \<Rightarrow> string \<Rightarrow> microdescriptor \<Rightarrow> bool" where
  "genuine K h md \<longleftrightarrow> h = b64_raw (sha256_prim K (bytes_of (mdRaw md))) \<and>
     (\<exists>m. parseOneMicrodesc (mdRaw md) = Some m \<and> md = md_stamp K (mdRaw md) m)"

lemma genuine_fields:
  assumes "genuine K h md"
  shows "mdDigest md = h \<and> length (mdNtorOnionKey md) = 32"
proof -
  obtain m raw where h: "h = b64_raw (sha256_prim K (bytes_of raw))" "parseOneMicrodesc raw = Some m" "md = md_stamp K raw m"
    using assms unfolding genuine_def by metis
  then show ?thesis by (auto simp: md_stamp_def parseOneMicrodesc_def Let_def split: if_splits)
qed

lemma md_collect_genuine: "md \<in> set (md_collect K segs) \<Longrightarrow> genuine K (mdDigest md) md"
  by (induction segs) (auto simp: genuine_def md_stamp_def split: option.splits)

definition addressed :: "crypto \<Rightarrow> (string \<rightharpoonup> microdescriptor) \<Rightarrow> bool" where
  "addressed K out \<longleftrightarrow> (\<forall>h md. out h = Some md \<longrightarrow> genuine K h md)"

lemma parsed_addressed:
  assumes "md \<in> set (ParseMicrodescriptors K raw)" "mdDigest md = h" "addressed K out"
  shows "addressed K (out(h \<mapsto> md))"
  using md_collect_genuine [OF assms(1) [unfolded ParseMicrodescriptors_def]] assms(2,3)
  by (auto simp: addressed_def)

lemma md_store_addressed:
  "md_store c mds out w = (out', w') \<Longrightarrow> set mds \<subseteq> set (ParseMicrodescriptors K raw) \<Longrightarrow> addressed K out \<Longrightarrow> addressed K out'"
  by (induction mds arbitrary: out w) (auto intro: parsed_addressed)

lemma md_from_cache_addressed:
  "md_from_cache K c hs out w = (missing, out', w') \<Longrightarrow> addressed K out \<Longrightarrow> addressed K out'"
proof (induction hs arbitrary: out w missing out' w')
  case (Cons h hs)
  obtain r v where g: "cacheGet c (''md/'' @ h) w = (r, v)" by (cases "cacheGet c (''md/'' @ h) w")
  obtain m o' u where rest: "md_from_cache K c hs out v = (m, o', u)" by (cases "md_from_cache K c hs out v")
  show ?case
  proof (cases "\<exists>raw md. r = Some raw \<and> ParseMicrodescriptors K raw = [md] \<and> mdDigest md = h")
    case True
    then obtain raw md where x: "r = Some raw" "ParseMicrodescriptors K raw = [md]" "mdDigest md = h" by blast
    then have "addressed K (out(h \<mapsto> md))" using parsed_addressed [of md K raw h out] Cons.prems(2) by simp
    then show ?thesis using Cons.IH Cons.prems(1) g x by simp
  next
    case False
    then have "md_from_cache K c (h # hs) out w = (h # m, o', u)"
      using g rest by (cases r) (auto split: list.splits)
    then show ?thesis using Cons.IH [OF rest] Cons.prems by simp
  qed
qed simp

lemma md_batches_addressed:
  "md_batches K c fetch missing out w = (Inr out', w') \<Longrightarrow> addressed K out \<Longrightarrow> addressed K out'"
proof (induction K c fetch missing out w rule: md_batches.induct)
  case (1 K c fetch missing out w)
  show ?case
  proof (cases "missing = []")
    case True
    then show ?thesis using 1(2,3) by (simp add: md_batches.simps [of K c fetch "[]"])
  next
    case False
    obtain r v where f: "fetch (''/tor/micro/d/'' @ join_with (CHR ''-'') (take 92 missing)) w = (r, v)"
      by (cases "fetch (''/tor/micro/d/'' @ join_with (CHR ''-'') (take 92 missing)) w")
    then obtain raw where r: "r = Inr raw"
      using 1(2) False by (cases r) (simp_all add: md_batches.simps [of K c fetch missing])
    obtain o' u where s: "md_store c (ParseMicrodescriptors K raw) out v = (o', u)"
      by (cases "md_store c (ParseMicrodescriptors K raw) out v")
    then have "addressed K o'" using md_store_addressed [OF s] 1(3) by blast
    then show ?thesis
      using 1(1) [OF False f [symmetric] r s [symmetric]] 1(2) False f r s
      by (simp add: md_batches.simps [of K c fetch missing])
  qed
qed

lemma fetch_microdescriptors_addressed:
  "fetch_microdescriptors K c fetch hashes w = (Inr out, w') \<Longrightarrow> addressed K out"
proof -
  assume a: "fetch_microdescriptors K c fetch hashes w = (Inr out, w')"
  obtain missing out1 w1 where m: "md_from_cache K c hashes Map.empty w = (missing, out1, w1)"
    by (cases "md_from_cache K c hashes Map.empty w") auto
  then have "addressed K out1" using md_from_cache_addressed [OF m] by (simp add: addressed_def)
  then show ?thesis using a m md_batches_addressed [of K c fetch missing out1 w1] by (simp add: fetch_microdescriptors_def)
qed

section \<open>Nothing is fetched directly once a tunnel is set\<close>

text \<open>The direct path to the authorities is the HTTP client and the random order; an operation that
  gives the same result whatever they answer does not use them.\<close>

abbreviation (input) other_net :: "(string \<Rightarrow> 'w \<Rightarrow> httpResp option \<times> 'w) \<Rightarrow> (nat \<Rightarrow> 'w \<Rightarrow> nat \<times> 'w) \<Rightarrow> 'w denv \<Rightarrow> 'w denv" where
  "other_net h r E \<equiv> E\<lparr>eHTTP := h, eRand := r\<rparr>"

definition tunnelled :: "'w dirClient \<Rightarrow> bool" where
  "tunnelled c \<longleftrightarrow> dcTunnel c \<noteq> None \<and> \<not> dcAllowDirectFallback c"

lemma parse_certs_other: "parse_certs_loop K pkcs1 (other_net h r E) byIdent segs out w = parse_certs_loop K pkcs1 E byIdent segs out w"
  by (induction segs arbitrary: out w) (auto split: sum.splits option.splits prod.splits)

lemma fetchFromAny_other: "tunnelled c \<Longrightarrow> fetchFromAny (other_net h r E) c path w = fetchFromAny E c path w"
  by (auto simp: tunnelled_def fetchFromAny_def split: option.splits prod.splits)

lemma fetchCerts_other:
  assumes "tunnelled c"
  shows "fetchCerts K pkcs1 (other_net h r E) c sigs w = fetchCerts K pkcs1 E c sigs w"
  unfolding fetchCerts_def fetch_new_certs_def parseCerts_def parse_certs_other fetchFromAny_other [OF assms] by (rule refl)

lemma eNow_other: "eNow (other_net h r E) = eNow E"
  by simp

lemma consensus_other:
  assumes "tunnelled c"
  shows "fetchVerifyConsensus K pkcs1 (other_net h r E) c w = fetchVerifyConsensus K pkcs1 E c w"
    "cachedConsensus K pkcs1 (other_net h r E) c w = cachedConsensus K pkcs1 E c w"
  unfolding fetchVerifyConsensus_def cachedConsensus_def fetchCerts_other [OF assms] fetchFromAny_other [OF assms] eNow_other
  by (rule refl)+

lemma FetchMicrodescriptors_other:
  assumes "tunnelled c"
  shows "FetchMicrodescriptors K (other_net h r E) c hs w = FetchMicrodescriptors K E c hs w"
proof -
  have "fetchFromAny (other_net h r E) c = fetchFromAny E c" using fetchFromAny_other [OF assms] by (intro ext)
  then show ?thesis by (simp add: FetchMicrodescriptors_def)
qed

section \<open>The authorities are asked in a random order, each once\<close>

lemma shuffle_from_mset:
  "\<forall>n w. 0 < n \<longrightarrow> fst (eRand E n w) < n \<Longrightarrow> i < length idx \<Longrightarrow> mset (fst (shuffle_from E i idx w)) = mset idx"
proof (induction i arbitrary: idx w)
  case (Suc i)
  obtain j v where j: "eRand E (Suc (Suc i)) w = (j, v)" by (cases "eRand E (Suc (Suc i)) w")
  then have "j < Suc (Suc i)" using Suc.prems(1) [rule_format, of "Suc (Suc i)" w] by simp
  with Suc.prems(2) have "j < length idx" by simp
  then have "mset (idx[Suc i := idx ! j, j := idx ! Suc i]) = mset idx" using mset_swap [of j idx "Suc i"] Suc.prems(2) by simp
  with Suc j show ?case by simp
qed simp

lemma shuffledIndices_perm:
  assumes "\<forall>n w. 0 < n \<longrightarrow> fst (eRand E n w) < n"
  shows "mset (fst (shuffledIndices E n w)) = mset [0..<n]"
  using shuffle_from_mset [OF assms, of "n - 1" "[0..<n]"] by (cases n) (simp_all add: shuffledIndices_def)

text \<open>C21: \<^verbatim>\<open>VerifyConsensus\<close> accepts exactly the consensuses inside their validity interval that at least
  five distinct authority identities have signed: repeated signatures of one authority count once,
  and signatures without a known certificate, with an unknown digest algorithm, or that do not
  open to the digest of the signed body do not count.\<close>

theorem consensus_accepted_iff_majority:
  "VerifyConsensus K c certs now = None \<longleftrightarrow>
     ValidAfter c \<le> now \<and> now \<le> ValidUntil c \<and>
     5 \<le> card (sigIdentityFP ` {s \<in> set (signatures c). \<exists>cert digest.
         certs (sigIdentityFP s @ CHR ''-'' # sigSigningKeyFP s) = Some cert \<and>
         sig_digest K (sigAlg s) (signedBody c) = Some digest \<and>
         11 \<le> length (rsa_block (acSigningKey cert) (sigBytes s)) \<and>
         (\<exists>n. rsa_block (acSigningKey cert) (sigBytes s) = [0, 1] @ replicate n 255 @ 0 # digest)})"
proof -
  have "valid_sig K (signedBody c) certs s \<longleftrightarrow> (\<exists>cert digest.
         certs (sigIdentityFP s @ CHR ''-'' # sigSigningKeyFP s) = Some cert \<and>
         sig_digest K (sigAlg s) (signedBody c) = Some digest \<and>
         11 \<le> length (rsa_block (acSigningKey cert) (sigBytes s)) \<and>
         (\<exists>n. rsa_block (acSigningKey cert) (sigBytes s) = [0, 1] @ replicate n 255 @ 0 # digest))" for s
    unfolding rsaRecover_iff [symmetric] valid_sig_def by (auto split: option.splits)
  then show ?thesis by (simp add: VerifyConsensus_iff signers_def)
qed



text \<open>C24: Every microdescriptor the client returns, fresh or cached, is stored under the base64 SHA-256 of
  its own bytes, has exactly the fields those bytes parse to and a 32-byte ntor key, so a directory
  server cannot substitute another relay's keys for the hash named by the consensus.\<close>

theorem microdescriptors_match_their_hash:
  assumes "FetchMicrodescriptors K E c hashes w = (Inr out, w') \<or> FetchMicrodescriptorsDirect K E c hashes w = (Inr out, w')"
    and "out h = Some md"
  shows "h = b64_raw (sha256_prim K (bytes_of (mdRaw md))) \<and> mdDigest md = h \<and> length (mdNtorOnionKey md) = 32 \<and>
    (\<exists>m. parseOneMicrodesc (mdRaw md) = Some m \<and> md = md_stamp K (mdRaw md) m)"
proof -
  have "addressed K out"
    using assms(1) fetch_microdescriptors_addressed unfolding FetchMicrodescriptors_def FetchMicrodescriptorsDirect_def by fast
  with assms(2) have g: "genuine K h md" by (simp add: addressed_def)
  then show ?thesis using genuine_fields [OF g] unfolding genuine_def by blast
qed

section \<open>Witnesses\<close>

text \<open>A client whose tunnel always answers with the same document.\<close>

definition toy_env :: "unit denv" where
  "toy_env = \<lparr>eHTTP = (\<lambda>u w. (None, w)), eNow = Pair 0, eRand = (\<lambda>n w. (0, w)),
     eGzip = (\<lambda>s. None), eZlib = (\<lambda>s. None), eFlate = (\<lambda>s. ([], False))\<rparr>"

definition toy_client :: "string \<Rightarrow> unit dirClient" where
  "toy_client doc = UseTunnel (Some (\<lambda>path w. (Some doc, w))) (NewClient [])"

lemma toy_client_simps [simp]: "dcTunnel (toy_client doc) = Some (\<lambda>path w. (Some doc, w))"
  "\<not> dcAllowDirectFallback (toy_client doc)" "dcCache (toy_client doc) = None"
  by (simp_all add: toy_client_def UseTunnel_def NewClient_def)


lemma toy_fetch:
  "ParseMicrodescriptors K doc = [md] \<Longrightarrow>
   FetchMicrodescriptors K toy_env (toy_client doc) [h] () = (Inr [mdDigest md \<mapsto> md], ())"
  by (simp add: FetchMicrodescriptors_def fetch_microdescriptors_def cacheGet_def md_batches.simps
      fetchFromAny_def cachePut_def)

theorem microdescriptors_match_their_hash_witness:
  "\<exists>out md. FetchMicrodescriptors toy_crypto toy_env (toy_client (md_text ([], example_md 1))) [''h''] () = (Inr out, ()) \<and>
     out (mdDigest md) = Some md \<and> mdNtorOnionKey md = replicate 32 1 \<and>
     mdDigest md = b64_raw (sha256_prim toy_crypto (bytes_of (mdRaw md)))"
proof -
  let ?d = "md_text ([], example_md 1)" and ?md = "md_stamp toy_crypto (md_text ([], example_md 1)) (example_md 1)"
  have p: "ParseMicrodescriptors toy_crypto ?d = [?md]"
    using ParseMicrodescriptors_texts [of "[([], example_md 1)]" toy_crypto] example_md_ok by simp
  note f = toy_fetch [OF p, of "''h''"]
  have "mdNtorOnionKey ?md = replicate 32 1" by (simp add: md_stamp_def example_md_def)
  moreover note microdescriptors_match_their_hash [OF disjI1 [OF f], of "mdDigest ?md" ?md]
  ultimately show ?thesis using f by (intro exI [of _ "[mdDigest ?md \<mapsto> ?md]"] exI [of _ ?md]) simp
qed

text \<open>Five authorities with such keys that sign a consensus get it accepted, four do not.\<close>

definition toy_key :: rsaKey where
  "toy_key = \<lparr>rsaN = 2 ^ (8 * 43 - 1), rsaE = 1\<rparr>"

definition toy_block :: "bytes \<Rightarrow> bytes" where
  "toy_block d = [0, 1] @ replicate 20 255 @ 0 # d"

lemma toy_recover: "length d = 20 \<Longrightarrow> rsaRecover toy_key (toy_block d) = Some d"
  unfolding toy_key_def toy_block_def by (rule rsaRecover_plain) simp_all

definition toy_signed :: "crypto \<Rightarrow> string list \<Rightarrow> consensus" where
  "toy_signed K ids = cons_zero\<lparr>ValidUntil := 10, signedBody := ''body'',
     signatures := map (\<lambda>i. \<lparr>sigAlg = ''sha1'', sigIdentityFP = i, sigSigningKeyFP = ''S'',
        sigBytes = toy_block (sha1_prim K (bytes_of ''body''))\<rparr>) ids\<rparr>"

definition toy_certs :: "string \<rightharpoonup> authCert" where
  "toy_certs k = Some \<lparr>acIdentityFP = k, acSigningKeyFP = ''S'', acIdentityKey = toy_key,
     acSigningKey = toy_key, acExpires = 10, acSignedBody = [], acCertSig = []\<rparr>"

lemma toy_signers:
  assumes "crypto_wf K"
  shows "signers K (toy_signed K ids) toy_certs = set ids"
proof -
  have "valid_sig K (signedBody (toy_signed K ids)) toy_certs s" if "s \<in> set (signatures (toy_signed K ids))" for s
    using that toy_recover [of "sha1_prim K (bytes_of ''body'')"] assms
    by (auto simp: toy_signed_def valid_sig_def toy_certs_def sig_digest_def)
  then have "{s \<in> set (signatures (toy_signed K ids)). valid_sig K (signedBody (toy_signed K ids)) toy_certs s} =
      set (signatures (toy_signed K ids))" by blast
  then have "signers K (toy_signed K ids) toy_certs = sigIdentityFP ` set (signatures (toy_signed K ids))"
    by (simp only: signers_def)
  then show ?thesis by (simp add: toy_signed_def image_image)
qed

lemma toy_quorum:
  "crypto_wf K \<Longrightarrow> VerifyConsensus K (toy_signed K [''A'', ''B'', ''C'', ''D'', ''E'', ''A'']) toy_certs 5 = None"
  "crypto_wf K \<Longrightarrow> VerifyConsensus K (toy_signed K [''A'', ''B'', ''C'', ''D'', ''A'']) toy_certs 5 \<noteq> None"
  unfolding VerifyConsensus_iff
  by (simp_all add: toy_signers card_insert_if) (simp_all add: toy_signed_def cons_zero_def time_zero_def)

end
