(* ===== verification/Circ_Pool.thy ===== *)
theory Circ_Pool
  imports Microdesc "HOL-Library.AList"
begin

text \<open>
  Model of \<^verbatim>\<open>pool.go\<close> and of the parts of \<^verbatim>\<open>client.go\<close> that change the circuit pool (\<^verbatim>\<open>dialClearnet\<close>,
  \<^verbatim>\<open>Close\<close>, \<^verbatim>\<open>NewIdentity\<close>, \<^verbatim>\<open>RotateGuard\<close>).  A \<^verbatim>\<open>*pooledCircuit\<close> is an address in the store \<open>heap\<close>, so that the
  pool, the tracked connections and a running dial can share it; the stream slots callers hold are
  the ghost list \<open>slots\<close>.  The clock and the answers of the circuit layer are arguments.
\<close>

abbreviation (input) maxClearnetCircuits :: nat where "maxClearnetCircuits \<equiv> 32"
abbreviation (input) maxOnionCircuitsPerHost :: nat where "maxOnionCircuitsPerHost \<equiv> 8"
abbreviation (input) maxOnionHosts :: nat where "maxOnionHosts \<equiv> 64"

section \<open>State\<close>

record pooledCircuit =
  pcCirc :: nat
  pcClosed :: bool
  pcBorn :: int
  pcOnion :: string
  pcExitMD :: microdescriptor
  pcStreams :: nat
  pcRetired :: bool

record pool =
  heap :: "nat \<Rightarrow> pooledCircuit"
  fresh :: nat
  clearnetPool :: "nat list"
  onionPool :: "(string \<times> nat list) list"
  built :: nat
  reused :: nat
  maxDirty :: int
  slots :: "nat list"

definition pool_init :: "int \<Rightarrow> pool" where
  "pool_init d = \<lparr>heap = (\<lambda>a. \<lparr>pcCirc = 0, pcClosed = False, pcBorn = 0, pcOnion = [], pcExitMD = md_zero, pcStreams = 0, pcRetired = False\<rparr>),
     fresh = 0, clearnetPool = [], onionPool = [], built = 0, reused = 0, maxDirty = d, slots = []\<rparr>"

definition onion_get :: "pool \<Rightarrow> string \<Rightarrow> nat list" where
  "onion_get p host = (case map_of (onionPool p) host of Some l \<Rightarrow> l | None \<Rightarrow> [])"

definition upd :: "nat \<Rightarrow> (pooledCircuit \<Rightarrow> pooledCircuit) \<Rightarrow> pool \<Rightarrow> pool" where
  "upd a f p = p\<lparr>heap := (heap p)(a := f (heap p a))\<rparr>"

section \<open>Operations\<close>

definition circuitReusable :: "int \<Rightarrow> int \<Rightarrow> int \<Rightarrow> bool \<Rightarrow> bool \<Rightarrow> bool \<Rightarrow> bool" where
  "circuitReusable born now dirty retired closed matches \<longleftrightarrow> \<not> closed \<and> \<not> retired \<and> now - born < dirty \<and> matches"

definition reusableClearnetLocked :: "pool \<Rightarrow> nat" where
  "reusableClearnetLocked p = length (filter (\<lambda>a. \<not> pcRetired (heap p a)) (clearnetPool p))"

definition reusableOnionLocked :: "pool \<Rightarrow> string \<Rightarrow> nat" where
  "reusableOnionLocked p host = length (filter (\<lambda>a. \<not> pcRetired (heap p a)) (onion_get p host))"

definition retireNewClearnetLocked :: "pool \<Rightarrow> bool" where
  "retireNewClearnetLocked p \<longleftrightarrow> maxClearnetCircuits \<le> reusableClearnetLocked p"

definition retireNewOnionLocked :: "pool \<Rightarrow> string \<Rightarrow> bool" where
  "retireNewOnionLocked p host \<longleftrightarrow>
     (let newHost = (map_of (onionPool p) host = None) in
      maxOnionCircuitsPerHost \<le> reusableOnionLocked p host \<or> (newHost \<and> maxOnionHosts \<le> length (onionPool p)))"

record stats =
  ClearnetCircuits :: nat
  OnionCircuits :: nat
  Built :: nat
  Reused :: nat

definition Stats :: "pool \<Rightarrow> stats" where
  "Stats p = \<lparr>ClearnetCircuits = length (clearnetPool p),
     OnionCircuits = sum_list (map (length \<circ> snd) (onionPool p)), Built = built p, Reused = reused p\<rparr>"

definition take_slot :: "nat \<Rightarrow> pool \<Rightarrow> pool" where
  "take_slot a p = (upd a (\<lambda>pc. pc\<lparr>pcStreams := pcStreams pc + 1\<rparr>) p)\<lparr>reused := reused p + 1, slots := a # slots p\<rparr>"

definition reusable_for :: "int \<Rightarrow> (pooledCircuit \<Rightarrow> bool) \<Rightarrow> pool \<Rightarrow> nat \<Rightarrow> bool" where
  "reusable_for now m p a =
     (let pc = heap p a in circuitReusable (pcBorn pc) now (maxDirty p) (pcRetired pc) (pcClosed pc) (m pc))"

definition acquireClearnet :: "int \<Rightarrow> int \<Rightarrow> pool \<Rightarrow> nat option \<times> pool" where
  "acquireClearnet now port p =
     (case List.find (reusable_for now (\<lambda>pc. Allows (mdExitPolicy (pcExitMD pc)) port) p) (clearnetPool p) of
        Some a \<Rightarrow> (Some a, take_slot a p)
      | None \<Rightarrow> (None, p))"

definition acquireOnion :: "int \<Rightarrow> string \<Rightarrow> pool \<Rightarrow> nat option \<times> pool" where
  "acquireOnion now host p =
     (case List.find (reusable_for now (\<lambda>pc. True) p) (onion_get p host) of
        Some a \<Rightarrow> (Some a, take_slot a p)
      | None \<Rightarrow> (None, p))"

definition removePooled :: "nat list \<Rightarrow> nat \<Rightarrow> nat list" where
  "removePooled s a = filter (\<lambda>x. x \<noteq> a) s"

definition removeLocked :: "nat \<Rightarrow> pool \<Rightarrow> pool" where
  "removeLocked a p =
     (let host = pcOnion (heap p a) in
      if host = [] then p\<lparr>clearnetPool := removePooled (clearnetPool p) a\<rparr>
      else let rest = removePooled (onion_get p host) a in
           if rest = [] then p\<lparr>onionPool := AList.delete host (onionPool p)\<rparr>
           else p\<lparr>onionPool := AList.update host rest (onionPool p)\<rparr>)"

definition destroyLocked :: "nat \<Rightarrow> pool \<Rightarrow> pool" where
  "destroyLocked a p = removeLocked a (upd a (\<lambda>pc. pc\<lparr>pcClosed := True\<rparr>) p)"

definition expiredLocked :: "int \<Rightarrow> nat \<Rightarrow> pool \<Rightarrow> bool" where
  "expiredLocked now a p \<longleftrightarrow> maxDirty p \<le> now - pcBorn (heap p a)"

definition releaseStream :: "int \<Rightarrow> nat \<Rightarrow> pool \<Rightarrow> pool" where
  "releaseStream now a p =
     (let p = (if 0 < pcStreams (heap p a) then upd a (\<lambda>pc. pc\<lparr>pcStreams := pcStreams pc - 1\<rparr>) p else p);
          p = p\<lparr>slots := remove1 a (slots p)\<rparr> in
      if pcStreams (heap p a) = 0 \<and> (pcRetired (heap p a) \<or> expiredLocked now a p) then destroyLocked a p else p)"

definition allPooledLocked :: "pool \<Rightarrow> nat list" where
  "allPooledLocked p = clearnetPool p @ concat (map snd (onionPool p))"

definition reap_one :: "int \<Rightarrow> nat \<Rightarrow> pool \<Rightarrow> pool" where
  "reap_one now a p =
     (let pc = heap p a; idle = (pcStreams pc = 0); dead = pcClosed pc in
      if dead \<or> (idle \<and> (pcRetired pc \<or> maxDirty p \<le> now - pcBorn pc)) then destroyLocked a p else p)"

definition reap :: "int \<Rightarrow> pool \<Rightarrow> pool" where
  "reap now p = fold (reap_one now) (allPooledLocked p) p"

definition new_circuit :: "pooledCircuit \<Rightarrow> pool \<Rightarrow> pool" where
  "new_circuit pc p = p\<lparr>heap := (heap p)(fresh p := pc), fresh := fresh p + 1, built := built p + 1, slots := fresh p # slots p\<rparr>"

text \<open>\<^verbatim>\<open>dialClearnet\<close> after \<^verbatim>\<open>acquireClearnet\<close> gave nothing and a circuit has been built.\<close>

definition poolNewClearnet :: "int \<Rightarrow> nat \<Rightarrow> microdescriptor \<Rightarrow> bool \<Rightarrow> pool \<Rightarrow> nat \<times> pool" where
  "poolNewClearnet now k exitMD closed p =
     (fresh p,
      (new_circuit \<lparr>pcCirc = k, pcClosed = closed, pcBorn = now, pcOnion = [], pcExitMD = exitMD, pcStreams = 1,
                    pcRetired = retireNewClearnetLocked p\<rparr> p)\<lparr>clearnetPool := clearnetPool p @ [fresh p]\<rparr>)"

text \<open>The same in \<^verbatim>\<open>dialOnionViaDescriptor\<close>.\<close>

definition poolNewOnion :: "int \<Rightarrow> nat \<Rightarrow> string \<Rightarrow> bool \<Rightarrow> pool \<Rightarrow> nat \<times> pool" where
  "poolNewOnion now k host closed p =
     (fresh p,
      (new_circuit \<lparr>pcCirc = k, pcClosed = closed, pcBorn = now, pcOnion = host, pcExitMD = md_zero, pcStreams = 1,
                    pcRetired = retireNewOnionLocked p host\<rparr> p)
        \<lparr>onionPool := AList.update host (onion_get p host @ [fresh p]) (onionPool p)\<rparr>)"

text \<open>A dial: reuse a circuit or pool the one that \<open>build\<close> gives (\<open>None\<close> when building fails), then open a
  stream; when \<^verbatim>\<open>Begin\<close> fails the slot is released.\<close>

definition dialClearnet :: "int \<Rightarrow> int \<Rightarrow> (nat \<times> microdescriptor \<times> bool) option \<Rightarrow> bool \<Rightarrow> int \<Rightarrow> pool \<Rightarrow> nat option \<times> pool" where
  "dialClearnet now port build begun later p =
     (case (case acquireClearnet now port p of
              (Some a, p) \<Rightarrow> Some (a, p)
            | (None, p) \<Rightarrow> (case build of None \<Rightarrow> None | Some (k, md, closed) \<Rightarrow> Some (poolNewClearnet now k md closed p))) of
        None \<Rightarrow> (None, p)
      | Some (a, p) \<Rightarrow> if begun then (Some a, p) else (None, releaseStream later a p))"

definition dialOnionViaDescriptor :: "int \<Rightarrow> string \<Rightarrow> (nat \<times> bool) option \<Rightarrow> bool \<Rightarrow> int \<Rightarrow> pool \<Rightarrow> nat option \<times> pool" where
  "dialOnionViaDescriptor now host build begun later p =
     (case build of
        None \<Rightarrow> (None, p)
      | Some (k, closed) \<Rightarrow>
        (case poolNewOnion now k host closed p of (a, p) \<Rightarrow>
           if begun then (Some a, p) else (None, releaseStream later a p)))"

definition identity_one :: "nat \<Rightarrow> pool \<Rightarrow> pool" where
  "identity_one a p =
     (let p = upd a (\<lambda>pc. pc\<lparr>pcRetired := True\<rparr>) p in
      if pcStreams (heap p a) = 0 then destroyLocked a p else p)"

definition NewIdentity :: "pool \<Rightarrow> pool" where
  "NewIdentity p = fold identity_one (allPooledLocked p) p"

text \<open>\<^verbatim>\<open>Close\<close> and \<^verbatim>\<open>RotateGuard\<close> on the pool.\<close>

definition destroyAll :: "pool \<Rightarrow> pool" where
  "destroyAll p = fold destroyLocked (allPooledLocked p) p"

text \<open>A tracked connection: the circuit and whether \<^verbatim>\<open>Close\<close> has run.\<close>

record trackedConn =
  tcCircuit :: nat
  tcClosed :: bool

definition trackedConn_Close :: "int \<Rightarrow> trackedConn \<Rightarrow> pool \<Rightarrow> trackedConn \<times> pool" where
  "trackedConn_Close now t p = (if tcClosed t then (t, p) else (t\<lparr>tcClosed := True\<rparr>, releaseStream now (tcCircuit t) p))"

section \<open>The buckets of the pool\<close>

text \<open>The clearnet slice is the bucket of the empty host.\<close>

definition bucket :: "pool \<Rightarrow> string \<Rightarrow> nat list" where
  "bucket p h = (if h = [] then clearnetPool p else onion_get p h)"

definition cap :: "string \<Rightarrow> nat" where
  "cap h = (if h = [] then 32 else 8)"

definition keys_ok :: "pool \<Rightarrow> bool" where
  "keys_ok p \<longleftrightarrow> distinct (map fst (onionPool p)) \<and> (\<forall>(h, l) \<in> set (onionPool p). h \<noteq> [] \<and> l \<noteq> [])"

abbreviation unretired :: "pool \<Rightarrow> nat list \<Rightarrow> nat list" where
  "unretired p l \<equiv> filter (\<lambda>a. \<not> pcRetired (heap p a)) l"

definition buckets_ok :: "pool \<Rightarrow> bool" where
  "buckets_ok p \<longleftrightarrow> keys_ok p \<and>
     (\<forall>h. distinct (bucket p h) \<and> (\<forall>a \<in> set (bucket p h). a < fresh p \<and> pcOnion (heap p a) = h))"

definition caps_ok :: "pool \<Rightarrow> bool" where
  "caps_ok p \<longleftrightarrow> (\<forall>h. length (unretired p (bucket p h)) \<le> cap h)"

text \<open>The stream count of a circuit is the number of slots held on it, and a circuit that is in no
  bucket is closed.\<close>

definition slots_ok :: "pool \<Rightarrow> bool" where
  "slots_ok p \<longleftrightarrow> set (slots p) \<subseteq> {..<fresh p} \<and>
     (\<forall>a < fresh p. pcStreams (heap p a) = count_list (slots p) a \<and>
          (pcClosed (heap p a) \<or> a \<in> set (bucket p (pcOnion (heap p a)))))"

definition pool_wf :: "pool \<Rightarrow> bool" where
  "pool_wf p \<longleftrightarrow> buckets_ok p \<and> caps_ok p \<and> slots_ok p"

lemma upd_simps [simp]:
  "heap (upd a f p) b = (if b = a then f (heap p a) else heap p b)"
  "fresh (upd a f p) = fresh p" "clearnetPool (upd a f p) = clearnetPool p" "onionPool (upd a f p) = onionPool p"
  "slots (upd a f p) = slots p" "maxDirty (upd a f p) = maxDirty p" "built (upd a f p) = built p" "reused (upd a f p) = reused p"
  by (simp_all add: upd_def)

lemma bucket_cong: "clearnetPool p = clearnetPool q \<Longrightarrow> onionPool p = onionPool q \<Longrightarrow> bucket p = bucket q"
  by (intro ext) (simp add: bucket_def onion_get_def)

lemma bucket_upd [simp]: "bucket (upd a f p) = bucket p" "keys_ok (upd a f p) = keys_ok p"
  by (auto simp: keys_ok_def intro: bucket_cong)

lemma all_buckets: "keys_ok p \<Longrightarrow> set (allPooledLocked p) = (\<Union>h. set (bucket p h))"
proof -
  assume k: "keys_ok p"
  have "(\<Union>x \<in> set (onionPool p). set (snd x)) = (\<Union>h \<in> {h. h \<noteq> []}. set (onion_get p h))"
  proof (intro equalityI subsetI)
    fix a assume "a \<in> (\<Union>x \<in> set (onionPool p). set (snd x))"
    then obtain h l where h: "(h, l) \<in> set (onionPool p)" "a \<in> set l" by auto
    then have "map_of (onionPool p) h = Some l" "h \<noteq> []" using k by (auto simp: keys_ok_def)
    with h(2) show "a \<in> (\<Union>h \<in> {h. h \<noteq> []}. set (onion_get p h))" by (auto simp: onion_get_def intro!: exI [of _ h])
  next
    fix a assume "a \<in> (\<Union>h \<in> {h. h \<noteq> []}. set (onion_get p h))"
    then obtain h l where "map_of (onionPool p) h = Some l" "a \<in> set l"
      unfolding onion_get_def by (auto split: option.splits) (metis)
    then show "a \<in> (\<Union>x \<in> set (onionPool p). set (snd x))" by (force dest: map_of_SomeD)
  qed
  then show ?thesis by (auto simp: allPooledLocked_def bucket_def split: if_splits)
qed

lemma removeLocked_simps [simp]:
  "heap (removeLocked a p) = heap p" "fresh (removeLocked a p) = fresh p" "slots (removeLocked a p) = slots p"
  "maxDirty (removeLocked a p) = maxDirty p"
  by (simp_all add: removeLocked_def Let_def)

lemma bucket_remove:
  "bucket (removeLocked a p) h = (if h = pcOnion (heap p a) then filter (\<lambda>x. x \<noteq> a) (bucket p h) else bucket p h)"
  by (auto simp: removeLocked_def Let_def bucket_def onion_get_def removePooled_def AList.update_conv' AList.delete_conv'
      split: option.splits)

lemma keys_ok_remove: "keys_ok p \<Longrightarrow> keys_ok (removeLocked a p)"
proof -
  assume k: "keys_ok p"
  let ?h = "pcOnion (heap p a)" and ?al = "onionPool p" and ?rest = "removePooled (onion_get p (pcOnion (heap p a))) a"
  have upd: "(h, l) \<in> set (AList.update ?h r al) \<Longrightarrow> (h, l) = (?h, r) \<or> (h, l) \<in> set al" for h l r al
    by (induction al) (auto split: if_splits)
  consider "?h = []" | "?h \<noteq> []" "?rest = []" | "?h \<noteq> []" "?rest \<noteq> []" by blast
  then show ?thesis
  proof cases
    case 1
    with k show ?thesis by (simp add: keys_ok_def removeLocked_def)
  next
    case 2
    have "set (AList.delete ?h ?al) \<subseteq> set ?al" by (auto simp: AList.delete_eq)
    with 2 k show ?thesis by (auto simp: keys_ok_def removeLocked_def Let_def distinct_delete)
  next
    case 3
    have "h \<noteq> [] \<and> l \<noteq> []" if "(h, l) \<in> set (AList.update ?h ?rest ?al)" for h l
      using upd [OF that] k 3 by (auto simp: keys_ok_def)
    with 3 k show ?thesis by (auto simp: keys_ok_def removeLocked_def Let_def AList.distinct_update)
  qed
qed

section \<open>Every operation keeps the pool consistent\<close>

text \<open>Changing a circuit without touching its host or its stream count, reopening it or making it
  reusable again keeps the pool consistent.\<close>

lemma pool_wf_upd:
  assumes "pool_wf p" "pcOnion (f (heap p a)) = pcOnion (heap p a)" "pcStreams (f (heap p a)) = pcStreams (heap p a)"
    "pcClosed (heap p a) \<Longrightarrow> pcClosed (f (heap p a))" "pcRetired (heap p a) \<Longrightarrow> pcRetired (f (heap p a))"
  shows "pool_wf (upd a f p)"
proof -
  have "length (unretired (upd a f p) l) \<le> length (unretired p l)" for l
    using assms(5) by (induction l) auto
  then have "caps_ok (upd a f p)" using assms(1) by (simp only: pool_wf_def caps_ok_def bucket_upd) (meson le_trans)
  moreover have "buckets_ok (upd a f p)" using assms(1,2) by (auto simp: pool_wf_def buckets_ok_def)
  moreover have "slots_ok (upd a f p)" using assms(1-4) by (auto simp: pool_wf_def slots_ok_def)
  ultimately show ?thesis by (simp add: pool_wf_def)
qed

lemma pool_wf_remove:
  assumes "pool_wf p" "pcClosed (heap p a)"
  shows "pool_wf (removeLocked a p)"
proof -
  have "length (unretired p (filter (\<lambda>x. x \<noteq> a) l)) \<le> length (unretired p l)" for l by (induction l) auto
  then have "length (unretired p (bucket (removeLocked a p) h)) \<le> length (unretired p (bucket p h))" for h
    by (simp only: bucket_remove split: if_split) simp
  then have "caps_ok (removeLocked a p)" using assms(1) by (simp only: pool_wf_def caps_ok_def removeLocked_simps) (meson le_trans)
  moreover have "buckets_ok (removeLocked a p)"
    using assms(1) keys_ok_remove by (auto simp: pool_wf_def buckets_ok_def bucket_remove)
  moreover have "slots_ok (removeLocked a p)" using assms by (auto simp: pool_wf_def slots_ok_def bucket_remove)
  ultimately show ?thesis by (simp add: pool_wf_def)
qed

lemma pool_wf_destroy: "pool_wf p \<Longrightarrow> pool_wf (destroyLocked a p)"
  unfolding destroyLocked_def by (intro pool_wf_remove pool_wf_upd) auto

lemma pool_wf_fold: "(\<And>a p. pool_wf p \<Longrightarrow> pool_wf (f a p)) \<Longrightarrow> pool_wf p \<Longrightarrow> pool_wf (fold f l p)"
  by (induction l arbitrary: p) auto

lemma pool_wf_reap: "pool_wf p \<Longrightarrow> pool_wf (reap now p)"
  unfolding reap_def by (rule pool_wf_fold) (auto simp: reap_one_def Let_def pool_wf_destroy)

lemma pool_wf_identity: "pool_wf p \<Longrightarrow> pool_wf (NewIdentity p)"
  unfolding NewIdentity_def
  by (rule pool_wf_fold) (auto simp: identity_one_def Let_def intro!: pool_wf_destroy pool_wf_upd)

lemma pool_wf_destroyAll: "pool_wf p \<Longrightarrow> pool_wf (destroyAll p)"
  unfolding destroyAll_def by (rule pool_wf_fold) (rule pool_wf_destroy)

lemma count_remove1: "count_list (remove1 a l) b = (if a = b then count_list l b - 1 else count_list l b)"
  by (induction l) auto

lemma count_list_pos: "a \<in> set l \<longleftrightarrow> 0 < count_list l a"
  by (induction l) auto

lemma pool_wf_release:
  assumes "pool_wf p" "a \<in> set (slots p)"
  shows "pool_wf (releaseStream now a p)"
proof -
  let ?q = "(upd a (\<lambda>pc. pc\<lparr>pcStreams := pcStreams pc - 1\<rparr>) p)\<lparr>slots := remove1 a (slots p)\<rparr>"
  have "a < fresh p" using assms by (auto simp: pool_wf_def slots_ok_def)
  then have pos: "0 < pcStreams (heap p a)" "pcStreams (heap p a) = count_list (slots p) a"
    using assms by (auto simp: pool_wf_def slots_ok_def count_list_pos)
  have b: "bucket ?q = bucket p" "keys_ok ?q = keys_ok p" by (auto simp: keys_ok_def intro: bucket_cong)
  have u: "unretired ?q l = unretired p l" for l by (auto intro: filter_cong)
  have "caps_ok ?q" using assms(1) unfolding pool_wf_def caps_ok_def b u by blast
  moreover have "buckets_ok ?q" using assms(1) unfolding pool_wf_def buckets_ok_def b by auto
  moreover have "slots_ok ?q"
    using assms(1) pos(2) set_remove1_subset [of a "slots p"] unfolding pool_wf_def slots_ok_def b
    by (auto simp: count_remove1)
  ultimately have "pool_wf ?q" by (simp add: pool_wf_def)
  then show ?thesis using pos(1) pool_wf_destroy by (simp add: releaseStream_def Let_def)
qed

lemma pool_wf_take_slot:
  assumes "pool_wf p" "a < fresh p"
  shows "pool_wf (take_slot a p)"
proof -
  let ?q = "take_slot a p"
  have b: "bucket ?q = bucket p" "keys_ok ?q = keys_ok p" by (auto simp: take_slot_def keys_ok_def intro: bucket_cong)
  have u: "unretired ?q l = unretired p l" for l by (auto simp: take_slot_def intro: filter_cong)
  have "caps_ok ?q" using assms(1) unfolding pool_wf_def caps_ok_def b u by blast
  moreover have "buckets_ok ?q" using assms(1) unfolding pool_wf_def buckets_ok_def b by (auto simp: take_slot_def)
  moreover have "slots_ok ?q" using assms unfolding pool_wf_def slots_ok_def b by (auto simp: take_slot_def)
  ultimately show ?thesis by (simp add: pool_wf_def)
qed

text \<open>A new circuit joins the bucket of its host, retired when the bucket is full.\<close>

definition pooled_new :: "pooledCircuit \<Rightarrow> pool \<Rightarrow> pool \<Rightarrow> bool" where
  "pooled_new pc p q \<longleftrightarrow> heap q = (heap p)(fresh p := pc) \<and> fresh q = fresh p + 1 \<and> slots q = fresh p # slots p \<and>
     (\<forall>h. bucket q h = (if h = pcOnion pc then bucket p h @ [fresh p] else bucket p h)) \<and> (keys_ok p \<longrightarrow> keys_ok q)"

lemma new_unretired:
  assumes "pool_wf p" "pooled_new pc p q"
  shows "length (unretired q (bucket q h)) = length (unretired p (bucket p h)) + (if h = pcOnion pc \<and> \<not> pcRetired pc then 1 else 0)"
proof -
  have old: "a \<noteq> fresh p" if "a \<in> set (bucket p h)" for a h
    using that assms(1) by (auto simp: pool_wf_def buckets_ok_def)
  have u: "unretired q (bucket p h) = unretired p (bucket p h)" for h
    using assms(2) old by (auto simp: pooled_new_def intro!: filter_cong)
  have "bucket q h = (if h = pcOnion pc then bucket p h @ [fresh p] else bucket p h)"
    "pcRetired (heap q (fresh p)) = pcRetired pc" using assms(2) by (simp_all add: pooled_new_def)
  then show ?thesis using u by simp
qed

lemma pool_wf_new:
  assumes "pool_wf p" "pooled_new pc p q" "pcStreams pc = 1"
    "pcRetired pc \<or> length (unretired p (bucket p (pcOnion pc))) < cap (pcOnion pc)"
  shows "pool_wf q"
proof -
  note q = assms(2) [unfolded pooled_new_def]
  have old: "a \<noteq> fresh p" if "a \<in> set (bucket p h)" for a h
    using that assms(1) by (auto simp: pool_wf_def buckets_ok_def)
  have "caps_ok q"
  proof (unfold caps_ok_def, rule allI)
    fix h
    have "length (unretired p (bucket p h)) \<le> cap h" using assms(1) by (simp add: pool_wf_def caps_ok_def)
    then show "length (unretired q (bucket q h)) \<le> cap h" using assms(4) new_unretired [OF assms(1,2), of h] by auto
  qed
  moreover have "buckets_ok q"
    using assms(1) q old unfolding pool_wf_def buckets_ok_def by (auto simp: less_Suc_eq)
  moreover have "slots_ok q"
  proof -
    have "count_list (slots p) (fresh p) = 0"
      using assms(1) by (auto simp: pool_wf_def slots_ok_def count_list_0_iff)
    then show ?thesis using assms(1,3) q by (auto simp: pool_wf_def slots_ok_def less_Suc_eq)
  qed
  ultimately show ?thesis by (simp add: pool_wf_def)
qed

lemma poolNewClearnet_new:
  "poolNewClearnet now k md cl p = (a, q) \<Longrightarrow> a = fresh p \<and>
   pooled_new \<lparr>pcCirc = k, pcClosed = cl, pcBorn = now, pcOnion = [], pcExitMD = md, pcStreams = 1, pcRetired = retireNewClearnetLocked p\<rparr> p q"
  by (auto simp: poolNewClearnet_def pooled_new_def new_circuit_def bucket_def onion_get_def keys_ok_def)

lemma poolNewOnion_new:
  assumes "poolNewOnion now k host cl p = (a, q)" "host \<noteq> []"
  shows "a = fresh p \<and>
   pooled_new \<lparr>pcCirc = k, pcClosed = cl, pcBorn = now, pcOnion = host, pcExitMD = md_zero, pcStreams = 1, pcRetired = retireNewOnionLocked p host\<rparr> p q"
proof -
  have "(h, l) \<in> set (AList.update host r al) \<Longrightarrow> (h, l) = (host, r) \<or> (h, l) \<in> set al" for h l r al
    by (induction al) (auto split: if_splits)
  then have "keys_ok p \<Longrightarrow> keys_ok q"
    using assms by (fastforce simp: poolNewOnion_def new_circuit_def keys_ok_def AList.distinct_update)
  then show ?thesis
    using assms by (auto simp: poolNewOnion_def pooled_new_def new_circuit_def bucket_def onion_get_def AList.update_conv')
qed

lemma pool_wf_newClearnet: "pool_wf p \<Longrightarrow> poolNewClearnet now k md cl p = (a, q) \<Longrightarrow> pool_wf q"
  by (drule poolNewClearnet_new, erule pool_wf_new)
     (auto simp: retireNewClearnetLocked_def reusableClearnetLocked_def bucket_def cap_def)

lemma pool_wf_newOnion: "pool_wf p \<Longrightarrow> host \<noteq> [] \<Longrightarrow> poolNewOnion now k host cl p = (a, q) \<Longrightarrow> pool_wf q"
  by (frule (1) poolNewOnion_new, erule pool_wf_new)
     (auto simp: retireNewOnionLocked_def reusableOnionLocked_def bucket_def cap_def)

section \<open>Acquiring\<close>

lemma acquire_find:
  assumes "acquireClearnet now port p = (Some a, q) \<and> h = [] \<and> m = (\<lambda>pc. Allows (mdExitPolicy (pcExitMD pc)) port) \<or>
     acquireOnion now h p = (Some a, q) \<and> h \<noteq> [] \<and> m = (\<lambda>pc. True)"
  shows "a \<in> set (bucket p h) \<and> reusable_for now m p a \<and> q = take_slot a p"
  using assms by (auto simp: acquireClearnet_def acquireOnion_def bucket_def find_Some_iff split: option.splits)

lemma pool_wf_acquire:
  assumes "pool_wf p" "acquireClearnet now port p = (Some a, q) \<or> acquireOnion now h p = (Some a, q) \<and> h \<noteq> []"
  shows "pool_wf q"
proof -
  obtain h' where "a \<in> set (bucket p h')" "q = take_slot a p" using acquire_find assms(2) by metis
  moreover from this have "a < fresh p" using assms(1) by (auto simp: pool_wf_def buckets_ok_def)
  ultimately show ?thesis using pool_wf_take_slot assms(1) by simp
qed

section \<open>Runs of the pool\<close>

text \<open>What can happen to the pool, in any order: dials that reuse or build a circuit, released slots, the
  janitor, a new identity, teardown of everything, and a circuit that dies on its own.\<close>

inductive pstep :: "pool \<Rightarrow> pool \<Rightarrow> bool" where
  reuse_clearnet: "acquireClearnet now port p = (Some a, q) \<Longrightarrow> pstep p q"
| reuse_onion: "acquireOnion now host p = (Some a, q) \<Longrightarrow> host \<noteq> [] \<Longrightarrow> pstep p q"
| new_clearnet: "poolNewClearnet now k md cl p = (a, q) \<Longrightarrow> pstep p q"
| new_onion: "poolNewOnion now k host cl p = (a, q) \<Longrightarrow> host \<noteq> [] \<Longrightarrow> pstep p q"
| release: "a \<in> set (slots p) \<Longrightarrow> pstep p (releaseStream now a p)"
| janitor: "pstep p (reap now p)"
| newnym: "pstep p (NewIdentity p)"
| teardown: "pstep p (destroyAll p)"
| dies: "pstep p (upd a (\<lambda>pc. pc\<lparr>pcClosed := True\<rparr>) p)"

lemma pool_wf_step: "pstep p q \<Longrightarrow> pool_wf p \<Longrightarrow> pool_wf q"
proof (induction rule: pstep.induct)
  case (dies p a)
  then show ?case by (intro pool_wf_upd) auto
qed (auto intro: pool_wf_acquire pool_wf_newClearnet pool_wf_newOnion pool_wf_release pool_wf_reap pool_wf_identity pool_wf_destroyAll)

lemma pool_wf_init: "pool_wf (pool_init d)"
  by (simp add: pool_wf_def buckets_ok_def caps_ok_def slots_ok_def keys_ok_def pool_init_def bucket_def onion_get_def cap_def)

lemma pool_wf_run: "pstep\<^sup>*\<^sup>* (pool_init d) p \<Longrightarrow> pool_wf p"
  by (induction rule: rtranclp_induct) (auto intro: pool_wf_init pool_wf_step)

text \<open>A whole dial, whether it reuses, builds, fails to build or fails to open its stream.\<close>

lemma fresh_slot: "pooled_new pc p q \<Longrightarrow> fresh p \<in> set (slots q)"
  by (simp add: pooled_new_def)

lemma pool_wf_dialClearnet:
  assumes "pool_wf p" "dialClearnet now port build begun later p = (r, q)"
  shows "pool_wf q"
proof (cases "acquireClearnet now port p")
  case (Pair o1 p1)
  show ?thesis
  proof (cases o1)
    case (Some a)
    then have acq: "acquireClearnet now port p = (Some a, p1)" using Pair by simp
    have "pool_wf p1" using pool_wf_acquire [OF assms(1) disjI1 [OF acq]] .
    moreover have "p1 = take_slot a p" using acquire_find [OF disjI1, of now port p a p1 "[]"] acq by simp
    then have "a \<in> set (slots p1)" by (simp add: take_slot_def)
    ultimately show ?thesis using assms(2) Pair Some pool_wf_release by (auto simp: dialClearnet_def split: if_splits)
  next
    case None
    then have p1: "p1 = p" using Pair by (auto simp: acquireClearnet_def split: option.splits)
    show ?thesis
    proof (cases build)
      case (Some b)
      obtain k md cl where b: "b = (k, md, cl)" by (cases b)
      obtain a p2 where n: "poolNewClearnet now k md cl p = (a, p2)" by (cases "poolNewClearnet now k md cl p")
      have "pool_wf p2" "a \<in> set (slots p2)"
        using pool_wf_newClearnet [OF assms(1) n] poolNewClearnet_new [OF n] fresh_slot by auto
      then show ?thesis using assms(2) Pair None p1 Some b n pool_wf_release by (auto simp: dialClearnet_def split: if_splits)
    qed (use assms Pair None p1 in \<open>auto simp: dialClearnet_def\<close>)
  qed
qed

lemma pool_wf_dialOnion:
  assumes "pool_wf p" "host \<noteq> []" "dialOnionViaDescriptor now host build begun later p = (r, q)"
  shows "pool_wf q"
proof (cases build)
  case (Some b)
  obtain k cl where b: "b = (k, cl)" by (cases b)
  obtain a p2 where n: "poolNewOnion now k host cl p = (a, p2)" by (cases "poolNewOnion now k host cl p")
  have "pool_wf p2" "a \<in> set (slots p2)"
    using pool_wf_newOnion [OF assms(1,2) n] poolNewOnion_new [OF n assms(2)] fresh_slot by auto
  then show ?thesis using assms(3) Some b n pool_wf_release by (auto simp: dialOnionViaDescriptor_def split: if_splits)
qed (use assms in \<open>simp add: dialOnionViaDescriptor_def\<close>)

section \<open>Open streams survive, a new identity unlinks\<close>

text \<open>\<open>q\<close> arises from \<open>p\<close> by retiring and destroying circuits, but none that still carries a stream and works.\<close>

definition gentle :: "pool \<Rightarrow> pool \<Rightarrow> bool" where
  "gentle p q \<longleftrightarrow> fresh q = fresh p \<and> slots q = slots p \<and> maxDirty q = maxDirty p \<and>
     (\<forall>h. set (bucket q h) \<subseteq> set (bucket p h)) \<and>
     (\<forall>b. pcStreams (heap q b) = pcStreams (heap p b) \<and> pcOnion (heap q b) = pcOnion (heap p b) \<and>
          (pcRetired (heap p b) \<longrightarrow> pcRetired (heap q b)) \<and>
          (0 < pcStreams (heap p b) \<and> \<not> pcClosed (heap p b) \<longrightarrow> \<not> pcClosed (heap q b)))"

lemma gentle_refl [simp]: "gentle p p"
  by (simp add: gentle_def)

lemma gentle_trans: "gentle p q \<Longrightarrow> gentle q r \<Longrightarrow> gentle p r"
  unfolding gentle_def by (intro conjI allI) (simp_all, blast+)

lemma gentle_fold: "(\<And>a p. gentle p (f a p)) \<Longrightarrow> gentle p (fold f l p)"
  by (induction l arbitrary: p) (auto intro: gentle_trans)

lemma gentle_destroy:
  assumes "pcStreams (heap p a) = 0 \<or> pcClosed (heap p a)"
  shows "gentle p (destroyLocked a p)"
  using assms by (auto simp: gentle_def destroyLocked_def bucket_remove split: if_splits)

lemma gentle_retire: "gentle p (upd a (\<lambda>pc. pc\<lparr>pcRetired := True\<rparr>) p)"
  by (auto simp: gentle_def)

lemma gentle_identity_one: "gentle p (identity_one a p)"
  unfolding identity_one_def Let_def using gentle_retire gentle_destroy gentle_trans by (smt (verit))

lemma gentle_reap_one: "gentle p (reap_one now a p)"
  by (auto simp: reap_one_def Let_def intro: gentle_destroy)

lemma gentle_NewIdentity: "gentle p (NewIdentity p)"
  unfolding NewIdentity_def by (rule gentle_fold) (rule gentle_identity_one)

lemma gentle_reap: "gentle p (reap now p)"
  unfolding reap_def by (rule gentle_fold) (rule gentle_reap_one)

lemma identity_retires: "a \<in> set l \<Longrightarrow> pcRetired (heap (fold identity_one l p) a)"
proof (induction l arbitrary: p)
  case (Cons x l)
  have x: "pcRetired (heap (identity_one x p) x)" by (simp add: identity_one_def Let_def destroyLocked_def)
  have mono: "gentle (identity_one x p) (fold identity_one l (identity_one x p))"
    by (rule gentle_fold) (rule gentle_identity_one)
  show ?case
  proof (cases "a = x")
    case True
    then show ?thesis using x mono by (simp add: gentle_def)
  next
    case False
    then show ?thesis using Cons by simp
  qed
qed simp

lemma NewIdentity_bucket_retired:
  assumes "keys_ok p" "a \<in> set (bucket (NewIdentity p) h)"
  shows "pcRetired (heap (NewIdentity p) a)"
proof -
  have "a \<in> set (bucket p h)" using gentle_NewIdentity [of p] assms(2) by (auto simp: gentle_def)
  then have "a \<in> set (allPooledLocked p)" using all_buckets [OF assms(1)] by auto
  then show ?thesis unfolding NewIdentity_def by (rule identity_retires)
qed

lemma acquire_None:
  "fst (acquireClearnet now port p) = None \<longleftrightarrow>
     (\<forall>a \<in> set (bucket p []). \<not> reusable_for now (\<lambda>pc. Allows (mdExitPolicy (pcExitMD pc)) port) p a)"
  "host \<noteq> [] \<Longrightarrow> fst (acquireOnion now host p) = None \<longleftrightarrow> (\<forall>a \<in> set (bucket p host). \<not> reusable_for now (\<lambda>pc. True) p a)"
  by (auto simp: acquireClearnet_def acquireOnion_def bucket_def find_None_iff find_Some_iff split: option.splits)

lemma releaseStream_others:
  assumes "b \<noteq> a"
  shows "heap (releaseStream now a p) b = heap p b"
  using assms by (simp add: releaseStream_def Let_def destroyLocked_def)

lemma held_streams:
  assumes "pool_wf p" "a \<in> set (slots p)"
  shows "pcStreams (heap p a) = count_list (slots p) a \<and> 0 < pcStreams (heap p a)"
proof -
  have "a < fresh p" using assms by (auto simp: pool_wf_def slots_ok_def)
  then have "pcStreams (heap p a) = count_list (slots p) a" using assms(1) by (simp add: pool_wf_def slots_ok_def)
  then show ?thesis using assms(2) by (simp add: count_list_pos)
qed

lemma releaseStream_same:
  assumes "pool_wf p" "a \<in> set (remove1 a (slots p))"
  shows "pcClosed (heap (releaseStream now a p) a) = pcClosed (heap p a)"
proof -
  have "a \<in> set (slots p)" using assms(2) set_remove1_subset [of a "slots p"] by blast
  then have "pcStreams (heap p a) = count_list (slots p) a" using held_streams [OF assms(1)] by simp
  moreover have "0 < count_list (slots p) a - 1" using assms(2) by (simp add: count_list_pos count_remove1)
  ultimately show ?thesis by (simp add: releaseStream_def Let_def)
qed

section \<open>Properties\<close>

text \<open>C27: Through any sequence of dials, closed connections, janitor runs, new identities, teardowns and
  dying circuits: the stream count of every pooled circuit is the number of stream slots held on it;
  no circuit is pooled twice or under another host than its own; at most 32 clearnet circuits and 8
  per onion host are open to reuse; and a circuit that has left the pool has been closed.\<close>

theorem pool_consistent:
  assumes "pstep\<^sup>*\<^sup>* (pool_init d) p"
  shows "(\<forall>a < fresh p. pcStreams (heap p a) = count_list (slots p) a) \<and> set (slots p) \<subseteq> {..<fresh p} \<and>
    distinct (clearnetPool p) \<and> (\<forall>h. h \<noteq> [] \<longrightarrow> distinct (onion_get p h)) \<and>
    (\<forall>a \<in> set (clearnetPool p). pcOnion (heap p a) = []) \<and> (\<forall>h. h \<noteq> [] \<longrightarrow> (\<forall>a \<in> set (onion_get p h). pcOnion (heap p a) = h)) \<and>
    reusableClearnetLocked p \<le> 32 \<and> (\<forall>h. h \<noteq> [] \<longrightarrow> reusableOnionLocked p h \<le> 8) \<and>
    (\<forall>a < fresh p. a \<notin> set (allPooledLocked p) \<longrightarrow> pcClosed (heap p a))"
proof -
  have w: "buckets_ok p" "caps_ok p" "slots_ok p" using pool_wf_run [OF assms] by (simp_all add: pool_wf_def)
  have k: "keys_ok p" using w(1) by (simp add: buckets_ok_def)
  have c: "bucket p [] = clearnetPool p" "\<And>h. h \<noteq> [] \<Longrightarrow> bucket p h = onion_get p h" by (simp_all add: bucket_def)
  have b: "distinct (bucket p h)" "\<forall>a \<in> set (bucket p h). pcOnion (heap p a) = h" "length (unretired p (bucket p h)) \<le> cap h" for h
    using w(1,2) by (simp_all add: buckets_ok_def caps_ok_def)
  have "reusableClearnetLocked p \<le> 32" using b(3) [of "[]"] by (simp add: reusableClearnetLocked_def c cap_def)
  moreover have "reusableOnionLocked p h \<le> 8" if "h \<noteq> []" for h
    using b(3) [of h] c(2) [OF that] that by (simp add: reusableOnionLocked_def cap_def)
  moreover have "\<forall>a < fresh p. a \<notin> set (allPooledLocked p) \<longrightarrow> pcClosed (heap p a)"
    using w(3) all_buckets [OF k] unfolding slots_ok_def by blast
  moreover have "distinct (clearnetPool p)" "\<forall>a \<in> set (clearnetPool p). pcOnion (heap p a) = []"
    using b(1,2) [of "[]"] by (simp_all add: c)
  moreover have "distinct (onion_get p h)" "\<forall>a \<in> set (onion_get p h). pcOnion (heap p a) = h" if "h \<noteq> []" for h
    using b(1) [of h] b(2) [of h] c(2) [OF that] by simp_all
  ultimately show ?thesis using w(3) by (simp add: slots_ok_def)
qed


text \<open>A circuit is handed out for a new stream only if it is open, not retired, younger than the
  dirtiness limit and fits (its exit allows the port, or it leads to the same onion host); nothing is
  handed out only if no such circuit is pooled; and closing a connection twice releases one slot.\<close>

theorem acquired_circuit_fits:
  assumes "pstep\<^sup>*\<^sup>* (pool_init d) p" "host \<noteq> []"
  shows "(\<forall>a q. acquireClearnet now port p = (Some a, q) \<longrightarrow> \<not> pcClosed (heap p a) \<and> \<not> pcRetired (heap p a) \<and>
        now - pcBorn (heap p a) < maxDirty p \<and> pcOnion (heap p a) = [] \<and>
        Allows (mdExitPolicy (pcExitMD (heap p a))) port \<and> slots q = a # slots p) \<and>
    (\<forall>a q. acquireOnion now host p = (Some a, q) \<longrightarrow> \<not> pcClosed (heap p a) \<and> \<not> pcRetired (heap p a) \<and>
        now - pcBorn (heap p a) < maxDirty p \<and> pcOnion (heap p a) = host \<and> slots q = a # slots p) \<and>
    (fst (acquireClearnet now port p) = None \<longrightarrow> (\<forall>a \<in> set (clearnetPool p). \<not> (\<not> pcClosed (heap p a) \<and> \<not> pcRetired (heap p a) \<and>
        now - pcBorn (heap p a) < maxDirty p \<and> Allows (mdExitPolicy (pcExitMD (heap p a))) port))) \<and>
    (case trackedConn_Close now t p of (t', p') \<Rightarrow> trackedConn_Close later t' p' = (t', p'))"
proof -
  have w: "buckets_ok p" using pool_wf_run [OF assms(1)] by (simp add: pool_wf_def)
  have o: "pcOnion (heap p a) = h" if "a \<in> set (bucket p h)" for a h using w that by (simp add: buckets_ok_def)
  have s: "slots (take_slot a p) = a # slots p" for a by (simp add: take_slot_def)
  have c: "\<not> pcClosed (heap p a) \<and> \<not> pcRetired (heap p a) \<and> now - pcBorn (heap p a) < maxDirty p \<and> pcOnion (heap p a) = [] \<and>
        Allows (mdExitPolicy (pcExitMD (heap p a))) port \<and> slots q = a # slots p"
    if "acquireClearnet now port p = (Some a, q)" for a q
    using acquire_find [OF disjI1, of now port p a q "[]"] that o s by (auto simp: reusable_for_def circuitReusable_def Let_def)
  moreover have "\<not> pcClosed (heap p a) \<and> \<not> pcRetired (heap p a) \<and> now - pcBorn (heap p a) < maxDirty p \<and>
        pcOnion (heap p a) = host \<and> slots q = a # slots p"
    if "acquireOnion now host p = (Some a, q)" for a q
    using acquire_find [OF disjI2, of now host p a q] that o s assms(2) by (auto simp: reusable_for_def circuitReusable_def Let_def)
  moreover have "fst (acquireClearnet now port p) = None \<longrightarrow> (\<forall>a \<in> set (clearnetPool p). \<not> (\<not> pcClosed (heap p a) \<and> \<not> pcRetired (heap p a) \<and>
        now - pcBorn (heap p a) < maxDirty p \<and> Allows (mdExitPolicy (pcExitMD (heap p a))) port))"
    by (auto simp: acquire_None bucket_def reusable_for_def circuitReusable_def Let_def)
  moreover have "case trackedConn_Close now t p of (t', p') \<Rightarrow> trackedConn_Close later t' p' = (t', p')"
    by (simp add: trackedConn_Close_def)
  ultimately show ?thesis by blast
qed

section \<open>The cap on onion hosts\<close>

lemma update_new: "k \<notin> fst ` set al \<Longrightarrow> AList.update k v al = al @ [(k, v)]"
  by (induction al) auto

definition nth_host :: "nat \<Rightarrow> string" where
  "nth_host i = replicate (Suc i) (CHR ''a'')"

lemma nth_host [simp]: "nth_host i \<noteq> []" "nth_host i = nth_host j \<longleftrightarrow> i = j"
  by (auto simp: nth_host_def)

text \<open>\<open>n\<close> hosts are pooled, each with a circuit open to reuse.\<close>

definition hosts_pooled :: "nat \<Rightarrow> pool \<Rightarrow> bool" where
  "hosts_pooled n p \<longleftrightarrow> map fst (onionPool p) = map nth_host [0..<n] \<and> (\<forall>i < n. 0 < reusableOnionLocked p (nth_host i))"

lemma reusableOnion_new:
  assumes "pool_wf p" "poolNewOnion now k (nth_host n) cl p = (a, q)"
  shows "reusableOnionLocked q (nth_host i) = reusableOnionLocked p (nth_host i) +
     (if i = n \<and> \<not> retireNewOnionLocked p (nth_host n) then 1 else 0)"
  using new_unretired [OF assms(1) conjunct2 [OF poolNewOnion_new [OF assms(2)]], of "nth_host i"]
  by (simp add: reusableOnionLocked_def bucket_def)

lemma onion_keys_new:
  "poolNewOnion now k (nth_host n) cl p = (a, q) \<Longrightarrow> nth_host n \<notin> fst ` set (onionPool p) \<Longrightarrow> map fst (onionPool q) = map fst (onionPool p) @ [nth_host n]"
  "poolNewOnion now k (nth_host n) cl p = (a, q) \<Longrightarrow> nth_host n \<in> fst ` set (onionPool p) \<Longrightarrow> map fst (onionPool q) = map fst (onionPool p)"
  by (force simp: poolNewOnion_def new_circuit_def update_new AList.update_keys)+

lemma keys_hosts: "map fst al = map nth_host [0..<n] \<Longrightarrow> nth_host n \<notin> fst ` set al"
  by (drule arg_cong [of _ _ set]) auto

lemma hosts_grow:
  assumes "pstep\<^sup>*\<^sup>* (pool_init d) p" "hosts_pooled n p" "n < 64"
  shows "\<exists>q. pstep\<^sup>*\<^sup>* (pool_init d) q \<and> hosts_pooled (Suc n) q"
proof -
  obtain a q where q: "poolNewOnion 0 0 (nth_host n) False p = (a, q)" by (cases "poolNewOnion 0 0 (nth_host n) False p")
  have w: "pool_wf p" using pool_wf_run [OF assms(1)] .
  have new: "nth_host n \<notin> fst ` set (onionPool p)"
    using keys_hosts assms(2) unfolding hosts_pooled_def by blast
  then have "map_of (onionPool p) (nth_host n) = None" by (simp add: map_of_eq_None_iff)
  moreover have "length (onionPool p) = n" using assms(2) unfolding hosts_pooled_def by (metis length_map length_upt minus_nat.diff_0)
  ultimately have "\<not> retireNewOnionLocked p (nth_host n)"
    using assms(3) by (simp add: retireNewOnionLocked_def reusableOnionLocked_def onion_get_def)
  then have "hosts_pooled (Suc n) q"
    using assms(2) onion_keys_new(1) [OF q new] reusableOnion_new [OF w q]
    unfolding hosts_pooled_def by (auto simp: less_Suc_eq)
  moreover have "pstep p q" using q by (intro pstep.new_onion) auto
  ultimately show ?thesis using assms(1) by (meson rtranclp.rtrancl_into_rtrancl)
qed

lemma hosts_reach: "n \<le> 64 \<Longrightarrow> \<exists>q. pstep\<^sup>*\<^sup>* (pool_init d) q \<and> hosts_pooled n q"
proof (induction n)
  case 0
  have "hosts_pooled 0 (pool_init d)" by (simp add: hosts_pooled_def pool_init_def)
  then show ?case by blast
next
  case (Suc n)
  then show ?case using hosts_grow by (metis Suc_leD Suc_le_lessD)
qed


section \<open>Witnesses\<close>

lemma one_circuit: "pstep\<^sup>*\<^sup>* (pool_init 600) (snd (poolNewClearnet 0 0 md_zero False (pool_init 600)))"
  by (intro r_into_rtranclp pstep.new_clearnet) (simp add: poolNewClearnet_def)

lemma one_circuit_state:
  "slots (snd (poolNewClearnet 0 0 md_zero False (pool_init 600))) = [0]"
  "fresh (snd (poolNewClearnet 0 0 md_zero False (pool_init 600))) = 1"
  "\<not> pcClosed (heap (snd (poolNewClearnet 0 0 md_zero False (pool_init 600))) 0)"
  by (simp_all add: poolNewClearnet_def new_circuit_def pool_init_def)

theorem pool_consistent_witness:
  "pcStreams (heap (snd (poolNewClearnet 0 0 md_zero False (pool_init 600))) 0) = 1"
  using pool_consistent [OF one_circuit] by (auto simp: one_circuit_state)


theorem acquired_circuit_fits_witness:
  "\<exists>q. acquireClearnet 1 80 (snd (poolNewClearnet 0 0 md_zero False (pool_init 600))) = (Some 0, q) \<and> slots q = [0, 0]"
proof -
  let ?p = "snd (poolNewClearnet 0 0 md_zero False (pool_init 600))"
  have "fst (acquireClearnet 1 80 ?p) = Some 0"
    by (simp add: acquireClearnet_def reusable_for_def circuitReusable_def poolNewClearnet_def new_circuit_def pool_init_def
        md_zero_def Allows_def retireNewClearnetLocked_def reusableClearnetLocked_def)
  then obtain q where q: "acquireClearnet 1 80 ?p = (Some 0, q)" by (cases "acquireClearnet 1 80 ?p") auto
  with acquired_circuit_fits [OF one_circuit, of "''h''" 1 80] show ?thesis by (auto simp: one_circuit_state)
qed

end
