(* ===== verification/Pathsel.thy ===== *)
theory Pathsel
  imports Consensus
begin

text \<open>
  Model of \<^verbatim>\<open>pkg/pathsel\<close>: choosing a relay from the consensus by flags, exclusions and bandwidth
  weights.  A pointer into \<^verbatim>\<open>cons.Routers\<close> is the index of the router; the random number below \<open>n\<close> is the
  parameter \<open>rnd n\<close>.  Weights and their sum are 64-bit signed integers that wrap around.  The lemmas
  give the exact distribution of the choice.
\<close>

datatype path_err = ErrNoRelay

section \<open>Eligibility and weights\<close>

definition baseEligible :: "routerStatus \<Rightarrow> bool" where
  "baseEligible r \<longleftrightarrow> HasFlag r ''Running'' \<and> HasFlag r ''Valid'' \<and> 0 < rsBandwidth r \<and> rsMicrodescHash r \<noteq> []"

definition sameSlash16 :: "bytes option \<Rightarrow> bytes option \<Rightarrow> bool" where
  "sameSlash16 a b =
     (case (To4 a, To4 b) of
        (Some a4, Some b4) \<Rightarrow> a4 ! 0 = b4 ! 0 \<and> a4 ! 1 = b4 ! 1
      | _ \<Rightarrow> False)"

fun excludedBy :: "routerStatus \<Rightarrow> routerStatus option list \<Rightarrow> bool" where
  "excludedBy r [] = False"
| "excludedBy r (None # es) = excludedBy r es"
| "excludedBy r (Some e # es) =
     (if rsIdentity r = rsIdentity e then True
      else if sameSlash16 (ParseIP (rsIP r)) (ParseIP (rsIP e)) then True
      else excludedBy r es)"

definition middleWeightKey :: "routerStatus \<Rightarrow> string" where
  "middleWeightKey r =
     (let guard = HasFlag r ''Guard''; exit = HasFlag r ''Exit'' in
      if guard \<and> exit then ''Wmd'' else if guard then ''Wmg'' else if exit then ''Wme'' else ''Wmm'')"

definition weightedBw :: "consensus \<Rightarrow> routerStatus \<Rightarrow> string \<Rightarrow> int" where
  "weightedBw c r key =
     (let w = (case Weights c key of Some w \<Rightarrow> w | None \<Rightarrow> 10000) in wrap64 (rsBandwidth r * w) sdiv 10000)"

section \<open>Selection\<close>

fun candidates :: "(routerStatus \<Rightarrow> bool) \<Rightarrow> (routerStatus \<Rightarrow> int) \<Rightarrow> routerStatus option list \<Rightarrow> nat \<Rightarrow> routerStatus list \<Rightarrow>
    (nat \<times> int) list" where
  "candidates el wt ex i [] = []"
| "candidates el wt ex i (r # rs) =
     (if \<not> baseEligible r \<or> \<not> el r then candidates el wt ex (Suc i) rs
      else if excludedBy r ex then candidates el wt ex (Suc i) rs
      else if wt r \<le> 0 then candidates el wt ex (Suc i) rs
      else (i, wt r) # candidates el wt ex (Suc i) rs)"

definition total_weight :: "(nat \<times> int) list \<Rightarrow> int" where
  "total_weight cands = foldl (\<lambda>t c. wrap64 (t + snd c)) 0 cands"

definition randInt63n :: "(int \<Rightarrow> int) \<Rightarrow> int \<Rightarrow> int" where
  "randInt63n rnd n = (if n \<le> 0 then 0 else rnd n)"

fun pick_cand :: "nat \<Rightarrow> int \<Rightarrow> (nat \<times> int) list \<Rightarrow> nat" where
  "pick_cand dflt p [] = dflt"
| "pick_cand dflt p (c # cs) = (if p < snd c then fst c else pick_cand dflt (p - snd c) cs)"

definition selectWeighted :: "consensus \<Rightarrow> (routerStatus \<Rightarrow> bool) \<Rightarrow> (routerStatus \<Rightarrow> int) \<Rightarrow> routerStatus option list \<Rightarrow>
    (int \<Rightarrow> int) \<Rightarrow> path_err + nat" where
  "selectWeighted c el wt ex rnd =
     (let cands = candidates el wt ex 0 (Routers c); t = total_weight cands in
      if t = 0 then Inl ErrNoRelay
      else Inr (pick_cand (fst (last cands)) (randInt63n rnd t) cands))"

definition SelectGuard :: "consensus \<Rightarrow> routerStatus option list \<Rightarrow> (int \<Rightarrow> int) \<Rightarrow> path_err + nat" where
  "SelectGuard c ex rnd =
     selectWeighted c (\<lambda>r. HasFlag r ''Guard'' \<and> HasFlag r ''Fast'' \<and> HasFlag r ''Stable'')
       (\<lambda>r. weightedBw c r (if HasFlag r ''Exit'' then ''Wgd'' else ''Wgg'')) ex rnd"

definition SelectMiddle :: "consensus \<Rightarrow> routerStatus option list \<Rightarrow> (int \<Rightarrow> int) \<Rightarrow> path_err + nat" where
  "SelectMiddle c ex rnd =
     selectWeighted c (\<lambda>r. HasFlag r ''Fast'') (\<lambda>r. weightedBw c r (middleWeightKey r)) ex rnd"

definition SelectExit :: "consensus \<Rightarrow> (routerStatus \<Rightarrow> bool) option \<Rightarrow> routerStatus option list \<Rightarrow> (int \<Rightarrow> int) \<Rightarrow> path_err + nat" where
  "SelectExit c allow ex rnd =
     selectWeighted c
       (\<lambda>r. if \<not> HasFlag r ''Exit'' \<or> \<not> HasFlag r ''Fast'' \<or> HasFlag r ''BadExit'' then False
            else case allow of None \<Rightarrow> True | Some a \<Rightarrow> a r)
       (\<lambda>r. weightedBw c r (if HasFlag r ''Guard'' then ''Wed'' else ''Wee'')) ex rnd"

definition SelectDirCache :: "consensus \<Rightarrow> routerStatus option list \<Rightarrow> (int \<Rightarrow> int) \<Rightarrow> path_err + nat" where
  "SelectDirCache c ex rnd =
     selectWeighted c (\<lambda>r. HasFlag r ''Fast'' \<and> HasFlag r ''V2Dir'') (\<lambda>r. weightedBw c r (middleWeightKey r)) ex rnd"

section \<open>What is a candidate\<close>

text \<open>The routers a position can be filled with.\<close>

definition fits :: "(routerStatus \<Rightarrow> bool) \<Rightarrow> (routerStatus \<Rightarrow> int) \<Rightarrow> routerStatus option list \<Rightarrow> routerStatus \<Rightarrow> bool" where
  "fits el wt ex r \<longleftrightarrow> baseEligible r \<and> el r \<and> \<not> excludedBy r ex \<and> 0 < wt r"

lemma excludedBy_iff:
  "excludedBy r ex \<longleftrightarrow> (\<exists>e. Some e \<in> set ex \<and>
     (rsIdentity r = rsIdentity e \<or> sameSlash16 (ParseIP (rsIP r)) (ParseIP (rsIP e))))"
  by (induction r ex rule: excludedBy.induct) auto

lemma candidates_iff:
  "(j, w) \<in> set (candidates el wt ex i rs) \<longleftrightarrow>
     i \<le> j \<and> j < i + length rs \<and> fits el wt ex (rs ! (j - i)) \<and> w = wt (rs ! (j - i))"
proof (induction rs arbitrary: i)
  case (Cons r rs)
  have c: "(j, w) \<in> set (candidates el wt ex i (r # rs)) \<longleftrightarrow>
      fits el wt ex r \<and> j = i \<and> w = wt r \<or> (j, w) \<in> set (candidates el wt ex (Suc i) rs)"
    by (simp add: fits_def) blast
  show ?case
  proof (cases "i < j")
    case True
    then have "(r # rs) ! (j - i) = rs ! (j - Suc i)" by (simp add: nth_Cons')
    then show ?thesis unfolding c Cons.IH using True by auto
  next
    case False
    then show ?thesis unfolding c Cons.IH by (cases "j = i") auto
  qed
qed simp

lemma candidates_distinct: "distinct (map fst (candidates el wt ex i rs))"
proof (induction rs arbitrary: i)
  case (Cons r rs)
  have "i \<notin> fst ` set (candidates el wt ex (Suc i) rs)"
    using candidates_iff [of _ _ el wt ex "Suc i" rs] by fastforce
  with Cons show ?case by simp
qed simp

lemma candidates_pos: "(j, w) \<in> set (candidates el wt ex i rs) \<Longrightarrow> 0 < w"
  by (auto simp: candidates_iff fits_def)

section \<open>The distribution of the choice\<close>

lemma total_weight_sum:
  assumes "\<forall>c \<in> set cands. 0 < snd c" "sum_list (map snd cands) < 2 ^ 63"
  shows "total_weight cands = sum_list (map snd cands)"
  using assms
proof (induction cands rule: rev_induct)
  case (snoc c cs)
  have n: "0 \<le> sum_list (map snd cs)" using snoc.prems(1) by (intro sum_list_nonneg) auto
  moreover have "sum_list (map snd cs) < 2 ^ 63" using snoc.prems by auto
  ultimately have "total_weight cs = sum_list (map snd cs)" using snoc by simp
  moreover have "0 \<le> sum_list (map snd cs) + snd c" "sum_list (map snd cs) + snd c < 2 ^ 63" using snoc.prems n by auto
  ultimately show ?case by (simp add: total_weight_def)
qed (simp add: total_weight_def)

lemma pick_cand_in: "pick_cand dflt p cs \<in> insert dflt (fst ` set cs)"
  by (induction dflt p cs rule: pick_cand.induct) auto

lemma selectWeighted_sound:
  assumes "selectWeighted c el wt ex rnd = Inr i"
  shows "i < length (Routers c) \<and> fits el wt ex (Routers c ! i)"
proof -
  let ?cs = "candidates el wt ex 0 (Routers c)"
  have ne: "?cs \<noteq> []" using assms by (auto simp: selectWeighted_def total_weight_def Let_def)
  obtain p where "i = pick_cand (fst (last ?cs)) p ?cs"
    using assms by (auto simp: selectWeighted_def Let_def split: if_splits)
  then have "i \<in> insert (fst (last ?cs)) (fst ` set ?cs)" using pick_cand_in by simp
  then have "i \<in> fst ` set ?cs" using ne by auto
  then show ?thesis using candidates_iff [of i _ el wt ex 0 "Routers c"] by auto
qed

lemma pick_cand_count:
  assumes "distinct (map fst cs)" "\<forall>c \<in> set cs. 0 < snd c"
  shows "card {p. 0 \<le> p \<and> p < sum_list (map snd cs) \<and> pick_cand d p cs = i} =
    (case map_of cs i of Some w \<Rightarrow> nat w | None \<Rightarrow> 0)"
  using assms
proof (induction cs)
  case (Cons c cs)
  let ?w = "snd c" and ?s = "sum_list (map snd cs)"
  have s: "0 \<le> ?s" using Cons.prems(2) by (intro sum_list_nonneg) auto
  have w: "0 < ?w" using Cons.prems(2) by simp
  let ?A = "{p. 0 \<le> p \<and> p < ?w \<and> fst c = i}" and ?B = "{p. 0 \<le> p \<and> p < ?s \<and> pick_cand d p cs = i}"
  have eq: "{p. 0 \<le> p \<and> p < sum_list (map snd (c # cs)) \<and> pick_cand d p (c # cs) = i} = ?A \<union> (\<lambda>p. p + ?w) ` ?B"
  proof (intro equalityI subsetI)
    fix p assume p: "p \<in> {p. 0 \<le> p \<and> p < sum_list (map snd (c # cs)) \<and> pick_cand d p (c # cs) = i}"
    show "p \<in> ?A \<union> (\<lambda>p. p + ?w) ` ?B"
    proof (cases "p < ?w")
      case False
      then have "p - ?w \<in> ?B" using p by auto
      then show ?thesis by (intro UnI2 rev_image_eqI [of "p - ?w"]) auto
    qed (use p in auto)
  qed (use s w in auto)
  have fin: "finite ?A" "finite ?B" by (auto intro: finite_subset [of _ "{0..<?w}"] finite_subset [of _ "{0..<?s}"])
  have "card (?A \<union> (\<lambda>p. p + ?w) ` ?B) = card ?A + card ?B"
    using fin by (subst card_Un_disjoint) (auto simp: card_image)
  moreover have "card ?A = (if fst c = i then nat ?w else 0)"
  proof -
    have "?A = (if fst c = i then {0..<?w} else {})" by auto
    then show ?thesis by simp
  qed
  moreover have "map_of cs (fst c) = None" using Cons.prems(1) by (simp add: map_of_eq_None_iff)
  ultimately show ?case using Cons.IH Cons.prems eq by (cases c) auto
next
  case Nil
  show ?case by (auto simp: card_eq_0_iff)
qed

lemma map_of_candidates:
  "map_of (candidates el wt ex 0 rs) i = (if i < length rs \<and> fits el wt ex (rs ! i) then Some (wt (rs ! i)) else None)"
proof (cases "i < length rs \<and> fits el wt ex (rs ! i)")
  case True
  then have "(i, wt (rs ! i)) \<in> set (candidates el wt ex 0 rs)" by (simp add: candidates_iff)
  then show ?thesis using True candidates_distinct [of el wt ex 0 rs] by simp
next
  case False
  have "i \<notin> fst ` set (candidates el wt ex 0 rs)" using candidates_iff [of i _ el wt ex 0 rs] False by auto
  then show ?thesis using False by (auto simp: map_of_eq_None_iff)
qed

text \<open>The sum of the weights of the routers that fit.\<close>

definition fit_weight :: "(routerStatus \<Rightarrow> bool) \<Rightarrow> (routerStatus \<Rightarrow> int) \<Rightarrow> routerStatus option list \<Rightarrow> routerStatus list \<Rightarrow> int" where
  "fit_weight el wt ex rs = sum_list (map wt (filter (fits el wt ex) rs))"

lemma candidates_sum: "sum_list (map snd (candidates el wt ex i rs)) = fit_weight el wt ex rs"
  by (induction rs arbitrary: i) (auto simp: fits_def fit_weight_def)

text \<open>C25: As long as the weights of the eligible relays sum to less than \<open>2 ^ 63\<close>, selection fails exactly
  when no relay fits (running, valid, with bandwidth and a microdescriptor, eligible for the position,
  not excluded, with positive weight), and otherwise each relay is chosen by exactly as many of the
  equally likely random numbers as its weight, every other relay by none.\<close>

theorem selection_proportional:
  assumes "fit_weight el wt ex (Routers c) < 2 ^ 63"
  shows "(selectWeighted c el wt ex rnd = Inl ErrNoRelay \<longleftrightarrow> (\<forall>r \<in> set (Routers c). \<not> fits el wt ex r)) \<and>
    card {p. 0 \<le> p \<and> p < fit_weight el wt ex (Routers c) \<and> selectWeighted c el wt ex (\<lambda>n. p) = Inr i} =
      (if i < length (Routers c) \<and> fits el wt ex (Routers c ! i) then nat (wt (Routers c ! i)) else 0)"
proof -
  let ?cs = "candidates el wt ex 0 (Routers c)" and ?t = "fit_weight el wt ex (Routers c)"
  have pos: "\<forall>x \<in> set ?cs. 0 < snd x" using candidates_pos by fastforce
  have t: "total_weight ?cs = ?t"
    using total_weight_sum [OF pos] assms candidates_sum [of el wt ex 0 "Routers c"] by simp
  have nn: "0 \<le> ?t" unfolding candidates_sum [of el wt ex 0, symmetric] using pos by (intro sum_list_nonneg) auto
  have "?t = 0 \<longleftrightarrow> ?cs = []"
  proof (cases ?cs)
    case (Cons x l)
    then have "0 \<le> sum_list (map snd l)" "0 < snd x" using pos by (fastforce intro!: sum_list_nonneg)+
    then show ?thesis using Cons unfolding candidates_sum [of el wt ex 0, symmetric] by simp
  qed (simp add: candidates_sum [of el wt ex 0, symmetric])
  also have "\<dots> \<longleftrightarrow> (\<forall>r \<in> set (Routers c). \<not> fits el wt ex r)"
    using candidates_iff [of _ _ el wt ex 0 "Routers c"]
    by (metis add_0 all_nth_imp_all_set diff_zero in_set_conv_nth le0 list.set_intros(1) neq_Nil_conv
        prod.collapse empty_iff empty_set)
  finally have none: "?t = 0 \<longleftrightarrow> (\<forall>r \<in> set (Routers c). \<not> fits el wt ex r)" .
  have sel: "selectWeighted c el wt ex (\<lambda>n. p) = Inr i \<longleftrightarrow> pick_cand (fst (last ?cs)) p ?cs = i" if "p < ?t" "0 \<le> p" for p
    using that t by (auto simp: selectWeighted_def randInt63n_def Let_def)
  then have "{p. 0 \<le> p \<and> p < ?t \<and> selectWeighted c el wt ex (\<lambda>n. p) = Inr i} =
      {p. 0 \<le> p \<and> p < sum_list (map snd ?cs) \<and> pick_cand (fst (last ?cs)) p ?cs = i}"
    by (auto simp: candidates_sum)
  then have "card {p. 0 \<le> p \<and> p < ?t \<and> selectWeighted c el wt ex (\<lambda>n. p) = Inr i} =
      (if i < length (Routers c) \<and> fits el wt ex (Routers c ! i) then nat (wt (Routers c ! i)) else 0)"
    using pick_cand_count [OF candidates_distinct pos, of "fst (last ?cs)" i] by (simp add: map_of_candidates)
  moreover have "selectWeighted c el wt ex rnd = Inl ErrNoRelay \<longleftrightarrow> ?t = 0"
    using t by (simp add: selectWeighted_def Let_def)
  ultimately show ?thesis using none by simp
qed

definition example_router :: "byte \<Rightarrow> string \<Rightarrow> int \<Rightarrow> routerStatus" where
  "example_router k ip bw = \<lparr>rsNickname = ''n'', rsIdentity = [k], rsIP = ip, rsORPort = 9001, rsDirPort = 0, rsIPv6 = [],
     rsMicrodescHash = ''h'', rsFlags = {''Running'', ''Valid'', ''Fast''}, rsBandwidth = bw, rsUnmeasured = False\<rparr>"

theorem selection_proportional_witness:
  "card {p. 0 \<le> p \<and> p < 5 \<and> selectWeighted (cons_zero\<lparr>Routers := [example_router 1 ''x'' 2, example_router 2 ''y'' 3]\<rparr>)
     (\<lambda>r. HasFlag r ''Fast'') rsBandwidth [] (\<lambda>n. p) = Inr 1} = 3"
proof -
  let ?c = "cons_zero\<lparr>Routers := [example_router 1 ''x'' 2, example_router 2 ''y'' 3]\<rparr>"
  have f: "fits (\<lambda>r. HasFlag r ''Fast'') rsBandwidth [] (example_router k ip bw) \<longleftrightarrow> 0 < bw" for k ip bw
    by (simp add: fits_def baseEligible_def HasFlag_def example_router_def)
  have b: "rsBandwidth (example_router k ip bw) = bw" for k ip bw by (simp add: example_router_def)
  have "fit_weight (\<lambda>r. HasFlag r ''Fast'') rsBandwidth [] (Routers ?c) = 5"
    by (simp add: fit_weight_def f b)
  with selection_proportional [of "\<lambda>r. HasFlag r ''Fast''" rsBandwidth "[]" ?c "\<lambda>n. 0" 1] show ?thesis
    by (simp add: f b)
qed

end
