(* ===== verification/Tor_Client.thy ===== *)
theory Tor_Client
  imports Pathsel Microdesc Relayinfo Dirclient
begin

text \<open>
  Model of \<^verbatim>\<open>client.go\<close>, \<^verbatim>\<open>guard.go\<close> and of the path selection in \<^verbatim>\<open>dirtunnel.go\<close> and \<^verbatim>\<open>onion_dial.go\<close>: the guard,
  microdescriptor lookups, the choice of the relays of a circuit, consensus refresh and the routing
  of a dial.  The directory client, the link dialler, files, clock and random numbers answer through
  a world \<open>'w\<close>; a channel is a number.  Paths are returned instead of being handed to
  \<^verbatim>\<open>circ.Build\<close>, which the circuit theories model.
\<close>

section \<open>State and surroundings\<close>

datatype client_err = NoRelay | MicrodescFetch | MicrodescMissing | MicrodescIncomplete | NoGuardConnected
  | GuardNotInConsensus | ClientClosed | NoEligible | UnsupportedNetwork | BadAddress | BadPort

record 'w cenv =
  ceRand :: "'w \<Rightarrow> (int \<Rightarrow> int) \<times> 'w"
  ceFetch :: "string list \<Rightarrow> 'w \<Rightarrow> (string \<rightharpoonup> microdescriptor) option \<times> 'w"
  ceFetchDirect :: "string list \<Rightarrow> 'w \<Rightarrow> (string \<rightharpoonup> microdescriptor) option \<times> 'w"
  ceDial :: "string \<Rightarrow> bytes \<Rightarrow> 'w \<Rightarrow> nat option \<times> 'w"
  ceRead :: "string \<Rightarrow> 'w \<Rightarrow> string option \<times> 'w"
  ceWrite :: "string \<Rightarrow> string \<Rightarrow> 'w \<Rightarrow> 'w"
  ceNow :: "'w \<Rightarrow> int \<times> 'w"
  ceRefresh :: "'w \<Rightarrow> consensus option \<times> 'w"

record torClient =
  tcSel :: consensus
  tcGuardChan :: "nat option"
  tcGuardInfo :: relayInfo
  tcMdCache :: "string \<rightharpoonup> microdescriptor"
  tcRing :: "(routerStatus \<times> microdescriptor) list option"
  tcOnionAuth :: "string \<rightharpoonup> bytes"
  tcDataDir :: string

record selectedRelay =
  selRS :: routerStatus
  selMD :: microdescriptor

section \<open>Helpers\<close>

definition onion_label :: "string \<Rightarrow> string" where
  "onion_label host = TrimSuffix (ToLower host) ''.onion''"

definition normalizeOnionAuth :: "(string \<times> bytes) list \<Rightarrow> (string \<rightharpoonup> bytes)" where
  "normalizeOnionAuth keys = fold (\<lambda>(k, v) m. m(onion_label k \<mapsto> v)) keys Map.empty"

definition onionAuthKey :: "torClient \<Rightarrow> string \<Rightarrow> bytes option" where
  "onionAuthKey c host = tcOnionAuth c (onion_label host)"

definition toRelayInfo :: "routerStatus \<Rightarrow> microdescriptor \<Rightarrow> relayInfo" where
  "toRelayInfo rs md = \<lparr>Nickname = rsNickname rs, ORAddr = JoinHostPort (rsIP rs) (Itoa (rsORPort rs)),
     RSAIDDigest = rsIdentity rs, EdIdentity = mdEd25519ID md, NtorOnionKey = mdNtorOnionKey md\<rparr>"

definition findRouterByIdentity :: "torClient \<Rightarrow> bytes \<Rightarrow> routerStatus option" where
  "findRouterByIdentity c i = List.find (\<lambda>r. rsIdentity r = i) (Routers (tcSel c))"

definition findRouterByIdentityHex :: "torClient \<Rightarrow> string \<Rightarrow> routerStatus option" where
  "findRouterByIdentityHex c hexID = List.find (\<lambda>r. ToLower (hex_enc (rsIdentity r)) = ToLower hexID) (Routers (tcSel c))"

definition loadGuard :: "'w cenv \<Rightarrow> string \<Rightarrow> 'w \<Rightarrow> string \<times> 'w" where
  "loadGuard E dataDir w =
     (if dataDir = [] then ([], w)
      else case ceRead E (join_path [dataDir, ''guard'']) w of
             (Some b, w) \<Rightarrow> (TrimSpace b, w)
           | (None, w) \<Rightarrow> ([], w))"

definition saveGuard :: "'w cenv \<Rightarrow> string \<Rightarrow> bytes \<Rightarrow> 'w \<Rightarrow> 'w" where
  "saveGuard E dataDir i w = (if dataDir = [] then w else ceWrite E (join_path [dataDir, ''guard'']) (hex_enc i) w)"

definition familyConflict :: "routerStatus \<Rightarrow> microdescriptor \<Rightarrow> selectedRelay list \<Rightarrow> bool" where
  "familyConflict rs md chosen = list_ex (\<lambda>ch. SameFamily md (rsIdentity rs) (selMD ch) (rsIdentity (selRS ch))) chosen"

section \<open>Microdescriptors\<close>

definition microdescVia :: "(string list \<Rightarrow> 'w \<Rightarrow> (string \<rightharpoonup> microdescriptor) option \<times> 'w) \<Rightarrow> routerStatus \<Rightarrow>
    torClient \<Rightarrow> 'w \<Rightarrow> (client_err + microdescriptor) \<times> torClient \<times> 'w" where
  "microdescVia fetch rs c w =
     (let h = rsMicrodescHash rs in
      case tcMdCache c h of
        Some md \<Rightarrow> (Inr md, c, w)
      | None \<Rightarrow>
        (case fetch [h] w of
           (None, w) \<Rightarrow> (Inl MicrodescFetch, c, w)
         | (Some mds, w) \<Rightarrow>
           (case mds h of
              None \<Rightarrow> (Inl MicrodescMissing, c, w)
            | Some md \<Rightarrow>
                if length (mdEd25519ID md) \<noteq> 32 \<or> length (mdNtorOnionKey md) \<noteq> 32 then (Inl MicrodescIncomplete, c, w)
                else (Inr md, c\<lparr>tcMdCache := (tcMdCache c)(h \<mapsto> md)\<rparr>, w))))"

abbreviation microdesc :: "'w cenv \<Rightarrow> routerStatus \<Rightarrow> torClient \<Rightarrow> 'w \<Rightarrow> (client_err + microdescriptor) \<times> torClient \<times> 'w" where
  "microdesc E \<equiv> microdescVia (ceFetch E)"

abbreviation microdescDirect :: "'w cenv \<Rightarrow> routerStatus \<Rightarrow> torClient \<Rightarrow> 'w \<Rightarrow> (client_err + microdescriptor) \<times> torClient \<times> 'w" where
  "microdescDirect E \<equiv> microdescVia (ceFetchDirect E)"

definition relay_info :: "'w cenv \<Rightarrow> routerStatus \<Rightarrow> torClient \<Rightarrow> 'w \<Rightarrow> (client_err + relayInfo) \<times> torClient \<times> 'w" where
  "relay_info E rs c w =
     (case microdesc E rs c w of
        (Inl e, s) \<Rightarrow> (Inl e, s)
      | (Inr md, s) \<Rightarrow> (Inr (toRelayInfo rs md), s))"

text \<open>\<^verbatim>\<open>selectedGuard\<close> and \<^verbatim>\<open>selectedRelayDirect\<close>, which differ in the fetcher.\<close>

definition selected_via :: "(routerStatus \<Rightarrow> torClient \<Rightarrow> 'w \<Rightarrow> (client_err + microdescriptor) \<times> torClient \<times> 'w) \<Rightarrow>
    routerStatus option \<Rightarrow> torClient \<Rightarrow> 'w \<Rightarrow> (client_err + selectedRelay) \<times> torClient \<times> 'w" where
  "selected_via mdFetch rs c w =
     (case rs of
        None \<Rightarrow> (Inl GuardNotInConsensus, c, w)
      | Some rs \<Rightarrow>
        (case mdFetch rs c w of
           (Inl e, s) \<Rightarrow> (Inl e, s)
         | (Inr md, s) \<Rightarrow> (Inr \<lparr>selRS = rs, selMD = md\<rparr>, s)))"

section \<open>Picking relays\<close>

type_synonym 'w selector = "routerStatus option list \<Rightarrow> 'w \<Rightarrow> (path_err + nat) \<times> 'w"

fun pick_attempts :: "consensus \<Rightarrow> 'w selector \<Rightarrow> selectedRelay list \<Rightarrow> (microdescriptor \<Rightarrow> bool) \<Rightarrow>
    (routerStatus \<Rightarrow> torClient \<Rightarrow> 'w \<Rightarrow> (client_err + microdescriptor) \<times> torClient \<times> 'w) \<Rightarrow>
    nat \<Rightarrow> client_err \<Rightarrow> routerStatus option list \<Rightarrow> torClient \<Rightarrow> 'w \<Rightarrow> (client_err + selectedRelay) \<times> torClient \<times> 'w" where
  "pick_attempts cons sel chosen mdOK mdFetch 0 lastErr exclude c w = (Inl lastErr, c, w)"
| "pick_attempts cons sel chosen mdOK mdFetch (Suc n) lastErr exclude c w =
     (case sel exclude w of
        (Inl e, w) \<Rightarrow> (Inl NoRelay, c, w)
      | (Inr i, w) \<Rightarrow>
        (let rs = Routers cons ! i in
         case mdFetch rs c w of
           (Inl e, c, w) \<Rightarrow> pick_attempts cons sel chosen mdOK mdFetch n e (exclude @ [Some rs]) c w
         | (Inr md, c, w) \<Rightarrow>
             if \<not> mdOK md \<or> familyConflict rs md chosen
             then pick_attempts cons sel chosen mdOK mdFetch n lastErr (exclude @ [Some rs]) c w
             else (Inr \<lparr>selRS = rs, selMD = md\<rparr>, c, w)))"

definition pickRelayVia :: "consensus \<Rightarrow> 'w selector \<Rightarrow> selectedRelay list \<Rightarrow> (microdescriptor \<Rightarrow> bool) \<Rightarrow>
    (routerStatus \<Rightarrow> torClient \<Rightarrow> 'w \<Rightarrow> (client_err + microdescriptor) \<times> torClient \<times> 'w) \<Rightarrow>
    torClient \<Rightarrow> 'w \<Rightarrow> (client_err + selectedRelay) \<times> torClient \<times> 'w" where
  "pickRelayVia cons sel chosen mdOK mdFetch c w =
     pick_attempts cons sel chosen mdOK mdFetch 20 NoEligible (map (Some \<circ> selRS) chosen) c w"

definition with_rand :: "'w cenv \<Rightarrow> (routerStatus option list \<Rightarrow> (int \<Rightarrow> int) \<Rightarrow> path_err + nat) \<Rightarrow> 'w selector" where
  "with_rand E sel exclude w = (let (rnd, w) = ceRand E w in (sel exclude rnd, w))"

text \<open>The relays of \<^verbatim>\<open>buildExitCircuit\<close>: guard, middle and an exit that allows the port.\<close>

definition exit_path :: "'w cenv \<Rightarrow> int \<Rightarrow> torClient \<Rightarrow> 'w \<Rightarrow>
    (client_err + selectedRelay \<times> selectedRelay \<times> selectedRelay) \<times> torClient \<times> 'w" where
  "exit_path E port c w =
     (if tcGuardChan c = None then (Inl ClientClosed, c, w)
      else case selected_via (microdesc E) (findRouterByIdentity c (RSAIDDigest (tcGuardInfo c))) c w of
        (Inl e, s) \<Rightarrow> (Inl e, s)
      | (Inr guard, c, w) \<Rightarrow>
        (let cons = tcSel c in
         case pickRelayVia cons (with_rand E (SelectMiddle cons)) [guard] (\<lambda>md. True) (microdesc E) c w of
           (Inl e, s) \<Rightarrow> (Inl e, s)
         | (Inr middle, c, w) \<Rightarrow>
           (case pickRelayVia cons (with_rand E (SelectExit cons None)) [guard, middle]
                   (\<lambda>md. Allows (mdExitPolicy md) port) (microdesc E) c w of
              (Inl e, s) \<Rightarrow> (Inl e, s)
            | (Inr exit, s) \<Rightarrow> (Inr (guard, middle, exit), s))))"

text \<open>The relays of \<^verbatim>\<open>buildDirCircuit\<close>, looked up over direct HTTP.\<close>

definition dir_path :: "'w cenv \<Rightarrow> torClient \<Rightarrow> 'w \<Rightarrow>
    (client_err + selectedRelay \<times> selectedRelay \<times> selectedRelay) \<times> torClient \<times> 'w" where
  "dir_path E c w =
     (if tcGuardChan c = None then (Inl ClientClosed, c, w)
      else case selected_via (microdescDirect E) (findRouterByIdentity c (RSAIDDigest (tcGuardInfo c))) c w of
        (Inl e, s) \<Rightarrow> (Inl e, s)
      | (Inr guard, c, w) \<Rightarrow>
        (let cons = tcSel c in
         case pickRelayVia cons (with_rand E (SelectMiddle cons)) [guard] (\<lambda>md. True) (microdescDirect E) c w of
           (Inl e, s) \<Rightarrow> (Inl e, s)
         | (Inr middle, c, w) \<Rightarrow>
           (case pickRelayVia cons (with_rand E (SelectDirCache cons)) [guard, middle] (\<lambda>md. True) (microdescDirect E) c w of
              (Inl e, s) \<Rightarrow> (Inl e, s)
            | (Inr dirc, s) \<Rightarrow> (Inr (guard, middle, dirc), s))))"

text \<open>The middle of \<^verbatim>\<open>buildCircuitVia\<close>, with a fixed third hop that may be unknown to the consensus.\<close>

definition via_middle :: "'w cenv \<Rightarrow> relayInfo \<Rightarrow> torClient \<Rightarrow> 'w \<Rightarrow> (client_err + relayInfo list) \<times> torClient \<times> 'w" where
  "via_middle E third c w =
     (if tcGuardChan c = None then (Inl ClientClosed, c, w)
      else
        case selected_via (microdesc E) (findRouterByIdentity c (RSAIDDigest (tcGuardInfo c))) c w of (g, c, w) \<Rightarrow>
        let chosen = (case g of Inr gs \<Rightarrow> [gs] | Inl e \<Rightarrow> []) in
        case (case findRouterByIdentity c (RSAIDDigest third) of
                None \<Rightarrow> (chosen, c, w)
              | Some thirdRS \<Rightarrow>
                (case microdesc E thirdRS c w of
                   (Inr md, c, w) \<Rightarrow> (chosen @ [\<lparr>selRS = thirdRS, selMD = md\<rparr>], c, w)
                 | (Inl e, c, w) \<Rightarrow> (chosen, c, w))) of (chosen, c, w) \<Rightarrow>
        let cons = tcSel c in
        case pickRelayVia cons (with_rand E (SelectMiddle cons)) chosen (\<lambda>md. True) (microdesc E) c w of
          (Inl e, s) \<Rightarrow> (Inl e, s)
        | (Inr middle, s) \<Rightarrow> (Inr [tcGuardInfo c, toRelayInfo (selRS middle) (selMD middle), third], s))"

section \<open>The guard\<close>

fun guard_attempts :: "'w cenv \<Rightarrow> string \<Rightarrow> string \<Rightarrow> bytes option \<Rightarrow> routerStatus option list \<Rightarrow> bool \<Rightarrow> nat \<Rightarrow>
    torClient \<Rightarrow> 'w \<Rightarrow> client_err option \<times> torClient \<times> 'w" where
  "guard_attempts E dataDir persisted avoid exclude first 0 c w = (Some NoGuardConnected, c, w)"
| "guard_attempts E dataDir persisted avoid exclude first (Suc n) c w =
     (let pre = (if first \<and> persisted \<noteq> [] then findRouterByIdentityHex c persisted else None) in
      case (case pre of
              Some rs \<Rightarrow> (Inr rs, w)
            | None \<Rightarrow>
              (case with_rand E (SelectGuard (tcSel c)) exclude w of
                 (Inl e, w) \<Rightarrow> (Inl NoRelay, w)
               | (Inr i, w) \<Rightarrow> (Inr (Routers (tcSel c) ! i), w))) of
        (Inl e, w) \<Rightarrow> (Some e, c, w)
      | (Inr rs, w) \<Rightarrow>
        if avoid = Some (rsIdentity rs) then guard_attempts E dataDir persisted avoid exclude False n c w
        else
          (case relay_info E rs c w of
             (Inl e, c, w) \<Rightarrow> guard_attempts E dataDir persisted avoid exclude False n c w
           | (Inr info, c, w) \<Rightarrow>
             (case ceDial E (ORAddr info) (EdIdentity info) w of
                (None, w) \<Rightarrow> guard_attempts E dataDir persisted avoid exclude False n c w
              | (Some ch, w) \<Rightarrow>
                  (None, c\<lparr>tcGuardChan := Some ch, tcGuardInfo := info\<rparr>, saveGuard E dataDir (rsIdentity rs) w))))"

definition connectGuard :: "'w cenv \<Rightarrow> string \<Rightarrow> bytes option \<Rightarrow> torClient \<Rightarrow> 'w \<Rightarrow> client_err option \<times> torClient \<times> 'w" where
  "connectGuard E dataDir avoid c w =
     (let (persisted, w) = (if avoid = None then loadGuard E dataDir w else ([], w));
          exclude = (case avoid of None \<Rightarrow> [] | Some a \<Rightarrow> (case findRouterByIdentity c a of Some old \<Rightarrow> [Some old] | None \<Rightarrow> []))
      in guard_attempts E dataDir persisted avoid exclude True 8 c w)"

text \<open>\<^verbatim>\<open>append([]byte(nil), id...)\<close> is nil when the identity is empty.\<close>

definition copy_id :: "bytes \<Rightarrow> bytes option" where
  "copy_id i = (if i = [] then None else Some i)"

text \<open>\<^verbatim>\<open>RotateGuard\<close>: the result is the error, or the channel to close.\<close>

definition RotateGuard :: "'w cenv \<Rightarrow> torClient \<Rightarrow> 'w \<Rightarrow> (client_err + nat option) \<times> torClient \<times> 'w" where
  "RotateGuard E c w =
     (let old = tcGuardChan c in
      case connectGuard E (tcDataDir c) (copy_id (RSAIDDigest (tcGuardInfo c))) c w of
        (Some e, s) \<Rightarrow> (Inl e, s)
      | (None, s) \<Rightarrow> (Inr old, s))"

section \<open>Consensus refresh and dialling\<close>

definition refreshConsensus :: "'w cenv \<Rightarrow> torClient \<Rightarrow> 'w \<Rightarrow> bool \<times> torClient \<times> 'w" where
  "refreshConsensus E c w =
     (case ceRefresh E w of
        (None, w) \<Rightarrow> (False, c, w)
      | (Some cons, w) \<Rightarrow> (True, c\<lparr>tcSel := cons, tcRing := None, tcMdCache := Map.empty\<rparr>, w))"

text \<open>\<open>got\<close>: whether the refresh slot was obtained before the caller's context ended.\<close>

definition ensureFreshConsensus :: "'w cenv \<Rightarrow> bool \<Rightarrow> torClient \<Rightarrow> 'w \<Rightarrow> torClient \<times> 'w" where
  "ensureFreshConsensus E got c w =
     (let (now, w) = ceNow E w in
      if now < ValidUntil (tcSel c) then (c, w)
      else if \<not> got then (c, w)
      else let (now, w) = ceNow E w in
           if now < ValidUntil (tcSel c) then (c, w) else snd (refreshConsensus E c w))"

datatype route = ToOnion string int | ToExit string int

definition DialContext_route :: "string \<Rightarrow> string \<Rightarrow> client_err + route" where
  "DialContext_route network addr =
     (if network \<notin> {''tcp'', ''tcp4'', ''tcp6''} then Inl UnsupportedNetwork
      else case SplitHostPort addr of
             Inl e \<Rightarrow> Inl BadAddress
           | Inr (host, portStr) \<Rightarrow>
               (case Atoi portStr of (port, ok) \<Rightarrow>
                  if \<not> ok then Inl BadPort
                  else if suffix ''.onion'' (ToLower host) then Inr (ToOnion host port)
                  else Inr (ToExit addr port)))"

section \<open>The microdescriptor cache\<close>

definition full_keys :: "microdescriptor \<Rightarrow> bool" where
  "full_keys md \<longleftrightarrow> length (mdEd25519ID md) = 32 \<and> length (mdNtorOnionKey md) = 32"

definition cache_ok :: "torClient \<Rightarrow> bool" where
  "cache_ok c \<longleftrightarrow> (\<forall>h md. tcMdCache c h = Some md \<longrightarrow> full_keys md)"

text \<open>What a lookup leaves alone.\<close>

definition same_net :: "torClient \<Rightarrow> torClient \<Rightarrow> bool" where
  "same_net c c' \<longleftrightarrow> tcSel c' = tcSel c \<and> tcGuardChan c' = tcGuardChan c \<and> tcGuardInfo c' = tcGuardInfo c \<and>
     tcDataDir c' = tcDataDir c \<and> (cache_ok c \<longrightarrow> cache_ok c')"

lemma same_net_refl [simp]: "same_net c c"
  by (simp add: same_net_def)

lemma same_net_trans: "same_net a b \<Longrightarrow> same_net b c \<Longrightarrow> same_net a c"
  by (simp add: same_net_def)

lemma microdescVia_net: "microdescVia fetch rs c w = (r, c', w') \<Longrightarrow> same_net c c'"
  by (auto simp: microdescVia_def same_net_def cache_ok_def full_keys_def Let_def split: option.splits prod.splits if_splits)

lemma microdescVia_full: "microdescVia fetch rs c w = (Inr md, c', w') \<Longrightarrow> cache_ok c \<Longrightarrow> full_keys md"
  by (auto simp: microdescVia_def cache_ok_def full_keys_def Let_def split: option.splits prod.splits if_splits)

lemma selected_via_net: "selected_via (microdescVia fetch) rs c w = (r, c', w') \<Longrightarrow> same_net c c'"
  by (auto simp: selected_via_def dest: microdescVia_net split: option.splits prod.splits sum.splits)

lemma selected_via_ok:
  "selected_via (microdescVia fetch) rs c w = (Inr g, c', w') \<Longrightarrow> rs = Some (selRS g) \<and> (cache_ok c \<longrightarrow> full_keys (selMD g))"
  by (auto simp: selected_via_def dest: microdescVia_full split: option.splits prod.splits sum.splits)

lemma relay_info_net: "relay_info E rs c w = (r, c', w') \<Longrightarrow> same_net c c'"
  by (auto simp: relay_info_def dest: microdescVia_net split: prod.splits sum.splits)

section \<open>Picked relays\<close>

lemma pick_attempts_ok:
  assumes "pick_attempts cons sel chosen mdOK (microdescVia fetch) n e exclude c w = (r, c', w')"
    "set (map (Some \<circ> selRS) chosen) \<subseteq> set exclude"
  shows "same_net c c' \<and> (\<forall>x. r = Inr x \<longrightarrow> (\<exists>ex i w1 w2. set (map (Some \<circ> selRS) chosen) \<subseteq> set ex \<and> sel ex w1 = (Inr i, w2) \<and>
      selRS x = Routers cons ! i \<and> mdOK (selMD x) \<and> \<not> familyConflict (selRS x) (selMD x) chosen \<and>
      (cache_ok c \<longrightarrow> full_keys (selMD x))))"
  using assms
proof (induction n arbitrary: e exclude c w)
  case (Suc n)
  obtain s w1 where s: "sel exclude w = (s, w1)" by (cases "sel exclude w")
  show ?case
  proof (cases s)
    case (Inr i)
    let ?rs = "Routers cons ! i"
    obtain m c1 w2 where m: "microdescVia fetch ?rs c w1 = (m, c1, w2)" by (cases "microdescVia fetch ?rs c w1") auto
    have n1: "same_net c c1" using microdescVia_net [OF m] .
    have sub: "set (map (Some \<circ> selRS) chosen) \<subseteq> set (exclude @ [Some ?rs])" using Suc.prems(2) by auto
    show ?thesis
    proof (cases "\<exists>md. m = Inr md \<and> mdOK md \<and> \<not> familyConflict ?rs md chosen")
      case True
      then obtain md where md: "m = Inr md" "mdOK md" "\<not> familyConflict ?rs md chosen" by blast
      then have "r = Inr \<lparr>selRS = ?rs, selMD = md\<rparr>" "c' = c1" using Suc.prems(1) s Inr m by auto
      then show ?thesis using n1 md Suc.prems(2) s Inr microdescVia_full [of fetch ?rs c w1 md c1 w2] m by auto
    next
      case False
      then obtain e' where "pick_attempts cons sel chosen mdOK (microdescVia fetch) n e' (exclude @ [Some ?rs]) c1 w2 = (r, c', w')"
        using Suc.prems(1) s Inr m by (cases m) auto
      note ih = Suc.IH [OF this sub]
      have "same_net c c'" using ih n1 same_net_trans by blast
      moreover have "cache_ok c \<longrightarrow> cache_ok c1" using n1 by (simp add: same_net_def)
      ultimately show ?thesis using ih by blast
    qed
  qed (use Suc.prems s in auto)
qed auto

text \<open>Two relays that may share a circuit: different identities, not in one /16, no mutual family.\<close>

definition diverse :: "selectedRelay \<Rightarrow> selectedRelay \<Rightarrow> bool" where
  "diverse a b \<longleftrightarrow> rsIdentity (selRS a) \<noteq> rsIdentity (selRS b) \<and>
     \<not> sameSlash16 (ParseIP (rsIP (selRS a))) (ParseIP (rsIP (selRS b))) \<and>
     \<not> SameFamily (selMD a) (rsIdentity (selRS a)) (selMD b) (rsIdentity (selRS b))"

lemma pickRelayVia_ok:
  assumes "pickRelayVia cons (with_rand E sel) chosen mdOK (microdescVia fetch) c w = (Inr x, c', w')"
    "\<And>ex rnd i. sel ex rnd = Inr i \<Longrightarrow> i < length (Routers cons) \<and> fits el wt ex (Routers cons ! i)"
  shows "selRS x \<in> set (Routers cons) \<and> baseEligible (selRS x) \<and> el (selRS x) \<and> mdOK (selMD x) \<and>
    (\<forall>y \<in> set chosen. diverse x y) \<and> (cache_ok c \<longrightarrow> full_keys (selMD x)) \<and> same_net c c'"
proof -
  have "set (map (Some \<circ> selRS) chosen) \<subseteq> set (map (Some \<circ> selRS) chosen)" by simp
  from pick_attempts_ok [OF assms(1) [unfolded pickRelayVia_def] this]
  obtain ex i w1 w2 where x: "set (map (Some \<circ> selRS) chosen) \<subseteq> set ex" "with_rand E sel ex w1 = (Inr i, w2)"
    "selRS x = Routers cons ! i" "mdOK (selMD x)" "\<not> familyConflict (selRS x) (selMD x) chosen"
    "cache_ok c \<longrightarrow> full_keys (selMD x)" "same_net c c'" by blast
  then have f: "i < length (Routers cons)" "fits el wt ex (Routers cons ! i)"
    using assms(2) by (auto simp: with_rand_def split: prod.splits)
  have "diverse x y" if "y \<in> set chosen" for y
  proof -
    have "Some (selRS y) \<in> set ex" using x(1) that by auto
    moreover have "\<not> excludedBy (selRS x) ex" using f x(3) by (simp add: fits_def)
    ultimately show ?thesis using x(5) that by (auto simp: diverse_def excludedBy_iff familyConflict_def list_ex_iff)
  qed
  then show ?thesis using x f by (auto simp: fits_def)
qed

lemma middle_fits: "SelectMiddle cons ex rnd = Inr i \<Longrightarrow> i < length (Routers cons) \<and>
    fits (\<lambda>r. HasFlag r ''Fast'') (\<lambda>r. weightedBw cons r (middleWeightKey r)) ex (Routers cons ! i)"
  unfolding SelectMiddle_def by (rule selectWeighted_sound)

lemma exit_fits: "SelectExit cons allow ex rnd = Inr i \<Longrightarrow> i < length (Routers cons) \<and>
    fits (\<lambda>r. if \<not> HasFlag r ''Exit'' \<or> \<not> HasFlag r ''Fast'' \<or> HasFlag r ''BadExit'' then False
            else case allow of None \<Rightarrow> True | Some a \<Rightarrow> a r)
       (\<lambda>r. weightedBw cons r (if HasFlag r ''Guard'' then ''Wed'' else ''Wee'')) ex (Routers cons ! i)"
  unfolding SelectExit_def by (rule selectWeighted_sound)

lemma dircache_fits: "SelectDirCache cons ex rnd = Inr i \<Longrightarrow> i < length (Routers cons) \<and>
    fits (\<lambda>r. HasFlag r ''Fast'' \<and> HasFlag r ''V2Dir'') (\<lambda>r. weightedBw cons r (middleWeightKey r)) ex (Routers cons ! i)"
  unfolding SelectDirCache_def by (rule selectWeighted_sound)

lemma guard_fits: "SelectGuard cons ex rnd = Inr i \<Longrightarrow> i < length (Routers cons) \<and>
    fits (\<lambda>r. HasFlag r ''Guard'' \<and> HasFlag r ''Fast'' \<and> HasFlag r ''Stable'')
       (\<lambda>r. weightedBw cons r (if HasFlag r ''Exit'' then ''Wgd'' else ''Wgg'')) ex (Routers cons ! i)"
  unfolding SelectGuard_def by (rule selectWeighted_sound)

lemma find_identity: "findRouterByIdentity c i = Some r \<Longrightarrow> r \<in> set (Routers (tcSel c)) \<and> rsIdentity r = i"
  by (auto simp: findRouterByIdentity_def find_Some_iff)

section \<open>Rotating the guard\<close>

lemma guard_attempts_ok:
  assumes "guard_attempts E dd persisted avoid exclude first n c w = (r, c', w')"
  shows "(r \<noteq> None \<longrightarrow> same_net c c') \<and>
    (r = None \<longrightarrow> tcSel c' = tcSel c \<and> (\<exists>rs md ch. avoid \<noteq> Some (rsIdentity rs) \<and> rs \<in> set (Routers (tcSel c)) \<and>
       tcGuardInfo c' = toRelayInfo rs md \<and> tcGuardChan c' = Some ch \<and>
       (\<exists>w1 w2. ceDial E (ORAddr (tcGuardInfo c')) (mdEd25519ID md) w1 = (Some ch, w2))))"
  using assms
proof (induction n arbitrary: first c w)
  case (Suc n)
  let ?P = "(case (if first \<and> persisted \<noteq> [] then findRouterByIdentityHex c persisted else None) of
              Some rs \<Rightarrow> (Inr rs, w)
            | None \<Rightarrow>
              (case with_rand E (SelectGuard (tcSel c)) exclude w of
                 (Inl e, w) \<Rightarrow> (Inl NoRelay, w)
               | (Inr i, w) \<Rightarrow> (Inr (Routers (tcSel c) ! i), w)))"
  obtain s w1 where s: "?P = (s, w1)" by (cases ?P)
  show ?case
  proof (cases s)
    case (Inl e)
    then show ?thesis using Suc.prems s by auto
  next
    case (Inr rs)
    have mem: "rs \<in> set (Routers (tcSel c))"
      using s Inr guard_fits [of "tcSel c" exclude] nth_mem
      by (fastforce simp: with_rand_def findRouterByIdentityHex_def find_Some_iff split: option.splits if_splits prod.splits sum.splits)
    show ?thesis
    proof (cases "avoid = Some (rsIdentity rs)")
      case True
      then have "guard_attempts E dd persisted avoid exclude False n c w1 = (r, c', w')" using Suc.prems s Inr by simp
      then show ?thesis by (rule Suc.IH)
    next
      case False
      obtain i c1 w2 where i: "relay_info E rs c w1 = (i, c1, w2)" by (cases "relay_info E rs c w1") auto
      have n1: "same_net c c1" using relay_info_net [OF i] .
      show ?thesis
      proof (cases i)
        case (Inl e)
        then have "guard_attempts E dd persisted avoid exclude False n c1 w2 = (r, c', w')"
          using Suc.prems s Inr False i by simp
        from Suc.IH [OF this] n1 show ?thesis unfolding same_net_def by (metis (no_types, lifting))
      next
        case (Inr info)
        then obtain md where md: "info = toRelayInfo rs md" using i by (auto simp: relay_info_def split: prod.splits sum.splits)
        obtain d w3 where d: "ceDial E (ORAddr info) (EdIdentity info) w2 = (d, w3)"
          by (cases "ceDial E (ORAddr info) (EdIdentity info) w2")
        show ?thesis
        proof (cases d)
          case None
          then have "guard_attempts E dd persisted avoid exclude False n c1 w3 = (r, c', w')"
            using Suc.prems s \<open>s = Inr rs\<close> False i Inr d by simp
          from Suc.IH [OF this] n1 show ?thesis unfolding same_net_def by (metis (no_types, lifting))
        next
          case (Some ch)
          then have "r = None" "c' = c1\<lparr>tcGuardChan := Some ch, tcGuardInfo := info\<rparr>"
            using Suc.prems s \<open>s = Inr rs\<close> False i Inr d by auto
          moreover have "EdIdentity info = mdEd25519ID md" by (simp add: md toRelayInfo_def)
          ultimately show ?thesis using False mem md d Some n1 by (auto simp: same_net_def)
        qed
      qed
    qed
  qed
qed auto

lemma RSAIDDigest_toRelayInfo [simp]: "RSAIDDigest (toRelayInfo rs md) = rsIdentity rs"
  by (simp add: toRelayInfo_def)

lemma connectGuard_ok:
  assumes "connectGuard E dd avoid c w = (r, c', w')"
  shows "(r \<noteq> None \<longrightarrow> same_net c c') \<and>
    (r = None \<longrightarrow> tcSel c' = tcSel c \<and> (\<exists>rs md ch. avoid \<noteq> Some (rsIdentity rs) \<and> rs \<in> set (Routers (tcSel c)) \<and>
       tcGuardInfo c' = toRelayInfo rs md \<and> tcGuardChan c' = Some ch \<and>
       (\<exists>w1 w2. ceDial E (ORAddr (tcGuardInfo c')) (mdEd25519ID md) w1 = (Some ch, w2))))"
  using assms guard_attempts_ok unfolding connectGuard_def Let_def by (fastforce split: prod.splits)


text \<open>Rotating the guard either fails and leaves guard, channel and consensus untouched, or moves to a
  relay of the consensus with another identity, over a channel dialled to that relay's address with
  the Ed25519 identity its microdescriptor names.\<close>

theorem guard_rotation_moves_or_keeps:
  assumes "RSAIDDigest (tcGuardInfo c) \<noteq> []"
  shows "(case RotateGuard E c w of
      (Inl e, c', w') \<Rightarrow> tcGuardInfo c' = tcGuardInfo c \<and> tcGuardChan c' = tcGuardChan c \<and> tcSel c' = tcSel c
    | (Inr old, c', w') \<Rightarrow> old = tcGuardChan c \<and> RSAIDDigest (tcGuardInfo c') \<noteq> RSAIDDigest (tcGuardInfo c) \<and>
        (\<exists>rs \<in> set (Routers (tcSel c)). \<exists>md ch w1 w2. tcGuardInfo c' = toRelayInfo rs md \<and> tcGuardChan c' = Some ch \<and>
           ceDial E (ORAddr (tcGuardInfo c')) (mdEd25519ID md) w1 = (Some ch, w2)))"
proof -
  obtain r c' w' where r: "connectGuard E (tcDataDir c) (copy_id (RSAIDDigest (tcGuardInfo c))) c w = (r, c', w')"
    by (cases "connectGuard E (tcDataDir c) (copy_id (RSAIDDigest (tcGuardInfo c))) c w") auto
  note k = connectGuard_ok [OF r]
  show ?thesis
  proof (cases r)
    case None
    with k obtain rs md ch w1 w2 where x: "copy_id (RSAIDDigest (tcGuardInfo c)) \<noteq> Some (rsIdentity rs)" "rs \<in> set (Routers (tcSel c))"
      "tcGuardInfo c' = toRelayInfo rs md" "tcGuardChan c' = Some ch"
      "ceDial E (ORAddr (tcGuardInfo c')) (mdEd25519ID md) w1 = (Some ch, w2)" by blast
    then have "RSAIDDigest (tcGuardInfo c') \<noteq> RSAIDDigest (tcGuardInfo c)" using assms by (auto simp: copy_id_def)
    moreover have "RotateGuard E c w = (Inr (tcGuardChan c), c', w')" using r None by (simp add: RotateGuard_def)
    ultimately show ?thesis using x(2-5) by auto
  next
    case (Some e)
    then show ?thesis using r k by (auto simp: RotateGuard_def same_net_def)
  qed
qed

section \<open>Witnesses\<close>

definition small_router :: "byte \<Rightarrow> string \<Rightarrow> string set \<Rightarrow> routerStatus" where
  "small_router k ip fl = \<lparr>rsNickname = ''n'', rsIdentity = [k], rsIP = ip, rsORPort = 9001, rsDirPort = 0, rsIPv6 = [],
     rsMicrodescHash = ''h'', rsFlags = fl, rsBandwidth = 10, rsUnmeasured = False\<rparr>"

definition small_net :: consensus where
  "small_net = cons_zero\<lparr>Routers :=
     [small_router 1 ''1.1.0.1'' {''Running'', ''Valid'', ''Fast'', ''Stable'', ''Guard''},
      small_router 2 ''2.2.0.1'' {''Running'', ''Valid'', ''Fast''},
      small_router 3 ''3.3.0.1'' {''Running'', ''Valid'', ''Fast'', ''Exit''},
      small_router 4 ''4.4.0.1'' {''Running'', ''Valid'', ''Fast'', ''Stable'', ''Guard''}]\<rparr>"

definition small_md :: microdescriptor where
  "small_md = md_zero\<lparr>mdNtorOnionKey := replicate 32 1, mdEd25519ID := replicate 32 2\<rparr>"

definition small_env :: "unit cenv" where
  "small_env = \<lparr>ceRand = (\<lambda>w. (\<lambda>n. 0, w)), ceFetch = (\<lambda>hs w. (Some [''h'' \<mapsto> small_md], w)),
     ceFetchDirect = (\<lambda>hs w. (Some [''h'' \<mapsto> small_md], w)), ceDial = (\<lambda>a e w. (Some 7, w)),
     ceRead = (\<lambda>p w. (None, w)), ceWrite = (\<lambda>p d w. w), ceNow = Pair 0, ceRefresh = Pair None\<rparr>"

definition small_client :: torClient where
  "small_client = \<lparr>tcSel = small_net, tcGuardChan = Some 0, tcGuardInfo = toRelayInfo (small_router 1 ''1.1.0.1'' {}) small_md,
     tcMdCache = [''h'' \<mapsto> small_md], tcRing = None, tcOnionAuth = Map.empty, tcDataDir = []\<rparr>"

lemma small_ips:
  "ParseIP ''1.1.0.1'' = Some (replicate 10 0 @ [255, 255, 1, 1, 0, 1])" "ParseIP ''2.2.0.1'' = Some (replicate 10 0 @ [255, 255, 2, 2, 0, 1])"
  "ParseIP ''3.3.0.1'' = Some (replicate 10 0 @ [255, 255, 3, 3, 0, 1])" "ParseIP ''4.4.0.1'' = Some (replicate 10 0 @ [255, 255, 4, 4, 0, 1])"
  by code_simp+

lemma small_excluded:
  "excludedBy (small_router k ip fl) (Some (small_router k' ip' fl') # ex) \<longleftrightarrow>
     k = k' \<or> sameSlash16 (ParseIP ip) (ParseIP ip') \<or> excludedBy (small_router k ip fl) ex"
  by (simp add: small_router_def)

lemma small_slash16:
  "\<not> sameSlash16 (ParseIP ''2.2.0.1'') (ParseIP ''1.1.0.1'')" "\<not> sameSlash16 (ParseIP ''3.3.0.1'') (ParseIP ''1.1.0.1'')"
  "\<not> sameSlash16 (ParseIP ''3.3.0.1'') (ParseIP ''2.2.0.1'')" "\<not> sameSlash16 (ParseIP ''4.4.0.1'') (ParseIP ''1.1.0.1'')"
  "\<not> sameSlash16 (ParseIP ''4.4.0.1'') (ParseIP ''2.2.0.1'')"
  unfolding small_ips by code_simp+

lemma small_eligible:
  "baseEligible (small_router k ip fl) \<longleftrightarrow> {''Running'', ''Valid''} \<subseteq> fl"
  "HasFlag (small_router k ip fl) f \<longleftrightarrow> f \<in> fl"
  "weightedBw small_net (small_router k ip fl) key = 10"
  by (auto simp: small_router_def baseEligible_def HasFlag_def weightedBw_def small_net_def cons_zero_def)

definition small_g :: routerStatus where "small_g = small_router 1 ''1.1.0.1'' {''Running'', ''Valid'', ''Fast'', ''Stable'', ''Guard''}"

definition small_m :: routerStatus where "small_m = small_router 2 ''2.2.0.1'' {''Running'', ''Valid'', ''Fast''}"

definition small_x :: routerStatus where "small_x = small_router 3 ''3.3.0.1'' {''Running'', ''Valid'', ''Fast'', ''Exit''}"

definition small_h :: routerStatus where "small_h = small_router 4 ''4.4.0.1'' {''Running'', ''Valid'', ''Fast'', ''Stable'', ''Guard''}"

lemma small_routers: "Routers small_net = [small_g, small_m, small_x, small_h]"
  by (simp add: small_net_def small_g_def small_m_def small_x_def small_h_def)

lemmas small_relays = small_g_def small_m_def small_x_def small_h_def

lemma small_middle: "SelectMiddle small_net [Some small_g] (\<lambda>n. 0) = Inr 1"
  by (simp add: SelectMiddle_def selectWeighted_def small_routers small_relays small_eligible small_excluded small_slash16
      total_weight_def randInt63n_def del: excludedBy.simps(3))

lemma small_exit: "SelectExit small_net None [Some small_g, Some small_m] (\<lambda>n. 0) = Inr 2"
  by (simp add: SelectExit_def selectWeighted_def small_routers small_relays small_eligible small_excluded small_slash16
      total_weight_def randInt63n_def del: excludedBy.simps(3))

lemma small_guard: "SelectGuard small_net [Some small_g] (\<lambda>n. 0) = Inr 3"
  by (simp add: SelectGuard_def selectWeighted_def small_routers small_relays small_eligible small_excluded small_slash16
      total_weight_def randInt63n_def del: excludedBy.simps(3))

lemma small_find: "findRouterByIdentity small_client [1] = Some small_g"
  by (simp add: findRouterByIdentity_def small_client_def small_routers) (simp add: small_g_def small_router_def)

lemma small_client_fields:
  "tcSel small_client = small_net" "tcGuardChan small_client = Some 0" "RSAIDDigest (tcGuardInfo small_client) = [1]"
  "tcDataDir small_client = []"
  by (simp_all add: small_client_def toRelayInfo_def small_router_def)

lemma small_microdesc: "rsMicrodescHash rs = ''h'' \<Longrightarrow> microdescVia f rs small_client w = (Inr small_md, small_client, w)"
  by (simp add: microdescVia_def small_client_def)

lemma small_hash: "rsMicrodescHash small_g = ''h''" "rsMicrodescHash small_m = ''h''" "rsMicrodescHash small_x = ''h''"
    "rsMicrodescHash small_h = ''h''"
  by (simp_all add: small_relays small_router_def)

lemma small_family: "\<not> familyConflict rs small_md chosen"
  by (auto simp: familyConflict_def SameFamily_def small_md_def md_zero_def list_ex_iff)

lemma small_exit_path: "exit_path small_env 80 small_client () =
    (Inr (\<lparr>selRS = small_g, selMD = small_md\<rparr>, \<lparr>selRS = small_m, selMD = small_md\<rparr>, \<lparr>selRS = small_x, selMD = small_md\<rparr>), small_client, ())"
proof -
  have r: "ceRand small_env = (\<lambda>w. (\<lambda>n. 0, w))" by (simp add: small_env_def)
  have p: "Allows (mdExitPolicy small_md) 80" by (simp add: small_md_def md_zero_def Allows_def)
  show ?thesis
    by (simp add: exit_path_def selected_via_def small_client_fields small_find small_microdesc small_hash pickRelayVia_def
        with_rand_def r numeral_eq_Suc small_middle [unfolded One_nat_def] small_exit [unfolded numeral_2_eq_2] small_routers small_family p)
qed


lemma small_rotation: "RotateGuard small_env small_client () = (Inr (Some 0), small_client\<lparr>tcGuardChan := Some 7, tcGuardInfo := toRelayInfo small_h small_md\<rparr>, ())"
proof -
  have r: "ceRand small_env = (\<lambda>w. (\<lambda>n. 0, w))" "ceDial small_env = (\<lambda>a e w. (Some 7, w))" by (simp_all add: small_env_def)
  have h: "rsIdentity small_h \<noteq> [1]" by (simp add: small_h_def small_router_def)
  have "guard_attempts small_env [] [] (Some [1]) [Some small_g] True (Suc 7) small_client () =
      (None, small_client\<lparr>tcGuardChan := Some 7, tcGuardInfo := toRelayInfo small_h small_md\<rparr>, ())"
    unfolding guard_attempts.simps(2)
    by (simp add: small_client_fields with_rand_def r small_guard small_routers relay_info_def small_microdesc small_hash saveGuard_def h h [symmetric])
  then show ?thesis
    by (simp add: RotateGuard_def connectGuard_def copy_id_def small_client_fields small_find)
qed


theorem guard_rotation_moves_or_keeps_witness:
  "RSAIDDigest (tcGuardInfo small_client) \<noteq> [] \<and> RSAIDDigest (toRelayInfo small_h small_md) \<noteq> [1]"
  using guard_rotation_moves_or_keeps [of small_client small_env "()"] by (simp add: small_rotation small_client_fields)

end
