(* ===== verification/Onion_Addr.thy ===== *)
theory Onion_Addr
  imports Go_Doc Torcrypto "HOL-Library.List_Lexorder" "HOL-Library.Multiset"
begin

text \<open>
  Model of \<^verbatim>\<open>pkg/onion/address.go\<close>, \<^verbatim>\<open>timeperiod.go\<close> and \<^verbatim>\<open>hashring.go\<close>: v3 onion addresses, time periods,
  the choice of the shared random value, and the ring of hidden-service directories.  Base32
  without padding is modelled as \<^verbatim>\<open>encoding/base32\<close> decodes it; \<^verbatim>\<open>sort.Slice\<close> leaves the order of
  equal elements open and is therefore a parameter.  Times are nanoseconds since the Unix epoch, in UTC.
\<close>

section \<open>Base32\<close>

definition b32_char :: "nat \<Rightarrow> char" where
  "b32_char v = (if v < 26 then char_of (65 + v) else char_of (24 + v))"

definition b32_val :: "char \<Rightarrow> nat option" where
  "b32_val c = (let n = of_char c :: nat in
     if 65 \<le> n \<and> n \<le> 90 then Some (n - 65) else if 50 \<le> n \<and> n \<le> 55 then Some (n - 24) else None)"

text \<open>The 5-bit values of a text, and the bytes of 5-bit values: an incomplete last quantum of one,
  three or six values gives no byte.\<close>

fun b32_vals :: "nat list \<Rightarrow> nat list" where
  "b32_vals [] = []"
| "b32_vals [a] = [a div 8, a mod 8 * 4]"
| "b32_vals [a, b] = [a div 8, a mod 8 * 4 + b div 64, b div 2 mod 32, b mod 2 * 16]"
| "b32_vals [a, b, c] = [a div 8, a mod 8 * 4 + b div 64, b div 2 mod 32, b mod 2 * 16 + c div 16, c mod 16 * 2]"
| "b32_vals [a, b, c, d] = [a div 8, a mod 8 * 4 + b div 64, b div 2 mod 32, b mod 2 * 16 + c div 16,
     c mod 16 * 2 + d div 128, d div 4 mod 32, d mod 4 * 8]"
| "b32_vals (a # b # c # d # e # r) = [a div 8, a mod 8 * 4 + b div 64, b div 2 mod 32, b mod 2 * 16 + c div 16,
     c mod 16 * 2 + d div 128, d div 4 mod 32, d mod 4 * 8 + e div 32, e mod 32] @ b32_vals r"

fun b32_quanta :: "nat list \<Rightarrow> nat list" where
  "b32_quanta (a # b # c # d # e # f # g # h # r) =
     [a * 8 + b div 4, b mod 4 * 64 + c * 2 + d div 16, d mod 16 * 16 + e div 2, e mod 2 * 128 + f * 4 + g div 8,
      g mod 8 * 32 + h] @ b32_quanta r"
| "b32_quanta [a, b, c, d, e, f, g] =
     [a * 8 + b div 4, b mod 4 * 64 + c * 2 + d div 16, d mod 16 * 16 + e div 2, e mod 2 * 128 + f * 4 + g div 8]"
| "b32_quanta [a, b, c, d, e, f] = []"
| "b32_quanta [a, b, c, d, e] = [a * 8 + b div 4, b mod 4 * 64 + c * 2 + d div 16, d mod 16 * 16 + e div 2]"
| "b32_quanta [a, b, c, d] = [a * 8 + b div 4, b mod 4 * 64 + c * 2 + d div 16]"
| "b32_quanta [a, b, c] = []"
| "b32_quanta [a, b] = [a * 8 + b div 4]"
| "b32_quanta [a] = []"
| "b32_quanta [] = []"

definition b32_EncodeToString :: "bytes \<Rightarrow> string" where
  "b32_EncodeToString bs = map b32_char (b32_vals (map unat bs))"

definition b32_DecodeString :: "string \<Rightarrow> bytes option" where
  "b32_DecodeString s =
     map_option (map of_nat \<circ> b32_quanta) (those (map b32_val (filter (\<lambda>c. c \<noteq> CHR 0x0A \<and> c \<noteq> CHR 0x0D) s)))"

section \<open>Addresses\<close>

datatype addr_err = BadAddressLength | BadBase32 | BadDecodedLength | BadVersion | BadChecksum

definition addressChecksum :: "crypto \<Rightarrow> bytes \<Rightarrow> bytes" where
  "addressChecksum K pub = (let h = SHA3_256 K [bytes_of ''.onion checksum'', pub, [3]] in [h ! 0, h ! 1])"

definition ParseAddress :: "crypto \<Rightarrow> string \<Rightarrow> addr_err + bytes" where
  "ParseAddress K host =
     (let h = ToLower (TrimSuffix (ToLower host) ''.onion'') in
      if length h \<noteq> 56 then Inl BadAddressLength
      else case b32_DecodeString (ToUpper h) of
        None \<Rightarrow> Inl BadBase32
      | Some raw \<Rightarrow>
          if length raw \<noteq> 35 then Inl BadDecodedLength
          else let pub = take 32 raw; checksum = take 2 (drop 32 raw) in
               if raw ! 34 \<noteq> 3 then Inl BadVersion
               else let want = addressChecksum K pub in
                    if want ! 0 \<noteq> checksum ! 0 \<or> want ! 1 \<noteq> checksum ! 1 then Inl BadChecksum else Inr pub)"

definition Address_String :: "crypto \<Rightarrow> bytes \<Rightarrow> string" where
  "Address_String K pub =
     (let cs = addressChecksum K pub in ToLower (b32_EncodeToString (pub @ [cs ! 0, cs ! 1, 3])) @ ''.onion'')"

definition Credential :: "crypto \<Rightarrow> bytes \<Rightarrow> bytes" where
  "Credential K identityPub = SHA3_256 K [bytes_of ''credential'', identityPub]"

definition Subcredential :: "crypto \<Rightarrow> bytes \<Rightarrow> bytes \<Rightarrow> bytes" where
  "Subcredential K identityPub blindedPub = SHA3_256 K [bytes_of ''subcredential'', Credential K identityPub, blindedPub]"

section \<open>Time periods\<close>

definition TimePeriod :: "int \<Rightarrow> u64 \<times> u64" where
  "TimePeriod now = (let minutes = (of_int (now div nanos) :: u64) div 60 in ((minutes - 720) div 1440, 1440))"

definition SRVForFetch :: "int \<Rightarrow> bytes \<Rightarrow> bytes \<Rightarrow> bytes" where
  "SRVForFetch validAfter currentSRV previousSRV =
     (let hour = (validAfter div nanos) mod 86400 div 3600 in
      if hour \<ge> 12 then (if length currentSRV = 32 then currentSRV else previousSRV)
      else if length previousSRV = 32 then previousSRV else currentSRV)"

definition DisasterSRV :: "crypto \<Rightarrow> u64 \<Rightarrow> u64 \<Rightarrow> bytes" where
  "DisasterSRV K periodNum periodLength =
     SHA3_256 K [bytes_of ''shared-random-disaster'', be64 periodLength, be64 periodNum]"

section \<open>The ring\<close>

record 'p ringNode =
  rnEdID :: bytes
  rnNode :: 'p

definition serviceIndex :: "crypto \<Rightarrow> bytes \<Rightarrow> u64 \<Rightarrow> u64 \<Rightarrow> u64 \<Rightarrow> bytes" where
  "serviceIndex K blindedKey replica periodLength periodNum =
     SHA3_256 K [bytes_of ''store-at-idx'', blindedKey, be64 replica, be64 periodLength, be64 periodNum]"

definition nodeIndex :: "crypto \<Rightarrow> bytes \<Rightarrow> bytes \<Rightarrow> u64 \<Rightarrow> u64 \<Rightarrow> bytes" where
  "nodeIndex K edID srv periodNum periodLength =
     SHA3_256 K [bytes_of ''node-idx'', edID, srv, be64 periodNum, be64 periodLength]"

text \<open>\<^verbatim>\<open>sort.Search\<close>: the binary search between \<open>i\<close> and \<open>j\<close>.\<close>

function sort_search :: "(nat \<Rightarrow> bool) \<Rightarrow> nat \<Rightarrow> nat \<Rightarrow> nat" where
  "sort_search f i j =
     (if i < j then let h = (i + j) div 2 in if \<not> f h then sort_search f (h + 1) j else sort_search f i h else i)"
  by pat_completeness auto
termination
  by (relation "measure (\<lambda>(f, i, j). j - i)") auto

declare sort_search.simps [simp del]

text \<open>The nodes one replica takes: at most \<open>budget\<close>, walking the ring from \<open>start + off\<close> for \<open>n\<close> more entries.\<close>

fun take_spread :: "(bytes \<times> 'p ringNode) list \<Rightarrow> nat \<Rightarrow> nat \<Rightarrow> nat \<Rightarrow> nat \<Rightarrow> bytes set \<Rightarrow> 'p ringNode list \<times> bytes set" where
  "take_spread ring start off 0 taken chosen = ([], chosen)"
| "take_spread ring start off (Suc n) taken chosen =
     (if \<not> taken < 3 then ([], chosen)
      else let e = ring ! ((start + off) mod length ring); key = rnEdID (snd e) in
           if key \<in> chosen then take_spread ring start (off + 1) n taken chosen
           else let (out, chosen) = take_spread ring start (off + 1) n (taken + 1) (insert key chosen)
                in (snd e # out, chosen))"

definition replica_nodes :: "(bytes \<times> 'p ringNode) list \<Rightarrow> bytes \<Rightarrow> bytes set \<Rightarrow> 'p ringNode list \<times> bytes set" where
  "replica_nodes ring svcIdx chosen =
     take_spread ring (sort_search (\<lambda>i. svcIdx < fst (ring ! i)) 0 (length ring)) 0 (length ring) 0 chosen"

definition ResponsibleHSDirs :: "crypto \<Rightarrow> ((bytes \<times> 'p ringNode) list \<Rightarrow> (bytes \<times> 'p ringNode) list) \<Rightarrow>
    bytes \<Rightarrow> u64 \<Rightarrow> u64 \<Rightarrow> bytes \<Rightarrow> 'p ringNode list \<Rightarrow> 'p ringNode list" where
  "ResponsibleHSDirs K srt blindedKey periodNum periodLength srv nodes =
     (let ring = srt (map (\<lambda>n. (nodeIndex K (rnEdID n) srv periodNum periodLength, n)) (filter (\<lambda>n. length (rnEdID n) = 32) nodes)) in
      if ring = [] then []
      else let (o1, chosen) = replica_nodes ring (serviceIndex K blindedKey 1 periodLength periodNum) {};
               (o2, chosen) = replica_nodes ring (serviceIndex K blindedKey 2 periodLength periodNum) chosen
           in o1 @ o2)"

section \<open>Base32 round trip\<close>

lemma div_add_lt: "y < k \<Longrightarrow> (x * k + y) div k = (x :: nat)" "y < k \<Longrightarrow> (x * k + y) mod k = (y :: nat)"
  by auto

lemma regroup: "(q * 32 + m) * 2 + r = (b :: nat) \<Longrightarrow> q * 64 + m * 2 + r = b" "(q * 32 + m) * 4 + r = (b :: nat) \<Longrightarrow> q * 128 + m * 4 + r = b"
  by simp_all

lemma quanta_byte:
  assumes "a < 256" "b < 256" "c < 256" "d < 256" "e < 256"
  shows "a div 8 * 8 + (a mod 8 * 4 + b div 64) div 4 = (a :: nat)"
    "(a mod 8 * 4 + b div 64) mod 4 * 64 + b div 2 mod 32 * 2 + (b mod 2 * 16 + c div 16) div 16 = b"
    "(b mod 2 * 16 + c div 16) mod 16 * 16 + (c mod 16 * 2 + d div 128) div 2 = c"
    "(c mod 16 * 2 + d div 128) mod 2 * 128 + d div 4 mod 32 * 4 + (d mod 4 * 8 + e div 32) div 8 = d"
    "(d mod 4 * 8 + e div 32) mod 8 * 32 + e mod 32 = e"
proof -
  have l: "b div 64 < 4" "c div 16 < 16" "d div 128 < 2" "e div 32 < 8" using assms by auto
  show "a div 8 * 8 + (a mod 8 * 4 + b div 64) div 4 = a" using l by (simp add: div_add_lt)
  show "(b mod 2 * 16 + c div 16) mod 16 * 16 + (c mod 16 * 2 + d div 128) div 2 = c" using l by (simp add: div_add_lt)
  show "(d mod 4 * 8 + e div 32) mod 8 * 32 + e mod 32 = e" using l by (simp add: div_add_lt)
  have "b div 64 * 64 + b div 2 mod 32 * 2 + b mod 2 = b"
  proof -
    have "(b div 2 div 32 * 32 + b div 2 mod 32) * 2 + b mod 2 = b" by (simp only: div_mult_mod_eq)
    moreover have "b div 64 = b div 2 div 32" using div_mult2_eq [of b 2 32] by simp
    ultimately show ?thesis by (simp only:) (rule regroup)
  qed
  then show "(a mod 8 * 4 + b div 64) mod 4 * 64 + b div 2 mod 32 * 2 + (b mod 2 * 16 + c div 16) div 16 = b"
    using l by (simp add: div_add_lt)
  have "d div 128 * 128 + d div 4 mod 32 * 4 + d mod 4 = d"
  proof -
    have "(d div 4 div 32 * 32 + d div 4 mod 32) * 4 + d mod 4 = d" by (simp only: div_mult_mod_eq)
    moreover have "d div 128 = d div 4 div 32" using div_mult2_eq [of d 4 32] by simp
    ultimately show ?thesis by (simp only:) (rule regroup)
  qed
  then show "(c mod 16 * 2 + d div 128) mod 2 * 128 + d div 4 mod 32 * 4 + (d mod 4 * 8 + e div 32) div 8 = d"
    using l by (simp add: div_add_lt)
qed

lemma quanta_vals: "length as mod 5 = 0 \<Longrightarrow> \<forall>a \<in> set as. a < 256 \<Longrightarrow> b32_quanta (b32_vals as) = as"
proof (induction as rule: b32_vals.induct)
  case (6 a b c d e r)
  have "length r mod 5 = 0" using 6(2) by (simp add: mod_Suc split: if_splits)
  then have "b32_quanta (b32_vals r) = r" using 6(3) by (intro 6(1)) auto
  moreover have "a < 256" "b < 256" "c < 256" "d < 256" "e < 256" using 6(3) by auto
  ultimately show ?case by (simp only: b32_vals.simps b32_quanta.simps append.simps quanta_byte)
qed simp_all

lemma vals_quantum:
  assumes "a < 32" "b < 32" "c < 32" "d < 32" "e < 32" "f < 32" "g < 32" "h < 32"
  shows "(a * 8 + b div 4) div 8 = (a :: nat)"
    "(a * 8 + b div 4) mod 8 * 4 + (b mod 4 * 64 + c * 2 + d div 16) div 64 = b"
    "(b mod 4 * 64 + c * 2 + d div 16) div 2 mod 32 = c"
    "(b mod 4 * 64 + c * 2 + d div 16) mod 2 * 16 + (d mod 16 * 16 + e div 2) div 16 = d"
    "(d mod 16 * 16 + e div 2) mod 16 * 2 + (e mod 2 * 128 + f * 4 + g div 8) div 128 = e"
    "(e mod 2 * 128 + f * 4 + g div 8) div 4 mod 32 = f"
    "(e mod 2 * 128 + f * 4 + g div 8) mod 4 * 8 + (g mod 8 * 32 + h) div 32 = g"
    "(g mod 8 * 32 + h) mod 32 = h"
proof -
  have l: "b div 4 < 8" "c * 2 + d div 16 < 64" "d div 16 < 2" "e div 2 < 16" "f * 4 + g div 8 < 128" "g div 8 < 4"
    using assms by auto
  show "(a * 8 + b div 4) div 8 = a" using l by (simp add: div_add_lt)
  show "(a * 8 + b div 4) mod 8 * 4 + (b mod 4 * 64 + c * 2 + d div 16) div 64 = b"
    using l div_add_lt(1) [OF l(2), of "b mod 4"] by (simp add: div_add_lt add.assoc)
  have x: "b mod 4 * 64 + c * 2 + d div 16 = (b mod 4 * 32 + c) * 2 + d div 16" by simp
  show "(b mod 4 * 64 + c * 2 + d div 16) div 2 mod 32 = c"
    unfolding x using l assms by (simp only: div_add_lt)
  show "(b mod 4 * 64 + c * 2 + d div 16) mod 2 * 16 + (d mod 16 * 16 + e div 2) div 16 = d"
    unfolding x using l by (simp only: div_add_lt) simp
  have y: "e mod 2 * 128 + f * 4 + g div 8 = (e mod 2 * 32 + f) * 4 + g div 8" by simp
  show "(d mod 16 * 16 + e div 2) mod 16 * 2 + (e mod 2 * 128 + f * 4 + g div 8) div 128 = e"
    using l div_add_lt(1) [OF l(5), of "e mod 2"] by (simp add: div_add_lt add.assoc)
  show "(e mod 2 * 128 + f * 4 + g div 8) div 4 mod 32 = f"
    unfolding y using l assms by (simp only: div_add_lt)
  show "(e mod 2 * 128 + f * 4 + g div 8) mod 4 * 8 + (g mod 8 * 32 + h) div 32 = g"
    unfolding y using l assms by (simp only: div_add_lt) simp
  show "(g mod 8 * 32 + h) mod 32 = h" using assms by (simp add: div_add_lt)
qed

lemma vals_quanta: "length vs mod 8 = 0 \<Longrightarrow> \<forall>v \<in> set vs. v < 32 \<Longrightarrow> b32_vals (b32_quanta vs) = vs"
proof (induction vs rule: b32_quanta.induct)
  case (1 a b c d e f g h r)
  have "length r mod 8 = 0" using 1(2) by (simp add: mod_Suc split: if_splits)
  then have "b32_vals (b32_quanta r) = r" using 1(3) by (intro 1(1)) auto
  moreover have "a < 32" "b < 32" "c < 32" "d < 32" "e < 32" "f < 32" "g < 32" "h < 32" using 1(3) by auto
  ultimately show ?case by (simp only: b32_vals.simps b32_quanta.simps append.simps vals_quantum)
qed simp_all

lemma quanta_length: "8 * length (b32_quanta vs) \<le> 5 * length vs"
  by (induction vs rule: b32_quanta.induct) auto

lemma comb_less: "x < m \<Longrightarrow> y < k \<Longrightarrow> x * k + y < m * (k :: nat)"
proof -
  assume a: "x < m" "y < k"
  then have "x * k + y < Suc x * k" by simp
  also have "Suc x * k \<le> m * k" using a by (intro mult_le_mono) auto
  finally show ?thesis .
qed

lemma div_less: "x < m * k \<Longrightarrow> x div k < (m :: nat)"
  by (rule less_mult_imp_div_less)

lemma quantum_less:
  assumes "a < 32" "b < 32" "c < 32" "d < 32" "e < 32" "f < 32" "g < 32" "h < (32 :: nat)"
  shows "a * 8 + b div 4 < 256" "b mod 4 * 64 + c * 2 + d div 16 < 256" "d mod 16 * 16 + e div 2 < 256"
    "e mod 2 * 128 + f * 4 + g div 8 < 256" "g mod 8 * 32 + h < 256"
proof -
  have m: "b mod 4 < 4" "d mod 16 < 16" "e mod 2 < 2" "g mod 8 < 8" by simp_all
  show "a * 8 + b div 4 < 256" using comb_less [OF assms(1) div_less [of b 8 4]] assms(2) by simp
  show "b mod 4 * 64 + c * 2 + d div 16 < 256"
    using comb_less [OF m(1) comb_less [OF assms(3) div_less [of d 2 16]]] assms(4) by (simp add: add.assoc)
  show "d mod 16 * 16 + e div 2 < 256" using comb_less [OF m(2) div_less [of e 16 2]] assms(5) by simp
  show "e mod 2 * 128 + f * 4 + g div 8 < 256"
    using comb_less [OF m(3) comb_less [OF assms(6) div_less [of g 4 8]]] assms(7) by (simp add: add.assoc)
  show "g mod 8 * 32 + h < 256" using comb_less [OF m(4) assms(8)] by simp
qed

lemma quanta_small: "length vs mod 8 = 0 \<Longrightarrow> \<forall>v \<in> set vs. v < 32 \<Longrightarrow> list_all (\<lambda>a. a < 256) (b32_quanta vs)"
proof (induction vs rule: b32_quanta.induct)
  case (1 a b c d e f g h r)
  have "length r mod 8 = 0" using 1(2) by (simp add: mod_Suc split: if_splits)
  then have "list_all (\<lambda>a. a < 256) (b32_quanta r)" using 1(3) by (intro 1(1)) auto
  moreover have "a < 32" "b < 32" "c < 32" "d < 32" "e < 32" "f < 32" "g < 32" "h < 32" using 1(3) by auto
  ultimately show ?case by (simp only: b32_quanta.simps append.simps list.pred_inject quantum_less simp_thms)
qed simp_all

lemma vals_small: "length as mod 5 = 0 \<Longrightarrow> \<forall>a \<in> set as. a < 256 \<Longrightarrow> list_all (\<lambda>v. v < 32) (b32_vals as)"
proof (induction as rule: b32_vals.induct)
  case (6 a b c d e r)
  have "length r mod 5 = 0" using 6(2) by (simp add: mod_Suc split: if_splits)
  then have "list_all (\<lambda>v. v < 32) (b32_vals r)" using 6(3) by (intro 6(1)) auto
  moreover have l: "a < 256" "b < 256" "c < 256" "d < 256" "e < 256" using 6(3) by auto
  have m: "a mod 8 < 8" "b mod 2 < 2" "c mod 16 < 16" "d mod 4 < 4" by simp_all
  have "a div 8 < 32" using l(1) by (intro div_less) simp
  moreover have "a mod 8 * 4 + b div 64 < 32" using comb_less [OF m(1) div_less [of b 4 64]] l(2) by simp
  moreover have "b div 2 mod 32 < 32" "e mod 32 < 32" "d div 4 mod 32 < 32" by simp_all
  moreover have "b mod 2 * 16 + c div 16 < 32" using comb_less [OF m(2) div_less [of c 16 16]] l(3) by simp
  moreover have "c mod 16 * 2 + d div 128 < 32" using comb_less [OF m(3) div_less [of d 2 128]] l(4) by simp
  moreover have "d mod 4 * 8 + e div 32 < 32" using comb_less [OF m(4) div_less [of e 8 32]] l(5) by simp
  ultimately show ?case by (simp only: b32_vals.simps append.simps list.pred_inject simp_thms)
qed simp_all

lemma vals_length: "length as mod 5 = 0 \<Longrightarrow> 5 * length (b32_vals as) = 8 * length as"
proof (induction as rule: b32_vals.induct)
  case (6 a b c d e r)
  have "length r mod 5 = 0" using 6(2) by (simp add: mod_Suc split: if_splits)
  then show ?case using 6(1) by simp
qed simp_all

lemma b32_val_char [simp]: "v < 32 \<Longrightarrow> b32_val (b32_char v) = Some v"
  by (auto simp: b32_val_def b32_char_def)

lemma b32_char_val: "b32_val c = Some v \<Longrightarrow> v < 32 \<and> b32_char v = c"
  by (auto simp: b32_val_def b32_char_def Let_def split: if_splits)

lemma b32_val_newline [simp]: "b32_val (CHR 0x0A) = None" "b32_val (CHR 0x0D) = None"
  by (simp_all add: b32_val_def)

lemma those_map_val: "those (map b32_val s) = Some vs \<longleftrightarrow> list_all (\<lambda>v. v < 32) vs \<and> s = map b32_char vs"
proof (induction s arbitrary: vs)
  case (Cons c s)
  show ?case
  proof (cases "b32_val c")
    case None
    then have "\<not> (\<exists>v < 32. c = b32_char v)" by auto
    then show ?thesis using None by (cases vs) auto
  next
    case (Some v)
    note c = b32_char_val [OF Some]
    show ?thesis
    proof (cases vs)
      case (Cons x xs)
      have "x = v \<longleftrightarrow> x < 32 \<and> b32_char x = b32_char v" using c Some by (metis b32_val_char option.inject)
      then show ?thesis using Cons.IH [of xs] Some c Cons by auto
    qed (use Some in simp)
  qed
qed auto

text \<open>Texts of whole quanta decode to exactly the bytes they encode.\<close>

lemma b32_decode_iff:
  assumes "8 * length raw = 5 * length s" "length s mod 8 = 0"
  shows "b32_DecodeString s = Some raw \<longleftrightarrow> s = b32_EncodeToString raw"
proof
  let ?f = "filter (\<lambda>c. c \<noteq> CHR 0x0A \<and> c \<noteq> CHR 0x0D) s"
  assume "b32_DecodeString s = Some raw"
  then obtain vs where vs: "those (map b32_val ?f) = Some vs" "raw = map of_nat (b32_quanta vs)"
    by (auto simp: b32_DecodeString_def)
  then have v: "list_all (\<lambda>v. v < 32) vs" "?f = map b32_char vs" by (simp_all add: those_map_val)
  have "length vs = length ?f" using v(2) by simp
  then have "length s \<le> length ?f" using assms(1) quanta_length [of vs] vs(2) by simp
  then have "?f = s" using length_filter_le by (metis filter_id_conv length_filter_less linorder_not_le)
  then have m: "length vs mod 8 = 0" "s = map b32_char vs" using v(2) assms(2) by (auto dest: arg_cong [of _ _ length])
  have "map unat raw = b32_quanta vs"
    using quanta_small [OF m(1)] v(1) by (auto simp: vs(2) list_all_iff unat_of_nat_byte intro!: map_idI)
  then show "s = b32_EncodeToString raw"
    using vals_quanta [OF m(1)] v(1) m(2) by (simp add: b32_EncodeToString_def list_all_iff)
next
  assume s: "s = b32_EncodeToString raw"
  let ?vs = "b32_vals (map unat raw)"
  have l: "length (map unat raw) mod 5 = 0" using assms(1) by (simp) presburger
  have b: "\<forall>a \<in> set (map unat raw). a < 256" by (auto simp: unat_byte_lt)
  note v = vals_small [OF l b]
  have n: "filter (\<lambda>c. c \<noteq> CHR 0x0A \<and> c \<noteq> CHR 0x0D) s = s"
    using v unfolding s b32_EncodeToString_def by (auto simp: filter_id_conv list_all_iff) (metis b32_val_char b32_val_newline option.distinct(1))+
  have "those (map b32_val s) = Some ?vs" using v unfolding those_map_val by (simp add: s b32_EncodeToString_def)
  then have "b32_DecodeString s = Some (map of_nat (b32_quanta ?vs))" by (simp add: b32_DecodeString_def n)
  also have "b32_quanta ?vs = map unat raw" by (rule quanta_vals [OF l b])
  finally show "b32_DecodeString s = Some raw" by (simp add: o_def)
qed

section \<open>Which names are addresses\<close>

lemma lower_char: "to_lower_char (to_lower_char c) = to_lower_char c" "to_lower_char (to_upper_char c) = to_lower_char c"
  by (auto simp: to_lower_char_def to_upper_char_def)

lemma lower_lower [simp]: "ToLower (ToLower s) = ToLower s" "ToLower (ToUpper s) = ToLower s"
  by (simp_all add: ToLower_def ToUpper_def lower_char)

lemma lower_TrimSuffix: "ToLower (TrimSuffix (ToLower s) t) = TrimSuffix (ToLower s) t"
  by (simp add: TrimSuffix_def ToLower_def lower_char take_map)

lemma upper_lower_b32: "v < 32 \<Longrightarrow> to_upper_char (to_lower_char (b32_char v)) = b32_char v"
  by (auto simp: b32_char_def to_upper_char_def to_lower_char_def)

lemma upper_lower_enc: "length raw mod 5 = 0 \<Longrightarrow> ToUpper (ToLower (b32_EncodeToString raw)) = b32_EncodeToString raw"
  using vals_small [of "map unat raw"]
  by (auto simp: b32_EncodeToString_def ToUpper_def ToLower_def list_all_iff unat_byte_lt upper_lower_b32)

lemma length_enc: "length raw = 35 \<Longrightarrow> length (b32_EncodeToString raw) = 56"
  using vals_length [of "map unat raw"] by (simp add: b32_EncodeToString_def)

lemma length_lower [simp]: "length (ToLower s) = length s" "length (ToUpper s) = length s"
  by (simp_all add: ToLower_def ToUpper_def)

lemma lower_enc_iff:
  assumes "length raw = 35" "length h = 56" "ToLower h = h"
  shows "b32_DecodeString (ToUpper h) = Some raw \<longleftrightarrow> h = ToLower (b32_EncodeToString raw)"
proof -
  have "b32_DecodeString (ToUpper h) = Some raw \<longleftrightarrow> ToUpper h = b32_EncodeToString raw"
    using assms by (intro b32_decode_iff) simp_all
  also have "\<dots> \<longleftrightarrow> h = ToLower (b32_EncodeToString raw)"
  proof
    assume "ToUpper h = b32_EncodeToString raw"
    then show "h = ToLower (b32_EncodeToString raw)" using assms(3) lower_lower(2) [of h] by simp
  next
    assume "h = ToLower (b32_EncodeToString raw)"
    then show "ToUpper h = b32_EncodeToString raw" using assms(1) upper_lower_enc [of raw] by simp
  qed
  finally show ?thesis .
qed

definition address_raw :: "crypto \<Rightarrow> bytes \<Rightarrow> bytes" where
  "address_raw K pub = pub @ addressChecksum K pub @ [3]"

lemma length_checksum [simp]: "length (addressChecksum K pub) = 2"
  by (simp add: addressChecksum_def Let_def)

lemma Address_String_raw: "Address_String K pub = ToLower (b32_EncodeToString (address_raw K pub)) @ ''.onion''"
  by (simp add: Address_String_def address_raw_def addressChecksum_def Let_def)

lemma raw_is_address:
  assumes "length raw = 35"
  shows "raw ! 34 = 3 \<and> addressChecksum K (take 32 raw) ! 0 = take 2 (drop 32 raw) ! 0 \<and>
     addressChecksum K (take 32 raw) ! 1 = take 2 (drop 32 raw) ! 1 \<longleftrightarrow> raw = address_raw K (take 32 raw)"
proof -
  obtain x y z where t: "drop 32 raw = [x, y, z]"
    using assms by (auto simp: numeral_eq_Suc length_Suc_conv dest!: arg_cong [of _ _ length, of "drop 32 raw"])
  obtain u v where c: "addressChecksum K (take 32 raw) = [u, v]" by (simp add: addressChecksum_def Let_def)
  have r: "raw = take 32 raw @ [x, y, z]" using t by (metis append_take_drop_id)
  have "raw ! 34 = z" using arg_cong [OF r, of "\<lambda>l. l ! 34"] assms by (simp add: nth_append)
  moreover have "raw = address_raw K (take 32 raw) \<longleftrightarrow> [x, y, z] = [u, v, 3]"
    unfolding address_raw_def c by (subst r) simp
  ultimately show ?thesis by (auto simp: t c)
qed


text \<open>C31: A name is accepted as an onion address exactly when, in lower case and without the \<^verbatim>\<open>.onion\<close>
  suffix, it is the text of a 32-byte public key with its checksum and version; that key is the
  result, so every key has exactly one address and printing it parses back.\<close>

theorem onion_address_iff:
  "ParseAddress K host = Inr pub \<longleftrightarrow>
     length pub = 32 \<and> TrimSuffix (ToLower host) ''.onion'' @ ''.onion'' = Address_String K pub"
proof -
  let ?h = "TrimSuffix (ToLower host) ''.onion''"
  have lo: "ToLower ?h = ?h" by (rule lower_TrimSuffix)
  have a: "?h @ ''.onion'' = Address_String K pub \<longleftrightarrow> ?h = ToLower (b32_EncodeToString (address_raw K pub))"
    by (simp add: Address_String_raw)
  show ?thesis
  proof
    assume r: "ParseAddress K host = Inr pub"
    then obtain raw where raw: "length ?h = 56" "b32_DecodeString (ToUpper ?h) = Some raw" "length raw = 35" "pub = take 32 raw"
      "raw ! 34 = 3 \<and> addressChecksum K (take 32 raw) ! 0 = take 2 (drop 32 raw) ! 0 \<and>
       addressChecksum K (take 32 raw) ! 1 = take 2 (drop 32 raw) ! 1"
      unfolding ParseAddress_def Let_def lo by (auto split: if_splits option.splits)
    then have "raw = address_raw K pub" using raw_is_address by blast
    moreover have "?h = ToLower (b32_EncodeToString raw)" using lower_enc_iff [OF raw(3,1) lo] raw(2) by blast
    ultimately show "length pub = 32 \<and> ?h @ ''.onion'' = Address_String K pub" using raw(3,4) a by simp
  next
    assume r: "length pub = 32 \<and> ?h @ ''.onion'' = Address_String K pub"
    let ?raw = "address_raw K pub"
    have l: "length ?raw = 35" "take 32 ?raw = pub" using r by (simp_all add: address_raw_def)
    have h: "?h = ToLower (b32_EncodeToString ?raw)" using r a by blast
    then have "length ?h = 56" using length_enc [OF l(1)] by simp
    moreover from this have "b32_DecodeString (ToUpper ?h) = Some ?raw" using lower_enc_iff [OF l(1) _ lo] h by blast
    moreover have "?raw ! 34 = 3 \<and> addressChecksum K pub ! 0 = take 2 (drop 32 ?raw) ! 0 \<and>
       addressChecksum K pub ! 1 = take 2 (drop 32 ?raw) ! 1" using raw_is_address [OF l(1), of K] l(2) by simp
    ultimately show "ParseAddress K host = Inr pub"
      unfolding ParseAddress_def Let_def lo using l by simp
  qed
qed

section \<open>Time periods and shared random values\<close>

lemma unat_of_int_small: "0 \<le> x \<Longrightarrow> x < 2 ^ 64 \<Longrightarrow> unat (of_int x :: u64) = nat x"
proof -
  assume "0 \<le> x" "x < 2 ^ 64"
  then have "uint (of_int x :: u64) = x" by (simp add: uint_word_of_int)
  then show ?thesis by (simp add: unat_eq_nat_uint)
qed

lemma unat_div_u64: "unat ((a :: u64) div b) = unat a div unat b"
  by (simp add: unat_div)

lemma TimePeriod_nat:
  assumes "43200 * nanos \<le> now" "now < 2 ^ 63 * nanos"
  shows "unat (fst (TimePeriod now)) = (nat (now div nanos) div 60 - 720) div 1440"
proof -
  have s: "43200 \<le> now div nanos" "now div nanos < 2 ^ 63" using assms by auto
  then have m: "unat ((of_int (now div nanos) :: u64) div 60) = nat (now div nanos) div 60"
    by (simp add: unat_div_u64 unat_of_int_small)
  have "43200 \<le> nat (now div nanos)" using s(1) by simp
  from div_le_mono [OF this, of 60] have "720 \<le> nat (now div nanos) div 60" by simp
  then have "(720 :: u64) \<le> of_int (now div nanos) div 60" unfolding word_le_nat_alt m by simp
  then have "unat ((of_int (now div nanos) :: u64) div 60 - 720) = nat (now div nanos) div 60 - 720"
    by (simp add: unat_sub m)
  then show ?thesis by (simp add: TimePeriod_def Let_def unat_div_u64)
qed

section \<open>The search on the ring\<close>

lemma sort_search_ok:
  assumes "i \<le> j" "\<And>x y. i \<le> x \<Longrightarrow> x \<le> y \<Longrightarrow> y < j \<Longrightarrow> f x \<Longrightarrow> f y"
  shows "i \<le> sort_search f i j \<and> sort_search f i j \<le> j \<and> (\<forall>x. i \<le> x \<and> x < sort_search f i j \<longrightarrow> \<not> f x) \<and>
     (\<forall>x. sort_search f i j \<le> x \<and> x < j \<longrightarrow> f x)"
  using assms
proof (induction f i j rule: sort_search.induct)
  case (1 f i j)
  let ?h = "(i + j) div 2"
  show ?case
  proof (cases "i < j")
    case True
    then have h: "i \<le> ?h" "?h < j" by auto
    show ?thesis
    proof (cases "f ?h")
      case False
      have IH: "?h + 1 \<le> sort_search f (?h + 1) j \<and> sort_search f (?h + 1) j \<le> j \<and>
          (\<forall>x. ?h + 1 \<le> x \<and> x < sort_search f (?h + 1) j \<longrightarrow> \<not> f x) \<and> (\<forall>x. sort_search f (?h + 1) j \<le> x \<and> x < j \<longrightarrow> f x)"
      proof (rule 1(1) [OF True refl False])
        show "?h + 1 \<le> j" using h(2) by linarith
        show "f y" if "?h + 1 \<le> x" "x \<le> y" "y < j" "f x" for x y
          using 1(4) [OF _ that(2-4)] that(1) h(1) by linarith
      qed
      have lo: "\<not> f x" if "i \<le> x" "x < ?h + 1" for x using 1(4) [of x ?h] that h False by (metis Suc_eq_plus1 less_Suc_eq_le)
      have e: "sort_search f i j = sort_search f (?h + 1) j" using True False sort_search.simps [of f i j] by (simp add: Let_def)
      show ?thesis unfolding e using IH h(1) lo by (meson le_trans not_le le_add1)
    next
      case f: True
      have IH: "i \<le> sort_search f i ?h \<and> sort_search f i ?h \<le> ?h \<and>
          (\<forall>x. i \<le> x \<and> x < sort_search f i ?h \<longrightarrow> \<not> f x) \<and> (\<forall>x. sort_search f i ?h \<le> x \<and> x < ?h \<longrightarrow> f x)"
      proof (rule 1(2) [OF True refl])
        show "\<not> \<not> f ?h" using f by simp
        show "f y" if "i \<le> x" "x \<le> y" "y < ?h" "f x" for x y
          using 1(4) [OF that(1,2) _ that(4)] that(3) h(2) by linarith
      qed (rule h(1))
      have hi: "f x" if "?h \<le> x" "x < j" for x using 1(4) [of ?h x] that h f by auto
      have e: "sort_search f i j = sort_search f i ?h" using True f sort_search.simps [of f i j] by (simp add: Let_def)
      show ?thesis unfolding e using IH h(2) hi by (meson le_trans less_imp_le not_le)
    qed
  next
    case False
    then have "sort_search f i j = i" by (simp add: sort_search.simps)
    then show ?thesis using 1(3) False by auto
  qed
qed

section \<open>The directories of a replica\<close>

text \<open>The reference: walk the ring clockwise from the index and take the first three nodes whose
  identity has not been taken.\<close>

definition clockwise :: "bytes \<Rightarrow> (bytes \<times> 'p ringNode) list \<Rightarrow> 'p ringNode list" where
  "clockwise svcIdx ring = map snd (filter (\<lambda>e. svcIdx < fst e) ring @ filter (\<lambda>e. \<not> svcIdx < fst e) ring)"

fun new_nodes :: "bytes set \<Rightarrow> 'p ringNode list \<Rightarrow> 'p ringNode list" where
  "new_nodes chosen [] = []"
| "new_nodes chosen (n # ns) =
     (if rnEdID n \<in> chosen then new_nodes chosen ns else n # new_nodes (insert (rnEdID n) chosen) ns)"

definition responsible :: "(bytes \<times> 'p ringNode) list \<Rightarrow> bytes \<Rightarrow> bytes \<Rightarrow> 'p ringNode list" where
  "responsible ring idx1 idx2 =
     (let first = take 3 (new_nodes {} (clockwise idx1 ring))
      in first @ take 3 (new_nodes (rnEdID ` set first) (clockwise idx2 ring)))"

lemma take_spread_new:
  "taken \<le> 3 \<Longrightarrow> take_spread ring start off n taken chosen =
     (let out = take (3 - taken) (new_nodes chosen (map (\<lambda>k. snd (ring ! ((start + k) mod length ring))) [off..<off + n]))
      in (out, chosen \<union> rnEdID ` set out))"
proof (induction n arbitrary: off taken chosen)
  case (Suc n)
  let ?e = "ring ! ((start + off) mod length ring)"
  have u: "[off..<off + Suc n] = off # [Suc off..<Suc off + n]" by (simp add: upt_conv_Cons del: upt_Suc)
  show ?case
  proof (cases "taken < 3")
    case True
    then obtain k where k: "3 - taken = Suc k" "3 - Suc taken = k" by (metis Suc_diff_Suc)
    show ?thesis using Suc.IH [of "Suc taken" "Suc off" "insert (rnEdID (snd ?e)) chosen"] Suc.IH [of taken "Suc off" chosen] True k
      unfolding u by (auto simp: Let_def)
  qed (use Suc.prems in simp)
qed simp

lemma sorted_split:
  assumes "sorted (map fst ring)" "start = sort_search (\<lambda>i. svc < fst (ring ! i)) 0 (length ring)"
  shows "start \<le> length ring \<and> drop start ring = filter (\<lambda>e. svc < fst e) ring \<and> take start ring = filter (\<lambda>e. \<not> svc < fst e) ring"
proof -
  have mono: "svc < fst (ring ! y)" if "x \<le> y" "y < length ring" "svc < fst (ring ! x)" for x y
    using sorted_nth_mono [OF assms(1) that(1)] that by simp
  have s: "start \<le> length ring" "\<forall>x < start. \<not> svc < fst (ring ! x)" "\<forall>x. start \<le> x \<and> x < length ring \<longrightarrow> svc < fst (ring ! x)"
  proof -
    have "0 \<le> start \<and> start \<le> length ring \<and> (\<forall>x. 0 \<le> x \<and> x < start \<longrightarrow> \<not> svc < fst (ring ! x)) \<and>
       (\<forall>x. start \<le> x \<and> x < length ring \<longrightarrow> svc < fst (ring ! x))"
      unfolding assms(2) by (rule sort_search_ok [OF le0]) (rule mono)
    then show "start \<le> length ring" "\<forall>x < start. \<not> svc < fst (ring ! x)" "\<forall>x. start \<le> x \<and> x < length ring \<longrightarrow> svc < fst (ring ! x)"
      by blast+
  qed
  have "\<forall>e \<in> set (take start ring). \<not> svc < fst e" using s(1,2) by (fastforce simp: in_set_conv_nth)
  moreover have "svc < fst e" if e: "e \<in> set (drop start ring)" for e
  proof -
    obtain k where "k < length ring - start" "e = ring ! (start + k)" using e by (auto simp: in_set_conv_nth)
    then show ?thesis using s(3) by simp
  qed
  ultimately have "filter (\<lambda>e. svc < fst e) (take start ring @ drop start ring) = drop start ring"
    "filter (\<lambda>e. \<not> svc < fst e) (take start ring @ drop start ring) = take start ring"
    unfolding filter_append by (simp_all add: filter_id_conv filter_empty_conv)
  then show ?thesis using s(1) by simp
qed

lemma replica_nodes_new:
  assumes "sorted (map fst ring)"
  shows "replica_nodes ring svc chosen =
    (let out = take 3 (new_nodes chosen (clockwise svc ring)) in (out, chosen \<union> rnEdID ` set out))"
proof -
  let ?s = "sort_search (\<lambda>i. svc < fst (ring ! i)) 0 (length ring)"
  note s = sorted_split [OF assms refl, of svc]
  have "map (\<lambda>k. snd (ring ! ((?s + k) mod length ring))) [0..<0 + length ring] = map snd (rotate ?s ring)"
    by (rule nth_equalityI) (simp_all add: nth_rotate)
  also have "rotate ?s ring = drop ?s ring @ take ?s ring"
  proof (cases "?s = length ring")
    case False
    then show ?thesis using s by (simp add: rotate_drop_take)
  qed simp
  finally show ?thesis using s unfolding replica_nodes_def take_spread_new [OF le0] clockwise_def by simp
qed

lemma set_clockwise: "set (clockwise svc ring) = snd ` set ring"
proof -
  have "set (filter (\<lambda>e. svc < fst e) ring) \<union> set (filter (\<lambda>e. \<not> svc < fst e) ring) = set ring" by auto
  then show ?thesis unfolding clockwise_def set_map set_append by simp
qed

lemma new_nodes_ids:
  "distinct (map rnEdID (new_nodes ch ns)) \<and> set (new_nodes ch ns) \<subseteq> set ns \<and>
   rnEdID ` set (new_nodes ch ns) = rnEdID ` set ns - ch"
  by (induction ch ns rule: new_nodes.induct) auto

lemma length_new_nodes: "length (new_nodes ch ns) = card (rnEdID ` set ns - ch)"
  using new_nodes_ids [of ch ns] by (metis distinct_card length_map list.set_map)

text \<open>The reference on any ring over the nodes \<open>V\<close>.\<close>

lemma responsible_nodes:
  assumes cw: "\<And>x. set (clockwise x ring) = V"
  shows "distinct (map rnEdID (responsible ring i1 i2)) \<and> set (responsible ring i1 i2) \<subseteq> V \<and>
    length (responsible ring i1 i2) = min 6 (card (rnEdID ` V))"
proof -
  define o1 where "o1 = take 3 (new_nodes {} (clockwise i1 ring))"
  define o2 where "o2 = take 3 (new_nodes (rnEdID ` set o1) (clockwise i2 ring))"
  have r: "responsible ring i1 i2 = o1 @ o2" unfolding responsible_def Let_def o1_def o2_def ..
  have fin: "finite V" by (metis List.finite_set cw)
  note n1 = new_nodes_ids [of "{}" "clockwise i1 ring", unfolded cw]
    and n2 = new_nodes_ids [of "rnEdID ` set o1" "clockwise i2 ring", unfolded cw]
  have d1: "distinct (map rnEdID o1)" unfolding o1_def take_map [symmetric] using n1 by (blast intro: distinct_take)
  have "distinct (map rnEdID o2)" unfolding o2_def take_map [symmetric] using n2 by (blast intro: distinct_take)
  moreover have "rnEdID ` set o2 \<subseteq> rnEdID ` V - rnEdID ` set o1" using n2 by (auto simp: o2_def dest!: in_set_takeD)
  ultimately have d: "distinct (map rnEdID (o1 @ o2))" using d1 by auto
  have sub: "set (o1 @ o2) \<subseteq> V" using n1 n2 by (auto simp: o1_def o2_def dest!: in_set_takeD)
  have l1: "length o1 = min 3 (card (rnEdID ` V))"
    using length_new_nodes [of "{}" "clockwise i1 ring"] by (simp add: o1_def cw min.commute)
  have "card (rnEdID ` set o1) = length o1" using distinct_card [OF d1] by simp
  then have "card (rnEdID ` V - rnEdID ` set o1) = card (rnEdID ` V) - length o1"
    using sub fin by (subst card_Diff_subset) auto
  then have "length o2 = min 3 (card (rnEdID ` V) - length o1)"
    using length_new_nodes [of "rnEdID ` set o1" "clockwise i2 ring"] by (simp add: o2_def cw min.commute)
  then show ?thesis unfolding r using d sub l1 by simp
qed

text \<open>The search and the walk compute the reference.\<close>

lemma ResponsibleHSDirs_responsible:
  assumes "\<And>l. sorted (map fst (srt l))"
  shows "ResponsibleHSDirs K srt blinded num len srv nodes =
    responsible (srt (map (\<lambda>n. (nodeIndex K (rnEdID n) srv num len, n)) (filter (\<lambda>n. length (rnEdID n) = 32) nodes)))
      (serviceIndex K blinded 1 len num) (serviceIndex K blinded 2 len num)"
proof -
  define ring where "ring = srt (map (\<lambda>n. (nodeIndex K (rnEdID n) srv num len, n)) (filter (\<lambda>n. length (rnEdID n) = 32) nodes))"
  have so: "sorted (map fst ring)" unfolding ring_def by (rule assms)
  show ?thesis
  proof (cases "ring = []")
    case True
    then show ?thesis
      unfolding ResponsibleHSDirs_def ring_def [symmetric] responsible_def Let_def clockwise_def by simp
  next
    case False
    then show ?thesis
      unfolding ResponsibleHSDirs_def ring_def [symmetric] replica_nodes_new [OF so] responsible_def Let_def by simp
  qed
qed

text \<open>C32: The directories responsible for a blinded key are, for each of the two replicas, the first three
  nodes with a new identity that follow the replica's index clockwise on the sorted ring: the binary
  search and the wrapped walk compute this reference.  They are pairwise distinct nodes of the input,
  six of them unless fewer valid identities exist.\<close>

theorem responsible_hsdirs:
  assumes "\<And>l. mset (srt l) = mset l" "\<And>l. sorted (map fst (srt l))"
  shows "ResponsibleHSDirs K srt blinded num len srv nodes =
      responsible (srt (map (\<lambda>n. (nodeIndex K (rnEdID n) srv num len, n)) (filter (\<lambda>n. length (rnEdID n) = 32) nodes)))
        (serviceIndex K blinded 1 len num) (serviceIndex K blinded 2 len num) \<and>
    distinct (map rnEdID (ResponsibleHSDirs K srt blinded num len srv nodes)) \<and>
    set (ResponsibleHSDirs K srt blinded num len srv nodes) \<subseteq> set nodes \<and>
    length (ResponsibleHSDirs K srt blinded num len srv nodes) = min 6 (card {i \<in> rnEdID ` set nodes. length i = 32})"
proof -
  define valid where "valid = filter (\<lambda>n. length (rnEdID n) = 32) nodes"
  define ring where "ring = srt (map (\<lambda>n. (nodeIndex K (rnEdID n) srv num len, n)) valid)"
  have "set (srt l) = set l" for l using arg_cong [OF assms(1) [of l], of set_mset] by simp
  then have "set ring = set (map (\<lambda>n. (nodeIndex K (rnEdID n) srv num len, n)) valid)"
    unfolding ring_def by simp
  then have "set (clockwise x ring) = set valid" for x by (simp add: set_clockwise image_image)
  note n = responsible_nodes [OF this, of "serviceIndex K blinded 1 len num" "serviceIndex K blinded 2 len num"]
  have "rnEdID ` set valid = {i \<in> rnEdID ` set nodes. length i = 32}" "set valid \<subseteq> set nodes" by (auto simp: valid_def)
  then show ?thesis
    unfolding ResponsibleHSDirs_responsible [OF assms(2)] valid_def [symmetric] ring_def [symmetric] using n by auto
qed

definition two_nodes :: "unit ringNode list" where
  "two_nodes = [\<lparr>rnEdID = replicate 32 1, rnNode = ()\<rparr>, \<lparr>rnEdID = [], rnNode = ()\<rparr>]"

theorem responsible_hsdirs_witness:
  "length (ResponsibleHSDirs toy_crypto (sort_key fst) [] 0 0 [] two_nodes) = 1"
proof -
  have i: "{i \<in> rnEdID ` set two_nodes. length i = 32} = {replicate 32 (1::byte)}" by (auto simp: two_nodes_def)
  have h: "mset (sort_key fst l) = mset l" "sorted (map fst (sort_key fst l))" for l :: "(bytes \<times> unit ringNode) list" by simp_all
  have "length (ResponsibleHSDirs toy_crypto (sort_key fst) [] 0 0 [] two_nodes) = min 6 (card {i \<in> rnEdID ` set two_nodes. length i = 32})"
    using responsible_hsdirs [OF h] by blast
  then show ?thesis unfolding i by simp
qed

text \<open>From noon of the first day on, the period number counts whole days since noon: the time lies in the
  period of that number, without wrap-around.  The current shared random value is used in the first
  half of the period, before midnight, and the previous one in the second half.\<close>

theorem time_period_and_srv:
  assumes "43200 * nanos \<le> now" "now < 2 ^ 63 * nanos" "length cur = 32" "length prev = 32"
  shows "case TimePeriod now of (num, len) \<Rightarrow>
      unat num * 86400 + 43200 \<le> nat (now div nanos) \<and> nat (now div nanos) < (unat num + 1) * 86400 + 43200 \<and>
      SRVForFetch now cur prev = (if nat (now div nanos) < unat num * 86400 + 86400 then cur else prev)"
proof -
  define s where "s = nat (now div nanos)"
  define n where "n = unat (fst (TimePeriod now))"
  have n: "n = (s div 60 - 720) div 1440" unfolding n_def s_def by (rule TimePeriod_nat [OF assms(1,2)])
  have s: "43200 \<le> s" "now div nanos = int s" using assms(1) by (auto simp: s_def)
  have d: "s div 60 - 720 = (s - 43200) div 60" by simp
  have n': "n = (s - 43200) div 86400" unfolding n d using div_mult2_eq [of "s - 43200" 60 1440] by simp
  have b: "n * 86400 + 43200 \<le> s" "s < (n + 1) * 86400 + 43200"
    using div_mult_mod_eq [of "s - 43200" 86400] mod_less_divisor [of 86400 "s - 43200"] s(1) unfolding n' [symmetric] by simp_all
  have "(now div nanos) mod 86400 div 3600 = int (s mod 86400 div 3600)" by (simp add: s(2) zmod_int zdiv_int)
  moreover have "s mod 86400 = (if s < n * 86400 + 86400 then s - n * 86400 else s - (n + 1) * 86400)"
  proof (cases "s < n * 86400 + 86400")
    case True
    then have "s = n * 86400 + (s - n * 86400)" "s - n * 86400 < 86400" using b(1) by simp_all
    then show ?thesis using True by (metis mod_mult_self3 mod_less add.commute mult.commute)
  next
    case False
    then have "s = (n + 1) * 86400 + (s - (n + 1) * 86400)" "s - (n + 1) * 86400 < 86400" using b(2) by simp_all
    then show ?thesis using False by (metis mod_mult_self3 mod_less add.commute mult.commute)
  qed
  moreover have "12 \<le> s mod 86400 div 3600 \<longleftrightarrow> 43200 \<le> s mod 86400" by (simp add: less_eq_div_iff_mult_less_eq)
  moreover have "43200 \<le> (if s < n * 86400 + 86400 then s - n * 86400 else s - (n + 1) * 86400) \<longleftrightarrow> s < n * 86400 + 86400"
    using b by (cases "s < n * 86400 + 86400") simp_all
  ultimately have h: "12 \<le> (now div nanos) mod 86400 div 3600 \<longleftrightarrow> s < n * 86400 + 86400" by simp
  then have "SRVForFetch now cur prev = (if s < n * 86400 + 86400 then cur else prev)"
    using assms(3,4) by (simp add: SRVForFetch_def Let_def)
  then show ?thesis using b unfolding s_def n_def by (simp add: case_prod_beta)
qed

theorem time_period_and_srv_witness:
  "SRVForFetch (86400 * nanos) (replicate 32 1) (replicate 32 2) = replicate 32 2"
  using time_period_and_srv [of "86400 * nanos" "replicate 32 1" "replicate 32 2"] by (simp add: TimePeriod_def SRVForFetch_def)

end
