(* ===== verification/Onion_Desc.thy ===== *)
theory Onion_Desc
  imports Onion_Addr Relayinfo Channel_Cert
begin

text \<open>
  Model of \<^verbatim>\<open>pkg/onion/descriptor.go\<close>, \<^verbatim>\<open>sigverify.go\<close>, \<^verbatim>\<open>clientauth.go\<close> and \<^verbatim>\<open>intro.go\<close>: authenticating, decrypting and
  parsing a v3 onion-service descriptor, and the INTRODUCE1 and RENDEZVOUS2 bodies.  Texts are strings,
  blobs are bytes; a nil slice that the code tests for is \<open>None\<close>.  The primitives are those of \<open>crypto\<close>;
  \<open>now\<close> is in nanoseconds since the Unix epoch.  \<^verbatim>\<open>ParseLinkSpecifiers\<close> is in \<open>Relayinfo\<close>.
\<close>

datatype desc_err = MissingCert | ShortCert | CertVersion | CertType | CertKeyType | CertExpired | TruncatedExt | ExtOverflow
  | MissingSigner | WrongSigner | MissingCertSig | BadCertSig | MissingSignature | BadSignatureLength | BadSignature
  | KeywordNotFound | NoMessage | Unterminated | MessageBase64 | LayerShort | MacMismatch | AESKey | ClientAuthECDH | NoIntroPoints
  | Panicked

section \<open>Helpers\<close>

definition decodeB64 :: "string \<Rightarrow> bytes option" where
  "decodeB64 s =
     (let s = rev (dropWhile (\<lambda>c. c = CHR ''='') (rev (TrimSpace s))); (b, ok) = b64_decode False s in
      if ok then Some b else None)"

text \<open>The slice it returns; nil is the empty one.\<close>

abbreviation b64_slice :: "string \<Rightarrow> bytes" where
  "b64_slice s \<equiv> (case decodeB64 s of Some b \<Rightarrow> b | None \<Rightarrow> [])"

definition nl :: string where "nl = [CHR 0x0A]"

text \<open>\<^verbatim>\<open>strconv.ParseUint(s, 10, 64)\<close> with the error dropped.\<close>

fun u64_scan :: "nat \<Rightarrow> string \<Rightarrow> nat" where
  "u64_scan n [] = n"
| "u64_scan n (c # s) =
     (if \<not> is_digit c then 0
      else let k = n * 10 + digit_val c in if 2 ^ 64 \<le> k then 2 ^ 64 - 1 else u64_scan k s)"

definition u64_value :: "string \<Rightarrow> u64" where
  "u64_value s = of_nat (u64_scan 0 s)"

text \<open>\<^verbatim>\<open>cipher.NewCTR(block, iv).XORKeyStream\<close> with its key check.\<close>

definition ctr_crypt :: "crypto \<Rightarrow> bytes \<Rightarrow> bytes \<Rightarrow> bytes \<Rightarrow> bytes option" where
  "ctr_crypt K key iv src =
     (if length key \<in> {16, 24, 32} then Some (fst (xorKeyStream K src \<lparr>ckey = key, civ = iv, cpos = 0\<rparr>)) else None)"

text \<open>Where the line with the keyword ends, in \<^verbatim>\<open>extractMessage\<close> and \<^verbatim>\<open>extractCert\<close>.\<close>

definition after_keyword :: "string \<Rightarrow> string \<Rightarrow> string option" where
  "after_keyword raw keyword =
     (case str_index (nl @ keyword @ nl) raw of
        None \<Rightarrow> if prefix (keyword @ nl) raw then Some (drop (length keyword + 1) raw) else None
      | Some idx \<Rightarrow> Some (drop (idx + length keyword + 2) raw))"

section \<open>Certificates and the signature\<close>

abbreviation (input) descCertType :: byte where "descCertType \<equiv> 8"
abbreviation (input) introAuthCertID :: byte where "introAuthCertID \<equiv> 9"

text \<open>The end marker is searched from the begin marker on; when the two share their dashes the slice
  \<^verbatim>\<open>raw[bIdx+len(begin) : bIdx+eIdx]\<close> has its bounds reversed and the program panics.\<close>

definition extractCert :: "string \<Rightarrow> string \<Rightarrow> desc_err + bytes option" where
  "extractCert raw keyword =
     (case after_keyword raw keyword of
        None \<Rightarrow> Inr None
      | Some seg \<Rightarrow>
        (case str_index ''-----BEGIN ED25519 CERT-----'' seg of
           None \<Rightarrow> Inr None
         | Some bIdx \<Rightarrow>
           (let raw = drop bIdx seg in
            case str_index ''-----END ED25519 CERT-----'' raw of
              None \<Rightarrow> Inr None
            | Some eIdx \<Rightarrow>
              if eIdx < 28 then Inl Panicked
              else let b64 = slice 28 eIdx raw;
                       cleaned = filter (\<lambda>c. c \<noteq> CHR 0x0D) (filter (\<lambda>c. c \<noteq> CHR 0x0A) b64);
                       (dec, ok) = b64_decode True (TrimSpace cleaned)
                   in Inr (if ok then Some dec else None))))"

text \<open>The extensions of a certificate from position \<open>pos\<close>: the last signer key and where they end.\<close>

fun cert_exts :: "nat \<Rightarrow> bytes \<Rightarrow> nat \<Rightarrow> bytes option \<Rightarrow> desc_err + bytes option \<times> nat" where
  "cert_exts 0 cert pos signer = Inr (signer, pos)"
| "cert_exts (Suc n) cert pos signer =
     (if length cert < pos + 4 then Inl TruncatedExt
      else let extLen = unat (cert ! pos) * 256 + unat (cert ! (pos + 1)); extType = cert ! (pos + 2); pos = pos + 4 in
           if length cert < pos + extLen then Inl ExtOverflow
           else cert_exts n cert (pos + extLen) (if extType = 4 \<and> extLen = 32 then Some (slice pos (pos + 32) cert) else signer))"

definition verifyTorCert :: "crypto \<Rightarrow> bytes \<Rightarrow> bytes option \<Rightarrow> byte \<Rightarrow> int \<Rightarrow> desc_err + bytes" where
  "verifyTorCert K cert expectedSigner wantType now =
     (if length cert < 104 then Inl ShortCert
      else if cert ! 0 \<noteq> 1 then Inl CertVersion
      else if cert ! 1 \<noteq> wantType then Inl CertType
      else if cert ! 6 \<noteq> 1 then Inl CertKeyType
      else if now > uint (get32 (drop 2 cert)) * 3600 * nanos then Inl CertExpired
      else let certifiedKey = slice 7 39 cert in
        bindE (cert_exts (unat (cert ! 39)) cert 40 None) (\<lambda>(signer, pos).
          case signer of
            None \<Rightarrow> Inl MissingSigner
          | Some signer \<Rightarrow>
              if expectedSigner \<noteq> None \<and> signer \<noteq> the expectedSigner then Inl WrongSigner
              else if length cert < pos + 64 then Inl MissingCertSig
              else if \<not> ed25519_verify K signer (take (length cert - 64) cert) (drop (length cert - 64) cert) then Inl BadCertSig
              else Inr certifiedKey))"

definition descSigPrefix :: string where
  "descSigPrefix = ''Tor onion service descriptor sig v3''"

definition verifyDescriptorSignature :: "crypto \<Rightarrow> string \<Rightarrow> bytes \<Rightarrow> int \<Rightarrow> desc_err + bytes" where
  "verifyDescriptorSignature K raw blindedKey now =
     bindE (extractCert raw ''descriptor-signing-key-cert'') (\<lambda>certDER.
      case certDER of
        None \<Rightarrow> Inl MissingCert
      | Some certDER \<Rightarrow>
        bindE (verifyTorCert K certDER (Some blindedKey) descCertType now) (\<lambda>signingKey.
          case str_index (nl @ ''signature '') raw of
            None \<Rightarrow> Inl MissingSignature
          | Some idx \<Rightarrow>
            (let signed = descSigPrefix @ take (idx + 1) raw;
                 rest = takeWhile (\<lambda>c. c \<noteq> CHR 0x0A) (drop (idx + 11) raw);
                 sig = b64_slice (TrimSpace rest)
             in if length sig \<noteq> 64 then Inl BadSignatureLength
                else if \<not> ed25519_verify K signingKey (bytes_of signed) sig then Inl BadSignature
                else Inr signingKey)))"

section \<open>The encrypted layers\<close>

definition stripBase64Whitespace :: "string \<Rightarrow> string" where
  "stripBase64Whitespace b = filter (\<lambda>c. c \<noteq> CHR 0x0A \<and> c \<noteq> CHR 0x0D \<and> c \<noteq> CHR '' '' \<and> c \<noteq> CHR 0x09) b"

definition extractMessage :: "string \<Rightarrow> string \<Rightarrow> desc_err + bytes" where
  "extractMessage raw keyword =
     (case after_keyword raw keyword of
        None \<Rightarrow> Inl KeywordNotFound
      | Some seg \<Rightarrow>
        (case str_cut_at ''-----BEGIN MESSAGE-----'' seg of
           None \<Rightarrow> Inl NoMessage
         | Some (_, afterBegin) \<Rightarrow>
           (case str_cut_at ''-----END MESSAGE-----'' afterBegin of
              None \<Rightarrow> Inl Unterminated
            | Some (body, _) \<Rightarrow>
              (let (dec, ok) = b64_decode True (stripBase64Whitespace body) in
               if ok then Inr dec else Inl MessageBase64))))"

definition rev_line :: "string \<Rightarrow> u64 \<Rightarrow> u64" where
  "rev_line line n = (if prefix ''revision-counter '' line then u64_value (TrimSpace (drop 17 line)) else n)"

definition parseOuter :: "string \<Rightarrow> desc_err + u64 \<times> bytes" where
  "parseOuter raw =
     (let revCounter = fold rev_line (fst (scan_lines 4194304 raw)) 0 in
      bindE (extractMessage raw ''superencrypted'') (\<lambda>blob. Inr (revCounter, blob)))"

definition layer_keys :: "crypto \<Rightarrow> bytes \<Rightarrow> bytes \<Rightarrow> u64 \<Rightarrow> bytes \<Rightarrow> string \<Rightarrow> bytes \<times> bytes \<times> bytes" where
  "layer_keys K secretData subcred revCounter salt stringConst =
     (let keys = SHAKE256 K 80 [concat [secretData, subcred, be64 revCounter], salt, bytes_of stringConst]
      in (take 32 keys, slice 32 48 keys, drop 48 keys))"

definition layer_mac :: "crypto \<Rightarrow> bytes \<Rightarrow> bytes \<Rightarrow> bytes \<Rightarrow> bytes" where
  "layer_mac K macKey salt enc = SHA3_256 K [be64 (of_nat (length macKey)), macKey, be64 (of_nat (length salt)), salt, enc]"

definition decryptLayer :: "crypto \<Rightarrow> bytes \<Rightarrow> bytes \<Rightarrow> bytes \<Rightarrow> u64 \<Rightarrow> string \<Rightarrow> desc_err + bytes" where
  "decryptLayer K blob secretData subcred revCounter stringConst =
     (if length blob < 48 then Inl LayerShort
      else let salt = take 16 blob; enc = slice 16 (length blob - 32) blob; mac = drop (length blob - 32) blob;
               (secretKey, secretIV, macKey) = layer_keys K secretData subcred revCounter salt stringConst
           in if layer_mac K macKey salt enc \<noteq> mac then Inl MacMismatch
              else case ctr_crypt K secretKey secretIV enc of None \<Rightarrow> Inl AESKey | Some out \<Rightarrow> Inr out)"

section \<open>Client authorization\<close>

record authClient =
  acClientID :: bytes
  acIV :: bytes
  acEncryptedCookie :: bytes

definition auth_line :: "string \<Rightarrow> bytes \<times> authClient list \<Rightarrow> bytes \<times> authClient list" where
  "auth_line line st =
     (let f = Fields line; (ephemPub, clients) = st in
      if 2 \<le> length f \<and> f ! 0 = ''desc-auth-ephemeral-key'' then (b64_slice (f ! 1), clients)
      else if 4 \<le> length f \<and> f ! 0 = ''auth-client'' then
        (ephemPub, clients @ [\<lparr>acClientID = b64_slice (f ! 1), acIV = b64_slice (f ! 2), acEncryptedCookie = b64_slice (f ! 3)\<rparr>])
      else st)"

definition parseAuthClients :: "string \<Rightarrow> bytes \<times> authClient list" where
  "parseAuthClients middle = fold auth_line (fst (scan_lines 1048576 middle)) ([], [])"

fun find_cookie :: "crypto \<Rightarrow> bytes \<Rightarrow> bytes \<Rightarrow> authClient list \<Rightarrow> desc_err + bytes option" where
  "find_cookie K wantClientID cookieKey [] = Inr None"
| "find_cookie K wantClientID cookieKey (ac # acs) =
     (if acClientID ac \<noteq> wantClientID then find_cookie K wantClientID cookieKey acs
      else if length (acIV ac) \<noteq> 16 \<or> length (acEncryptedCookie ac) \<noteq> 16 then find_cookie K wantClientID cookieKey acs
      else case ctr_crypt K cookieKey (acIV ac) (acEncryptedCookie ac) of None \<Rightarrow> Inl AESKey | Some c \<Rightarrow> Inr (Some c))"

definition decryptDescriptorCookie :: "crypto \<Rightarrow> string \<Rightarrow> bytes \<Rightarrow> bytes \<Rightarrow> desc_err + bytes option" where
  "decryptDescriptorCookie K middle subcred clientAuthKey =
     (if clientAuthKey = [] then Inr None
      else let (ephemPub, clients) = parseAuthClients middle in
        if length ephemPub \<noteq> 32 \<or> clients = [] then Inr None
        else if length clientAuthKey \<noteq> 32 then Inl ClientAuthECDH
        else case x25519_dh K clientAuthKey ephemPub of
               None \<Rightarrow> Inl ClientAuthECDH
             | Some secretSeed \<Rightarrow>
               (let keys = SHAKE256 K 40 [subcred, secretSeed] in find_cookie K (take 8 keys) (slice 8 40 keys) clients))"

section \<open>Introduction points\<close>

record introPoint =
  ipLinkSpecifiers :: bytes
  ipOnionKey :: bytes
  ipAuthKey :: bytes
  ipEncKey :: bytes

definition ip_zero :: introPoint where
  "ip_zero = \<lparr>ipLinkSpecifiers = [], ipOnionKey = [], ipAuthKey = [], ipEncKey = []\<rparr>"

fun replace_crlf :: "string \<Rightarrow> string" where
  "replace_crlf (a # b # s) = (if a = CHR 0x0D \<and> b = CHR 0x0A then b # replace_crlf s else a # replace_crlf (b # s))"
| "replace_crlf s = s"

definition splitLines :: "string \<Rightarrow> string list" where
  "splitLines b = split_on (CHR 0x0A) (replace_crlf b)"

definition isIntroKeyword :: "string \<Rightarrow> bool" where
  "isIntroKeyword line =
     (case Fields line of
        [] \<Rightarrow> False
      | k # _ \<Rightarrow> k \<in> {''introduction-point'', ''onion-key'', ''auth-key'', ''enc-key'', ''enc-key-cert'', ''legacy-key'', ''legacy-key-cert''})"

text \<open>The lines from \<^verbatim>\<open>start\<close> on are the argument, the lines after the block the second result.\<close>

fun cert_until :: "string list \<Rightarrow> string list \<Rightarrow> bytes option \<times> string list" where
  "cert_until acc [] = (None, [])"
| "cert_until acc (l # r) =
     (if prefix ''-----END'' l then (map_option pemBytes (pem_Decode (join_with (CHR 0x0A) (acc @ [l]) @ nl)), r)
      else if prefix ''-----BEGIN'' l \<or> isIntroKeyword l then (None, l # r)
      else cert_until (acc @ [l]) r)"

fun readCertBlock :: "string list \<Rightarrow> bytes option \<times> string list" where
  "readCertBlock [] = (None, [])"
| "readCertBlock (l # r) = (if \<not> prefix ''-----BEGIN'' l then (None, l # r) else cert_until [l] r)"

lemma cert_until_length: "length (snd (cert_until acc ls)) \<le> length ls"
  by (induction acc ls rule: cert_until.induct) auto

lemma readCertBlock_length: "length (snd (readCertBlock ls)) \<le> length ls"
  by (cases ls) (auto intro: le_trans [OF cert_until_length])

lemma readCertBlock_less: "(c, r) = readCertBlock ls \<Longrightarrow> length r < Suc (length ls)"
  using readCertBlock_length [of ls] by (metis snd_conv less_Suc_eq_le)

definition flush_intro :: "introPoint option \<Rightarrow> introPoint list \<Rightarrow> introPoint list" where
  "flush_intro cur intros = (case cur of Some ip \<Rightarrow> intros @ [ip] | None \<Rightarrow> intros)"

text \<open>A line of one keyword and its arguments: \<^verbatim>\<open>onion-key ntor\<close>, \<^verbatim>\<open>enc-key ntor\<close>, or one without effect.\<close>

definition intro_field :: "string \<Rightarrow> string list \<Rightarrow> introPoint \<Rightarrow> introPoint" where
  "intro_field k f ip =
     (case f of
        t # x # _ \<Rightarrow>
          if k = ''onion-key'' \<and> t = ''ntor'' then ip\<lparr>ipOnionKey := b64_slice x\<rparr>
          else if k = ''enc-key'' \<and> t = ''ntor'' then ip\<lparr>ipEncKey := b64_slice x\<rparr>
          else ip
      | _ \<Rightarrow> ip)"

definition set_authKey :: "crypto \<Rightarrow> bytes \<Rightarrow> int \<Rightarrow> bytes option \<Rightarrow> introPoint \<Rightarrow> introPoint" where
  "set_authKey K signingKey now cert ip =
     (case cert of
        None \<Rightarrow> ip
      | Some cert \<Rightarrow> (case verifyTorCert K cert (Some signingKey) introAuthCertID now of
                       Inr key \<Rightarrow> ip\<lparr>ipAuthKey := key\<rparr> | Inl _ \<Rightarrow> ip))"

text \<open>The scan: the introduction points flushed so far and the current one.\<close>

function intro_lines :: "crypto \<Rightarrow> bytes \<Rightarrow> int \<Rightarrow> string list \<Rightarrow> introPoint list \<Rightarrow> introPoint option \<Rightarrow> introPoint list" where
  "intro_lines K signingKey now [] intros cur = flush_intro cur intros"
| "intro_lines K signingKey now (line # ls) intros cur =
     (case Fields line of
        [] \<Rightarrow> intro_lines K signingKey now ls intros cur
      | k # f \<Rightarrow>
        if k = ''introduction-point'' then
          intro_lines K signingKey now ls (flush_intro cur intros)
            (Some (ip_zero\<lparr>ipLinkSpecifiers := (case f of [] \<Rightarrow> [] | x # _ \<Rightarrow> b64_slice x)\<rparr>))
        else case cur of
          None \<Rightarrow> intro_lines K signingKey now ls intros cur
        | Some ip \<Rightarrow>
          if k = ''auth-key'' then
            (let (cert, rest) = readCertBlock ls in
             intro_lines K signingKey now rest intros (Some (set_authKey K signingKey now cert ip)))
          else intro_lines K signingKey now ls intros (Some (intro_field k f ip)))"
  by pat_completeness auto
termination
  by (relation "measure (\<lambda>(K, sk, now, ls, intros, cur). length ls)") (auto dest: readCertBlock_less)

definition usable_intro :: "introPoint \<Rightarrow> bool" where
  "usable_intro ip \<longleftrightarrow> length (ipOnionKey ip) = 32 \<and> length (ipAuthKey ip) = 32 \<and> length (ipEncKey ip) = 32 \<and> ipLinkSpecifiers ip \<noteq> []"

definition parseIntroPoints :: "crypto \<Rightarrow> string \<Rightarrow> bytes \<Rightarrow> int \<Rightarrow> desc_err + introPoint list" where
  "parseIntroPoints K inner signingKey now =
     (let valid = filter usable_intro (intro_lines K signingKey now (splitLines inner) [] None) in
      if valid = [] then Inl NoIntroPoints else Inr valid)"

section \<open>Descriptors\<close>

record descriptor =
  RevisionCounter :: u64
  IntroPoints :: "introPoint list"

definition DecodeDescriptor :: "crypto \<Rightarrow> string \<Rightarrow> bytes \<Rightarrow> bytes \<Rightarrow> bytes \<Rightarrow> int \<Rightarrow> desc_err + descriptor" where
  "DecodeDescriptor K raw blindedKey subcred clientAuthKey now =
     bindE (verifyDescriptorSignature K raw blindedKey now) (\<lambda>signingKey.
     bindE (parseOuter raw) (\<lambda>(revCounter, superBlob).
     bindE (decryptLayer K superBlob blindedKey subcred revCounter ''hsdir-superencrypted-data'') (\<lambda>middle.
     bindE (decryptDescriptorCookie K (str_of middle) subcred clientAuthKey) (\<lambda>cookie.
     let secretData2 = (case cookie of None \<Rightarrow> blindedKey | Some c \<Rightarrow> blindedKey @ c) in
     bindE (extractMessage (str_of middle) ''encrypted'') (\<lambda>encBlob.
     bindE (decryptLayer K encBlob secretData2 subcred revCounter ''hsdir-encrypted-data'') (\<lambda>inner.
     bindE (parseIntroPoints K (str_of inner) signingKey now) (\<lambda>intros.
     Inr \<lparr>RevisionCounter = revCounter, IntroPoints = intros\<rparr>)))))))"

section \<open>INTRODUCE1 and RENDEZVOUS2\<close>

definition BuildIntroduce1Plaintext :: "bytes \<Rightarrow> bytes \<Rightarrow> bytes \<Rightarrow> bytes" where
  "BuildIntroduce1Plaintext cookie rpNtorKey rpLinkSpecs =
     (let body = wBytes (wWrite rpLinkSpecs (wWrite rpNtorKey (wU16 (of_nat (length rpNtorKey)) (wByte 1 (wByte 0
                   (wWrite cookie (newWriter 64)))))))
      in if length body < 246 then body @ replicate (246 - length body) 0 else body)"

definition introduce1_header :: "bytes \<Rightarrow> bytes" where
  "introduce1_header authKey =
     wBytes (wByte 0 (wWrite authKey (wU16 (of_nat (length authKey)) (wByte 2 (wWrite (replicate 20 0) (newWriter 56))))))"

definition BuildIntroduce1 :: "crypto \<Rightarrow> bytes \<Rightarrow> bytes \<Rightarrow> bytes \<Rightarrow> bytes \<Rightarrow> bytes \<Rightarrow> desc_err + bytes" where
  "BuildIntroduce1 K authKey encKey macKey clientX plaintext =
     (let header = introduce1_header authKey in
      case ctr_crypt K encKey (replicate 16 0) plaintext of
        None \<Rightarrow> Inl AESKey
      | Some encrypted \<Rightarrow>
        (let mac = hsMac K macKey [header, clientX, encrypted] in
         Inr (wBytes (wWrite mac (wWrite encrypted (wWrite clientX (wWrite header (newWriter (length header + length clientX + length encrypted + length mac)))))))))"

definition ParseRendezvous2 :: "bytes \<Rightarrow> (bytes \<times> bytes) option" where
  "ParseRendezvous2 body = (if length body < 64 then None else Some (take 32 body, slice 32 64 body))"

section \<open>The certificates accepted\<close>

lemma be16_unat: "unat (be16 v ! 0) * 256 + unat (be16 v ! 1) = unat v"
proof -
  have v: "unat v < 65536" by (rule unat_u16_lt)
  have "unat (ucast (drop_bit 8 v) :: byte) = unat v div 256"
    using v by (simp add: unsigned_ucast_eq take_bit_eq_mod drop_bit_eq_div unat_div less_mult_imp_div_less)
  moreover have "unat (ucast v :: byte) = unat v mod 256" by (simp add: unsigned_ucast_eq take_bit_eq_mod)
  ultimately show ?thesis by (simp add: be16_def)
qed

fun last_signer :: "bytes option \<Rightarrow> edExtension list \<Rightarrow> bytes option" where
  "last_signer s [] = s"
| "last_signer s (e # es) = last_signer (if extTyp e = 4 \<and> length (extData e) = 32 then Some (extData e) else s) es"

lemma cert_exts_step:
  assumes "drop pos cert = ext_bytes e @ rest" "length (extData e) < 65536" "pos \<le> length cert"
  shows "cert_exts (Suc n) cert pos s =
    cert_exts n cert (pos + length (ext_bytes e)) (if extTyp e = 4 \<and> length (extData e) = 32 then Some (extData e) else s)"
proof -
  let ?d = "extData e"
  have b: "drop pos cert = be16 (of_nat (length ?d)) @ extTyp e # extFlags e # ?d @ rest" using assms(1) by (simp add: ext_bytes_def)
  have l: "length cert = pos + 4 + length ?d + length rest" using arg_cong [OF b, of length] assms(3) by simp
  have nth: "cert ! (pos + i) = (be16 (of_nat (length ?d)) @ extTyp e # extFlags e # ?d @ rest) ! i" if "i < 4" for i
    using b l that nth_drop [of pos cert i] by simp
  have "unat (cert ! pos) * 256 + unat (cert ! (pos + 1)) = length ?d"
    using be16_unat [of "of_nat (length ?d)"] nth [of 0] nth [of 1] assms(2) by (simp add: nth_append unat_of_nat_u16)
  moreover have "cert ! (pos + 2) = extTyp e" using nth [of 2] by (simp add: nth_append)
  moreover have "slice (pos + 4) (pos + 4 + 32) cert = ?d" if "length ?d = 32"
  proof -
    have "drop (pos + 4) cert = ?d @ rest" using arg_cong [OF b, of "drop 4"] by (simp add: add.commute)
    then show ?thesis using that by (simp add: slice_def)
  qed
  moreover have "pos + length (ext_bytes e) = pos + 4 + length ?d" by (simp add: ext_bytes_def)
  ultimately show ?thesis using l by (cases "extTyp e = 4 \<and> length ?d = 32") (auto simp: Let_def ac_simps)
qed

lemma cert_exts_enc:
  "drop pos cert = concat (map ext_bytes es) @ rest \<Longrightarrow> \<forall>e \<in> set es. length (extData e) < 65536 \<Longrightarrow> pos \<le> length cert \<Longrightarrow>
   cert_exts (length es) cert pos s = Inr (last_signer s es, pos + length (concat (map ext_bytes es)))"
proof (induction es arbitrary: pos s)
  case (Cons e es)
  let ?p = "pos + length (ext_bytes e)"
  have d: "drop pos cert = ext_bytes e @ concat (map ext_bytes es) @ rest" using Cons.prems(1) by simp
  then have "drop ?p cert = concat (map ext_bytes es) @ rest" by (metis add.commute append_eq_conv_conj drop_drop)
  moreover have "?p \<le> length cert" using arg_cong [OF d, of length] Cons.prems(3) by simp
  ultimately show ?case using Cons.IH [of ?p] Cons.prems(2) cert_exts_step [OF d _ Cons.prems(3), of "length es" s] by simp
qed simp

lemma drop_two: "i + 2 \<le> length xs \<Longrightarrow> drop i xs = [xs ! i, xs ! (i + 1)] @ drop (i + 2) xs"
  using Cons_nth_drop_Suc [of i xs] Cons_nth_drop_Suc [of "Suc i" xs] by (simp add: numeral_2_eq_2)

lemma drop_slice: "i \<le> j \<Longrightarrow> drop i xs = slice i j xs @ drop j xs"
proof -
  assume "i \<le> j"
  then have "drop j xs = drop (j - i) (drop i xs)" by simp
  then show ?thesis by (simp only: slice_def append_take_drop_id)
qed

lemma cert_exts_inv:
  "cert_exts n cert pos s = Inr (s', pos') \<Longrightarrow> pos \<le> length cert \<Longrightarrow>
   \<exists>es rest. length es = n \<and> (\<forall>e \<in> set es. length (extData e) < 65536) \<and> drop pos cert = concat (map ext_bytes es) @ rest \<and>
     s' = last_signer s es \<and> pos' = pos + length (concat (map ext_bytes es))"
proof (induction n arbitrary: pos s)
  case (Suc n)
  define len where "len = unat (cert ! pos) * 256 + unat (cert ! (pos + 1))"
  from Suc.prems(1) have l: "pos + 4 \<le> length cert" "pos + 4 + len \<le> length cert"
    by (auto simp: Let_def len_def split: if_splits)
  define e where "e = \<lparr>extTyp = cert ! (pos + 2), extFlags = cert ! (pos + 3), extData = slice (pos + 4) (pos + 4 + len) cert\<rparr>"
  define v where "v = get16 (drop pos cert)"
  have d4: "drop pos cert = be16 v @ [cert ! (pos + 2), cert ! (pos + 3)] @ drop (pos + 4) cert"
  proof -
    have t: "length (take 2 (drop pos cert)) = 2" using l by simp
    have "get16 (take 2 (drop pos cert)) = v" unfolding v_def
      using get16_append [of "take 2 (drop pos cert)" "drop 2 (drop pos cert)"] t by (simp only: append_take_drop_id)
    then have b: "be16 v = take 2 (drop pos cert)" using get_be16 [OF t] by simp
    have "drop 2 (drop pos cert) = [cert ! (pos + 2), cert ! (pos + 3)] @ drop (pos + 4) cert"
      using l drop_two [of "pos + 2" cert] by (simp add: numeral_eq_Suc)
    then show ?thesis unfolding b by (metis append_take_drop_id)
  qed
  have "be16 v ! 0 = cert ! pos" "be16 v ! 1 = cert ! (pos + 1)"
    using arg_cong [OF d4, of "\<lambda>l. l ! 0"] arg_cong [OF d4, of "\<lambda>l. l ! 1"] l by (simp_all add: nth_append)
  then have lv: "unat v = len" using be16_unat [of v] by (simp add: len_def)
  have le: "length (extData e) = len" using l by (simp add: e_def slice_def)
  have small: "length (extData e) < 65536" using unat_u16_lt [of v] lv le by simp
  have v: "of_nat (length (extData e)) = v" unfolding le lv [symmetric] by simp
  have dd: "drop (pos + 4) cert = extData e @ drop (pos + 4 + len) cert"
    unfolding e_def by (simp add: drop_slice [of "pos + 4" "pos + 4 + len"])
  have d: "drop pos cert = ext_bytes e @ drop (pos + 4 + len) cert"
    using d4 unfolding ext_bytes_def v dd by (simp add: e_def)
  have le2: "length (ext_bytes e) = 4 + len" by (simp add: ext_bytes_def le)
  have "cert_exts n cert (pos + length (ext_bytes e)) (if extTyp e = 4 \<and> length (extData e) = 32 then Some (extData e) else s) = Inr (s', pos')"
    using cert_exts_step [OF d small, of n s] Suc.prems by simp
  from Suc.IH [OF this] obtain es rest where es: "length es = n" "\<forall>e \<in> set es. length (extData e) < 65536"
    "drop (pos + length (ext_bytes e)) cert = concat (map ext_bytes es) @ rest"
    "s' = last_signer (if extTyp e = 4 \<and> length (extData e) = 32 then Some (extData e) else s) es"
    "pos' = pos + length (ext_bytes e) + length (concat (map ext_bytes es))" using l le2 by auto
  then have "drop pos cert = concat (map ext_bytes (e # es)) @ rest" using d le2 by (simp add: add.assoc)
  then show ?case using es small by (intro exI [of _ "e # es"] exI [of _ rest]) auto
qed auto

text \<open>What a certificate that certifies \<open>key\<close> looks like: version 1, the wanted type and key type 1, not yet
  expired, with the signer in its last signer-key extension, and signed by it.  Bytes between the
  extensions and the signature are allowed; they are signed too.\<close>

definition certifies :: "crypto \<Rightarrow> bytes \<Rightarrow> byte \<Rightarrow> int \<Rightarrow> bytes \<Rightarrow> bytes \<Rightarrow> bool" where
  "certifies K signer typ now cert key \<longleftrightarrow>
     (\<exists>ex exts extra sig. length key = 32 \<and> length exts < 256 \<and> (\<forall>e \<in> set exts. length (extData e) < 65536) \<and> length sig = 64 \<and>
        cert = [1, typ] @ be32 ex @ [1] @ key @ [of_nat (length exts)] @ concat (map ext_bytes exts) @ extra @ sig \<and>
        last_signer None exts = Some signer \<and> now \<le> expiryNanos ex \<and>
        ed25519_verify K signer ([1, typ] @ be32 ex @ [1] @ key @ [of_nat (length exts)] @ concat (map ext_bytes exts) @ extra) sig)"

lemma cut_end: "xs = b @ s \<Longrightarrow> length s = k \<Longrightarrow> take (length xs - k) xs = b" "xs = b @ s \<Longrightarrow> length s = k \<Longrightarrow> drop (length xs - k) xs = s"
  by auto

lemma verifyTorCert_complete:
  assumes "certifies K signer typ now cert key"
  shows "verifyTorCert K cert (Some signer) typ now = Inr key"
proof -
  from assms obtain ex exts extra sig where c: "length key = 32" "length exts < 256" "\<forall>e \<in> set exts. length (extData e) < 65536"
    "length sig = 64" "cert = [1, typ] @ be32 ex @ [1] @ key @ [of_nat (length exts)] @ concat (map ext_bytes exts) @ extra @ sig"
    "last_signer None exts = Some signer" "now \<le> expiryNanos ex"
    "ed25519_verify K signer ([1, typ] @ be32 ex @ [1] @ key @ [of_nat (length exts)] @ concat (map ext_bytes exts) @ extra) sig"
    by (auto simp: certifies_def)
  let ?x = "concat (map ext_bytes exts)"
  have l: "length cert = 104 + length ?x + length extra" unfolding c(5) using c(1,4) by simp
  have "drop 40 cert = ?x @ extra @ sig" unfolding c(5) using c(1) by simp
  from cert_exts_enc [OF this c(3), of None] have e: "cert_exts (length exts) cert 40 None = Inr (Some signer, 40 + length ?x)"
    using l c(6) by simp
  have h: "cert ! 0 = 1" "cert ! 1 = typ" "cert ! 6 = 1" "cert ! 39 = of_nat (length exts)" "get32 (drop 2 cert) = ex" "slice 7 39 cert = key"
    unfolding c(5) using c(1) by (simp_all add: nth_append slice_def)
  have cb: "cert = ([1, typ] @ be32 ex @ [1] @ key @ [of_nat (length exts)] @ ?x @ extra) @ sig" unfolding c(5) by simp
  note t = cut_end [OF cb c(4)]
  have n: "unat (of_nat (length exts) :: byte) = length exts" using c(2) by (rule unat_of_nat_byte)
  have "\<not> uint ex * 3600 * nanos < now" using c(7) by (simp add: expiryNanos_def)
  then show ?thesis
    unfolding verifyTorCert_def h t n e using l c(8) by (simp add: Let_def)
qed

lemma verifyTorCert_sound:
  assumes "verifyTorCert K cert (Some signer) typ now = Inr key"
  shows "certifies K signer typ now cert key"
proof -
  from assms have h: "104 \<le> length cert" "cert ! 0 = 1" "cert ! 1 = typ" "cert ! 6 = 1" "now \<le> uint (get32 (drop 2 cert)) * 3600 * nanos"
    "key = slice 7 39 cert" "ed25519_verify K signer (take (length cert - 64) cert) (drop (length cert - 64) cert)"
    by (auto simp: verifyTorCert_def Let_def bindE_eq_Inr split: if_splits option.splits)
  from assms obtain pos where e: "cert_exts (unat (cert ! 39)) cert 40 None = Inr (Some signer, pos)" "pos + 64 \<le> length cert"
    by (auto simp: verifyTorCert_def Let_def bindE_eq_Inr split: if_splits option.splits)
  from cert_exts_inv [OF e(1)] h(1) obtain es rest where es: "length es = unat (cert ! 39)" "\<forall>e \<in> set es. length (extData e) < 65536"
    "drop 40 cert = concat (map ext_bytes es) @ rest" "Some signer = last_signer None es" "pos = 40 + length (concat (map ext_bytes es))"
    by auto
  define extra sig where "extra = take (length rest - 64) rest" and "sig = drop (length rest - 64) rest"
  have lr: "length rest = length cert - pos" using arg_cong [OF es(3), of length] es(5) by simp
  have sg: "rest = extra @ sig" "length sig = 64" using lr e(2) by (simp_all add: extra_def sig_def)
  define ex where "ex = get32 (drop 2 cert)"
  have ex: "be32 ex = take 4 (drop 2 cert)"
    using get_be32 [of "take 4 (drop 2 cert)"] get32_append [of "take 4 (drop 2 cert)" "drop 4 (drop 2 cert)"] h(1)
    by (simp add: ex_def del: drop_drop)
  have "cert = take 2 cert @ take 4 (drop 2 cert) @ [cert ! 6] @ slice 7 39 cert @ [cert ! 39] @ drop 40 cert"
  proof -
    have "drop 39 cert = cert ! 39 # drop 40 cert" "drop 6 cert = cert ! 6 # drop 7 cert"
      using h(1) Cons_nth_drop_Suc [of 39 cert] Cons_nth_drop_Suc [of 6 cert] by simp_all
    moreover have "drop 7 cert = slice 7 39 cert @ drop 39 cert" "drop 2 cert = slice 2 6 cert @ drop 6 cert" by (simp_all only: drop_slice)
    moreover have "slice 2 6 cert = take 4 (drop 2 cert)" by (simp add: slice_def)
    ultimately show ?thesis by (metis append_take_drop_id append_Cons append_Nil)
  qed
  moreover have "take 2 cert = [1, typ]" using h(1-3) by (cases cert rule: list.exhaust; cases "tl cert") auto
  moreover have "cert ! 39 = of_nat (length es)" by (simp add: es(1))
  ultimately have c: "cert = [1, typ] @ be32 ex @ [1] @ key @ [of_nat (length es)] @ concat (map ext_bytes es) @ extra @ sig"
    using h(4,6) es(3) sg(1) ex by simp
  then have cb: "cert = ([1, typ] @ be32 ex @ [1] @ key @ [of_nat (length es)] @ concat (map ext_bytes es) @ extra) @ sig" by simp
  note cut_end [OF cb sg(2)]
  moreover have "length key = 32" using h(1,6) by (simp add: slice_def)
  moreover have "length es < 256" using es(1) unat_byte_lt by simp
  moreover have "now \<le> expiryNanos ex" using h(5) by (simp add: expiryNanos_def ex_def)
  ultimately show ?thesis using c es(2,4) sg(2) h(7) unfolding certifies_def
    by (intro exI [of _ ex] exI [of _ es] exI [of _ extra] exI [of _ sig]) simp
qed

text \<open>A certificate is accepted for a signer, a type and a time exactly when it has the certificate layout,
  has not expired, names that signer in its last signer-key extension and carries its signature; the
  result is the certified key.\<close>

theorem tor_cert_accepted_iff:
  "verifyTorCert K cert (Some signer) typ now = Inr key \<longleftrightarrow> certifies K signer typ now cert key"
  using verifyTorCert_sound verifyTorCert_complete by blast

section \<open>A malformed certificate block\<close>

text \<open>A text in which the begin and end marker of the signing-key certificate share their dashes makes the
  decoder panic, before anything has been authenticated and whatever follows.\<close>

theorem overlapping_markers_panic:
  "DecodeDescriptor K (''hs-descriptor 3'' @ nl @ ''descriptor-signing-key-cert'' @ nl @
     ''-----BEGIN ED25519 CERT-----END ED25519 CERT-----'' @ rest) blindedKey subcred clientAuthKey now = Inl Panicked"
proof -
  have "after_keyword (''hs-descriptor 3'' @ nl @ ''descriptor-signing-key-cert'' @ nl @ t) ''descriptor-signing-key-cert'' = Some t" for t
    by (simp add: after_keyword_def nl_def)
  moreover have "str_index ''-----BEGIN ED25519 CERT-----'' (''-----BEGIN ED25519 CERT-----END ED25519 CERT-----'' @ rest) = Some 0"
    "str_index ''-----END ED25519 CERT-----'' (''-----BEGIN ED25519 CERT-----END ED25519 CERT-----'' @ rest) = Some 23"
    by simp_all
  ultimately show ?thesis by (simp add: DecodeDescriptor_def verifyDescriptorSignature_def extractCert_def)
qed

section \<open>The layers accepted\<close>

text \<open>The sender's side: a layer sealed with a 16-byte salt.\<close>

definition seal_layer :: "crypto \<Rightarrow> bytes \<Rightarrow> bytes \<Rightarrow> u64 \<Rightarrow> string \<Rightarrow> bytes \<Rightarrow> bytes \<Rightarrow> bytes" where
  "seal_layer K secretData subcred revCounter stringConst salt m =
     (let (key, iv, macKey) = layer_keys K secretData subcred revCounter salt stringConst;
          enc = fst (xorKeyStream K m \<lparr>ckey = key, civ = iv, cpos = 0\<rparr>)
      in salt @ enc @ layer_mac K macKey salt enc)"

lemma layer_key_length: "crypto_wf K \<Longrightarrow> layer_keys K sd sc rc salt c = (key, iv, mk) \<Longrightarrow> length key = 32"
  by (auto simp: layer_keys_def Let_def)

lemma xor_twice: "fst (xorKeyStream K (fst (xorKeyStream K m s)) s) = m"
  using ctr.crypt_inv by simp

lemma decrypt_seal:
  assumes "crypto_wf K" "length salt = 16"
  shows "decryptLayer K (seal_layer K sd sc rc c salt m) sd sc rc c = Inr m"
proof -
  obtain key iv mk where k: "layer_keys K sd sc rc salt c = (key, iv, mk)" by (metis prod_cases3)
  let ?s = "\<lparr>ckey = key, civ = iv, cpos = 0\<rparr>"
  let ?enc = "fst (xorKeyStream K m ?s)"
  let ?mac = "layer_mac K mk salt ?enc"
  have l: "length ?mac = 32" "length ?enc = length m" using assms(1) by (simp_all add: layer_mac_def)
  have b: "seal_layer K sd sc rc c salt m = salt @ ?enc @ ?mac" by (simp add: seal_layer_def k Let_def)
  have p: "take 16 (salt @ ?enc @ ?mac) = salt" "slice 16 (length (salt @ ?enc @ ?mac) - 32) (salt @ ?enc @ ?mac) = ?enc"
    "drop (length (salt @ ?enc @ ?mac) - 32) (salt @ ?enc @ ?mac) = ?mac"
    using assms(2) l by (simp_all add: slice_def)
  show ?thesis
    unfolding b decryptLayer_def Let_def p k using assms(2) l layer_key_length [OF assms(1) k]
    by (simp add: ctr_crypt_def xor_twice)
qed

lemma decrypt_sealed:
  assumes "decryptLayer K blob sd sc rc c = Inr m"
  shows "\<exists>salt. length salt = 16 \<and> blob = seal_layer K sd sc rc c salt m"
proof -
  define salt enc mac where "salt = take 16 blob" and "enc = slice 16 (length blob - 32) blob" and "mac = drop (length blob - 32) blob"
  obtain key iv mk where k: "layer_keys K sd sc rc salt c = (key, iv, mk)" by (metis prod_cases3)
  let ?s = "\<lparr>ckey = key, civ = iv, cpos = 0\<rparr>"
  have d: "48 \<le> length blob" "mac = layer_mac K mk salt enc" "m = fst (xorKeyStream K enc ?s)"
    using assms k unfolding decryptLayer_def Let_def salt_def [symmetric] enc_def [symmetric] mac_def [symmetric]
    by (auto simp: ctr_crypt_def split: if_splits option.splits)
  have "blob = salt @ drop 16 blob" by (simp add: salt_def)
  also have "drop 16 blob = enc @ mac" unfolding enc_def mac_def using d(1) by (intro drop_slice) simp
  finally have "blob = salt @ enc @ mac" .
  moreover have "fst (xorKeyStream K m ?s) = enc" unfolding d(3) by (rule xor_twice)
  ultimately show ?thesis using d(1,2) k by (intro exI [of _ salt]) (simp add: seal_layer_def salt_def Let_def)
qed

text \<open>A descriptor layer decrypts to a text exactly when it is that text sealed under the same secret,
  subcredential, revision counter and label with some 16-byte salt.\<close>

theorem descriptor_layer_iff:
  assumes "crypto_wf K"
  shows "decryptLayer K blob sd sc rc c = Inr m \<longleftrightarrow> (\<exists>salt. length salt = 16 \<and> blob = seal_layer K sd sc rc c salt m)"
  using decrypt_seal [OF assms] decrypt_sealed by blast

theorem descriptor_layer_iff_witness:
  "crypto_wf toy_crypto \<and> decryptLayer toy_crypto (seal_layer toy_crypto [1] [2] 3 ''c'' (replicate 16 0) [5]) [1] [2] 3 ''c'' = Inr [5]"
  using descriptor_layer_iff [OF toy_crypto_wf] length_replicate [of 16 "0 :: byte"] toy_crypto_wf by blast

section \<open>Authenticity\<close>

text \<open>An authentication key that has been set is certified by the signing key.\<close>

definition auth_certified :: "crypto \<Rightarrow> bytes \<Rightarrow> int \<Rightarrow> introPoint \<Rightarrow> bool" where
  "auth_certified K sk now ip \<longleftrightarrow> ipAuthKey ip = [] \<or> (\<exists>cert. certifies K sk introAuthCertID now cert (ipAuthKey ip))"

lemma intro_lines_certified:
  "list_all (auth_certified K sk now) intros \<Longrightarrow> (\<And>ip. cur = Some ip \<Longrightarrow> auth_certified K sk now ip) \<Longrightarrow>
   list_all (auth_certified K sk now) (intro_lines K sk now ls intros cur)"
proof (induction K sk now ls intros cur rule: intro_lines.induct)
  case (1 K sk now intros cur)
  then show ?case by (auto simp: flush_intro_def split: option.splits)
next
  case (2 K sk now line ls intros cur)
  have z: "auth_certified K sk now (ip_zero\<lparr>ipLinkSpecifiers := x\<rparr>)" for x
    by (simp add: auth_certified_def ip_zero_def)
  have fl: "list_all (auth_certified K sk now) (flush_intro cur intros)"
    using 2(6,7) by (auto simp: flush_intro_def split: option.splits)
  have fd: "auth_certified K sk now (intro_field k f ip)" if "auth_certified K sk now ip" for k f ip
    using that by (auto simp: auth_certified_def intro_field_def split: list.splits)
  have crt: "auth_certified K sk now (set_authKey K sk now cert ip)" if "auth_certified K sk now ip" for ip cert
    using that verifyTorCert_sound [of K _ sk introAuthCertID now]
    by (auto simp: auth_certified_def set_authKey_def split: sum.splits option.splits)
  show ?case
  proof (cases "Fields line")
    case Nil
    then show ?thesis using 2(1,6,7) by simp
  next
    case (Cons k f)
    show ?thesis
    proof (cases "k = ''introduction-point''")
      case True
      then show ?thesis using 2(2) [OF Cons True fl] z Cons by simp
    next
      case nk: False
      show ?thesis
      proof (cases cur)
        case None
        then show ?thesis using 2(3) [OF Cons nk None 2(6)] Cons nk by simp
      next
        case (Some ip)
        have ip: "auth_certified K sk now ip" using 2(7) Some by simp
        show ?thesis
        proof (cases "k = ''auth-key''")
          case True
          obtain cert rest where r: "readCertBlock ls = (cert, rest)" by fastforce
          show ?thesis using 2(4) [OF Cons nk Some True r [symmetric] refl 2(6)] crt [OF ip] Cons nk Some True r by simp
        next
          case False
          show ?thesis using 2(5) [OF Cons nk Some False 2(6)] fd [OF ip] Cons nk Some False by simp
        qed
      qed
    qed
  qed
qed

lemma verifyDescriptorSignature_sound:
  assumes "verifyDescriptorSignature K raw blindedKey now = Inr sk"
  shows "\<exists>cert idx sig. extractCert raw ''descriptor-signing-key-cert'' = Inr (Some cert) \<and> certifies K blindedKey descCertType now cert sk \<and>
    str_index (nl @ ''signature '') raw = Some idx \<and> length sig = 64 \<and>
    ed25519_verify K sk (bytes_of (descSigPrefix @ take (idx + 1) raw)) sig"
proof -
  from assms obtain cert where c: "extractCert raw ''descriptor-signing-key-cert'' = Inr (Some cert)"
    and v: "bindE (verifyTorCert K cert (Some blindedKey) descCertType now) (\<lambda>signingKey.
          case str_index (nl @ ''signature '') raw of
            None \<Rightarrow> Inl MissingSignature
          | Some idx \<Rightarrow>
            (let signed = descSigPrefix @ take (idx + 1) raw;
                 rest = takeWhile (\<lambda>c. c \<noteq> CHR 0x0A) (drop (idx + 11) raw);
                 sig = b64_slice (TrimSpace rest)
             in if length sig \<noteq> 64 then Inl BadSignatureLength
                else if \<not> ed25519_verify K signingKey (bytes_of signed) sig then Inl BadSignature
                else Inr signingKey)) = Inr sk"
    unfolding verifyDescriptorSignature_def bindE_eq_Inr [of "extractCert raw k" for k] by (metis (no_types, lifting) option.case_eq_if option.collapse Inl_Inr_False)
  obtain idx where x: "str_index (nl @ ''signature '') raw = Some idx" using v by (auto simp: bindE_eq_Inr split: option.splits)
  have w: "verifyTorCert K cert (Some blindedKey) descCertType now = Inr sk"
    and "length (b64_slice (TrimSpace (takeWhile (\<lambda>c. c \<noteq> CHR 0x0A) (drop (idx + 11) raw)))) = 64"
    and "ed25519_verify K sk (bytes_of (descSigPrefix @ take (idx + 1) raw)) (b64_slice (TrimSpace (takeWhile (\<lambda>c. c \<noteq> CHR 0x0A) (drop (idx + 11) raw))))"
    using v unfolding x option.case Let_def bindE_eq_Inr by (metis (no_types, lifting) Inl_Inr_False Inr_inject)+
  then show ?thesis using c x verifyTorCert_sound [OF w] by blast
qed

text \<open>C33: A descriptor that decodes is authentic: its signing key is certified by the blinded key of the
  period, its text up to the signature line is signed by that key, and every introduction point it
  offers has complete keys with an authentication key certified by the signing key.  There is at
  least one.\<close>

theorem descriptor_authentic:
  "case DecodeDescriptor K raw blindedKey subcred clientAuthKey now of
     Inl e \<Rightarrow> True
   | Inr d \<Rightarrow>
       (\<exists>cert sk idx sig. extractCert raw ''descriptor-signing-key-cert'' = Inr (Some cert) \<and>
          certifies K blindedKey descCertType now cert sk \<and> str_index (nl @ ''signature '') raw = Some idx \<and> length sig = 64 \<and>
          ed25519_verify K sk (bytes_of (descSigPrefix @ take (idx + 1) raw)) sig \<and> IntroPoints d \<noteq> [] \<and>
          list_all (\<lambda>ip. usable_intro ip \<and> (\<exists>c. certifies K sk introAuthCertID now c (ipAuthKey ip))) (IntroPoints d))"
proof (cases "DecodeDescriptor K raw blindedKey subcred clientAuthKey now")
  case (Inr d)
  then obtain sk inner where sk: "verifyDescriptorSignature K raw blindedKey now = Inr sk"
    and ips: "parseIntroPoints K inner sk now = Inr (IntroPoints d)"
    unfolding DecodeDescriptor_def Let_def by (auto simp: bindE_eq_Inr)
  have "list_all (auth_certified K sk now) (intro_lines K sk now (splitLines inner) [] None)"
    by (rule intro_lines_certified) simp_all
  moreover have "IntroPoints d = filter usable_intro (intro_lines K sk now (splitLines inner) [] None)" "IntroPoints d \<noteq> []"
    using ips by (auto simp: parseIntroPoints_def Let_def split: if_splits)
  ultimately have "IntroPoints d \<noteq> []"
    "list_all (\<lambda>ip. usable_intro ip \<and> (\<exists>c. certifies K sk introAuthCertID now c (ipAuthKey ip))) (IntroPoints d)"
    by (auto simp: list_all_iff auth_certified_def usable_intro_def)
  then show ?thesis using verifyDescriptorSignature_sound [OF sk] Inr by auto
qed simp

section \<open>The introduction\<close>

text \<open>C34: An INTRODUCE1 body built with the keys of the client's handshake is what the service expects: its
  header names the authentication key, the MAC verifies under the service's MAC key, and decrypting
  with the service's encryption key gives the rendezvous cookie, the onion key and the link specifiers
  of the rendezvous point, zero-padded to at least 246 bytes.\<close>

theorem introduction_reaches_service:
  assumes "crypto_wf K" "dh_commutes K" "length authKey = 32"
    "hs_service_intro K authKey b subcred (x25519_pub K x) = Some (enc, mac)"
  shows "\<exists>st body encrypted.
    hsNtorIntroWith K (x25519_pub K b) authKey subcred x = Inr (enc, mac, x25519_pub K x, st) \<and>
    BuildIntroduce1 K authKey enc mac (x25519_pub K x) (BuildIntroduce1Plaintext cookie rpKey specs) = Inr body \<and>
    body = replicate 20 0 @ [2] @ be16 32 @ authKey @ [0] @ x25519_pub K x @ encrypted @
      hsMac K mac [replicate 20 0 @ [2] @ be16 32 @ authKey @ [0], x25519_pub K x, encrypted] \<and>
    (\<exists>n. ctr_crypt K enc (replicate 16 0) encrypted =
       Some (cookie @ [0, 1] @ be16 (of_nat (length rpKey)) @ rpKey @ specs @ replicate n 0)) \<and>
    246 \<le> length encrypted"
proof -
  obtain s where dh: "x25519_dh K b (x25519_pub K x) = Some s" using assms(4) by (auto simp: hs_service_intro_def)
  then have dh': "x25519_dh K x (x25519_pub K b) = Some s" using assms(2) by (auto simp: dh_commutes_def)
  let ?st = "\<lparr>heph = x, hencKey = x25519_pub K b, hauthKey = authKey, hclientX = x25519_pub K x\<rparr>"
  have i: "hsNtorIntroWith K (x25519_pub K b) authKey subcred x = Inr (enc, mac, x25519_pub K x, ?st)"
    using assms(1,3,4) dh dh' by (auto simp: hs_service_intro_def hsNtorIntroWith_def Let_def SHAKE256_def slice_def)
  have le: "length enc = 32" using assms(1,4) by (auto simp: hs_service_intro_def Let_def)
  let ?p = "BuildIntroduce1Plaintext cookie rpKey specs" and ?s = "\<lparr>ckey = enc, civ = replicate 16 0, cpos = 0\<rparr>"
  let ?e = "fst (xorKeyStream K ?p ?s)"
  have p: "\<exists>n. ?p = cookie @ [0, 1] @ be16 (of_nat (length rpKey)) @ rpKey @ specs @ replicate n 0" "246 \<le> length ?p"
    by (auto simp: BuildIntroduce1Plaintext_def Let_def intro: exI [of _ 0])
  have h: "introduce1_header authKey = replicate 20 0 @ [2] @ be16 32 @ authKey @ [0]"
    using assms(3) by (simp add: introduce1_header_def)
  have "BuildIntroduce1 K authKey enc mac (x25519_pub K x) ?p =
      Inr (introduce1_header authKey @ x25519_pub K x @ ?e @ hsMac K mac [introduce1_header authKey, x25519_pub K x, ?e])"
    using le by (simp add: BuildIntroduce1_def ctr_crypt_def Let_def)
  moreover have "ctr_crypt K enc (replicate 16 0) ?e = Some ?p" using le by (simp add: ctr_crypt_def xor_twice)
  ultimately show ?thesis using i p unfolding h
    by (intro exI [of _ ?st] exI [of _ "_ @ _"] exI [of _ ?e]) (auto simp: append_assoc)
qed

theorem introduction_reaches_service_witness:
  "\<exists>st. hsNtorIntroWith toy_crypto (x25519_pub toy_crypto [7]) (replicate 32 1) [2] [5] =
     Inr (fst (the (hs_service_intro toy_crypto (replicate 32 1) [7] [2] (x25519_pub toy_crypto [5]))),
          snd (the (hs_service_intro toy_crypto (replicate 32 1) [7] [2] (x25519_pub toy_crypto [5]))), x25519_pub toy_crypto [5], st)"
proof -
  obtain enc mac where e: "hs_service_intro toy_crypto (replicate 32 1) [7] [2] (x25519_pub toy_crypto [5]) = Some (enc, mac)"
    by (simp add: hs_service_intro_def toy_crypto_def toy_fit_def Let_def)
  show ?thesis
    using introduction_reaches_service [OF toy_crypto_wf toy_dh_commutes _ e, of "[]" "[]" "[]"] unfolding e by auto
qed

end
