(* ===== verification/Socks.thy ===== *)
theory Socks
  imports Go_Text
begin

text \<open>The SOCKS5 server of \<^verbatim>\<open>pkg/socks/socks.go\<close>: method negotiation, the RFC 1929 credentials, the
  CONNECT request, the replies, the whole of \<^verbatim>\<open>handle\<close> for one connection, and the accept loop of
  \<^verbatim>\<open>Serve\<close> as a step relation over the semaphore, the back-off and the cancellation.

  A client connection is a record: the bytes the peer will send, each with the instant at which it
  arrives, whether and when the peer closes its side, the bytes written so far, how many more the
  peer will take before a write fails, the read deadline and the clock.  The dialer factory, the
  dialers and the relay are parameters over an arbitrary world.\<close>

section \<open>The connection\<close>

datatype net_err = NetEOF | NetUnexpectedEOF | NetTimeout | NetWrite

record sconn =
  c_script :: "(int \<times> byte) list"
  c_eof :: "int option"
  c_out :: bytes
  c_room :: nat
  c_deadline :: "int option"
  c_now :: int

definition SetReadDeadline :: "int option \<Rightarrow> sconn \<Rightarrow> sconn" where
  "SetReadDeadline d c = c\<lparr>c_deadline := d\<rparr>"

text \<open>Under a deadline a read sees the bytes that arrive by then.\<close>

definition in_time :: "sconn \<Rightarrow> int \<Rightarrow> bool" where
  "in_time c t \<longleftrightarrow> (case c_deadline c of None \<Rightarrow> True | Some d \<Rightarrow> t \<le> d)"

definition avail :: "sconn \<Rightarrow> bytes" where
  "avail c = map snd (takeWhile (\<lambda>(t, b). in_time c t) (c_script c))"

definition advance :: "(int \<times> byte) list \<Rightarrow> int \<Rightarrow> int" where
  "advance bs now = foldl (\<lambda>n (t, b). max n t) now bs"

text \<open>\<^verbatim>\<open>io.ReadFull\<close>: the bytes, or the end of the input (after none or after some of them), or the
  time-out of the deadline.  All deadlines of this server are set before it reads, so a read never
  waits longer than that.\<close>

definition read_full :: "nat \<Rightarrow> sconn \<Rightarrow> (net_err + bytes) \<times> sconn" where
  "read_full n c =
     (let got = takeWhile (\<lambda>(t, b). in_time c t) (c_script c);
          rest = dropWhile (\<lambda>(t, b). in_time c t) (c_script c)
      in if n \<le> length got then
           (Inr (map snd (take n got)),
            c\<lparr>c_script := drop n (c_script c), c_now := advance (take n got) (c_now c)\<rparr>)
         else case (rest, c_eof c) of
             ([], Some e) \<Rightarrow>
               if in_time c e then
                 (Inl (if got = [] then NetEOF else NetUnexpectedEOF),
                  c\<lparr>c_script := [], c_now := max e (advance got (c_now c))\<rparr>)
               else (Inl NetTimeout, c\<lparr>c_script := [],
                       c_now := max (the (c_deadline c)) (advance got (c_now c))\<rparr>)
           | _ \<Rightarrow> (Inl NetTimeout, c\<lparr>c_script := rest,
                     c_now := max (the (c_deadline c)) (advance got (c_now c))\<rparr>))"

definition conn_write :: "bytes \<Rightarrow> sconn \<Rightarrow> net_err option \<times> sconn" where
  "conn_write p c =
     ((if length p \<le> c_room c then None else Some NetWrite),
      c\<lparr>c_out := c_out c @ take (c_room c) p, c_room := c_room c - length p\<rparr>)"

section \<open>Constants and errors\<close>

definition version5 :: byte where "version5 = 0x05"
definition authVersion :: byte where "authVersion = 0x01"
definition methodNoAuth :: byte where "methodNoAuth = 0x00"
definition methodUserPass :: byte where "methodUserPass = 0x02"
definition methodNoAcceptable :: byte where "methodNoAcceptable = 0xFF"
definition cmdConnect :: byte where "cmdConnect = 0x01"
definition atypIPv4 :: byte where "atypIPv4 = 0x01"
definition atypDomain :: byte where "atypDomain = 0x03"
definition atypIPv6 :: byte where "atypIPv6 = 0x04"
definition replySuccess :: byte where "replySuccess = 0x00"
definition replyGeneralFailure :: byte where "replyGeneralFailure = 0x01"
definition replyCommandNotSupported :: byte where "replyCommandNotSupported = 0x07"
definition replyAddrTypeNotSupported :: byte where "replyAddrTypeNotSupported = 0x08"
definition replyTTLExpired :: byte where "replyTTLExpired = 0x06"
definition authStatusSuccess :: byte where "authStatusSuccess = 0x00"

lemmas socks_consts = version5_def authVersion_def methodNoAuth_def methodUserPass_def
  methodNoAcceptable_def cmdConnect_def atypIPv4_def atypDomain_def atypIPv6_def
  replySuccess_def replyGeneralFailure_def replyCommandNotSupported_def
  replyAddrTypeNotSupported_def replyTTLExpired_def authStatusSuccess_def

text \<open>A Go error is the list of the errors of its unwrap chain; \<^verbatim>\<open>errors.Is\<close> looks for one in it.\<close>

datatype err_id = ECONNABORTED | ECONNRESET | EMFILE | ENFILE | ENOBUFS | ENOMEM
  | DeadlineExceeded | Canceled | OtherErr string

definition errors_Is :: "err_id list \<Rightarrow> err_id \<Rightarrow> bool" where
  "errors_Is e x \<longleftrightarrow> x \<in> set e"

definition isTemporaryAcceptErr :: "err_id list \<Rightarrow> bool" where
  "isTemporaryAcceptErr e \<longleftrightarrow>
     errors_Is e ECONNABORTED \<or> errors_Is e ECONNRESET \<or> errors_Is e EMFILE \<or>
     errors_Is e ENFILE \<or> errors_Is e ENOBUFS \<or> errors_Is e ENOMEM"

datatype socks_err = SockIO net_err | UnsupportedVersion byte | UnsupportedAuthVersion byte
  | NoAcceptableMethod | UnsupportedAddrType | UnsupportedCommand byte
  | FactoryErr "err_id list" | DialErr string "err_id list"

section \<open>\<^verbatim>\<open>net.IP.String\<close>\<close>

text \<open>The eight groups of an IPv6 address, and the first longest run of at least two zero groups,
  found the way \<^verbatim>\<open>netip.Addr.appendTo6\<close> finds it.\<close>

definition groups :: "bytes \<Rightarrow> nat list" where
  "groups b = map (\<lambda>i. unat (b ! (2 * i)) * 256 + unat (b ! (2 * i + 1))) [0..<8]"

definition zero_run :: "nat list \<Rightarrow> nat \<times> nat" where
  "zero_run gs = foldl (\<lambda>(zs, ze) i.
     let l = length (takeWhile (\<lambda>g. g = 0) (drop i gs)) in
     if 2 \<le> l \<and> ze - zs < l then (i, i + l) else (zs, ze)) (255, 255) [0..<8]"

fun hex_nat :: "nat \<Rightarrow> string" where
  "hex_nat n = (if n < 16 then [hex_digit n] else hex_nat (n div 16) @ [hex_digit (n mod 16)])"

declare hex_nat.simps [simp del]

definition sep_from :: "nat \<Rightarrow> nat list \<Rightarrow> string" where
  "sep_from i gs = concat (map (\<lambda>j. (if j > 0 then '':'' else '''') @ hex_nat (gs ! j)) [i..<8])"

definition appendTo6 :: "bytes \<Rightarrow> string" where
  "appendTo6 b =
     (let gs = groups b; (zs, ze) = zero_run gs in
      if zs < 8 then
        concat (map (\<lambda>j. (if j > 0 then '':'' else '''') @ hex_nat (gs ! j)) [0..<zs]) @ ''::'' @
        (if ze \<ge> 8 then '''' else hex_nat (gs ! ze) @ sep_from (ze + 1) gs)
      else sep_from 0 gs)"

definition IP_String :: "bytes \<Rightarrow> string" where
  "IP_String ip =
     (if ip = [] then ''<nil>''
      else if length ip \<noteq> 4 \<and> length ip \<noteq> 16 then ''?'' @ hex_enc ip
      else case To4 (Some ip) of Some p4 \<Rightarrow> dotted p4 | None \<Rightarrow> appendTo6 ip)"

section \<open>Negotiation\<close>

definition readUserPass :: "sconn \<Rightarrow> (socks_err + string \<times> string) \<times> sconn" where
  "readUserPass c0 =
     (case read_full 2 c0 of
        (Inl e, c1) \<Rightarrow> (Inl (SockIO e), c1)
      | (Inr header, c1) \<Rightarrow>
        if header ! 0 \<noteq> authVersion then (Inl (UnsupportedAuthVersion (header ! 0)), c1)
        else (case read_full (unat (header ! 1)) c1 of
            (Inl e, c2) \<Rightarrow> (Inl (SockIO e), c2)
          | (Inr uname, c2) \<Rightarrow>
            (case read_full 1 c2 of
               (Inl e, c3) \<Rightarrow> (Inl (SockIO e), c3)
             | (Inr plen, c3) \<Rightarrow>
               (case read_full (unat (plen ! 0)) c3 of
                  (Inl e, c4) \<Rightarrow> (Inl (SockIO e), c4)
                | (Inr passwd, c4) \<Rightarrow>
                  (case conn_write [authVersion, authStatusSuccess] c4 of
                     (Some e, c5) \<Rightarrow> (Inl (SockIO e), c5)
                   | (None, c5) \<Rightarrow> (Inr (str_of uname, str_of passwd), c5))))))"

definition negotiate :: "sconn \<Rightarrow> (socks_err + string \<times> string) \<times> sconn" where
  "negotiate c0 =
     (case read_full 2 c0 of
        (Inl e, c1) \<Rightarrow> (Inl (SockIO e), c1)
      | (Inr header, c1) \<Rightarrow>
        if header ! 0 \<noteq> version5 then (Inl (UnsupportedVersion (header ! 0)), c1)
        else (case read_full (unat (header ! 1)) c1 of
            (Inl e, c2) \<Rightarrow> (Inl (SockIO e), c2)
          | (Inr methods, c2) \<Rightarrow>
            if methodUserPass \<in> set methods then
              (case conn_write [version5, methodUserPass] c2 of
                 (Some e, c3) \<Rightarrow> (Inl (SockIO e), c3)
               | (None, c3) \<Rightarrow> readUserPass c3)
            else if methodNoAuth \<in> set methods then
              (case conn_write [version5, methodNoAuth] c2 of
                 (Some e, c3) \<Rightarrow> (Inl (SockIO e), c3)
               | (None, c3) \<Rightarrow> (Inr ('''', ''''), c3))
            else (Inl NoAcceptableMethod, snd (conn_write [version5, methodNoAcceptable] c2))))"

section \<open>The request\<close>

definition readAddr :: "byte \<Rightarrow> sconn \<Rightarrow> (socks_err + string) \<times> sconn" where
  "readAddr atyp c0 =
     (if atyp = atypIPv4 then
        (case read_full 4 c0 of
           (Inl e, c1) \<Rightarrow> (Inl (SockIO e), c1)
         | (Inr buf, c1) \<Rightarrow> (Inr (IP_String buf), c1))
      else if atyp = atypIPv6 then
        (case read_full 16 c0 of
           (Inl e, c1) \<Rightarrow> (Inl (SockIO e), c1)
         | (Inr buf, c1) \<Rightarrow> (Inr (IP_String buf), c1))
      else if atyp = atypDomain then
        (case read_full 1 c0 of
           (Inl e, c1) \<Rightarrow> (Inl (SockIO e), c1)
         | (Inr lenBuf, c1) \<Rightarrow>
           (case read_full (unat (lenBuf ! 0)) c1 of
              (Inl e, c2) \<Rightarrow> (Inl (SockIO e), c2)
            | (Inr domain, c2) \<Rightarrow> (Inr (str_of domain), c2)))
      else (Inl UnsupportedAddrType, c0))"

definition readRequest :: "sconn \<Rightarrow> (socks_err + byte \<times> string \<times> string) \<times> sconn" where
  "readRequest c0 =
     (case read_full 4 c0 of
        (Inl e, c1) \<Rightarrow> (Inl (SockIO e), c1)
      | (Inr header, c1) \<Rightarrow>
        if header ! 0 \<noteq> version5 then (Inl (UnsupportedVersion (header ! 0)), c1)
        else (case readAddr (header ! 3) c1 of
            (Inl e, c2) \<Rightarrow> (Inl e, c2)
          | (Inr host, c2) \<Rightarrow>
            (case read_full 2 c2 of
               (Inl e, c3) \<Rightarrow> (Inl (SockIO e), c3)
             | (Inr portBuf, c3) \<Rightarrow>
               (Inr (header ! 1, host, Itoa (uint (get16 portBuf))), c3))))"

definition reply :: "byte \<Rightarrow> bytes" where
  "reply code = [version5, code, 0x00, atypIPv4, 0, 0, 0, 0, 0, 0]"

definition sendReply :: "byte \<Rightarrow> sconn \<Rightarrow> net_err option \<times> sconn" where
  "sendReply code c = conn_write (reply code) c"

definition dialErrorReply :: "err_id list \<Rightarrow> byte" where
  "dialErrorReply e = (if errors_Is e DeadlineExceeded then replyTTLExpired else replyGeneralFailure)"

section \<open>One connection\<close>

definition handshakeTimeout :: int where "handshakeTimeout = 30 * 1000000000"
definition maxConcurrentConns :: nat where "maxConcurrentConns = 1024"
definition maxAcceptBackoff :: int where "maxAcceptBackoff = 1000000000"

record server =
  testHandshakeTimeout :: int
  testMaxConns :: int

definition hsTimeout :: "server \<Rightarrow> int" where
  "hsTimeout s = (if testHandshakeTimeout s > 0 then testHandshakeTimeout s else handshakeTimeout)"

definition maxConns :: "server \<Rightarrow> nat" where
  "maxConns s = (if testMaxConns s > 0 then nat (testMaxConns s) else maxConcurrentConns)"

text \<open>What the proxy uses of the rest of the program: the factory of dialers, a dialer's
  \<^verbatim>\<open>DialContext\<close>, the relay between the two connections and the closing of the upstream one.\<close>

record ('d, 'u, 'w) upstream =
  up_factory :: "string \<Rightarrow> string \<Rightarrow> 'w \<Rightarrow> (err_id list + 'd) \<times> 'w"
  up_dial :: "'d \<Rightarrow> string \<Rightarrow> string \<Rightarrow> 'w \<Rightarrow> (err_id list + 'u) \<times> 'w"
  up_relay :: "sconn \<Rightarrow> 'u \<Rightarrow> 'w \<Rightarrow> sconn \<times> 'w"
  up_close :: "'u \<Rightarrow> 'w \<Rightarrow> 'w"

text \<open>The request phase of \<^verbatim>\<open>handle\<close>, under the deadline, and the rest of it.\<close>

definition handle_handshake :: "server \<Rightarrow> sconn \<Rightarrow> (socks_err + (string \<times> string) \<times> byte \<times> string \<times> string) \<times> sconn" where
  "handle_handshake s c =
     (let c0 = SetReadDeadline (Some (c_now c + hsTimeout s)) c in
      case negotiate c0 of
        (Inl e, c1) \<Rightarrow> (Inl e, c1)
      | (Inr up, c1) \<Rightarrow>
        (case readRequest c1 of
           (Inl e, c2) \<Rightarrow>
             (Inl e, if e = UnsupportedAddrType
                     then snd (sendReply replyAddrTypeNotSupported c2) else c2)
         | (Inr req, c2) \<Rightarrow> (Inr (up, req), SetReadDeadline None c2)))"

definition handle :: "server \<Rightarrow> ('d, 'u, 'w) upstream \<Rightarrow> sconn \<Rightarrow> 'w \<Rightarrow> socks_err option \<times> sconn \<times> 'w" where
  "handle s U c w =
     (case handle_handshake s c of
        (Inl e, c1) \<Rightarrow> (Some e, c1, w)
      | (Inr ((user, pass), cmd, host, port), c1) \<Rightarrow>
        if cmd \<noteq> cmdConnect then
          (Some (UnsupportedCommand cmd), snd (sendReply replyCommandNotSupported c1), w)
        else (case up_factory U user pass w of
            (Inl e, w1) \<Rightarrow> (Some (FactoryErr e), snd (sendReply replyGeneralFailure c1), w1)
          | (Inr dialer, w1) \<Rightarrow>
            let target = JoinHostPort host port in
            (case up_dial U dialer ''tcp'' target w1 of
               (Inl e, w2) \<Rightarrow> (Some (DialErr target e), snd (sendReply (dialErrorReply e) c1), w2)
             | (Inr up, w2) \<Rightarrow>
               (case sendReply replySuccess c1 of
                  (Some e, c2) \<Rightarrow> (Some (SockIO e), c2, up_close U up w2)
                | (None, c2) \<Rightarrow>
                  (case up_relay U c2 up w2 of
                     (c3, w3) \<Rightarrow> (None, c3, up_close U up w3))))))"

section \<open>Reading under a deadline\<close>

text \<open>The connection after \<open>n\<close> of its available bytes were read, and after a write.\<close>

definition took :: "nat \<Rightarrow> sconn \<Rightarrow> sconn" where
  "took n c = c\<lparr>c_script := drop n (c_script c), c_now := advance (take n (c_script c)) (c_now c)\<rparr>"

definition wrote :: "bytes \<Rightarrow> sconn \<Rightarrow> sconn" where
  "wrote p c = snd (conn_write p c)"

lemma length_avail: "length (avail c) = length (takeWhile (\<lambda>(t, b). in_time c t) (c_script c))"
  by (simp add: avail_def)

lemma take_got: "n \<le> length (avail c) \<Longrightarrow>
  take n (takeWhile (\<lambda>(t, b). in_time c t) (c_script c)) = take n (c_script c)"
  by (metis length_avail takeWhile_eq_take min.absorb1 take_take)

lemma read_full_ok: "n \<le> length (avail c) \<Longrightarrow> read_full n c = (Inr (take n (avail c)), took n c)"
  using take_got [of n c] by (simp add: read_full_def Let_def avail_def took_def take_map)

lemma read_full_short: "\<not> n \<le> length (avail c) \<Longrightarrow> \<exists>e c'. read_full n c = (Inl e, c')"
  by (auto simp: read_full_def Let_def avail_def split: list.split option.split)

lemma fields_took [simp]:
  "c_deadline (took n c) = c_deadline c" "c_room (took n c) = c_room c" "c_out (took n c) = c_out c"
  "c_script (took n c) = drop n (c_script c)"
  by (simp_all add: took_def)

lemma fields_wrote [simp]:
  "c_deadline (wrote p c) = c_deadline c" "c_script (wrote p c) = c_script c" "c_now (wrote p c) = c_now c"
  "c_out (wrote p c) = c_out c @ take (c_room c) p" "c_room (wrote p c) = c_room c - length p"
  by (simp_all add: wrote_def conn_write_def)

lemma in_time_same [simp]: "in_time (took n c) = in_time c" "in_time (wrote p c) = in_time c"
  by (simp_all add: in_time_def fun_eq_iff)

lemma avail_took [simp]:
  assumes "n \<le> length (avail c)"
  shows "avail (took n c) = drop n (avail c)"
proof -
  let ?P = "\<lambda>(t, b). in_time c t"
  have "takeWhile ?P (drop n xs) = drop n (takeWhile ?P xs)" if "n \<le> length (takeWhile ?P xs)"
    for xs :: "(int \<times> byte) list"
    using that
  proof (induction n arbitrary: xs)
    case (Suc n)
    then show ?case by (cases xs) (auto split: if_splits)
  qed simp
  then show ?thesis using assms by (simp add: avail_def took_def drop_map in_time_def)
qed

lemma avail_wrote [simp]: "avail (wrote p c) = avail c"
  by (simp add: avail_def wrote_def conn_write_def in_time_def)

lemma case_read:
  "(case read_full n c of (Inl e, c1) \<Rightarrow> (Inl (f e), c1) | (Inr b, c1) \<Rightarrow> k b c1) = (Inr x, c') \<longleftrightarrow>
   n \<le> length (avail c) \<and> k (take n (avail c)) (took n c) = (Inr x, c')"
  using read_full_ok [of n c] read_full_short [of n c] by (cases "n \<le> length (avail c)") auto

lemma case_write:
  "(case conn_write p c of (Some e, c1) \<Rightarrow> (Inl (f e), c1) | (None, c1) \<Rightarrow> k c1) = (Inr x, c') \<longleftrightarrow>
   length p \<le> c_room c \<and> k (wrote p c) = (Inr x, c')"
  by (simp add: conn_write_def wrote_def)

lemma if_Inl: "(if b then (Inl e, c1) else r) = (Inr x, c') \<longleftrightarrow> \<not> b \<and> r = (Inr x, c')"
  by simp

lemmas socks_io = case_read case_write if_Inl

section \<open>What a client sends\<close>

definition enc_hello :: "bytes \<Rightarrow> bytes" where
  "enc_hello methods = [version5, of_nat (length methods)] @ methods"

definition enc_auth :: "bytes \<Rightarrow> bytes \<Rightarrow> bytes" where
  "enc_auth user pass = [authVersion, of_nat (length user)] @ user @ [of_nat (length pass)] @ pass"

datatype socks_addr = AddrV4 bytes | AddrV6 bytes | AddrName bytes

fun enc_addr :: "socks_addr \<Rightarrow> bytes" where
  "enc_addr (AddrV4 b) = atypIPv4 # b"
| "enc_addr (AddrV6 b) = atypIPv6 # b"
| "enc_addr (AddrName b) = atypDomain # of_nat (length b) # b"

fun addr_ok :: "socks_addr \<Rightarrow> bool" where
  "addr_ok (AddrV4 b) \<longleftrightarrow> length b = 4"
| "addr_ok (AddrV6 b) \<longleftrightarrow> length b = 16"
| "addr_ok (AddrName b) \<longleftrightarrow> length b < 256"

fun addr_host :: "socks_addr \<Rightarrow> string" where
  "addr_host (AddrV4 b) = IP_String b"
| "addr_host (AddrV6 b) = IP_String b"
| "addr_host (AddrName b) = str_of b"

definition enc_request :: "byte \<Rightarrow> byte \<Rightarrow> socks_addr \<Rightarrow> u16 \<Rightarrow> bytes" where
  "enc_request cmd rsv addr p = [version5, cmd, rsv] @ enc_addr addr @ be16 p"

text \<open>The sub-negotiation that the offered methods lead to, the credentials it yields and the bytes
  the server answers with.\<close>

definition auth_part :: "bytes \<Rightarrow> bytes \<Rightarrow> string \<Rightarrow> string \<Rightarrow> bool" where
  "auth_part methods part user pass \<longleftrightarrow>
     (if methodUserPass \<in> set methods
      then \<exists>u p. part = enc_auth u p \<and> length u < 256 \<and> length p < 256 \<and> user = str_of u \<and> pass = str_of p
      else methodNoAuth \<in> set methods \<and> part = [] \<and> user = '''' \<and> pass = '''')"

definition greeting :: "bytes \<Rightarrow> bytes" where
  "greeting methods = (if methodUserPass \<in> set methods
     then [version5, methodUserPass, authVersion, authStatusSuccess] else [version5, methodNoAuth])"

lemma split_head: "n \<le> length xs \<Longrightarrow> \<exists>a b. xs = a @ b \<and> length a = n"
  by (metis append_take_drop_id length_take min.absorb2)

lemma unat_of_length [simp]: "length (u :: bytes) < 256 \<Longrightarrow> unat (of_nat (length u) :: byte) = length u"
  by (simp add: unat_of_nat)

lemma of_nat_length_unat: "length (u :: bytes) = unat (b :: byte) \<Longrightarrow> of_nat (length u) = b"
  by simp

lemma readUserPass_Inr:
  "readUserPass c = (Inr (user, pass), c') \<longleftrightarrow>
   (\<exists>u p rest. avail c = enc_auth u p @ rest \<and> length u < 256 \<and> length p < 256 \<and>
      user = str_of u \<and> pass = str_of p \<and> 2 \<le> c_room c \<and>
      c' = wrote [authVersion, authStatusSuccess]
             (took (length p) (took 1 (took (length u) (took 2 c)))))" (is "?L \<longleftrightarrow> ?R")
proof
  assume ?L
  then have L: "2 \<le> length (avail c)" "avail c ! 0 = authVersion"
    "unat (avail c ! 1) \<le> length (avail c) - 2"
    "1 \<le> length (avail c) - 2 - unat (avail c ! 1)"
    and L2: "readUserPass c = (Inr (user, pass), c')"
    unfolding readUserPass_def socks_io by (auto simp: socks_io)
  obtain v l r where a: "avail c = v # l # r" using L(1) by (cases "avail c"; cases "tl (avail c)") auto
  from L a obtain u r1 where u: "r = u @ r1" "length u = unat l" using split_head [of "unat l" r] by auto
  from L a u obtain pl r2 where r1: "r1 = pl # r2" by (cases r1) auto
  have "unat pl \<le> length r2" using L2 L a u r1 unfolding readUserPass_def socks_io by (simp add: socks_io)
  then obtain p rest where p: "r2 = p @ rest" "length p = unat pl" using split_head by blast
  have "avail c = enc_auth u p @ rest"
    using a u r1 p L(2) by (simp add: enc_auth_def)
  moreover have "length u < 256" "length p < 256" using u p unat_byte_lt by metis+
  moreover have "user = str_of u \<and> pass = str_of p \<and> 2 \<le> c_room c \<and>
      c' = wrote [authVersion, authStatusSuccess] (took (length p) (took 1 (took (length u) (took 2 c))))"
    using L2 a u r1 p unfolding readUserPass_def socks_io by (simp add: socks_io)
  ultimately show ?R by blast
next
  assume ?R
  then show ?L unfolding readUserPass_def by (auto simp: socks_io enc_auth_def)
qed

lemma avail_take_app: "avail c = a @ r \<Longrightarrow> length a = n \<Longrightarrow> n \<le> length (avail c) \<and> take n (avail c) = a \<and> drop n (avail c) = r"
  by auto

lemma negotiate_Inr:
  assumes L: "negotiate c = (Inr (user, pass), c')"
  shows "\<exists>methods part rest. avail c = enc_hello methods @ part @ rest \<and> length methods < 256 \<and>
      auth_part methods part user pass \<and> length (greeting methods) \<le> c_room c \<and>
      c_out c' = c_out c @ greeting methods \<and> avail c' = rest \<and>
      c_room c' = c_room c - length (greeting methods)" (is ?R)
proof -
  from L have L1: "2 \<le> length (avail c)" "avail c ! 0 = version5"
    "unat (avail c ! 1) \<le> length (avail c) - 2"
    unfolding negotiate_def by (auto simp: socks_io)
  obtain v l r where a: "avail c = v # l # r" using L1(1) by (cases "avail c"; cases "tl (avail c)") auto
  from L1 a obtain m r1 where m: "r = m @ r1" "length m = unat l" using split_head [of "unat l" r] by auto
  have hello: "avail c = enc_hello m @ r1" using a m L1(2) by (simp add: enc_hello_def)
  have lm: "length m < 256" using m unat_byte_lt by metis
  let ?c2 = "took (length m) (took 2 c)"
  have av2: "avail ?c2 = r1" using a m by simp
  show ?R
  proof (cases "methodUserPass \<in> set m")
    case True
    then have up: "2 \<le> c_room c" "readUserPass (wrote [version5, methodUserPass] ?c2) = (Inr (user, pass), c')"
      using L a m unfolding negotiate_def by (simp_all add: socks_io)
    then obtain u p rest where r: "r1 = enc_auth u p @ rest" "length u < 256" "length p < 256"
      "user = str_of u" "pass = str_of p" "4 \<le> c_room c"
      "c' = wrote [authVersion, authStatusSuccess]
              (took (length p) (took 1 (took (length u) (took 2 (wrote [version5, methodUserPass] ?c2)))))"
      using av2 by (auto simp: readUserPass_Inr)
    have "avail c' = rest" "c_out c' = c_out c @ greeting m"
      "c_room c' = c_room c - length (greeting m)"
      using r av2 True by (simp_all add: enc_auth_def greeting_def)
    then show ?thesis
      using hello lm r L True
      by (intro exI [of _ m] exI [of _ "enc_auth u p"] exI [of _ rest])
         (auto simp: auth_part_def greeting_def)
  next
    case False
    then have na: "methodNoAuth \<in> set m"
      using L a m unfolding negotiate_def by (simp add: socks_io split: if_splits)
    then have "2 \<le> c_room c" "user = ''''" "pass = ''''" "c' = wrote [version5, methodNoAuth] ?c2"
      using False L a m unfolding negotiate_def by (simp_all add: socks_io)
    then show ?thesis
      using hello lm L False na av2
      by (intro exI [of _ m] exI [of _ "[]"] exI [of _ r1]) (auto simp: auth_part_def greeting_def)
  qed
qed

lemma negotiate_enc:
  assumes "avail c = enc_hello methods @ part @ rest" "length methods < 256"
    "auth_part methods part user pass" "length (greeting methods) \<le> c_room c"
  shows "\<exists>c'. negotiate c = (Inr (user, pass), c') \<and> avail c' = rest \<and>
    c_out c' = c_out c @ greeting methods \<and> c_room c' = c_room c - length (greeting methods) \<and>
    c_script c' = drop (length (enc_hello methods @ part)) (c_script c)"
proof -
  let ?c2 = "took (length methods) (took 2 c)"
  have a: "avail c = version5 # of_nat (length methods) # methods @ part @ rest"
    using assms(1) by (simp add: enc_hello_def)
  have av2: "avail ?c2 = part @ rest" using a assms(2) by simp
  show ?thesis
  proof (cases "methodUserPass \<in> set methods")
    case True
    with assms(3,4) obtain u p where p: "part = enc_auth u p" "length u < 256" "length p < 256"
      "user = str_of u" "pass = str_of p" "4 \<le> c_room c"
      by (auto simp: auth_part_def greeting_def)
    have "readUserPass (wrote [version5, methodUserPass] ?c2) =
      (Inr (user, pass), wrote [authVersion, authStatusSuccess]
        (took (length p) (took 1 (took (length u) (took 2 (wrote [version5, methodUserPass] ?c2))))))"
      using p av2 by (subst readUserPass_Inr, intro exI [of _ u] exI [of _ p] exI [of _ rest]) simp
    then show ?thesis
      using a assms(2) p True unfolding negotiate_def
      by (simp add: socks_io av2 greeting_def enc_auth_def enc_hello_def add.commute add.left_commute)
  next
    case False
    with assms(3,4) show ?thesis
      using a assms(2) av2 unfolding negotiate_def
      by (simp add: socks_io auth_part_def greeting_def enc_hello_def)
  qed
qed

lemma readAddr_Inr:
  assumes "readAddr atyp c = (Inr host, c')"
  shows "\<exists>addr rest. addr_ok addr \<and> atyp # avail c = enc_addr addr @ rest \<and> host = addr_host addr \<and>
    avail c' = rest \<and> c_out c' = c_out c \<and> c_room c' = c_room c"
proof -
  consider "atyp = atypIPv4" | "atyp = atypIPv6" | "atyp = atypDomain"
    using assms by (auto simp: readAddr_def split: if_splits)
  then show ?thesis
  proof cases
    case 1
    with assms have l: "4 \<le> length (avail c)" "host = IP_String (take 4 (avail c))" "c' = took 4 c"
      by (simp_all add: readAddr_def socks_io)
    then show ?thesis using 1
      by (intro exI [of _ "AddrV4 (take 4 (avail c))"] exI [of _ "drop 4 (avail c)"]) simp
  next
    case 2
    with assms have l: "16 \<le> length (avail c)" "host = IP_String (take 16 (avail c))" "c' = took 16 c"
      by (simp_all add: readAddr_def socks_io socks_consts)
    then show ?thesis using 2
      by (intro exI [of _ "AddrV6 (take 16 (avail c))"] exI [of _ "drop 16 (avail c)"]) simp
  next
    case 3
    then obtain l r where a: "avail c = l # r"
      using assms by (cases "avail c") (simp_all add: readAddr_def socks_io socks_consts)
    with assms 3 have l: "unat l \<le> length r" "host = str_of (take (unat l) r)" "c' = took (unat l) (took 1 c)"
      by (simp_all add: readAddr_def socks_io socks_consts)
    then show ?thesis using 3 a unat_byte_lt [of l]
      by (intro exI [of _ "AddrName (take (unat l) r)"] exI [of _ "drop (unat l) r"]) simp
  qed
qed

lemma readAddr_enc:
  assumes "addr_ok addr" "atyp # avail c = enc_addr addr @ rest"
  shows "\<exists>c'. readAddr atyp c = (Inr (addr_host addr), c') \<and> avail c' = rest \<and>
    c_out c' = c_out c \<and> c_room c' = c_room c \<and> c_script c' = drop (length (enc_addr addr) - 1) (c_script c)"
  using assms by (cases addr) (simp_all add: readAddr_def socks_io socks_consts read_full_ok)

lemma readRequest_Inr:
  assumes "readRequest c = (Inr (cmd, host, port), c')"
  shows "\<exists>rsv addr p rest. avail c = enc_request cmd rsv addr p @ rest \<and> addr_ok addr \<and>
    host = addr_host addr \<and> port = Itoa (uint p) \<and> avail c' = rest \<and> c_out c' = c_out c \<and> c_room c' = c_room c"
proof -
  from assms have h: "4 \<le> length (avail c)" "avail c ! 0 = version5"
    by (simp_all add: readRequest_def socks_io)
  then obtain cmd' rsv atyp r where a: "avail c = version5 # cmd' # rsv # atyp # r"
    by (auto simp: numeral_eq_Suc Suc_le_length_iff)
  obtain c2 where r: "readAddr atyp (took 4 c) = (Inr host, c2)"
      "2 \<le> length (avail c2)" "cmd' = cmd" "port = Itoa (uint (get16 (take 2 (avail c2))))" "c' = took 2 c2"
    using assms a
    by (cases "readAddr atyp (took 4 c)"; cases "fst (readAddr atyp (took 4 c))")
       (simp_all add: readRequest_def socks_io)
  obtain addr rest where d: "addr_ok addr" "atyp # r = enc_addr addr @ rest" "host = addr_host addr"
      "avail c2 = rest" "c_out c2 = c_out c" "c_room c2 = c_room c"
    using readAddr_Inr [OF r(1)] a by auto
  obtain x y rest' where xy: "rest = x # y # rest'"
    using r(2) d(4) by (auto simp: numeral_eq_Suc Suc_le_length_iff)
  have "be16 (get16 [x, y]) = [x, y]" by (simp add: get_be16)
  then show ?thesis using a r d xy
    by (intro exI [of _ rsv] exI [of _ addr] exI [of _ "get16 [x, y]"] exI [of _ rest'])
       (simp add: enc_request_def)
qed

lemma readRequest_enc:
  assumes "avail c = enc_request cmd rsv addr p @ rest" "addr_ok addr"
  shows "\<exists>c'. readRequest c = (Inr (cmd, addr_host addr, Itoa (uint p)), c') \<and> avail c' = rest \<and>
    c_out c' = c_out c \<and> c_room c' = c_room c \<and>
    c_script c' = drop (length (enc_request cmd rsv addr p)) (c_script c)"
proof -
  obtain atyp r where e: "enc_addr addr = atyp # r" by (cases addr) auto
  have a: "avail c = version5 # cmd # rsv # atyp # r @ be16 p @ rest"
    using assms(1) e by (simp add: enc_request_def)
  obtain c2 where c2: "readAddr atyp (took 4 c) = (Inr (addr_host addr), c2)" "avail c2 = be16 p @ rest"
      "c_out c2 = c_out c" "c_room c2 = c_room c" "c_script c2 = drop (length r + 4) (c_script c)"
    using readAddr_enc [OF assms(2), of atyp "took 4 c" "be16 p @ rest"] a e by auto
  then show ?thesis using a e
    by (simp add: readRequest_def read_full_ok get16_be16 enc_request_def numeral_eq_Suc)
qed

text \<open>The bytes the peer delivers within the handshake's time.\<close>

definition hs_avail :: "server \<Rightarrow> sconn \<Rightarrow> bytes" where
  "hs_avail s c = avail (SetReadDeadline (Some (c_now c + hsTimeout s)) c)"

text \<open>A whole client session up to its request.\<close>

definition socks_session :: "bytes \<Rightarrow> bytes \<Rightarrow> byte \<Rightarrow> byte \<Rightarrow> socks_addr \<Rightarrow> u16 \<Rightarrow> bytes" where
  "socks_session methods part cmd rsv addr p = enc_hello methods @ part @ enc_request cmd rsv addr p"

lemma handshake_enc:
  assumes "hs_avail s c = socks_session methods part cmd rsv addr p @ rest" "length methods < 256"
    "auth_part methods part user pass" "length (greeting methods) \<le> c_room c" "addr_ok addr"
  shows "\<exists>c'. handle_handshake s c = (Inr ((user, pass), cmd, addr_host addr, Itoa (uint p)), c') \<and>
    c_out c' = c_out c @ greeting methods \<and> c_room c' = c_room c - length (greeting methods) \<and>
    c_deadline c' = None \<and>
    c_script c' = drop (length (socks_session methods part cmd rsv addr p)) (c_script c)"
proof -
  let ?c0 = "SetReadDeadline (Some (c_now c + hsTimeout s)) c"
  have c0: "c_out ?c0 = c_out c" "c_room ?c0 = c_room c" "c_script ?c0 = c_script c" by (simp_all add: SetReadDeadline_def)
  obtain c1 where c1: "negotiate ?c0 = (Inr (user, pass), c1)" "avail c1 = enc_request cmd rsv addr p @ rest"
      "c_out c1 = c_out c @ greeting methods" "c_room c1 = c_room c - length (greeting methods)"
      "c_script c1 = drop (length (enc_hello methods @ part)) (c_script c)"
    using negotiate_enc [of ?c0 methods part "enc_request cmd rsv addr p @ rest" user pass] assms c0
    by (auto simp: hs_avail_def socks_session_def)
  obtain c2 where "readRequest c1 = (Inr (cmd, addr_host addr, Itoa (uint p)), c2)"
      "c_out c2 = c_out c1" "c_room c2 = c_room c1"
      "c_script c2 = drop (length (enc_request cmd rsv addr p)) (c_script c1)"
    using readRequest_enc [OF c1(2) assms(5)] by blast
  with c1 show ?thesis by (simp add: handle_handshake_def SetReadDeadline_def socks_session_def add.commute add.left_commute add.assoc)
qed

lemma handshake_Inr:
  assumes "handle_handshake s c = (Inr ((user, pass), cmd, host, port), c')"
  shows "\<exists>methods part rsv addr p rest. hs_avail s c = socks_session methods part cmd rsv addr p @ rest \<and>
    length methods < 256 \<and> auth_part methods part user pass \<and> length (greeting methods) \<le> c_room c \<and>
    addr_ok addr \<and> host = addr_host addr \<and> port = Itoa (uint p)"
proof -
  let ?c0 = "SetReadDeadline (Some (c_now c + hsTimeout s)) c"
  have c0: "c_room ?c0 = c_room c" by (simp add: SetReadDeadline_def)
  obtain c1 c2 where n: "negotiate ?c0 = (Inr (user, pass), c1)" and r: "readRequest c1 = (Inr (cmd, host, port), c2)"
    using assms by (auto simp: handle_handshake_def Let_def split: prod.splits sum.splits)
  from negotiate_Inr [OF n] obtain methods part rest where m: "avail ?c0 = enc_hello methods @ part @ rest"
      "length methods < 256" "auth_part methods part user pass" "length (greeting methods) \<le> c_room ?c0"
      "avail c1 = rest"
    by auto
  from readRequest_Inr [OF r] obtain rsv addr p rest' where q: "avail c1 = enc_request cmd rsv addr p @ rest'"
      "addr_ok addr" "host = addr_host addr" "port = Itoa (uint p)"
    by auto
  have "hs_avail s c = socks_session methods part cmd rsv addr p @ rest'"
    using m(1,5) q(1) by (simp add: hs_avail_def socks_session_def)
  with m q c0 show ?thesis
    by (intro exI [of _ methods] exI [of _ part] exI [of _ rsv] exI [of _ addr] exI [of _ p] exI [of _ rest']) simp
qed

section \<open>The handshake's time\<close>

definition timely :: "int \<Rightarrow> sconn \<Rightarrow> bool" where
  "timely d c \<longleftrightarrow> c_deadline c = Some d \<and> c_now c \<le> d"

lemma advance_le: "now \<le> d \<Longrightarrow> \<forall>(t, b) \<in> set bs. t \<le> d \<Longrightarrow> advance bs now \<le> d"
  unfolding advance_def by (induction bs arbitrary: now) auto

lemma timely_read: 
  assumes "timely d c" "read_full n c = (r, c')"
  shows "timely d c'"
proof -
  let ?got = "takeWhile (\<lambda>(t, b). in_time c t) (c_script c)"
  have "\<forall>(t, b) \<in> set ?got. t \<le> d"
    using assms(1) by (auto simp: timely_def in_time_def dest!: set_takeWhileD)
  then have "\<forall>m. advance (take m ?got) (c_now c) \<le> d" "advance ?got (c_now c) \<le> d"
    using assms(1) by (auto simp: timely_def intro!: advance_le dest: in_set_takeD)
  with assms show ?thesis
    by (auto simp: timely_def read_full_def Let_def in_time_def split: if_splits list.splits option.splits)
qed

lemma timely_write: "timely d c \<Longrightarrow> timely d (snd (conn_write p c))"
  by (auto simp: timely_def conn_write_def)

lemma timely_case_read:
  "timely d c \<Longrightarrow> (\<And>b c1. timely d c1 \<Longrightarrow> timely d (snd (k b c1))) \<Longrightarrow>
   timely d (snd (case read_full n c of (Inl e, c1) \<Rightarrow> (Inl (f e), c1) | (Inr b, c1) \<Rightarrow> k b c1))"
  by (cases "read_full n c"; cases "fst (read_full n c)") (auto dest: timely_read)

lemma timely_case_write:
  "timely d c \<Longrightarrow> (\<And>c1. timely d c1 \<Longrightarrow> timely d (snd (k c1))) \<Longrightarrow>
   timely d (snd (case conn_write p c of (Some e, c1) \<Rightarrow> (Inl (f e), c1) | (None, c1) \<Rightarrow> k c1))"
  using timely_write [of d c p] by (cases "conn_write p c"; cases "fst (conn_write p c)") auto

lemma timely_if:
  "timely d (snd x) \<Longrightarrow> timely d (snd y) \<Longrightarrow> timely d (snd (if b then x else y))"
  by simp

lemma timely_ret: "timely d c \<Longrightarrow> timely d (snd (r, c))"
  by simp

lemmas timely_rules = timely_if timely_case_read timely_case_write timely_ret timely_write

lemma timely_readUserPass: "timely d c \<Longrightarrow> timely d (snd (readUserPass c))"
  unfolding readUserPass_def by (intro timely_rules)

lemma timely_negotiate: "timely d c \<Longrightarrow> timely d (snd (negotiate c))"
  unfolding negotiate_def by (intro timely_rules timely_readUserPass)

lemma timely_readAddr: "timely d c \<Longrightarrow> timely d (snd (readAddr a c))"
  unfolding readAddr_def by (intro timely_rules)

lemma timely_case_addr:
  "timely d c \<Longrightarrow> (\<And>b c1. timely d c1 \<Longrightarrow> timely d (snd (k b c1))) \<Longrightarrow>
   timely d (snd (case readAddr a c of (Inl e, c1) \<Rightarrow> (Inl e, c1) | (Inr b, c1) \<Rightarrow> k b c1))"
  using timely_readAddr [of d c a] by (cases "readAddr a c"; cases "fst (readAddr a c)") auto

lemma timely_readRequest: "timely d c \<Longrightarrow> timely d (snd (readRequest c))"
  unfolding readRequest_def by (intro timely_rules timely_case_addr)

lemma hsTimeout_pos: "hsTimeout s > 0"
  by (simp add: hsTimeout_def handshakeTimeout_def)

lemma handshake_timely: "c_now (snd (handle_handshake s c)) \<le> c_now c + hsTimeout s"
proof -
  let ?d = "c_now c + hsTimeout s" and ?c0 = "SetReadDeadline (Some (c_now c + hsTimeout s)) c"
  have t0: "timely ?d ?c0" using hsTimeout_pos [of s] by (simp add: timely_def SetReadDeadline_def)
  obtain r1 c1 where n: "negotiate ?c0 = (r1, c1)" by fastforce
  obtain r2 c2 where r: "readRequest c1 = (r2, c2)" by fastforce
  have t: "timely ?d c1" "timely ?d c2"
    using timely_negotiate [OF t0] timely_readRequest [of ?d c1] n r by auto
  then show ?thesis
    using n r by (auto simp: handle_handshake_def timely_def SetReadDeadline_def sendReply_def conn_write_def
        split: sum.split)
qed

section \<open>What the server answers\<close>

text \<open>The reply that goes with each error, and the greetings that may precede it.\<close>

fun err_reply :: "socks_err \<Rightarrow> bytes" where
  "err_reply NoAcceptableMethod = [0x05, 0xFF]"
| "err_reply UnsupportedAddrType = [0x05, 0x08, 0, 0x01, 0, 0, 0, 0, 0, 0]"
| "err_reply (UnsupportedCommand _) = [0x05, 0x07, 0, 0x01, 0, 0, 0, 0, 0, 0]"
| "err_reply (FactoryErr _) = [0x05, 0x01, 0, 0x01, 0, 0, 0, 0, 0, 0]"
| "err_reply (DialErr _ e) =
     [0x05, if DeadlineExceeded \<in> set e then 0x06 else 0x01, 0, 0x01, 0, 0, 0, 0, 0, 0]"
| "err_reply _ = []"

definition greetings :: "bytes set" where
  "greetings = {[], [0x05, 0x00], [0x05, 0x02], [0x05, 0x02, 0x01, 0x00]}"

definition said :: "sconn \<Rightarrow> bytes \<Rightarrow> sconn \<Rightarrow> bool" where
  "said c0 g c \<longleftrightarrow> c_out c = c_out c0 @ g \<and> c_room c = c_room c0 - length g \<and> length g \<le> c_room c0"

definition answers :: "sconn \<Rightarrow> (socks_err + 'a) \<times> sconn \<Rightarrow> bool" where
  "answers c0 x \<longleftrightarrow> (\<exists>g \<in> greetings. said c0 (g @ (case fst x of Inl e \<Rightarrow> err_reply e | Inr _ \<Rightarrow> [])) (snd x))"

lemma said_read: "said c0 g c \<Longrightarrow> read_full n c = (r, c') \<Longrightarrow> said c0 g c'"
  by (auto simp: said_def read_full_def Let_def split: if_splits list.splits option.splits)

lemma said_write: "said c0 g c \<Longrightarrow> length g + length p \<le> c_room c0 \<Longrightarrow> said c0 (g @ p) (snd (conn_write p c))"
  by (auto simp: said_def conn_write_def)

lemma answers_ret: "said c0 g c \<Longrightarrow> g \<in> greetings \<Longrightarrow> answers c0 (Inr x, c)"
  by (auto simp: answers_def)

lemma answers_err: "said c0 g c \<Longrightarrow> g \<in> greetings \<Longrightarrow> err_reply e = [] \<Longrightarrow> answers c0 (Inl e, c)"
  by (auto simp: answers_def)

lemma answers_reply:
  "said c0 g c \<Longrightarrow> g \<in> greetings \<Longrightarrow> err_reply e = p \<Longrightarrow> length g + length p \<le> c_room c0 \<Longrightarrow>
   answers c0 (Inl e, snd (conn_write p c))"
  using said_write [of c0 g c p] by (auto simp: answers_def)

lemma answers_read:
  "said c0 g c \<Longrightarrow> g \<in> greetings \<Longrightarrow> (\<And>b c1. said c0 g c1 \<Longrightarrow> answers c0 (k b c1)) \<Longrightarrow>
   answers c0 (case read_full n c of (Inl e, c1) \<Rightarrow> (Inl (SockIO e), c1) | (Inr b, c1) \<Rightarrow> k b c1)"
  by (cases "read_full n c"; cases "fst (read_full n c)") (auto dest: said_read intro: answers_err)

lemma answers_write:
  "said c0 g c \<Longrightarrow> length g + length p \<le> c_room c0 \<Longrightarrow> (\<And>c1. said c0 (g @ p) c1 \<Longrightarrow> answers c0 (k c1)) \<Longrightarrow>
   answers c0 (case conn_write p c of (Some e, c1) \<Rightarrow> (Inl (SockIO e), c1) | (None, c1) \<Rightarrow> k c1)"
  using said_write [of c0 g c p]
  by (cases "conn_write p c"; cases "fst (conn_write p c)") (auto simp: said_def conn_write_def split: if_splits)

lemma answers_if:
  "(b \<Longrightarrow> answers c0 x) \<Longrightarrow> (\<not> b \<Longrightarrow> answers c0 y) \<Longrightarrow> answers c0 (if b then x else y)"
  by simp

lemma said_refl [simp]: "said c [] c" by (simp add: said_def)

lemma greetings_cases [simp]:
  "[] \<in> greetings" "[0x05, 0x00] \<in> greetings" "[0x05, 0x02] \<in> greetings" "[0x05, 0x02, 0x01, 0x00] \<in> greetings"
  by (simp_all add: greetings_def)

lemma greetings_len: "g \<in> greetings \<Longrightarrow> length g \<le> 4"
  by (auto simp: greetings_def)

lemma answers_readUserPass:
  "4 \<le> c_room c0 \<Longrightarrow> said c0 [0x05, 0x02] c \<Longrightarrow> answers c0 (readUserPass c)"
  unfolding readUserPass_def socks_consts
  by (intro answers_read [of c0 "[0x05, 0x02]"] answers_if answers_err [of c0 "[0x05, 0x02]"]
        answers_write [of c0 "[0x05, 0x02]"] answers_ret [of c0 "[0x05, 0x02, 0x01, 0x00]"]) simp_all

lemma answers_negotiate: "4 \<le> c_room c \<Longrightarrow> answers c (negotiate c)"
  unfolding negotiate_def socks_consts
  by (intro answers_read [of c "[]"] answers_if answers_err [of c "[]"] answers_write [of c "[]"]
        answers_ret [of c "[0x05, 0x00]"] answers_readUserPass answers_reply [of c "[]"]) simp_all

text \<open>Reading a request writes nothing.\<close>

definition quiet :: "sconn \<Rightarrow> bytes \<Rightarrow> (socks_err + 'a) \<times> sconn \<Rightarrow> bool" where
  "quiet c0 g x \<longleftrightarrow> said c0 g (snd x) \<and>
     (case fst x of Inl e \<Rightarrow> e = UnsupportedAddrType \<or> err_reply e = [] | Inr _ \<Rightarrow> True)"

lemma quiet_read:
  "said c0 g c \<Longrightarrow> (\<And>b c1. said c0 g c1 \<Longrightarrow> quiet c0 g (k b c1)) \<Longrightarrow>
   quiet c0 g (case read_full n c of (Inl e, c1) \<Rightarrow> (Inl (SockIO e), c1) | (Inr b, c1) \<Rightarrow> k b c1)"
  by (cases "read_full n c"; cases "fst (read_full n c)") (auto dest: said_read simp: quiet_def)

lemma quiet_if: "quiet c0 g x \<Longrightarrow> quiet c0 g y \<Longrightarrow> quiet c0 g (if b then x else y)"
  by simp

lemma quiet_ret:
  "said c0 g c \<Longrightarrow> quiet c0 g (Inr x, c)" "said c0 g c \<Longrightarrow> quiet c0 g (Inl UnsupportedAddrType, c)"
  "said c0 g c \<Longrightarrow> quiet c0 g (Inl (UnsupportedVersion v), c)"
  by (simp_all add: quiet_def)

lemmas quiet_rules = quiet_if quiet_read quiet_ret

lemma quiet_readAddr: "said c0 g c \<Longrightarrow> quiet c0 g (readAddr a c)"
  unfolding readAddr_def by (intro quiet_rules)

lemma quiet_case_addr:
  "said c0 g c \<Longrightarrow> (\<And>b c1. said c0 g c1 \<Longrightarrow> quiet c0 g (k b c1)) \<Longrightarrow>
   quiet c0 g (case readAddr a c of (Inl e, c1) \<Rightarrow> (Inl e, c1) | (Inr b, c1) \<Rightarrow> k b c1)"
  using quiet_readAddr [of c0 g c a] by (cases "readAddr a c"; cases "fst (readAddr a c)") (auto simp: quiet_def)

lemma quiet_readRequest: "said c0 g c \<Longrightarrow> quiet c0 g (readRequest c)"
  unfolding readRequest_def by (intro quiet_rules quiet_case_addr)

lemma reply_eq: "reply x = [0x05, x, 0, 0x01, 0, 0, 0, 0, 0, 0]"
  by (simp add: reply_def socks_consts)

lemma deadline_fields:
  "c_room (SetReadDeadline d c) = c_room c" "c_out (SetReadDeadline d c) = c_out c"
  by (simp_all add: SetReadDeadline_def)

lemma said_deadline [simp]: "said c0 g (SetReadDeadline d c) = said c0 g c"
  "said (SetReadDeadline d c0) g c = said c0 g c"
  by (simp_all add: said_def SetReadDeadline_def)

lemma answers_deadline [simp]: "answers (SetReadDeadline d c0) x = answers c0 x"
  by (simp add: answers_def)

lemma answers_handshake:
  assumes room: "14 \<le> c_room c"
  shows "answers c (handle_handshake s c)"
proof -
  let ?c0 = "SetReadDeadline (Some (c_now c + hsTimeout s)) c"
  obtain r1 c1 where n: "negotiate ?c0 = (r1, c1)" by fastforce
  have a1: "answers c (r1, c1)"
    using answers_negotiate [of ?c0] n room by (simp add: deadline_fields)
  show ?thesis
  proof (cases r1)
    case (Inl e)
    with n a1 show ?thesis by (simp add: handle_handshake_def answers_def)
  next
    case (Inr up)
    with a1 obtain g where g: "g \<in> greetings" "said c g c1" by (auto simp: answers_def)
    obtain r2 c2 where r: "readRequest c1 = (r2, c2)" by fastforce
    have q: "quiet c g (r2, c2)" using quiet_readRequest [OF g(2)] r by simp
    show ?thesis
    proof (cases "r2 = Inl UnsupportedAddrType")
      case True
      then show ?thesis
        using n r Inr q g room greetings_len [OF g(1)]
        by (auto simp: handle_handshake_def sendReply_def quiet_def reply_eq socks_consts intro!: answers_reply)
    next
      case False
      then show ?thesis
        using n r Inr q g
        by (cases r2) (auto simp: handle_handshake_def quiet_def intro: answers_ret answers_err)
    qed
  qed
qed

section \<open>The accept loop\<close>

text \<open>\<^verbatim>\<open>Serve\<close> is at its \<^verbatim>\<open>Accept\<close>, waiting out a back-off, waiting for a slot with an accepted
  connection in hand, or has returned.  The state also counts the connections accepted, closed and
  being handled, each in its own goroutine holding one slot of the semaphore, and records whether
  the context is done and whether the listener is closed.\<close>

datatype serve_phase = Accepting | BackingOff | Acquiring | Returned "err_id list option"

record serve_state =
  sv_phase :: serve_phase
  sv_backoff :: int
  sv_active :: nat
  sv_accepted :: nat
  sv_closed :: nat
  sv_ctxDone :: bool
  sv_lnClosed :: bool

definition serve_init :: serve_state where
  "serve_init = \<lparr>sv_phase = Accepting, sv_backoff = 0, sv_active = 0, sv_accepted = 0, sv_closed = 0,
     sv_ctxDone = False, sv_lnClosed = False\<rparr>"

definition next_backoff :: "int \<Rightarrow> int" where
  "next_backoff b = (if b = 0 then 5 * 1000000
                     else if b * 2 > maxAcceptBackoff then maxAcceptBackoff else b * 2)"

text \<open>One step: the context is cancelled; the watcher closes the listener; \<^verbatim>\<open>Accept\<close> fails (once the
  context is done, permanently, or for a time); the timer of the back-off fires or the
  cancellation does; \<^verbatim>\<open>Accept\<close> returns a connection; a slot is free and a goroutine is started, or the
  cancellation closes the connection; a handler ends, closes its connection and frees its slot.
  A \<^verbatim>\<open>select\<close> with several ready cases takes any of them.\<close>

inductive serve_step :: "nat \<Rightarrow> serve_state \<Rightarrow> serve_state \<Rightarrow> bool" for cap where
  cancel: "serve_step cap s (s\<lparr>sv_ctxDone := True\<rparr>)"
| watcher: "sv_ctxDone s \<Longrightarrow> (\<forall>r. sv_phase s \<noteq> Returned r) \<Longrightarrow> serve_step cap s (s\<lparr>sv_lnClosed := True\<rparr>)"
| accept_done: "sv_phase s = Accepting \<Longrightarrow> sv_ctxDone s \<Longrightarrow>
    serve_step cap s (s\<lparr>sv_phase := Returned None\<rparr>)"
| accept_temp: "sv_phase s = Accepting \<Longrightarrow> \<not> sv_ctxDone s \<Longrightarrow> isTemporaryAcceptErr e \<Longrightarrow>
    serve_step cap s (s\<lparr>sv_phase := BackingOff, sv_backoff := next_backoff (sv_backoff s)\<rparr>)"
| accept_fail: "sv_phase s = Accepting \<Longrightarrow> \<not> sv_ctxDone s \<Longrightarrow> \<not> isTemporaryAcceptErr e \<Longrightarrow>
    serve_step cap s (s\<lparr>sv_phase := Returned (Some e)\<rparr>)"
| backoff_over: "sv_phase s = BackingOff \<Longrightarrow> serve_step cap s (s\<lparr>sv_phase := Accepting\<rparr>)"
| backoff_done: "sv_phase s = BackingOff \<Longrightarrow> sv_ctxDone s \<Longrightarrow>
    serve_step cap s (s\<lparr>sv_phase := Returned None\<rparr>)"
| accept_conn: "sv_phase s = Accepting \<Longrightarrow> \<not> sv_lnClosed s \<Longrightarrow>
    serve_step cap s (s\<lparr>sv_phase := Acquiring, sv_backoff := 0, sv_accepted := sv_accepted s + 1\<rparr>)"
| acquire_slot: "sv_phase s = Acquiring \<Longrightarrow> sv_active s < cap \<Longrightarrow>
    serve_step cap s (s\<lparr>sv_phase := Accepting, sv_active := sv_active s + 1\<rparr>)"
| acquire_done: "sv_phase s = Acquiring \<Longrightarrow> sv_ctxDone s \<Longrightarrow>
    serve_step cap s (s\<lparr>sv_phase := Returned None, sv_closed := sv_closed s + 1\<rparr>)"
| handler_end: "sv_active s > 0 \<Longrightarrow>
    serve_step cap s (s\<lparr>sv_active := sv_active s - 1, sv_closed := sv_closed s + 1\<rparr>)"

definition in_hand :: "serve_phase \<Rightarrow> nat" where
  "in_hand p = (if p = Acquiring then 1 else 0)"

definition backoff_ok :: "int \<Rightarrow> bool" where
  "backoff_ok b \<longleftrightarrow> b = 0 \<or> (5000000 \<le> b \<and> b \<le> maxAcceptBackoff)"

definition serve_inv :: "nat \<Rightarrow> serve_state \<Rightarrow> bool" where
  "serve_inv cap s \<longleftrightarrow> sv_active s \<le> cap \<and>
     sv_accepted s = sv_closed s + sv_active s + in_hand (sv_phase s) \<and>
     backoff_ok (sv_backoff s) \<and> (sv_phase s = BackingOff \<longrightarrow> sv_backoff s \<noteq> 0) \<and>
     (sv_phase s = Returned None \<longrightarrow> sv_ctxDone s) \<and>
     (\<forall>e. sv_phase s = Returned (Some e) \<longrightarrow> \<not> isTemporaryAcceptErr e)"

lemma next_backoff_ok: "backoff_ok b \<Longrightarrow> backoff_ok (next_backoff b) \<and> 5000000 \<le> next_backoff b"
  by (auto simp: next_backoff_def maxAcceptBackoff_def backoff_ok_def)

lemma backoff_ok_0: "backoff_ok 0" by (simp add: backoff_ok_def)

lemma serve_step_inv:
  assumes "serve_step cap s s'" "serve_inv cap s"
  shows "serve_inv cap s'"
  using assms(1)
proof cases
  case (accept_temp e)
  then show ?thesis
    using assms(2) next_backoff_ok [of "sv_backoff s"] by (auto simp: serve_inv_def in_hand_def)
qed (use assms(2) in \<open>auto simp: serve_inv_def in_hand_def backoff_ok_0 split: if_splits\<close>)

lemma serve_reach_inv: "(serve_step cap)\<^sup>*\<^sup>* serve_init s \<Longrightarrow> serve_inv cap s"
proof (induction rule: rtranclp_induct)
  case base
  show ?case by (simp add: serve_inv_def serve_init_def in_hand_def backoff_ok_def)
next
  case (step y z)
  then show ?case using serve_step_inv by blast
qed

lemma backoff_iterate:
  "n < 8 \<Longrightarrow> (next_backoff ^^ Suc n) 0 = 5000000 * 2 ^ n"
  by (induction n) (auto simp: next_backoff_def maxAcceptBackoff_def less_Suc_eq numeral_eq_Suc)

section \<open>Properties\<close>

lemma Itoa_plain: "0 \<le> n \<Longrightarrow> plain (Itoa n) \<and> CHR '':'' \<notin> set (Itoa n)"
  using dec_nat_digits [of _ "nat n"] digit_not_sep by (auto simp: plain_def Itoa_def)

text \<open>C36: The handshake yields credentials and a request exactly when the bytes that arrive in time are a
  client's session: a hello offering methods, the credentials of RFC 1929 if and only if user/password
  is among them, and a request; the host of a DOMAINNAME is its bytes verbatim, the port is the
  big-endian number in decimal, and the server's answers up to there are the chosen method and, after
  credentials, the acceptance.\<close>

theorem socks_handshake_iff:
  "(\<exists>c'. handle_handshake s c = (Inr ((user, pass), cmd, host, port), c')) \<longleftrightarrow>
   (\<exists>methods part rsv addr p rest.
      hs_avail s c = socks_session methods part cmd rsv addr p @ rest \<and> length methods < 256 \<and>
      auth_part methods part user pass \<and> length (greeting methods) \<le> c_room c \<and> addr_ok addr \<and>
      host = addr_host addr \<and> port = Itoa (uint p))"
proof
  assume "\<exists>c'. handle_handshake s c = (Inr ((user, pass), cmd, host, port), c')"
  then show "\<exists>methods part rsv addr p rest.
      hs_avail s c = socks_session methods part cmd rsv addr p @ rest \<and> length methods < 256 \<and>
      auth_part methods part user pass \<and> length (greeting methods) \<le> c_room c \<and> addr_ok addr \<and>
      host = addr_host addr \<and> port = Itoa (uint p)"
    using handshake_Inr by blast
next
  assume "\<exists>methods part rsv addr p rest.
      hs_avail s c = socks_session methods part cmd rsv addr p @ rest \<and> length methods < 256 \<and>
      auth_part methods part user pass \<and> length (greeting methods) \<le> c_room c \<and> addr_ok addr \<and>
      host = addr_host addr \<and> port = Itoa (uint p)"
  then obtain methods part rsv addr p rest where
      e: "hs_avail s c = socks_session methods part cmd rsv addr p @ rest" "length methods < 256"
      "auth_part methods part user pass" "length (greeting methods) \<le> c_room c" "addr_ok addr"
    and hp: "host = addr_host addr" "port = Itoa (uint p)"
    by (elim exE conjE)
  show "\<exists>c'. handle_handshake s c = (Inr ((user, pass), cmd, host, port), c')"
    using handshake_enc [OF e] unfolding hp by (elim exE conjE) (rule exI)
qed

text \<open>C37: A client that stalls or dribbles its bytes holds the handshake no longer than the time-out: the clock
  when it ends, on every path, is at most the start plus thirty seconds.\<close>

theorem socks_handshake_time:
  "c_now (snd (handle_handshake \<lparr>testHandshakeTimeout = 0, testMaxConns = 0\<rparr> c)) \<le> c_now c + 30000000000"
  using handshake_timely [of "\<lparr>testHandshakeTimeout = 0, testMaxConns = 0\<rparr>" c]
  by (simp add: hsTimeout_def handshakeTimeout_def)


text \<open>A CONNECT session with a working dialer: the factory gets exactly the credentials the client sent, the
  dialer exactly the address it named (a DOMAINNAME without brackets splits back into the very name
  and port, so it is never resolved here), the client gets the success reply with a zero bound
  address, the relay starts without a deadline and with every byte after the request still unread,
  and the upstream connection is closed afterwards.\<close>

theorem socks_tunnel:
  assumes "hs_avail s c = socks_session methods part cmdConnect rsv addr p @ rest" "length methods < 256"
    "auth_part methods part user pass" "length (greeting methods) + 10 \<le> c_room c" "addr_ok addr"
    "up_factory U user pass w = (Inr d, w1)"
    "up_dial U d ''tcp'' (JoinHostPort (addr_host addr) (Itoa (uint p))) w1 = (Inr u, w2)"
  shows "\<exists>c1. c_out c1 = c_out c @ greeting methods @ [0x05, 0, 0, 0x01, 0, 0, 0, 0, 0, 0] \<and>
    c_deadline c1 = None \<and>
    c_script c1 = drop (length (socks_session methods part cmdConnect rsv addr p)) (c_script c) \<and>
    handle s U c w = (None, fst (up_relay U c1 u w2), up_close U u (snd (up_relay U c1 u w2))) \<and>
    (\<forall>name. addr = AddrName name \<longrightarrow> plain (str_of name) \<longrightarrow>
       SplitHostPort (JoinHostPort (addr_host addr) (Itoa (uint p))) = Inr (str_of name, Itoa (uint p)))"
proof -
  obtain c1 where c1: "handle_handshake s c = (Inr ((user, pass), cmdConnect, addr_host addr, Itoa (uint p)), c1)"
      "c_out c1 = c_out c @ greeting methods" "c_room c1 = c_room c - length (greeting methods)"
      "c_deadline c1 = None"
      "c_script c1 = drop (length (socks_session methods part cmdConnect rsv addr p)) (c_script c)"
    using handshake_enc [OF assms(1-3) _ assms(5)] assms(4) by auto
  let ?c2 = "wrote (reply replySuccess) c1"
  have ok: "sendReply replySuccess c1 = (None, ?c2)" "c_out ?c2 = c_out c1 @ reply replySuccess"
    using c1(3) assms(4) by (simp_all add: sendReply_def wrote_def conn_write_def reply_def)
  have "handle s U c w = (None, fst (up_relay U ?c2 u w2), up_close U u (snd (up_relay U ?c2 u w2)))"
    using c1(1) ok(1) assms(6,7) by (simp add: handle_def split_beta)
  moreover have "SplitHostPort (JoinHostPort (str_of name) (Itoa (uint p))) = Inr (str_of name, Itoa (uint p))"
    if "plain (str_of name)" for name
    using that Itoa_plain [of "uint p"] by (intro SplitHostPort_Join) simp_all
  ultimately show ?thesis
    using c1 ok(2) by (intro exI [of _ ?c2]) (auto simp: reply_eq replySuccess_def)
qed

text \<open>However the accept loop, its back-offs, the cancellation and the handlers interleave: never more than
  the cap of connections are handled at once, every accepted connection is being handled, is in the
  loop's hand waiting for a slot, or has been closed, the back-off lies between five milliseconds and
  one second while it is waited out, a return without an error means that the context was cancelled,
  and a temporary error never ends the loop.\<close>

theorem socks_serve_bounded:
  assumes "(serve_step (maxConns \<lparr>testHandshakeTimeout = 0, testMaxConns = 0\<rparr>))\<^sup>*\<^sup>* serve_init s"
  shows "sv_active s \<le> 1024 \<and> sv_accepted s = sv_closed s + sv_active s + in_hand (sv_phase s) \<and>
    (sv_phase s = BackingOff \<longrightarrow> 5000000 \<le> sv_backoff s \<and> sv_backoff s \<le> 1000000000) \<and>
    (sv_phase s = Returned None \<longrightarrow> sv_ctxDone s) \<and>
    (\<forall>e. sv_phase s = Returned (Some e) \<longrightarrow> \<not> isTemporaryAcceptErr e)"
  using serve_reach_inv [OF assms]
  by (auto simp: serve_inv_def maxConns_def maxConcurrentConns_def maxAcceptBackoff_def backoff_ok_def)

section \<open>Witnesses\<close>

definition demo_conn :: "bytes \<Rightarrow> sconn" where
  "demo_conn inp = \<lparr>c_script = map (Pair 0) inp, c_eof = None, c_out = [], c_room = 100,
     c_deadline = None, c_now = 0\<rparr>"

definition demo_server :: server where
  "demo_server = \<lparr>testHandshakeTimeout = 0, testMaxConns = 0\<rparr>"

definition demo_up :: "(nat, nat, string list) upstream" where
  "demo_up = \<lparr>up_factory = (\<lambda>user pass w. (Inr 7, w @ [user, pass])),
     up_dial = (\<lambda>d network target w. (Inr 9, w @ [network, target])),
     up_relay = (\<lambda>c u w. (c, w @ [''relay''])), up_close = (\<lambda>u w. w @ [''close''])\<rparr>"

lemma hs_avail_demo: "hs_avail demo_server (demo_conn inp) = inp"
proof -
  have "map snd (takeWhile (\<lambda>(t, b). t \<le> (30000000000 :: int)) (map (Pair 0) inp)) = inp"
    by (induction inp) auto
  then show ?thesis
    by (simp add: hs_avail_def avail_def SetReadDeadline_def in_time_def demo_conn_def demo_server_def
        hsTimeout_def handshakeTimeout_def comp_def)
qed


theorem socks_tunnel_witness:
  "snd (snd (handle demo_server demo_up
     (demo_conn [5, 2, 0, 2, 1, 1, 117, 1, 112, 5, 1, 0, 3, 3, 97, 46, 98, 0, 80, 71]) [])) =
   [''u'', ''p'', ''tcp'', ''a.b:80'', ''relay'', ''close'']"
proof -
  let ?c = "demo_conn [5, 2, 0, 2, 1, 1, 117, 1, 112, 5, 1, 0, 3, 3, 97, 46, 98, 0, 80, 71]"
  let ?a = "AddrName [97, 46, 98]"
  have h: "hs_avail demo_server ?c = socks_session [0, 2] (enc_auth [117] [112]) cmdConnect 0 ?a 80 @ [71]"
    by (subst hs_avail_demo)
       (simp add: socks_session_def enc_hello_def enc_request_def enc_auth_def socks_consts be16_def)
  have au: "auth_part [0, 2] (enc_auth [117] [112]) ''u'' ''p''"
    unfolding auth_part_def
    by (simp add: socks_consts) (rule exI [of _ "[117]"], rule exI [of _ "[112]"], simp add: str_of_def, code_simp)
  have t: "JoinHostPort (addr_host ?a) (Itoa (uint (80 :: u16))) = ''a.b:80''"
    by (simp add: JoinHostPort_def str_of_def Itoa_def dec_nat.simps digit_char_def, code_simp)
  have f: "up_factory demo_up ''u'' ''p'' [] = (Inr 7, [''u'', ''p''])" by (simp add: demo_up_def)
  have d: "up_dial demo_up 7 ''tcp'' (JoinHostPort (addr_host ?a) (Itoa (uint (80 :: u16)))) [''u'', ''p''] =
    (Inr 9, [''u'', ''p'', ''tcp'', ''a.b:80''])"
    unfolding t by (simp add: demo_up_def)
  have l: "length [0, 2 :: byte] < 256" and ok: "addr_ok ?a" by simp_all
  have r: "length (greeting [0, 2]) + 10 \<le> c_room ?c" by (simp add: greeting_def demo_conn_def)
  have "\<exists>c1. handle demo_server demo_up ?c [] = (None, c1, [''u'', ''p'', ''tcp'', ''a.b:80'', ''relay'', ''close''])"
    using socks_tunnel [OF h l au r ok f d] by (auto simp: demo_up_def)
  then show ?thesis by auto
qed

theorem socks_serve_bounded_witness:
  "\<exists>s :: serve_state. sv_phase s = Acquiring \<and> sv_active s \<le> 1024 \<and> sv_accepted s = sv_closed s + sv_active s + 1"
proof -
  let ?s = "serve_init\<lparr>sv_phase := Acquiring, sv_backoff := 0, sv_accepted := sv_accepted serve_init + 1\<rparr>"
  have "serve_step (maxConns \<lparr>testHandshakeTimeout = 0, testMaxConns = 0\<rparr>) serve_init ?s"
    by (rule serve_step.accept_conn) (simp_all add: serve_init_def)
  then have "(serve_step (maxConns \<lparr>testHandshakeTimeout = 0, testMaxConns = 0\<rparr>))\<^sup>*\<^sup>* serve_init ?s" by blast
  from socks_serve_bounded [OF this] show ?thesis
    by - (rule exI [of _ ?s], simp add: in_hand_def)
qed

end
