(* ===== verification/Proxy_Pool.thy ===== *)
theory Proxy_Pool
  imports Go_Std
begin

text \<open>The identities behind the proxies: the isolation key of \<^verbatim>\<open>pkg/proxyauth/proxyauth.go\<close> and the
  pool of Tor clients of \<^verbatim>\<open>cmd/go-tor-client/client_pool.go\<close>, one client per key, with its cap and its
  sharing of a bootstrap in flight.  Calls of \<^verbatim>\<open>clientFor\<close> run concurrently: each is a thread whose
  critical sections are functions on the pool, and a step relation interleaves them with the
  bootstraps, the waits on \<^verbatim>\<open>done\<close>, the cancellations and \<^verbatim>\<open>closeAll\<close>.\<close>

section \<open>The isolation key\<close>

definition IsoKey :: "string \<Rightarrow> string \<Rightarrow> string" where
  "IsoKey user pass = (if user = '''' \<and> pass = '''' then '''' else user @ [CHR 0x00] @ pass)"

lemma append_sep_inj:
  "x \<notin> set a \<Longrightarrow> x \<notin> set b \<Longrightarrow> a @ x # c = b @ x # d \<longleftrightarrow> a = b \<and> c = d"
  by (auto simp: append_eq_append_conv2 append_eq_Cons_conv Cons_eq_append_conv)

lemma IsoKey_inj:
  assumes "CHR 0x00 \<notin> set user" "CHR 0x00 \<notin> set user'"
  shows "IsoKey user pass = IsoKey user' pass' \<longleftrightarrow> user = user' \<and> pass = pass'"
  using append_sep_inj [OF assms, of pass pass'] by (auto simp: IsoKey_def)

lemma IsoKey_empty [simp]: "IsoKey user pass = '''' \<longleftrightarrow> user = '''' \<and> pass = ''''"
  by (auto simp: IsoKey_def)

section \<open>The pool\<close>

text \<open>The maps of \<^verbatim>\<open>clientPool\<close>; a \<^verbatim>\<open>clientBuild\<close> is a number, with its result once \<^verbatim>\<open>done\<close> is closed.\<close>

record ('c, 'e) clientPool =
  clients :: "string \<rightharpoonup> 'c"
  building :: "string \<rightharpoonup> nat"
  build_done :: "nat \<rightharpoonup> 'e + 'c"
  next_build :: nat

definition maxIsolatedClients :: nat where "maxIsolatedClients = 64"

definition newClientPool :: "'c \<Rightarrow> ('c, 'e) clientPool" where
  "newClientPool base = \<lparr>clients = [('''' :: string) \<mapsto> base], building = Map.empty,
     build_done = Map.empty, next_build = 0\<rparr>"

text \<open>The first critical section of \<^verbatim>\<open>clientFor\<close>: a cached client, a bootstrap to wait for, the refusal at
  capacity, or the start of a bootstrap.\<close>

datatype 'c decision = Cached 'c | Wait nat | AtCapacity | StartBuild nat

definition clientFor_enter :: "string \<Rightarrow> ('c, 'e) clientPool \<Rightarrow> 'c decision \<times> ('c, 'e) clientPool" where
  "clientFor_enter key p =
     (case clients p key of
        Some c \<Rightarrow> (Cached c, p)
      | None \<Rightarrow>
        (case building p key of
           Some b \<Rightarrow> (Wait b, p)
         | None \<Rightarrow>
           if card (dom (clients p)) + card (dom (building p)) \<ge> maxIsolatedClients then (AtCapacity, p)
           else (StartBuild (next_build p),
                 p\<lparr>building := (building p)(key \<mapsto> next_build p), next_build := next_build p + 1\<rparr>)))"

text \<open>The second one, after the bootstrap, and the publication of its result.\<close>

definition clientFor_finish :: "string \<Rightarrow> 'e + 'c \<Rightarrow> ('c, 'e) clientPool \<Rightarrow> ('c, 'e) clientPool" where
  "clientFor_finish key res p =
     (let p1 = p\<lparr>building := (building p)(key := None)\<rparr> in
      case res of Inl e \<Rightarrow> p1 | Inr c \<Rightarrow> p1\<lparr>clients := (clients p1)(key \<mapsto> c)\<rparr>)"

definition clientFor_publish :: "nat \<Rightarrow> 'e + 'c \<Rightarrow> ('c, 'e) clientPool \<Rightarrow> ('c, 'e) clientPool" where
  "clientFor_publish b res p = p\<lparr>build_done := (build_done p)(b \<mapsto> res)\<rparr>"

text \<open>\<^verbatim>\<open>closeAll\<close> closes every client in the map.\<close>

definition closeAll :: "('c, 'e) clientPool \<Rightarrow> 'c set" where
  "closeAll p = ran (clients p)"

section \<open>Concurrent callers\<close>

text \<open>Where a call \<^verbatim>\<open>dialer(ctx, user, pass)\<close>, hence \<^verbatim>\<open>clientFor(ctx, key)\<close>, stands.\<close>

datatype ('c, 'e) caller =
    Entering | Waiting nat | Building nat | Built nat "'e + 'c" | Stored nat "'e + 'c"
  | Returned_with "'e + 'c" | Refused | Cancelled

record ('c, 'e) world =
  w_pool :: "('c, 'e) clientPool"
  w_calls :: "nat \<rightharpoonup> string \<times> string \<times> ('c, 'e) caller"
  w_born :: "'c set"
  w_shut :: "'c set"

definition set_call :: "nat \<Rightarrow> ('c, 'e) caller \<Rightarrow> ('c, 'e) world \<Rightarrow> ('c, 'e) world" where
  "set_call i st w = w\<lparr>w_calls := (w_calls w)(i := map_option (\<lambda>(u, p, _). (u, p, st)) (w_calls w i))\<rparr>"

fun after_enter :: "'c decision \<Rightarrow> ('c, 'e) caller" where
  "after_enter (Cached c) = Returned_with (Inr c)"
| "after_enter (Wait b) = Waiting b"
| "after_enter AtCapacity = Refused"
| "after_enter (StartBuild b) = Building b"

inductive pool_step :: "('c, 'e) world \<Rightarrow> ('c, 'e) world \<Rightarrow> bool" where
  arrive: "w_calls w i = None \<Longrightarrow>
    pool_step w (w\<lparr>w_calls := (w_calls w)(i \<mapsto> (user, pass, Entering))\<rparr>)"
| enter: "w_calls w i = Some (user, pass, Entering) \<Longrightarrow>
    clientFor_enter (IsoKey user pass) (w_pool w) = (d, p) \<Longrightarrow>
    pool_step w (set_call i (after_enter d) (w\<lparr>w_pool := p\<rparr>))"
| bootstrap_ok: "w_calls w i = Some (user, pass, Building b) \<Longrightarrow> c \<notin> w_born w \<Longrightarrow>
    pool_step w (set_call i (Built b (Inr c)) (w\<lparr>w_born := insert c (w_born w)\<rparr>))"
| bootstrap_fail: "w_calls w i = Some (user, pass, Building b) \<Longrightarrow>
    pool_step w (set_call i (Built b (Inl e)) w)"
| finish: "w_calls w i = Some (user, pass, Built b res) \<Longrightarrow>
    pool_step w (set_call i (Stored b res)
      (w\<lparr>w_pool := clientFor_finish (IsoKey user pass) res (w_pool w)\<rparr>))"
| publish: "w_calls w i = Some (user, pass, Stored b res) \<Longrightarrow>
    pool_step w (set_call i (Returned_with res) (w\<lparr>w_pool := clientFor_publish b res (w_pool w)\<rparr>))"
| wait_done: "w_calls w i = Some (user, pass, Waiting b) \<Longrightarrow> build_done (w_pool w) b = Some res \<Longrightarrow>
    pool_step w (set_call i (Returned_with res) w)"
| wait_cancel: "w_calls w i = Some (user, pass, Waiting b) \<Longrightarrow> pool_step w (set_call i Cancelled w)"
| shutdown: "pool_step w (w\<lparr>w_shut := w_shut w \<union> closeAll (w_pool w)\<rparr>)"

definition pool_start :: "'c \<Rightarrow> ('c, 'e) world" where
  "pool_start base = \<lparr>w_pool = newClientPool base, w_calls = Map.empty, w_born = {base}, w_shut = {}\<rparr>"

section \<open>The invariant\<close>

text \<open>The key each call is for, and where it stands.\<close>

definition keyed :: "('c, 'e) world \<Rightarrow> nat \<rightharpoonup> string \<times> ('c, 'e) caller" where
  "keyed w i = map_option (\<lambda>(u, p, st). (IsoKey u p, st)) (w_calls w i)"

lemma keyed_set_call [simp]:
  "keyed (set_call i st w) = (keyed w)(i := map_option (\<lambda>(k, _). (k, st)) (keyed w i))"
  by (cases "w_calls w i") (auto simp: keyed_def set_call_def fun_eq_iff)

lemma keyed_other [simp]: "keyed (w\<lparr>w_pool := p\<rparr>) = keyed w" "keyed (w\<lparr>w_born := x\<rparr>) = keyed w"
  "keyed (w\<lparr>w_shut := x\<rparr>) = keyed w"
  by (auto simp: keyed_def fun_eq_iff)

lemma pool_set_call [simp]: "w_pool (set_call i st w) = w_pool w" "w_born (set_call i st w) = w_born w"
  by (simp_all add: set_call_def)

fun at_build :: "(string \<times> ('c, 'e) caller) option \<Rightarrow> nat \<Rightarrow> bool" where
  "at_build (Some (k, Building b)) b' \<longleftrightarrow> b = b'"
| "at_build (Some (k, Built b r)) b' \<longleftrightarrow> b = b'"
| "at_build _ b' \<longleftrightarrow> False"

text \<open>The maps: within the cap, disjoint, no client under two keys; \<open>bk\<close> gives the key of each bootstrap.\<close>

definition maps_ok :: "(nat \<Rightarrow> string) \<Rightarrow> ('c, 'e) clientPool \<Rightarrow> 'c set \<Rightarrow> bool" where
  "maps_ok bk p born \<longleftrightarrow>
     finite (dom (clients p)) \<and> finite (dom (building p)) \<and>
     card (dom (clients p)) + card (dom (building p)) \<le> maxIsolatedClients \<and>
     (\<forall>k b. building p k = Some b \<longrightarrow> clients p k = None \<and> bk b = k \<and> b < next_build p) \<and>
     (\<forall>k k' c. clients p k = Some c \<longrightarrow> clients p k' = Some c \<longrightarrow> k = k') \<and>
     (\<forall>k c. clients p k = Some c \<longrightarrow> c \<in> born) \<and>
     (\<forall>b c. build_done p b = Some (Inr c) \<longrightarrow> b < next_build p \<and> clients p (bk b) = Some c)"

text \<open>One call.\<close>

fun call_ok :: "(nat \<Rightarrow> string) \<Rightarrow> ('c, 'e) clientPool \<Rightarrow> 'c set \<Rightarrow> string \<Rightarrow> ('c, 'e) caller \<Rightarrow> bool" where
  "call_ok bk p born k (Waiting b) \<longleftrightarrow> bk b = k \<and> b < next_build p"
| "call_ok bk p born k (Building b) \<longleftrightarrow> building p k = Some b"
| "call_ok bk p born k (Built b r) \<longleftrightarrow>
     building p k = Some b \<and> (\<forall>c. r = Inr c \<longrightarrow> c \<in> born \<and> c \<notin> ran (clients p))"
| "call_ok bk p born k (Stored b r) \<longleftrightarrow> bk b = k \<and> b < next_build p \<and> (\<forall>c. r = Inr c \<longrightarrow> clients p k = Some c)"
| "call_ok bk p born k (Returned_with r) \<longleftrightarrow> (\<forall>c. r = Inr c \<longrightarrow> clients p k = Some c)"
| "call_ok bk p born k _ \<longleftrightarrow> True"

text \<open>No two calls run the same bootstrap or hold the same fresh client.\<close>

definition calls_apart :: "(nat \<rightharpoonup> string \<times> ('c, 'e) caller) \<Rightarrow> bool" where
  "calls_apart C \<longleftrightarrow>
     (\<forall>i j b. at_build (C i) b \<longrightarrow> at_build (C j) b \<longrightarrow> i = j) \<and>
     (\<forall>i j k k' b b' c. C i = Some (k, Built b (Inr c)) \<longrightarrow> C j = Some (k', Built b' (Inr c)) \<longrightarrow> i = j)"

definition pool_inv :: "(nat \<Rightarrow> string) \<Rightarrow> ('c, 'e) world \<Rightarrow> bool" where
  "pool_inv bk w \<longleftrightarrow> maps_ok bk (w_pool w) (w_born w) \<and> calls_apart (keyed w) \<and>
     (\<forall>i k st. keyed w i = Some (k, st) \<longrightarrow> call_ok bk (w_pool w) (w_born w) k st)"

lemma keyed_call: "w_calls w i = Some (u, p, st) \<Longrightarrow> keyed w i = Some (IsoKey u p, st)"
  by (simp add: keyed_def)

text \<open>A call that only moves on, with the maps as they are.\<close>

lemma pool_inv_move:
  assumes "pool_inv bk w" "keyed w i = Some (k, st)" "call_ok bk (w_pool w) (w_born w) k st'"
    "\<And>b. at_build (Some (k, st')) b \<Longrightarrow> False"
  shows "pool_inv bk (set_call i st' w)"
proof -
  have "calls_apart ((keyed w)(i \<mapsto> (k, st')))"
    using assms(1,4) unfolding pool_inv_def calls_apart_def by (auto split: if_splits)
  then show ?thesis using assms(1-3) by (auto simp: pool_inv_def)
qed

lemma call_ok_grow:
  assumes "call_ok bk p born k st" "\<not> at_build (Some (k, st)) b0"
    "\<And>k' c. clients p k' = Some c \<Longrightarrow> clients p' k' = Some c"
    "\<And>k' b. building p k' = Some b \<Longrightarrow> b \<noteq> b0 \<Longrightarrow> building p' k' = Some b"
    "next_build p \<le> next_build p'" "ran (clients p') \<subseteq> ran (clients p) \<union> X"
    "\<And>c b. st = Built b (Inr c) \<Longrightarrow> c \<notin> X" "born \<subseteq> born'" "\<And>b. b < next_build p \<Longrightarrow> bk' b = bk b"
  shows "call_ok bk' p' born' k st"
proof (cases st)
  case (Building b)
  then have "building p k = Some b" "b \<noteq> b0" using assms(1,2) by auto
  then show ?thesis using Building assms(4) by simp
next
  case (Built b r)
  then have b: "building p k = Some b" "b \<noteq> b0" "\<And>c. r = Inr c \<Longrightarrow> c \<in> born \<and> c \<notin> ran (clients p)"
    using assms(1,2) by auto
  have "c \<in> born' \<and> c \<notin> ran (clients p')" if "r = Inr c" for c
    using b(3) [OF that] assms(6,7,8) Built that by blast
  then show ?thesis using Built assms(4) b by simp
qed (use assms(1,3,5,9) in auto)

lemma pool_inv_start: "pool_inv bk (pool_start base)"
  by (simp add: pool_inv_def maps_ok_def calls_apart_def pool_start_def newClientPool_def keyed_def
      maxIsolatedClients_def split: if_splits)

lemma pool_inv_enter:
  assumes inv: "pool_inv bk w" and i: "keyed w i = Some (k, Entering)"
    and e: "clientFor_enter k (w_pool w) = (d, p)"
  shows "\<exists>bk'. pool_inv bk' (set_call i (after_enter d) (w\<lparr>w_pool := p\<rparr>))"
proof -
  let ?p = "w_pool w" and ?n = "next_build (w_pool w)"
  have m: "maps_ok bk ?p (w_born w)" and ap: "calls_apart (keyed w)"
    and ok: "\<And>j k st. keyed w j = Some (k, st) \<Longrightarrow> call_ok bk ?p (w_born w) k st"
    using inv by (auto simp: pool_inv_def)
  show ?thesis
  proof (cases "d = StartBuild ?n \<and> clients ?p k = None \<and> building ?p k = None")
    case False
    then have "p = ?p" "call_ok bk ?p (w_born w) k (after_enter d)" "\<And>b. \<not> at_build (Some (k, after_enter d)) b"
      using e m by (auto simp: clientFor_enter_def maps_ok_def split: option.splits if_splits)
    then show ?thesis using pool_inv_move [OF inv i, of "after_enter d"] by (auto intro!: exI [of _ bk])
  next
    case True
    then have p: "p = ?p\<lparr>building := (building ?p)(k \<mapsto> ?n), next_build := ?n + 1\<rparr>"
      and cap: "card (dom (clients ?p)) + card (dom (building ?p)) < maxIsolatedClients"
      using e by (auto simp: clientFor_enter_def split: if_splits)
    let ?bk = "bk(?n := k)"
    have old: "b < ?n" if "at_build (keyed w j) b" for j b
    proof -
      from that obtain k' st where j: "keyed w j = Some (k', st)" "at_build (Some (k', st)) b"
        by (cases "keyed w j") auto
      then have "building ?p k' = Some b" using ok [OF j(1)] by (cases st) auto
      then show ?thesis using m by (auto simp: maps_ok_def)
    qed
    have "maps_ok ?bk p (w_born w)"
    proof -
      have "card (dom (building p)) = Suc (card (dom (building ?p)))"
        using m True by (simp add: p maps_ok_def domIff)
      then show ?thesis using m cap True
        by (auto simp: maps_ok_def p split: if_splits) (metis less_SucI less_irrefl option.distinct(1))+
    qed
    moreover have "calls_apart ((keyed w)(i \<mapsto> (k, Building ?n)))"
      using ap old unfolding calls_apart_def by (auto split: if_splits)
    moreover have "call_ok ?bk p (w_born w) k' st" if "keyed w j = Some (k', st)" for j k' st
    proof (rule call_ok_grow [OF ok [OF that], of ?n _ "{}"])
      show "\<not> at_build (Some (k', st)) ?n" using old [of j] that by (metis less_irrefl)
      show "\<And>k'' b. building ?p k'' = Some b \<Longrightarrow> b \<noteq> ?n \<Longrightarrow> building p k'' = Some b"
        using True by (auto simp: p)
    qed (auto simp: p)
    ultimately show ?thesis
      using True i by (intro exI [of _ ?bk]) (auto simp: pool_inv_def p)
  qed
qed

lemma pool_inv_built:
  assumes inv: "pool_inv bk w" and i: "keyed w i = Some (k, Building b)"
    and r: "\<And>c. r = Inr c \<Longrightarrow> c \<notin> w_born w" and born: "born = w_born w \<union> (case r of Inr c \<Rightarrow> {c} | Inl _ \<Rightarrow> {})"
  shows "pool_inv bk (set_call i (Built b r) (w\<lparr>w_born := born\<rparr>))"
proof -
  let ?p = "w_pool w"
  have m: "maps_ok bk ?p (w_born w)" and ap: "calls_apart (keyed w)"
    and ok: "\<And>j k st. keyed w j = Some (k, st) \<Longrightarrow> call_ok bk ?p (w_born w) k st"
    using inv by (auto simp: pool_inv_def)
  have "maps_ok bk ?p born" using m born by (auto simp: maps_ok_def)
  moreover have "calls_apart ((keyed w)(i \<mapsto> (k, Built b r)))"
  proof -
    have "at_build (keyed w i) b" using i by simp
    moreover have "c \<in> w_born w" if "keyed w j = Some (k', Built b' (Inr c))" for j k' b' c
      using ok [OF that] by simp
    ultimately show ?thesis using ap r unfolding calls_apart_def by (fastforce split: if_splits)
  qed
  moreover have "call_ok bk ?p born k (Built b r)"
    using ok [OF i] r born m by (auto simp: maps_ok_def ran_def)
  moreover have "call_ok bk ?p born k' st" if "keyed w j = Some (k', st)" for j k' st
    using ok [OF that] born by (cases st) auto
  ultimately show ?thesis using i by (auto simp: pool_inv_def)
qed

lemma pool_inv_finish:
  assumes inv: "pool_inv bk w" and i: "keyed w i = Some (k, Built b r)"
  shows "pool_inv bk (set_call i (Stored b r) (w\<lparr>w_pool := clientFor_finish k r (w_pool w)\<rparr>))"
proof -
  let ?p = "w_pool w"
  define q where "q = clientFor_finish k r (w_pool w)"
  let ?X = "case r of Inr c \<Rightarrow> {c} | Inl _ \<Rightarrow> {}"
  have m: "maps_ok bk ?p (w_born w)" and ap: "calls_apart (keyed w)"
    and ok: "\<And>j k st. keyed w j = Some (k, st) \<Longrightarrow> call_ok bk ?p (w_born w) k st"
    using inv by (auto simp: pool_inv_def)
  have b: "building ?p k = Some b" "\<And>c. r = Inr c \<Longrightarrow> c \<in> w_born w \<and> c \<notin> ran (clients ?p)"
    using ok [OF i] by auto
  have k: "clients ?p k = None" "bk b = k" "b < next_build ?p" using m b(1) by (auto simp: maps_ok_def)
  have new: "building q = (building ?p)(k := None)" "next_build q = next_build ?p"
    "build_done q = build_done ?p"
    "clients q = (case r of Inl _ \<Rightarrow> clients ?p | Inr c \<Rightarrow> (clients ?p)(k \<mapsto> c))"
    by (auto simp: q_def clientFor_finish_def Let_def split: sum.split)
  have ext: "clients q k' = Some c" if "clients ?p k' = Some c" for k' c
    using that k new(4) by (cases r) auto
  have "maps_ok bk q (w_born w)"
  proof -
    have "card (dom (building q)) = card (dom (building ?p)) - 1"
      using m card_Diff_singleton [of k "dom (building ?p)"] b(1) by (simp add: new domI)
    moreover have "0 < card (dom (building ?p))" using m b(1) by (auto simp: maps_ok_def card_gt_0_iff)
    moreover have "card (dom (clients q)) \<le> Suc (card (dom (clients ?p)))"
    proof -
      have "dom (clients q) \<subseteq> insert k (dom (clients ?p))"
        unfolding new(4) by (cases r) (auto split: if_splits)
      then have "card (dom (clients q)) \<le> card (insert k (dom (clients ?p)))"
        using m by (intro card_mono) (simp_all add: maps_ok_def)
      also have "\<dots> \<le> Suc (card (dom (clients ?p)))" using m by (simp add: maps_ok_def card_insert_if)
      finally show ?thesis .
    qed
    ultimately have "card (dom (clients q)) + card (dom (building q)) \<le> maxIsolatedClients"
      using m by (auto simp: maps_ok_def)
    moreover have "c = c' \<longrightarrow> k1 = k2" if "clients q k1 = Some c" "clients q k2 = Some c'" for k1 k2 c c'
      using that m b(2) by (cases r) (auto simp: new maps_ok_def ran_def split: if_splits)
    moreover have "c \<in> w_born w" if "clients q k1 = Some c" for k1 c
      using that m b(2) by (cases r) (auto simp: new maps_ok_def split: if_splits)
    moreover have "clients q k1 = None" if "building q k1 = Some b'" for k1 b'
      using that m by (cases r) (auto simp: new maps_ok_def split: if_splits)
    moreover have "finite (dom (clients q))" "finite (dom (building q))"
      using m by (cases r; auto simp: new maps_ok_def)+
    moreover have "bk b' = k1 \<and> b' < next_build ?p" if "building q k1 = Some b'" for k1 b'
      using that m by (auto simp: new maps_ok_def split: if_splits)
    moreover have "b' < next_build ?p \<and> clients q (bk b') = Some c" if "build_done ?p b' = Some (Inr c)" for b' c
      using that m ext by (auto simp: maps_ok_def)
    ultimately show ?thesis unfolding maps_ok_def new(2,3) by blast
  qed
  moreover have "calls_apart ((keyed w)(i \<mapsto> (k, Stored b r)))"
    using ap unfolding calls_apart_def by (auto split: if_splits)
  moreover have "call_ok bk q (w_born w) k (Stored b r)"
    using k by (auto simp: new)
  moreover have "call_ok bk q (w_born w) k' st" if j: "keyed w j = Some (k', st)" "j \<noteq> i" for j k' st
  proof (rule call_ok_grow [OF ok [OF j(1)], of b _ ?X])
    show "\<not> at_build (Some (k', st)) b"
      using ap i j unfolding calls_apart_def by (metis at_build.simps(2))
    show "\<And>k'' b'. building ?p k'' = Some b' \<Longrightarrow> b' \<noteq> b \<Longrightarrow> building q k'' = Some b'"
      using b(1) by (auto simp: new)
    show "c \<notin> ?X" if "st = Built b' (Inr c)" for c b'
      using ap i j that unfolding calls_apart_def by (cases r) auto
    show "ran (clients q) \<subseteq> ran (clients ?p) \<union> ?X"
      by (cases r) (auto simp: new ran_def split: if_splits)
  qed (use ext in \<open>auto simp: new(1-3)\<close>)
  ultimately show ?thesis using i unfolding q_def [symmetric] by (auto simp: pool_inv_def split: if_splits)
qed

lemma pool_inv_publish:
  assumes inv: "pool_inv bk w" and i: "keyed w i = Some (k, Stored b r)"
  shows "pool_inv bk (set_call i (Returned_with r) (w\<lparr>w_pool := clientFor_publish b r (w_pool w)\<rparr>))"
proof -
  let ?w = "w\<lparr>w_pool := clientFor_publish b r (w_pool w)\<rparr>"
  have ok: "call_ok bk (w_pool w) (w_born w) k (Stored b r)" using inv i unfolding pool_inv_def by blast
  have same: "call_ok bk (w_pool ?w) (w_born w) k' st = call_ok bk (w_pool w) (w_born w) k' st" for k' st
    by (cases st) (simp_all add: clientFor_publish_def)
  have "maps_ok bk (w_pool ?w) (w_born w)"
    using inv ok by (auto simp: pool_inv_def maps_ok_def clientFor_publish_def)
  then have "pool_inv bk ?w" using inv same by (auto simp: pool_inv_def)
  moreover have "call_ok bk (w_pool ?w) (w_born w) k (Returned_with r)" unfolding same using ok by simp
  ultimately show ?thesis using pool_inv_move [of bk ?w i k "Stored b r" "Returned_with r"] i by simp
qed

lemma pool_step_inv:
  assumes "pool_step w w'" "pool_inv bk w"
  shows "\<exists>bk'. pool_inv bk' w'"
  using assms(1)
proof cases
  case (arrive i user pass)
  have "keyed w' = (keyed w)(i \<mapsto> (IsoKey user pass, Entering))"
    by (auto simp: arrive keyed_def fun_eq_iff)
  moreover have "calls_apart ((keyed w)(i \<mapsto> (IsoKey user pass, Entering)))"
    using assms(2) unfolding pool_inv_def calls_apart_def by (auto split: if_splits)
  ultimately show ?thesis using assms(2) by (intro exI [of _ bk]) (auto simp: arrive pool_inv_def)
next
  case (enter i user pass d p)
  then show ?thesis using pool_inv_enter [OF assms(2) keyed_call] by blast
next
  case (bootstrap_ok i user pass b c)
  then show ?thesis using pool_inv_built [OF assms(2) keyed_call, of i user pass b "Inr c"] by auto
next
  case (bootstrap_fail i user pass b e)
  then show ?thesis using pool_inv_built [OF assms(2) keyed_call, of i user pass b "Inl e" "w_born w"] by auto
next
  case (finish i user pass b res)
  then show ?thesis using pool_inv_finish [OF assms(2) keyed_call] by blast
next
  case (publish i user pass b res)
  then show ?thesis using pool_inv_publish [OF assms(2) keyed_call] by blast
next
  case (wait_done i user pass b res)
  have "call_ok bk (w_pool w) (w_born w) (IsoKey user pass) (Waiting b)"
    using keyed_call [OF wait_done(2)] assms(2) unfolding pool_inv_def by blast
  then have "call_ok bk (w_pool w) (w_born w) (IsoKey user pass) (Returned_with res)"
    using wait_done(3) assms(2) unfolding pool_inv_def maps_ok_def by (metis call_ok.simps(1,5))
  then show ?thesis
    using pool_inv_move [OF assms(2) keyed_call [OF wait_done(2)]] wait_done(1) by fastforce
next
  case (wait_cancel i user pass b)
  then show ?thesis using pool_inv_move [OF assms(2) keyed_call [OF wait_cancel(2)], of Cancelled] by auto
next
  case shutdown
  then show ?thesis using assms(2) by (auto simp: pool_inv_def)
qed

lemma pool_reach_inv:
  "pool_step\<^sup>*\<^sup>* (pool_start base) w \<Longrightarrow> \<exists>bk. pool_inv bk w"
proof (induction rule: rtranclp_induct)
  case base
  show ?case by (rule exI, rule pool_inv_start)
next
  case (step y z)
  then show ?case using pool_step_inv by blast
qed

text \<open>A client once in the map stays there.\<close>

lemma pool_step_keeps:
  assumes "pool_step w w'" "pool_inv bk w" "clients (w_pool w) k = Some c"
  shows "clients (w_pool w') k = Some c"
  using assms(1)
proof cases
  case (enter i user pass d p)
  then have "clients p = clients (w_pool w)" by (auto simp: clientFor_enter_def split: option.splits if_splits)
  then show ?thesis using enter assms(3) by simp
next
  case (finish i user pass b res)
  have "call_ok bk (w_pool w) (w_born w) (IsoKey user pass) (Built b res)"
    using keyed_call [OF finish(2)] assms(2) unfolding pool_inv_def by blast
  then have "clients (w_pool w) (IsoKey user pass) = None" using assms(2) by (auto simp: pool_inv_def maps_ok_def)
  then show ?thesis using finish assms(3) by (auto simp: clientFor_finish_def Let_def split: sum.splits)
qed (use assms(3) in \<open>simp_all add: clientFor_publish_def\<close>)

lemma pool_reach_base:
  "pool_step\<^sup>*\<^sup>* (pool_start base) w \<Longrightarrow> clients (w_pool w) '''' = Some base"
proof (induction rule: rtranclp_induct)
  case base
  show ?case by (simp add: pool_start_def newClientPool_def)
next
  case (step y z)
  from pool_reach_inv [OF step.hyps(1)] obtain bk where "pool_inv bk y" by blast
  then show ?case using pool_step_keeps [OF step.hyps(2)] step.IH by blast
qed

section \<open>The factory as the proxies use it\<close>

text \<open>One call of \<^verbatim>\<open>dialer\<close> from start to end with no other call in between.  The \<open>n\<close>-th \<^verbatim>\<open>tor.NewClient\<close>
  returns an error or a new client, which is named by \<open>n\<close>; a bootstrap in flight elsewhere is waited
  for until its result is there or the context ends.\<close>

datatype 'e pool_err = PoolFull | BootstrapErr 'e | CtxErr

record 'e seq_world =
  sw_pool :: "(nat, 'e) clientPool"
  sw_next :: nat

definition dialer :: "(nat \<Rightarrow> 'e option) \<Rightarrow> string \<Rightarrow> string \<Rightarrow> 'e seq_world \<Rightarrow> ('e pool_err + nat) \<times> 'e seq_world" where
  "dialer newClient user pass w =
     (let key = IsoKey user pass; (d, p) = clientFor_enter key (sw_pool w) in
      case d of
        Cached c \<Rightarrow> (Inr c, w)
      | Wait b \<Rightarrow> (case build_done p b of
            Some (Inr c) \<Rightarrow> (Inr c, w) | Some (Inl e) \<Rightarrow> (Inl (BootstrapErr e), w) | None \<Rightarrow> (Inl CtxErr, w))
      | AtCapacity \<Rightarrow> (Inl PoolFull, w)
      | StartBuild b \<Rightarrow>
        let n = sw_next w; res = (case newClient n of None \<Rightarrow> Inr n | Some e \<Rightarrow> Inl e) in
        ((case res of Inr c \<Rightarrow> Inr c | Inl e \<Rightarrow> Inl (BootstrapErr e)),
         w\<lparr>sw_pool := clientFor_publish b res (clientFor_finish key res p), sw_next := n + 1\<rparr>))"

definition seq_good :: "'e seq_world \<Rightarrow> bool" where
  "seq_good w \<longleftrightarrow> building (sw_pool w) = Map.empty \<and>
     (\<forall>k c. clients (sw_pool w) k = Some c \<longrightarrow> c < sw_next w) \<and>
     (\<forall>k k' c. clients (sw_pool w) k = Some c \<longrightarrow> clients (sw_pool w) k' = Some c \<longrightarrow> k = k')"

definition seq_holds :: "'e seq_world \<Rightarrow> string \<Rightarrow> nat \<Rightarrow> bool" where
  "seq_holds w k c \<longleftrightarrow> clients (sw_pool w) k = Some c"

text \<open>What a proxy relies on: the dialer it gets belongs to the key of the credentials, belongs to no
  other key, and stays the key's only one.\<close>

locale isolating_factory =
  fixes factory :: "string \<Rightarrow> string \<Rightarrow> 'w \<Rightarrow> ('e + 'd) \<times> 'w"
    and good :: "'w \<Rightarrow> bool" and holds :: "'w \<Rightarrow> string \<Rightarrow> 'd \<Rightarrow> bool"
  assumes made: "good w \<Longrightarrow> factory u p w = (Inr d, w') \<Longrightarrow> holds w' (IsoKey u p) d"
    and kept: "good w \<Longrightarrow> factory u p w = (r, w') \<Longrightarrow> holds w k d \<Longrightarrow> holds w' k d"
    and stays_good: "good w \<Longrightarrow> factory u p w = (r, w') \<Longrightarrow> good w'"
    and one_key: "good w \<Longrightarrow> holds w k d \<Longrightarrow> holds w k' d \<Longrightarrow> k = k'"
    and one_dialer: "holds w k d \<Longrightarrow> holds w k d' \<Longrightarrow> d = d'"
begin

text \<open>Over any sequence of requests, dialers agree exactly when keys do.\<close>

fun serve_all :: "(string \<times> string) list \<Rightarrow> 'w \<Rightarrow> ((string \<times> string) \<times> 'd) list \<times> 'w" where
  "serve_all [] w = ([], w)"
| "serve_all ((u, p) # rs) w =
     (case factory u p w of
        (Inl e, w1) \<Rightarrow> serve_all rs w1
      | (Inr d, w1) \<Rightarrow> (case serve_all rs w1 of (ds, w2) \<Rightarrow> (((u, p), d) # ds, w2)))"

lemma serve_all_holds:
  assumes "good w" "serve_all rs w = (ds, w')"
  shows "good w' \<and> (\<forall>((u, p), d) \<in> set ds. holds w' (IsoKey u p) d) \<and>
         (\<forall>k d. holds w k d \<longrightarrow> holds w' k d)"
  using assms
proof (induction rs arbitrary: w ds w')
  case (Cons r rs)
  obtain u p where r: "r = (u, p)" by fastforce
  obtain x w1 where f: "factory u p w = (x, w1)" by fastforce
  have g: "good w1" using stays_good [OF Cons.prems(1) f] .
  obtain ds1 w2 where s: "serve_all rs w1 = (ds1, w2)" by fastforce
  have ih: "good w2" "\<forall>((u, p), d) \<in> set ds1. holds w2 (IsoKey u p) d" "\<forall>k d. holds w1 k d \<longrightarrow> holds w2 k d"
    using Cons.IH [OF g s] by auto
  have k: "holds w k d \<Longrightarrow> holds w2 k d" for k d using kept [OF Cons.prems(1) f] ih(3) by blast
  show ?case
  proof (cases x)
    case (Inl e)
    then show ?thesis using Cons.prems(2) r f s ih k by auto
  next
    case (Inr d)
    then have "holds w2 (IsoKey u p) d" using made [OF Cons.prems(1)] f ih(3) by blast
    then show ?thesis using Inr Cons.prems(2) r f s ih k by auto
  qed
qed simp

lemma serve_all_isolated:
  assumes "good w" "serve_all rs w = (ds, w')" "((u, p), d) \<in> set ds" "((u', p'), d') \<in> set ds"
  shows "d = d' \<longleftrightarrow> IsoKey u p = IsoKey u' p'"
proof -
  have "good w'" "holds w' (IsoKey u p) d" "holds w' (IsoKey u' p') d'"
    using serve_all_holds [OF assms(1,2)] assms(3,4) by auto
  then show ?thesis using one_key one_dialer by metis
qed

end

text \<open>A call either adds a new client for a new key, or fails to, or changes nothing.\<close>

lemma dialer_effect:
  assumes "seq_good w" "dialer newClient u p w = (r, w')"
  shows "clients (sw_pool w) (IsoKey u p) = None \<and>
      clients (sw_pool w') = (case newClient (sw_next w) of
         None \<Rightarrow> (clients (sw_pool w))(IsoKey u p \<mapsto> sw_next w) | Some _ \<Rightarrow> clients (sw_pool w)) \<and>
      building (sw_pool w') = Map.empty \<and> sw_next w' = Suc (sw_next w) \<and>
      r = (case newClient (sw_next w) of None \<Rightarrow> Inr (sw_next w) | Some e \<Rightarrow> Inl (BootstrapErr e))
    \<or> w' = w \<and> (\<forall>c. r = Inr c \<longrightarrow> clients (sw_pool w) (IsoKey u p) = Some c)"
  using assms
  by (auto simp: dialer_def clientFor_enter_def seq_good_def clientFor_finish_def clientFor_publish_def Let_def
      split: option.splits if_splits)

lemma dialer_good: "seq_good w \<Longrightarrow> dialer newClient u p w = (r, w') \<Longrightarrow> seq_good w'"
  by (frule (1) dialer_effect)
     (auto simp: seq_good_def less_SucI split: option.splits if_splits, (metis less_irrefl)+)

lemma dialer_holds:
  "seq_good w \<Longrightarrow> dialer newClient u p w = (r, w') \<Longrightarrow>
   (seq_holds w k c \<longrightarrow> seq_holds w' k c) \<and> (r = Inr d \<longrightarrow> seq_holds w' (IsoKey u p) d)"
  by (drule (1) dialer_effect) (auto simp: seq_holds_def split: option.splits)

interpretation pooled: isolating_factory "dialer newClient" seq_good seq_holds
proof
  show "seq_holds w' (IsoKey u p) d" if "seq_good w" "dialer newClient u p w = (Inr d, w')" for w u p d w'
    using dialer_holds [OF that] by blast
  show "seq_holds w' k d" if "seq_good w" "dialer newClient u p w = (r, w')" "seq_holds w k d" for w u p r w' k d
    using dialer_holds [OF that(1,2)] that(3) by blast
  show "seq_good w'" if "seq_good w" "dialer newClient u p w = (r, w')" for w u p r w'
    using that by (rule dialer_good)
qed (auto simp: seq_good_def seq_holds_def)

section \<open>Properties\<close>

text \<open>C35: However calls of \<^verbatim>\<open>dialer\<close> interleave with each other's bootstraps, failures and cancellations: two
  calls that returned a client got the same one exactly when their isolation keys agree, which for
  user names without a NUL byte means the same user name and password; the unauthenticated identity
  gets the base client and no other identity does; and the identities that exist or are being
  bootstrapped are never more than sixty-four.\<close>

theorem proxy_identities_isolated:
  assumes "pool_step\<^sup>*\<^sup>* (pool_start base) w"
    "w_calls w i = Some (user, pass, Returned_with (Inr c))"
    "w_calls w j = Some (user', pass', Returned_with (Inr c'))"
  shows "(c = c' \<longleftrightarrow> IsoKey user pass = IsoKey user' pass') \<and>
    (CHR 0x00 \<notin> set user \<longrightarrow> CHR 0x00 \<notin> set user' \<longrightarrow> (c = c' \<longleftrightarrow> user = user' \<and> pass = pass')) \<and>
    (c = base \<longleftrightarrow> user = '''' \<and> pass = '''') \<and>
    card (dom (clients (w_pool w))) + card (dom (building (w_pool w))) \<le> 64"
proof -
  obtain bk where inv: "pool_inv bk w" using pool_reach_inv [OF assms(1)] by blast
  then have m: "maps_ok bk (w_pool w) (w_born w)"
    and ok: "\<And>i k st. keyed w i = Some (k, st) \<Longrightarrow> call_ok bk (w_pool w) (w_born w) k st"
    by (auto simp: pool_inv_def)
  have c: "clients (w_pool w) (IsoKey user pass) = Some c" "clients (w_pool w) (IsoKey user' pass') = Some c'"
    using ok [OF keyed_call [OF assms(2)]] ok [OF keyed_call [OF assms(3)]] by simp_all
  have b: "clients (w_pool w) '''' = Some base" by (rule pool_reach_base [OF assms(1)])
  have inj: "k = k'" if "clients (w_pool w) k = Some x" "clients (w_pool w) k' = Some x" for k k' x
    using that m unfolding maps_ok_def by blast
  have key: "c = c' \<longleftrightarrow> IsoKey user pass = IsoKey user' pass'"
    using c inj [of "IsoKey user pass" c "IsoKey user' pass'"] by auto
  have base: "c = base \<longleftrightarrow> user = '''' \<and> pass = ''''"
    using c(1) b inj [of "IsoKey user pass" c "''''"] by (metis IsoKey_empty option.inject)
  have cap: "card (dom (clients (w_pool w))) + card (dom (building (w_pool w))) \<le> 64"
    using m by (simp add: maps_ok_def maxIsolatedClients_def)
  show ?thesis
  proof (intro conjI impI)
    assume "CHR 0x00 \<notin> set user" "CHR 0x00 \<notin> set user'"
    then show "c = c' \<longleftrightarrow> user = user' \<and> pass = pass'" unfolding key by (rule IsoKey_inj)
  qed (fact key base cap)+
qed

theorem proxy_identities_isolated_witness:
  "\<exists>w :: (nat, string) world. \<exists>c. w_calls w 0 = Some (''u'', ''p'', Returned_with (Inr c)) \<and> c \<noteq> 0"
proof -
  let ?p0 = "newClientPool 0 :: (nat, string) clientPool" and ?k = "IsoKey ''u'' ''p''"
  let ?w1 = "(pool_start 0 :: (nat, string) world)\<lparr>w_calls := [0 \<mapsto> (''u'', ''p'', Entering)]\<rparr>"
  let ?p1 = "?p0\<lparr>building := [?k \<mapsto> 0], next_build := 1\<rparr>"
  let ?w2 = "set_call 0 (Building 0) (?w1\<lparr>w_pool := ?p1\<rparr>)"
  let ?w3 = "set_call 0 (Built 0 (Inr 1)) (?w2\<lparr>w_born := insert 1 (w_born ?w2)\<rparr>)"
  let ?w4 = "set_call 0 (Stored 0 (Inr 1)) (?w3\<lparr>w_pool := clientFor_finish ?k (Inr 1) (w_pool ?w3)\<rparr>)"
  let ?w5 = "set_call 0 (Returned_with (Inr 1)) (?w4\<lparr>w_pool := clientFor_publish 0 (Inr 1) (w_pool ?w4)\<rparr>)"
  have s1: "pool_step (pool_start 0) ?w1"
    using pool_step.arrive [of "pool_start 0 :: (nat, string) world" 0 "''u''" "''p''"] by (simp add: pool_start_def)
  have k: "?k \<noteq> ''''" by simp
  have s2: "pool_step ?w1 ?w2"
    using pool_step.enter [of ?w1 0 "''u''" "''p''" "StartBuild 0" ?p1] k
    by (simp add: pool_start_def clientFor_enter_def newClientPool_def maxIsolatedClients_def)
  have s3: "pool_step ?w2 ?w3"
    by (rule pool_step.bootstrap_ok [where user = "''u''" and pass = "''p''"]) (simp_all add: set_call_def pool_start_def)
  have s4: "pool_step ?w3 ?w4"
    by (rule pool_step.finish [where user = "''u''" and pass = "''p''"]) (simp add: set_call_def)
  have s5: "pool_step ?w4 ?w5"
    by (rule pool_step.publish [where user = "''u''" and pass = "''p''"]) (simp add: set_call_def)
  have r: "pool_step\<^sup>*\<^sup>* (pool_start 0) ?w5"
    using s1 s2 s3 s4 s5 by (meson rtranclp.rtrancl_refl rtranclp.rtrancl_into_rtrancl)
  have c: "w_calls ?w5 0 = Some (''u'', ''p'', Returned_with (Inr 1))" by (simp add: set_call_def)
  then show ?thesis
    using proxy_identities_isolated [OF r c c] by (intro exI [of _ ?w5] exI [of _ 1]) simp
qed

end
