(* ===== verification/Http_Proxy.thy ===== *)
theory Http_Proxy
  imports Socks Proxy_Pool
begin

text \<open>The HTTP forward proxy of \<^verbatim>\<open>pkg/httpproxy/httpproxy.go\<close> and the relay of
  \<^verbatim>\<open>internal/relay/relay.go\<close>: Basic credentials, hop-by-hop headers, the cache of transports per
  identity, CONNECT tunnels and forwarded requests, the limit on accepted connections, and the copying
  in both directions as a step relation.  The dialer factory and the dialers are the parameters of
  \<^verbatim>\<open>Socks\<close>, and \<^verbatim>\<open>http.Transport.RoundTrip\<close> is a parameter too.\<close>

section \<open>Headers\<close>

text \<open>An \<^verbatim>\<open>http.Header\<close> is a map from keys to lists of values; its methods take the canonical form of the
  key they are given (\<^verbatim>\<open>textproto.CanonicalMIMEHeaderKey\<close>).\<close>

type_synonym header = "string \<rightharpoonup> string list"

definition header_byte :: "char \<Rightarrow> bool" where
  "header_byte c \<longleftrightarrow> is_digit c \<or> (65 \<le> (of_char c :: nat) \<and> (of_char c :: nat) \<le> 90)
     \<or> (97 \<le> (of_char c :: nat) \<and> (of_char c :: nat) \<le> 122) \<or> c \<in> set ''!#$%&*+-.^_|~'' \<or> c = CHR 0x27 \<or> c = CHR 0x60"

fun canon_from :: "bool \<Rightarrow> string \<Rightarrow> string" where
  "canon_from up [] = []"
| "canon_from up (c # cs) = (if up then to_upper_char c else to_lower_char c) # canon_from (c = CHR ''-'') cs"

definition CanonicalKey :: "string \<Rightarrow> string" where
  "CanonicalKey s = (if list_all header_byte s then canon_from True s else s)"

definition Values :: "header \<Rightarrow> string \<Rightarrow> string list" where
  "Values h k = (case h (CanonicalKey k) of None \<Rightarrow> [] | Some vs \<Rightarrow> vs)"

definition Get :: "header \<Rightarrow> string \<Rightarrow> string" where
  "Get h k = (case Values h k of [] \<Rightarrow> '''' | v # vs \<Rightarrow> v)"

definition Del :: "string \<Rightarrow> header \<Rightarrow> header" where
  "Del k h = h(CanonicalKey k := None)"

definition Add :: "string \<Rightarrow> string \<Rightarrow> header \<Rightarrow> header" where
  "Add k v h = h(CanonicalKey k \<mapsto> Values h k @ [v])"

definition hopByHopHeaders :: "string list" where
  "hopByHopHeaders = [''Connection'', ''Proxy-Connection'', ''Keep-Alive'', ''Proxy-Authenticate'',
     ''Proxy-Authorization'', ''Te'', ''Trailer'', ''Transfer-Encoding'', ''Upgrade'']"

definition connection_names :: "header \<Rightarrow> string list" where
  "connection_names h =
     concat (map (\<lambda>field. filter (\<lambda>n. n \<noteq> '''') (map TrimSpace (split_on CHR '','' field))) (Values h ''Connection''))"

definition removeHopByHop :: "header \<Rightarrow> header" where
  "removeHopByHop h = foldl (\<lambda>h n. Del n h) (foldl (\<lambda>h n. Del n h) h (connection_names h)) hopByHopHeaders"

text \<open>\<^verbatim>\<open>copyHeader\<close> ranges over the source map; \<open>ks\<close> is the order it happens to take.\<close>

definition copyHeader :: "string list \<Rightarrow> header \<Rightarrow> header \<Rightarrow> header" where
  "copyHeader ks dst src =
     foldl (\<lambda>d k. foldl (\<lambda>d v. Add k v d) d (case src k of None \<Rightarrow> [] | Some vs \<Rightarrow> vs)) dst ks"

section \<open>Credentials\<close>

text \<open>\<^verbatim>\<open>strings.EqualFold\<close> of six bytes with an ASCII word of six letters is equality of the lower-case
  forms: no longer rune folds onto one of them within the length.\<close>

definition parseBasicAuth :: "string \<Rightarrow> string \<times> string \<times> bool" where
  "parseBasicAuth header =
     (if length header < 6 \<or> ToLower (take 6 header) \<noteq> ''basic '' then ('''', '''', False)
      else case b64_decode True (drop 6 header) of
             (decoded, False) \<Rightarrow> ('''', '''', False)
           | (decoded, True) \<Rightarrow>
             (case str_cut CHR '':'' (str_of decoded) of
                None \<Rightarrow> ('''', '''', False)
              | Some (user, pass) \<Rightarrow> (user, pass, True)))"

section \<open>Requests and responses\<close>

record http_request =
  req_method :: string
  req_host :: string
  req_urlAbs :: bool
  req_urlHost :: string
  req_uri :: string
  req_header :: header
  req_body :: bytes

record http_response =
  resp_status :: nat
  resp_header :: header
  resp_body :: bytes

text \<open>The response writer: what was sent, and whether the connection can be hijacked.\<close>

datatype hijack = NoHijacker | HijackFails | HijackOk

record writer_state =
  rw_status :: "nat option"
  rw_header :: header
  rw_body :: bytes
  rw_hijack :: hijack

definition http_Error :: "string \<Rightarrow> nat \<Rightarrow> writer_state \<Rightarrow> writer_state" where
  "http_Error msg code rw = rw\<lparr>rw_status := Some code,
     rw_header := (Del ''Content-Length'' (rw_header rw))
        (''Content-Type'' \<mapsto> [''text/plain; charset=utf-8''], ''X-Content-Type-Options'' \<mapsto> [''nosniff'']),
     rw_body := rw_body rw @ bytes_of (msg @ [CHR 0x0A])\<rparr>"

section \<open>Transports\<close>

record 'd transport =
  tr_dialer :: 'd
  tr_tlsMin :: nat
  tr_tlsTimeout :: int
  tr_headerTimeout :: int
  tr_noKeepAlives :: bool

definition new_transport :: "'d \<Rightarrow> 'd transport" where
  "new_transport d = \<lparr>tr_dialer = d, tr_tlsMin = 0x0303, tr_tlsTimeout = 30 * 1000000000,
     tr_headerTimeout = 60 * 1000000000, tr_noKeepAlives = True\<rparr>"

text \<open>\<^verbatim>\<open>transportFor\<close> has two critical sections with the factory call between them; \<open>others\<close> is what the
  other goroutines do to the map meanwhile.\<close>

definition transportFor ::
  "(string \<Rightarrow> string \<Rightarrow> 'w \<Rightarrow> ('e + 'd) \<times> 'w) \<Rightarrow> ((string \<rightharpoonup> 'd transport) \<Rightarrow> (string \<rightharpoonup> 'd transport)) \<Rightarrow>
   string \<Rightarrow> string \<Rightarrow> (string \<rightharpoonup> 'd transport) \<Rightarrow> 'w \<Rightarrow> ('e + 'd transport) \<times> (string \<rightharpoonup> 'd transport) \<times> 'w" where
  "transportFor factory others user pass ts w =
     (let key = IsoKey user pass in
      case ts key of
        Some t \<Rightarrow> (Inr t, ts, w)
      | None \<Rightarrow>
        (case factory user pass w of
           (Inl e, w1) \<Rightarrow> (Inl e, others ts, w1)
         | (Inr dl, w1) \<Rightarrow>
           let t = new_transport dl; ts1 = others ts in
           (case ts1 key of
              Some existing \<Rightarrow> (Inr existing, ts1, w1)
            | None \<Rightarrow> (Inr t, ts1(key \<mapsto> t), w1))))"

section \<open>Handlers\<close>

text \<open>How a handler ends: a response was written, the hijack failed, the acknowledgement could not be
  written, or the tunnel was relayed; in the last two the client connection is closed.\<close>

datatype http_end = Responded writer_state | HijackErr | TunnelBroken sconn | Tunnelled sconn

definition established :: bytes where
  "established = bytes_of (''HTTP/1.1 200 Connection Established'' @ [CHR 0x0D, CHR 0x0A, CHR 0x0D, CHR 0x0A])"

definition connect_target :: "http_request \<Rightarrow> string" where
  "connect_target r = (if req_host r = '''' then req_urlHost r else req_host r)"

definition handleConnect ::
  "('d, 'u, 'w) upstream \<Rightarrow> writer_state \<Rightarrow> sconn \<Rightarrow> http_request \<Rightarrow> string \<Rightarrow> string \<Rightarrow> 'w \<Rightarrow> http_end \<times> 'w" where
  "handleConnect U rw conn r user pass w =
     (case up_factory U user pass w of
        (Inl e, w1) \<Rightarrow> (Responded (http_Error ''Bad Gateway'' 502 rw), w1)
      | (Inr dl, w1) \<Rightarrow>
        (case up_dial U dl ''tcp'' (connect_target r) w1 of
           (Inl e, w2) \<Rightarrow> (Responded (http_Error ''Bad Gateway'' 502 rw), w2)
         | (Inr up, w2) \<Rightarrow>
           (case rw_hijack rw of
              NoHijacker \<Rightarrow> (Responded (http_Error ''hijacking unsupported'' 500 rw), up_close U up w2)
            | HijackFails \<Rightarrow> (HijackErr, up_close U up w2)
            | HijackOk \<Rightarrow>
              (case conn_write established (SetReadDeadline None conn) of
                 (Some e, c1) \<Rightarrow> (TunnelBroken c1, up_close U up w2)
               | (None, c1) \<Rightarrow>
                 (case up_relay U c1 up w2 of (c2, w3) \<Rightarrow> (Tunnelled c2, up_close U up w3))))))"

text \<open>The outgoing request: the clone with its request URI cleared and without hop-by-hop headers.\<close>

definition outgoing :: "http_request \<Rightarrow> http_request" where
  "outgoing r = r\<lparr>req_uri := '''', req_header := removeHopByHop (req_header r)\<rparr>"

definition handleForward ::
  "('d, 'u, 'w) upstream \<Rightarrow> ((string \<rightharpoonup> 'd transport) \<Rightarrow> (string \<rightharpoonup> 'd transport)) \<Rightarrow>
   ('d transport \<Rightarrow> http_request \<Rightarrow> 'w \<Rightarrow> (err_id list + http_response) \<times> 'w) \<Rightarrow> (header \<Rightarrow> string list) \<Rightarrow>
   writer_state \<Rightarrow> http_request \<Rightarrow> string \<Rightarrow> string \<Rightarrow> (string \<rightharpoonup> 'd transport) \<Rightarrow> 'w \<Rightarrow>
   http_end \<times> (string \<rightharpoonup> 'd transport) \<times> 'w" where
  "handleForward U others roundTrip order rw r user pass ts w =
     (if \<not> req_urlAbs r \<or> req_urlHost r = '''' then
        (Responded (http_Error ''this is a forward proxy; requests must use an absolute URL'' 400 rw), ts, w)
      else case transportFor (up_factory U) others user pass ts w of
          (Inl e, ts1, w1) \<Rightarrow> (Responded (http_Error ''Bad Gateway'' 502 rw), ts1, w1)
        | (Inr tr, ts1, w1) \<Rightarrow>
          (case roundTrip tr (outgoing r) w1 of
             (Inl e, w2) \<Rightarrow> (Responded (http_Error ''Bad Gateway'' 502 rw), ts1, w2)
           | (Inr resp, w2) \<Rightarrow>
             let h = removeHopByHop (resp_header resp) in
             (Responded (rw\<lparr>rw_header := copyHeader (order h) (rw_header rw) h,
                            rw_status := Some (resp_status resp), rw_body := rw_body rw @ resp_body resp\<rparr>),
              ts1, w2)))"

definition ServeHTTP ::
  "('d, 'u, 'w) upstream \<Rightarrow> ((string \<rightharpoonup> 'd transport) \<Rightarrow> (string \<rightharpoonup> 'd transport)) \<Rightarrow>
   ('d transport \<Rightarrow> http_request \<Rightarrow> 'w \<Rightarrow> (err_id list + http_response) \<times> 'w) \<Rightarrow> (header \<Rightarrow> string list) \<Rightarrow>
   writer_state \<Rightarrow> sconn \<Rightarrow> http_request \<Rightarrow> (string \<rightharpoonup> 'd transport) \<Rightarrow> 'w \<Rightarrow>
   http_end \<times> (string \<rightharpoonup> 'd transport) \<times> 'w" where
  "ServeHTTP U others roundTrip order rw conn r ts w =
     (case parseBasicAuth (Get (req_header r) ''Proxy-Authorization'') of
        (user, pass, _) \<Rightarrow>
          if req_method r = ''CONNECT'' then
            (case handleConnect U rw conn r user pass w of (e, w1) \<Rightarrow> (e, ts, w1))
          else handleForward U others roundTrip order rw r user pass ts w)"

section \<open>The limited listener\<close>

text \<open>\<^verbatim>\<open>limitListener\<close> and \<^verbatim>\<open>limitConn\<close>: the tokens in the semaphore, the \<^verbatim>\<open>Accept\<close>s that hold one, and for
  each accepted connection whether its \<^verbatim>\<open>once\<close> has fired.  \<^verbatim>\<open>Close\<close> may be called any number of times.\<close>

record limit_listener =
  ll_sem :: nat
  ll_accepting :: nat
  ll_conns :: "bool list"

inductive ll_step :: "nat \<Rightarrow> limit_listener \<Rightarrow> limit_listener \<Rightarrow> bool" for cap where
  accept_enter: "ll_sem l < cap \<Longrightarrow>
    ll_step cap l (l\<lparr>ll_sem := ll_sem l + 1, ll_accepting := ll_accepting l + 1\<rparr>)"
| accept_err: "ll_accepting l > 0 \<Longrightarrow> ll_sem l > 0 \<Longrightarrow>
    ll_step cap l (l\<lparr>ll_sem := ll_sem l - 1, ll_accepting := ll_accepting l - 1\<rparr>)"
| accept_ok: "ll_accepting l > 0 \<Longrightarrow>
    ll_step cap l (l\<lparr>ll_accepting := ll_accepting l - 1, ll_conns := ll_conns l @ [False]\<rparr>)"
| close_first: "i < length (ll_conns l) \<Longrightarrow> \<not> ll_conns l ! i \<Longrightarrow> ll_sem l > 0 \<Longrightarrow>
    ll_step cap l (l\<lparr>ll_sem := ll_sem l - 1, ll_conns := (ll_conns l)[i := True]\<rparr>)"
| close_again: "i < length (ll_conns l) \<Longrightarrow> ll_conns l ! i \<Longrightarrow> ll_step cap l l"

definition ll_start :: limit_listener where
  "ll_start = \<lparr>ll_sem = 0, ll_accepting = 0, ll_conns = []\<rparr>"

definition open_conns :: "limit_listener \<Rightarrow> nat" where
  "open_conns l = length (filter Not (ll_conns l))"

lemma open_close: "i < length bs \<Longrightarrow> \<not> bs ! i \<Longrightarrow> length (filter Not bs) = Suc (length (filter Not (bs[i := True])))"
proof (induction bs arbitrary: i)
  case (Cons b bs)
  then show ?case by (cases i) auto
qed simp

lemma ll_inv:
  "(ll_step cap)\<^sup>*\<^sup>* ll_start l \<Longrightarrow> ll_sem l = ll_accepting l + open_conns l \<and> ll_sem l \<le> cap"
proof (induction rule: rtranclp_induct)
  case base
  show ?case by (simp add: ll_start_def open_conns_def)
next
  case (step y z)
  from step.hyps(2) show ?case
  proof cases
    case (close_first i)
    then show ?thesis using step.IH open_close [of i "ll_conns y"] by (simp add: open_conns_def)
  qed (use step.IH in \<open>auto simp: open_conns_def\<close>)
qed

section \<open>Serving\<close>

text \<open>The settings of the \<^verbatim>\<open>http.Server\<close> that \<^verbatim>\<open>Serve\<close> builds, in nanoseconds and bytes; a zero time-out is
  none.\<close>

record http_settings =
  hsReadHeaderTimeout :: int
  hsIdleTimeout :: int
  hsReadTimeout :: int
  hsWriteTimeout :: int
  hsMaxHeaderBytes :: nat
  hsMaxConns :: nat

definition proxy_settings :: http_settings where
  "proxy_settings = \<lparr>hsReadHeaderTimeout = 30 * 1000000000, hsIdleTimeout = 60 * 1000000000,
     hsReadTimeout = 0, hsWriteTimeout = 0, hsMaxHeaderBytes = 2 ^ 20, hsMaxConns = 1024\<rparr>"

text \<open>\<^verbatim>\<open>Serve\<close> and the goroutine that runs \<^verbatim>\<open>srv.Serve\<close> on the limited listener: what the goroutine has sent
  on \<^verbatim>\<open>errCh\<close>, whether \<^verbatim>\<open>Shutdown\<close> has closed the listener, and where \<^verbatim>\<open>Serve\<close> is.  \<^verbatim>\<open>srv.Serve\<close> accepts from
  one goroutine, and after \<^verbatim>\<open>Shutdown\<close> its error is \<^verbatim>\<open>ErrServerClosed\<close>.  Connections close at any time.\<close>

datatype served = ServerClosed | ServeError "err_id list"

datatype http_phase = Selecting | ShuttingDown | ServeReturned "err_id list option"

record http_serving =
  hv_listener :: limit_listener
  hv_ctxDone :: bool
  hv_down :: bool
  hv_errCh :: "served option"
  hv_phase :: http_phase

definition http_serve_init :: http_serving where
  "http_serve_init = \<lparr>hv_listener = ll_start, hv_ctxDone = False, hv_down = False, hv_errCh = None, hv_phase = Selecting\<rparr>"

inductive http_serve_step :: "http_serving \<Rightarrow> http_serving \<Rightarrow> bool" where
  ctx_cancel: "http_serve_step s (s\<lparr>hv_ctxDone := True\<rparr>)"
| listener: "ll_step (hsMaxConns proxy_settings) (hv_listener s) l \<Longrightarrow>
    (ll_accepting l > ll_accepting (hv_listener s) \<longrightarrow> hv_errCh s = None \<and> ll_accepting (hv_listener s) = 0) \<Longrightarrow>
    http_serve_step s (s\<lparr>hv_listener := l\<rparr>)"
| srv_ends: "hv_errCh s = None \<Longrightarrow> ll_accepting (hv_listener s) = 0 \<Longrightarrow>
    http_serve_step s (s\<lparr>hv_errCh := Some (if hv_down s then ServerClosed else ServeError e)\<rparr>)"
| on_done: "hv_phase s = Selecting \<Longrightarrow> hv_ctxDone s \<Longrightarrow>
    http_serve_step s (s\<lparr>hv_down := True, hv_phase := ShuttingDown\<rparr>)"
| shut_down: "hv_phase s = ShuttingDown \<Longrightarrow> http_serve_step s (s\<lparr>hv_phase := ServeReturned None\<rparr>)"
| on_error: "hv_phase s = Selecting \<Longrightarrow> hv_errCh s = Some r \<Longrightarrow>
    http_serve_step s (s\<lparr>hv_phase := ServeReturned (case r of ServerClosed \<Rightarrow> None | ServeError e \<Rightarrow> Some e)\<rparr>)"

definition http_serve_inv :: "http_serving \<Rightarrow> bool" where
  "http_serve_inv s \<longleftrightarrow>
     (ll_step (hsMaxConns proxy_settings))\<^sup>*\<^sup>* ll_start (hv_listener s) \<and> ll_accepting (hv_listener s) \<le> 1 \<and>
     (hv_down s \<longrightarrow> hv_ctxDone s \<and> hv_phase s \<noteq> Selecting) \<and>
     (hv_errCh s = Some ServerClosed \<longrightarrow> hv_down s) \<and>
     (hv_errCh s \<noteq> None \<longrightarrow> ll_accepting (hv_listener s) = 0) \<and>
     (hv_phase s = ShuttingDown \<longrightarrow> hv_down s) \<and>
     (hv_phase s = ServeReturned None \<longrightarrow> hv_ctxDone s \<and> hv_down s) \<and>
     (\<forall>e. hv_phase s = ServeReturned (Some e) \<longrightarrow> hv_errCh s = Some (ServeError e) \<and> \<not> hv_down s)"

lemma ll_accepting_step: "ll_step cap l l' \<Longrightarrow> ll_accepting l' \<le> Suc (ll_accepting l)"
  by (induction rule: ll_step.induct) auto

lemma http_serve_reach: "http_serve_step\<^sup>*\<^sup>* http_serve_init s \<Longrightarrow> http_serve_inv s"
proof (induction rule: rtranclp_induct)
  case base
  show ?case by (simp add: http_serve_inv_def http_serve_init_def ll_start_def)
next
  case (step s s')
  from step.hyps(2) show ?case
  proof cases
    case (listener l)
    then have "(ll_step (hsMaxConns proxy_settings))\<^sup>*\<^sup>* ll_start l"
      using step.IH unfolding http_serve_inv_def by (meson rtranclp.rtrancl_into_rtrancl)
    moreover have "ll_accepting l \<le> 1" "hv_errCh s \<noteq> None \<Longrightarrow> ll_accepting l = 0"
      using step.IH listener(3) ll_accepting_step [OF listener(2)] unfolding http_serve_inv_def
      by (cases "ll_accepting l > ll_accepting (hv_listener s)"; auto)+
    ultimately show ?thesis using step.IH listener(1) by (simp add: http_serve_inv_def)
  qed (use step.IH in \<open>auto simp: http_serve_inv_def split: option.splits served.splits\<close>)
qed

text \<open>The HTTP proxy never holds more than 1024 accepted connections open, a slot is taken for each of them
  until its first close, \<^verbatim>\<open>Serve\<close> returns without an error only when its context was cancelled (and then
  the listener is shut down), and with an error only when serving failed for another reason.\<close>

theorem http_serve_bounded:
  assumes "http_serve_step\<^sup>*\<^sup>* http_serve_init s"
  shows "open_conns (hv_listener s) \<le> 1024 \<and>
    ll_sem (hv_listener s) = open_conns (hv_listener s) + ll_accepting (hv_listener s) \<and>
    (hv_phase s = ServeReturned None \<longrightarrow> hv_ctxDone s \<and> hv_down s) \<and>
    (hv_phase s = ServeReturned (Some e) \<longrightarrow> hv_errCh s = Some (ServeError e) \<and> \<not> hv_down s)"
proof -
  note i = http_serve_reach [OF assms, unfolded http_serve_inv_def]
  from ll_inv [OF conjunct1 [OF i]] i show ?thesis by (auto simp: proxy_settings_def)
qed

theorem http_serve_bounded_witness:
  "\<exists>s :: http_serving. hv_phase s = ServeReturned None \<and> hv_ctxDone s \<and> open_conns (hv_listener s) \<le> 1024"
proof -
  let ?a = "http_serve_init\<lparr>hv_ctxDone := True\<rparr>"
  let ?b = "?a\<lparr>hv_down := True, hv_phase := ShuttingDown\<rparr>"
  let ?c = "?b\<lparr>hv_phase := ServeReturned None\<rparr>"
  have "http_serve_step http_serve_init ?a" by (rule http_serve_step.ctx_cancel)
  moreover have "http_serve_step ?a ?b" by (rule http_serve_step.on_done) (simp_all add: http_serve_init_def)
  moreover have "http_serve_step ?b ?c" by (rule http_serve_step.shut_down) simp
  ultimately have "http_serve_step\<^sup>*\<^sup>* http_serve_init ?c"
    by (meson r_into_rtranclp rtranclp.rtrancl_into_rtrancl)
  then have "open_conns (hv_listener ?c) \<le> 1024" using http_serve_bounded [of ?c "[]"] by blast
  then show ?thesis by (intro exI [of _ ?c]) (simp add: http_serve_init_def)
qed

section \<open>Bidirectional relay\<close>

text \<open>\<^verbatim>\<open>relay.Bidirectional(a, b)\<close>: two copies, one in each direction.  A side is the bytes it has still to
  deliver, the bytes it was given, and whether it is closed; a copy moves a chunk, or stops at the end
  of its source, at a closed side or at an error, losing what it had read and not written, and then
  closes both sides.\<close>

record relay_state =
  ra_in :: bytes
  ra_out :: bytes
  ra_closed :: bool
  rb_in :: bytes
  rb_out :: bytes
  rb_closed :: bool
  ab_copying :: bool
  ba_copying :: bool

inductive relay_step :: "relay_state \<Rightarrow> relay_state \<Rightarrow> bool" where
  copy_ab: "ab_copying s \<Longrightarrow> \<not> ra_closed s \<Longrightarrow> \<not> rb_closed s \<Longrightarrow> ra_in s = chunk @ rest \<Longrightarrow>
    relay_step s (s\<lparr>ra_in := rest, rb_out := rb_out s @ chunk\<rparr>)"
| copy_ba: "ba_copying s \<Longrightarrow> \<not> ra_closed s \<Longrightarrow> \<not> rb_closed s \<Longrightarrow> rb_in s = chunk @ rest \<Longrightarrow>
    relay_step s (s\<lparr>rb_in := rest, ra_out := ra_out s @ chunk\<rparr>)"
| stop_ab: "ab_copying s \<Longrightarrow> ra_in s = lost @ rest \<Longrightarrow>
    relay_step s (s\<lparr>ra_in := rest, ab_copying := False, ra_closed := True, rb_closed := True\<rparr>)"
| stop_ba: "ba_copying s \<Longrightarrow> rb_in s = lost @ rest \<Longrightarrow>
    relay_step s (s\<lparr>rb_in := rest, ba_copying := False, ra_closed := True, rb_closed := True\<rparr>)"

definition relay_start :: "bytes \<Rightarrow> bytes \<Rightarrow> relay_state" where
  "relay_start a b = \<lparr>ra_in = a, ra_out = [], ra_closed = False, rb_in = b, rb_out = [], rb_closed = False,
     ab_copying = True, ba_copying = True\<rparr>"

lemma relay_inv:
  "relay_step\<^sup>*\<^sup>* (relay_start a b) s \<Longrightarrow>
   prefix (rb_out s) a \<and> prefix (ra_out s) b \<and>
   (ab_copying s \<longrightarrow> a = rb_out s @ ra_in s) \<and> (ba_copying s \<longrightarrow> b = ra_out s @ rb_in s) \<and>
   (ra_closed s \<longleftrightarrow> \<not> ab_copying s \<or> \<not> ba_copying s) \<and> (rb_closed s \<longleftrightarrow> ra_closed s)"
proof (induction rule: rtranclp_induct)
  case base
  show ?case by (simp add: relay_start_def)
next
  case (step y z)
  from step.hyps(2) step.IH show ?case by cases (auto simp: prefix_def)
qed

section \<open>What is forwarded\<close>

lemma foldl_Del:
  "foldl (\<lambda>h n. Del n h) h ns k = (if k \<in> CanonicalKey ` set ns then None else h k)"
  by (induction ns arbitrary: h) (auto simp: Del_def)

lemma removeHopByHop_apply:
  "removeHopByHop h k =
   (if k \<in> CanonicalKey ` set (connection_names h) \<or> k \<in> CanonicalKey ` set hopByHopHeaders then None else h k)"
  by (simp add: removeHopByHop_def foldl_Del)

lemma hopByHop_canonical: "map CanonicalKey hopByHopHeaders = hopByHopHeaders"
  by code_simp

lemma image_hop: "CanonicalKey ` set hopByHopHeaders = set hopByHopHeaders"
  using hopByHop_canonical by (metis set_map)

text \<open>The values of a key after \<^verbatim>\<open>copyHeader\<close>: appended once per occurrence, whatever the order.\<close>

lemma Add_apply: "Add k v h k' = (if k' = CanonicalKey k then Some (Values h k @ [v]) else h k')"
  by (simp add: Add_def)

lemma foldl_Add:
  "foldl (\<lambda>d v. Add k v d) d vs =
     (if vs = [] then d else d(CanonicalKey k \<mapsto> Values d k @ vs))"
proof (induction vs rule: rev_induct)
  case (snoc v vs)
  then show ?case by (auto simp: Add_def Values_def)
qed simp

lemma copyHeader_fresh:
  assumes "distinct ks" "\<forall>k \<in> set ks. CanonicalKey k = k"
  shows "copyHeader ks dst src k =
    (if k \<in> set ks \<and> src k \<noteq> None \<and> src k \<noteq> Some [] then Some ((case dst k of None \<Rightarrow> [] | Some vs \<Rightarrow> vs) @ the (src k))
     else dst k)"
  using assms
proof (induction ks arbitrary: dst)
  case (Cons x ks)
  define d where "d = foldl (\<lambda>d v. Add x v d) dst (case src x of None \<Rightarrow> [] | Some vs \<Rightarrow> vs)"
  have "copyHeader (x # ks) dst src = copyHeader ks d src" by (simp add: copyHeader_def d_def)
  moreover have "d k = (if k = x \<and> src x \<noteq> None \<and> src x \<noteq> Some [] then Some ((case dst k of None \<Rightarrow> [] | Some vs \<Rightarrow> vs) @ the (src k)) else dst k)"
    using Cons.prems(2) by (auto simp: d_def foldl_Add Values_def split: option.splits)
  ultimately show ?case using Cons.IH [of d] Cons.prems by auto
qed (simp add: copyHeader_def)

section \<open>Transports and identities\<close>

context isolating_factory
begin

definition transports_ok :: "'w \<Rightarrow> (string \<rightharpoonup> 'd transport) \<Rightarrow> bool" where
  "transports_ok w ts \<longleftrightarrow> (\<forall>k t. ts k = Some t \<longrightarrow> holds w k (tr_dialer t))"

lemma transportFor_isolated:
  assumes "good w" "transports_ok w ts" "transportFor factory others user pass ts w = (r, ts', w')"
    "\<And>w1. transports_ok w1 ts \<Longrightarrow> transports_ok w1 (others ts)"
  shows "good w' \<and> transports_ok w' ts' \<and> (\<forall>t. r = Inr t \<longrightarrow> holds w' (IsoKey user pass) (tr_dialer t))"
proof (cases "ts (IsoKey user pass)")
  case (Some t)
  then show ?thesis using assms(1-3) by (auto simp: transportFor_def transports_ok_def)
next
  case None
  obtain x w1 where f: "factory user pass w = (x, w1)" by fastforce
  have g: "good w1" using stays_good [OF assms(1) f] .
  have ts: "transports_ok w1 (others ts)"
    using assms(2,4) kept [OF assms(1) f] by (auto simp: transports_ok_def)
  show ?thesis
  proof (cases x)
    case (Inl e)
    then show ?thesis using assms(3) None f g ts by (auto simp: transportFor_def)
  next
    case (Inr d)
    have "holds w1 (IsoKey user pass) d" using made [OF assms(1)] f Inr by blast
    then show ?thesis
      using assms(3) None f g ts Inr
      by (auto simp: transportFor_def transports_ok_def Let_def new_transport_def split: option.splits if_splits)
  qed
qed

end

section \<open>Basic credentials\<close>

text \<open>\<^verbatim>\<open>base64.StdEncoding.EncodeToString\<close>, which clients use for the header.\<close>

fun b64_std :: "bytes \<Rightarrow> string" where
  "b64_std [] = []"
| "b64_std [a] = b64_raw [a] @ ''==''"
| "b64_std [a, b] = b64_raw [a, b] @ ''=''"
| "b64_std (a # b # c # r) = b64_raw [a, b, c] @ b64_std r"

lemma b64_val_eq [simp]: "b64_val (CHR ''='') = None"
  by (simp add: b64_val_def)

lemma b64_quanta_std: "b64_quanta True (b64_std bs) = (bs, True)"
proof (induction bs rule: b64_std.induct)
  case (2 a)
  show ?case using b64_bytes [of 0 a] b64_lt(2) [of 0 "unat a"] by (simp add: b64_simps)
next
  case (3 a b)
  show ?case using b64_byte1_ok [of "unat b" 0 "unat a"] b64_lt(3) [of 0 "unat b"] by (simp add: b64_simps)
next
  case (4 a b c r)
  then show ?case by (simp add: b64_simps)
qed simp

lemma b64_raw_no_newline: "c \<in> set (b64_raw bs) \<Longrightarrow> c \<noteq> CHR 0x0A \<and> c \<noteq> CHR 0x0D"
  by (metis b64_raw_chars b64_char_plain)

lemma b64_std_chars: "c \<in> set (b64_std bs) \<Longrightarrow> c \<noteq> CHR 0x0A \<and> c \<noteq> CHR 0x0D"
proof (induction bs rule: b64_std.induct)
  case (2 a)
  then show ?case using b64_raw_no_newline [of c "[a]"] by (auto simp del: b64_raw.simps)
next
  case (3 a b)
  then show ?case using b64_raw_no_newline [of c "[a, b]"] by (auto simp del: b64_raw.simps)
next
  case (4 a b d r)
  then show ?case using b64_raw_no_newline [of c "[a, b, d]"] by (auto simp del: b64_raw.simps)
qed simp

lemma b64_decode_std: "b64_decode True (b64_std bs) = (bs, True)"
proof -
  have "filter (\<lambda>c. c \<noteq> CHR 0x0A \<and> c \<noteq> CHR 0x0D) (b64_std bs) = b64_std bs"
    using b64_std_chars by (simp add: filter_id_conv)
  then show ?thesis by (simp add: b64_decode_def b64_quanta_std)
qed

lemma str_cut_first: "c \<notin> set a \<Longrightarrow> str_cut c (a @ c # b) = Some (a, b)"
  by (simp add: str_cut_def index_of_append)

lemma ToLower_Basic: "ToLower ''Basic '' = ''basic ''"
  by code_simp

section \<open>Properties\<close>

text \<open>The credentials a client encodes in a Basic header are the identity the proxy derives from it, for
  every user name without a colon (any letter case of the scheme is accepted the same way).\<close>

theorem basic_auth_roundtrip:
  assumes "CHR '':'' \<notin> set user" "ToLower scheme = ''basic ''"
  shows "parseBasicAuth (scheme @ b64_std (bytes_of (user @ '':'' @ pass))) = (user, pass, True)"
proof -
  have "length scheme = 6" using arg_cong [OF assms(2), of length] by (simp add: ToLower_def)
  then show ?thesis
    using assms str_cut_first [OF assms(1), of pass]
    by (simp add: parseBasicAuth_def b64_decode_std)
qed

theorem basic_auth_roundtrip_witness:
  "parseBasicAuth (''bASIC '' @ b64_std (bytes_of (''u'' @ '':'' @ ''p''))) = (''u'', ''p'', True)"
proof -
  have "ToLower ''bASIC '' = ''basic ''" by code_simp
  then show ?thesis using basic_auth_roundtrip [of "''u''" "''bASIC ''" "''p''"] by simp
qed

text \<open>C39: What leaves the proxy for the origin is the outgoing request alone (replacing the origin's behaviour on
  any other request changes nothing), its headers are exactly those of the client's request less the
  hop-by-hop ones and those a Connection header names, so no header is added and the credentials are
  never forwarded.\<close>

theorem http_forwards_end_to_end_headers:
  assumes "\<And>tr w. roundTrip tr (outgoing r) w = roundTrip' tr (outgoing r) w"
  shows "ServeHTTP U others roundTrip order rw conn r ts w = ServeHTTP U others roundTrip' order rw conn r ts w \<and>
    req_header (outgoing r) ''Proxy-Authorization'' = None \<and>
    (\<forall>k. req_header (outgoing r) k =
       (if k \<in> set hopByHopHeaders \<or> k \<in> CanonicalKey ` set (connection_names (req_header r)) then None
        else req_header r k))"
proof -
  have "ServeHTTP U others roundTrip order rw conn r ts w = ServeHTTP U others roundTrip' order rw conn r ts w"
    by (simp only: ServeHTTP_def handleForward_def assms)
  moreover have "''Proxy-Authorization'' \<in> set hopByHopHeaders" by (simp add: hopByHopHeaders_def)
  ultimately show ?thesis by (simp add: outgoing_def removeHopByHop_apply image_hop)
qed

theorem http_forwards_end_to_end_headers_witness:
  "req_header (outgoing \<lparr>req_method = ''GET'', req_host = ''h'', req_urlAbs = True, req_urlHost = ''h'', req_uri = ''x'',
      req_header = [''Connection'' \<mapsto> ['' x-a,,Y''], ''X-A'' \<mapsto> [''1''], ''Accept'' \<mapsto> [''2'']], req_body = []\<rparr>) =
   [''Accept'' \<mapsto> [''2'']]"
proof -
  let ?h = "[''Connection'' \<mapsto> ['' x-a,,Y''], ''X-A'' \<mapsto> [''1''], ''Accept'' \<mapsto> [''2'']] :: header"
  let ?r = "\<lparr>req_method = ''GET'', req_host = ''h'', req_urlAbs = True, req_urlHost = ''h'', req_uri = ''x'',
      req_header = ?h, req_body = []\<rparr>"
  have "map TrimSpace (split_on CHR '','' '' x-a,,Y'') = [''x-a'', '''', ''Y'']" by code_simp
  then have "connection_names ?h = [''x-a'', ''Y'']"
    by (simp add: connection_names_def Values_def CanonicalKey_def header_byte_def to_upper_char_def to_lower_char_def is_digit_def)
  moreover have "CanonicalKey ''x-a'' = ''X-A''" "CanonicalKey ''Y'' = ''Y''" by code_simp+
  ultimately show ?thesis
    using http_forwards_end_to_end_headers [of "\<lambda>_ _ w. (Inl [], w)" ?r "\<lambda>_ _ w. (Inl [], w)"]
    by (auto simp: fun_eq_iff hopByHopHeaders_def)
qed

text \<open>Every transport in the proxy's cache dials through the Tor client of the identity it is filed under, a
  request gets the transport of its own identity, and both survive the races in which another request
  of the same identity stores its transport first.\<close>

theorem http_transports_isolated:
  fixes w :: "'e seq_world"
  assumes "seq_good w" "\<forall>k t. ts k = Some t \<longrightarrow> seq_holds w k (tr_dialer t)"
    "transportFor (dialer newClient) others user pass ts w = (r, ts', w')"
    "\<And>w1 :: 'e seq_world. (\<forall>k t. ts k = Some t \<longrightarrow> seq_holds w1 k (tr_dialer t)) \<Longrightarrow>
           (\<forall>k t. others ts k = Some t \<longrightarrow> seq_holds w1 k (tr_dialer t))"
  shows "(\<forall>k t. ts' k = Some t \<longrightarrow> seq_holds w' k (tr_dialer t)) \<and>
    (\<forall>t. r = Inr t \<longrightarrow> seq_holds w' (IsoKey user pass) (tr_dialer t))"
  using pooled.transportFor_isolated [unfolded pooled.transports_ok_def, OF assms] by blast

theorem http_transports_isolated_witness:
  "\<exists>w' :: string seq_world. seq_holds w' (IsoKey ''u'' ''p'') 1"
proof -
  let ?w = "\<lparr>sw_pool = newClientPool 0, sw_next = 1\<rparr> :: string seq_world"
  obtain r ts' w' where t: "transportFor (dialer (\<lambda>_. None)) id ''u'' ''p'' Map.empty ?w = (r, ts', w')"
    by (metis surj_pair)
  have r: "r = Inr (new_transport 1)"
    using t by (auto simp: transportFor_def dialer_def clientFor_enter_def newClientPool_def maxIsolatedClients_def Let_def
        split: if_splits)
  have "seq_holds w' (IsoKey ''u'' ''p'') 1"
    using http_transports_isolated [OF _ _ t] r by (simp add: seq_good_def newClientPool_def new_transport_def)
  then show ?thesis by blast
qed

text \<open>However the two copies of the relay interleave: each side was given a prefix of what the other one
  sent, nothing reordered, nothing invented and, as long as the direction runs, nothing lost; both
  connections are closed as soon as one direction ends, so the relay returns with both closed.\<close>

theorem relay_faithful:
  assumes "relay_step\<^sup>*\<^sup>* (relay_start a b) s"
  shows "prefix (rb_out s) a \<and> prefix (ra_out s) b \<and>
    (ab_copying s \<longrightarrow> a = rb_out s @ ra_in s) \<and> (ba_copying s \<longrightarrow> b = ra_out s @ rb_in s) \<and>
    (\<not> ab_copying s \<or> \<not> ba_copying s \<longrightarrow> ra_closed s \<and> rb_closed s)"
  using relay_inv [OF assms] by blast

theorem relay_faithful_witness:
  "\<exists>s :: relay_state. rb_out s = [1] \<and> prefix (rb_out s) [1, 2] \<and> [1, 2] = rb_out s @ ra_in s"
proof -
  let ?s = "(relay_start [1, 2] [])\<lparr>ra_in := [2], rb_out := rb_out (relay_start [1, 2] []) @ [1]\<rparr>"
  have "relay_step (relay_start [1, 2] []) ?s"
    by (rule relay_step.copy_ab) (simp_all add: relay_start_def)
  then have r: "relay_step\<^sup>*\<^sup>* (relay_start [1, 2] []) ?s" by blast
  then have "prefix (rb_out ?s) [1, 2] \<and> [1, 2] = rb_out ?s @ ra_in ?s"
    using relay_faithful [OF r] by (simp add: relay_start_def)
  moreover have "rb_out ?s = [1]" by (simp add: relay_start_def)
  ultimately show ?thesis by metis
qed

end
