(* ===== verification/Cmd_Line.thy ===== *)
theory Cmd_Line
  imports Http_Proxy
begin

text \<open>The command line of \<^verbatim>\<open>cmd/go-tor-client\<close>: the choice of the subcommand, the warning for a public
  listener, the proxies' set-up and tear-down, and the \<^verbatim>\<open>request\<close> subcommand with its body, method,
  time-out and headers.  The flag package, \<^verbatim>\<open>url.Parse\<close>, \<^verbatim>\<open>http.NewRequest\<close> and \<^verbatim>\<open>http.Client.Do\<close>, the
  files and the building of a Tor client are parameters.\<close>

section \<open>\<^verbatim>\<open>main.go\<close>\<close>

datatype subcommand = RunSocks | RunHTTP | RunRequest

datatype main_end = Usage | UsageExit2 | Unknown string | Exit1 | Exit0

text \<open>\<open>run\<close> executes a subcommand on its arguments and says whether it succeeded.\<close>

definition main_run :: "(subcommand \<Rightarrow> string list \<Rightarrow> bool) \<Rightarrow> string list \<Rightarrow> main_end" where
  "main_run run args =
     (case args of
        [] \<Rightarrow> UsageExit2
      | [_] \<Rightarrow> UsageExit2
      | _ # cmd # rest \<Rightarrow>
        let go = (\<lambda>s. if run s rest then Exit0 else Exit1) in
        if cmd = ''socks'' then go RunSocks
        else if cmd = ''http'' then go RunHTTP
        else if cmd = ''request'' then go RunRequest
        else if cmd \<in> {''-h'', ''--help'', ''help''} then Usage
        else Unknown cmd)"

definition IsLoopback :: "bytes \<Rightarrow> bool" where
  "IsLoopback ip = (case To4 (Some ip) of Some ip4 \<Rightarrow> ip4 ! 0 = 127 | None \<Rightarrow> ip = replicate 15 0 @ [1])"

definition warnIfPublicListener :: "string \<Rightarrow> bool" where
  "warnIfPublicListener addr =
     (case SplitHostPort addr of
        Inl e \<Rightarrow> False
      | Inr (host, _) \<Rightarrow> (case ParseIP host of None \<Rightarrow> False | Some ip \<Rightarrow> \<not> IsLoopback ip))"

datatype log_level = LevelDebug | LevelInfo | LevelWarn | LevelError

definition buildLogger :: "string \<Rightarrow> log_level" where
  "buildLogger level =
     (let l = ToLower level in
      if l = ''debug'' then LevelDebug
      else if l = ''warn'' \<or> l = ''warning'' then LevelWarn
      else if l = ''error'' then LevelError
      else LevelInfo)"

section \<open>The proxies\<close>

text \<open>\<^verbatim>\<open>runSocks\<close> and \<^verbatim>\<open>runHTTP\<close>, which differ in the default of their listen flag and in the server they run:
  the flags, the base client, the pool, the listener and the warning, the server; on the way out the
  listener and then every client of the pool are closed.  \<open>peParse\<close> is the flag package on the
  subcommand's flags, given the default of the listen flag.\<close>

datatype 'f parsed = ParseHelp | ParseError | Parsed 'f

record proxy_flags =
  pf_listen :: string
  pf_datadir :: string
  pf_logLevel :: string

datatype run_err = FlagError | BootstrapFailed | ListenFailed | ServeFailed

record ('c, 'e, 'w) proxy_env =
  peParse :: "string \<Rightarrow> string list \<Rightarrow> proxy_flags parsed"
  peNewClient :: "string \<Rightarrow> log_level \<Rightarrow> 'w \<Rightarrow> 'c option \<times> 'w"
  peListen :: "string \<Rightarrow> 'w \<Rightarrow> (nat \<times> string) option \<times> 'w"
  peWarn :: "string \<Rightarrow> 'w \<Rightarrow> 'w"
  peServe :: "nat \<Rightarrow> ('c, 'e) clientPool \<Rightarrow> 'w \<Rightarrow> bool \<times> ('c, 'e) clientPool \<times> 'w"
  peCloseListener :: "nat \<Rightarrow> 'w \<Rightarrow> 'w"
  peCloseClients :: "'c set \<Rightarrow> 'w \<Rightarrow> 'w"

definition run_proxy :: "string \<Rightarrow> ('c, 'e, 'w) proxy_env \<Rightarrow> string list \<Rightarrow> 'w \<Rightarrow> run_err option \<times> 'w" where
  "run_proxy listenDefault P args w =
     (case peParse P listenDefault args of
        ParseHelp \<Rightarrow> (None, w)
      | ParseError \<Rightarrow> (Some FlagError, w)
      | Parsed f \<Rightarrow>
     (case peNewClient P (pf_datadir f) (buildLogger (pf_logLevel f)) w of
        (None, w) \<Rightarrow> (Some BootstrapFailed, w)
      | (Some base, w) \<Rightarrow>
        let pool = newClientPool base in
        (case peListen P (pf_listen f) w of
           (None, w) \<Rightarrow> (Some ListenFailed, peCloseClients P (closeAll pool) w)
         | (Some (ln, addr), w) \<Rightarrow>
           let w = (if warnIfPublicListener addr then peWarn P addr w else w) in
           (case peServe P ln pool w of
              (ok, pool, w) \<Rightarrow>
                (if ok then None else Some ServeFailed,
                 peCloseClients P (closeAll pool) (peCloseListener P ln w))))))"

definition runSocks :: "('c, 'e, 'w) proxy_env \<Rightarrow> string list \<Rightarrow> 'w \<Rightarrow> run_err option \<times> 'w" where
  "runSocks = run_proxy ''127.0.0.1:1080''"

definition runHTTP :: "('c, 'e, 'w) proxy_env \<Rightarrow> string list \<Rightarrow> 'w \<Rightarrow> run_err option \<times> 'w" where
  "runHTTP = run_proxy ''127.0.0.1:8080''"

section \<open>The request subcommand\<close>

definition resolveBody :: "(string \<Rightarrow> bytes option) \<Rightarrow> string \<Rightarrow> bytes option option" where
  "resolveBody readFile d =
     (case d of
        [] \<Rightarrow> Some None
      | c # cs \<Rightarrow>
        if c = CHR ''@'' then (case readFile cs of None \<Rightarrow> None | Some b \<Rightarrow> Some (Some b))
        else Some (Some (bytes_of d)))"

definition choose_method :: "string \<Rightarrow> bytes option \<Rightarrow> string" where
  "choose_method m body = (if m = '''' then (if body \<noteq> None then ''POST'' else ''GET'') else m)"

definition onionDefaultTimeout :: int where
  "onionDefaultTimeout = 3 * 60 * 1000000000"

text \<open>\<open>host\<close> is the host name \<^verbatim>\<open>url.Parse\<close> finds in the argument, if it parses.\<close>

definition isOnionURL :: "string option \<Rightarrow> bool" where
  "isOnionURL host = (case host of None \<Rightarrow> False | Some h \<Rightarrow> suffix ''.onion'' (ToLower h))"

definition request_timeout :: "int \<Rightarrow> bool \<Rightarrow> string option \<Rightarrow> int" where
  "request_timeout timeout flagSet host =
     (if \<not> flagSet \<and> isOnionURL host \<and> timeout > 0 \<and> timeout < onionDefaultTimeout
      then onionDefaultTimeout else timeout)"

datatype request_err = FlagsError | MissingURL | BodyFile | NoClient | CreateOutput
  | BuildRequest | InvalidHeader string | DoFailed | WriteFailed | BodyFailed

text \<open>\<^verbatim>\<open>strings.EqualFold(key, "Host")\<close> on the bytes of the key: besides the ASCII letters in either case, the
  long s (U+017F, the bytes C5 BF) folds to \<^verbatim>\<open>s\<close>.\<close>

definition fold_host :: "string \<Rightarrow> bool" where
  "fold_host key \<longleftrightarrow> ToLower key = ''host'' \<or> ToLower key = ''ho'' @ [CHR 0xC5, CHR 0xBF] @ ''t''"

text \<open>The loop over the headers: a \<^verbatim>\<open>Host\<close> header sets the request's host, any other replaces its key's values.\<close>

definition Set :: "string \<Rightarrow> string \<Rightarrow> header \<Rightarrow> header" where
  "Set k v h = h(CanonicalKey k \<mapsto> [v])"

fun add_headers :: "string list \<Rightarrow> http_request \<Rightarrow> request_err + http_request" where
  "add_headers [] req = Inr req"
| "add_headers (h # hs) req =
     (case str_cut CHR '':'' h of
        None \<Rightarrow> Inl (InvalidHeader h)
      | Some (k, v) \<Rightarrow>
        let key = TrimSpace k; val = TrimSpace v in
        if fold_host key then add_headers hs (req\<lparr>req_host := val\<rparr>)
        else add_headers hs (req\<lparr>req_header := Set key val (req_header req)\<rparr>))"

record httpOptions =
  ho_url :: string
  ho_method :: string
  ho_headers :: "string list"
  ho_body :: "bytes option"
  ho_includeHeaders :: bool
  ho_timeout :: int

text \<open>\<^verbatim>\<open>flagSet\<close> over the flags \<^verbatim>\<open>fs.Visit\<close> visits, those given on the command line; the repeated \<^verbatim>\<open>-H\<close> flag.\<close>

definition flagSet :: "string list \<Rightarrow> string \<Rightarrow> bool" where
  "flagSet visited name = foldl (\<lambda>found f. if f = name then True else found) False visited"

definition headerList_Set :: "string \<Rightarrow> string list \<Rightarrow> string list" where
  "headerList_Set v h = h @ [v]"

text \<open>\<^verbatim>\<open>writeStatusAndHeaders\<close> with \<^verbatim>\<open>http.Header.Write\<close>: the keys in their sorted order, those that are no header
  names left out, line breaks in a value turned into blanks and the value trimmed.\<close>

definition trim_value :: "string \<Rightarrow> string" where
  "trim_value v =
     (let sp = (\<lambda>c. c \<in> {CHR '' '', CHR 0x09, CHR 0x0A, CHR 0x0D});
          v = map (\<lambda>c. if c = CHR 0x0A \<or> c = CHR 0x0D then CHR '' '' else c) v
      in rev (dropWhile sp (rev (dropWhile sp v))))"

definition crlf :: string where "crlf = [CHR 0x0D, CHR 0x0A]"

definition header_lines :: "header \<Rightarrow> string \<Rightarrow> string list" where
  "header_lines h k =
     (if k = '''' \<or> \<not> list_all header_byte k then []
      else map (\<lambda>v. k @ '': '' @ trim_value v @ crlf) (case h k of None \<Rightarrow> [] | Some vs \<Rightarrow> vs))"

definition header_Write :: "string list \<Rightarrow> header \<Rightarrow> string" where
  "header_Write keys h = concat (concat (map (header_lines h) keys))"

definition writeStatusAndHeaders :: "string \<Rightarrow> string \<Rightarrow> string list \<Rightarrow> header \<Rightarrow> bytes" where
  "writeStatusAndHeaders proto status keys h =
     bytes_of (proto @ '' '' @ status @ crlf @ header_Write keys h @ crlf)"

text \<open>\<^verbatim>\<open>runRequest\<close>.  \<open>rqDo\<close> performs the request within the time-out through the dialler of the client and
  gives the response with a flag saying whether its body can be read to the end; \<open>rqStatus\<close> gives the
  protocol, the status text and the sorted header keys of a response.\<close>

record request_flags =
  rf_method :: string
  rf_headers :: "string list"
  rf_data :: string
  rf_output :: string
  rf_include :: bool
  rf_timeout :: int
  rf_visited :: "string list"
  rf_datadir :: string
  rf_logLevel :: string
  rf_args :: "string list"

record ('c, 'h, 'w) request_env =
  rqParse :: "string list \<Rightarrow> request_flags parsed"
  rqReadFile :: "string \<Rightarrow> bytes option"
  rqHostname :: "string \<Rightarrow> string option"
  rqNewClient :: "string \<Rightarrow> log_level \<Rightarrow> 'w \<Rightarrow> 'c option \<times> 'w"
  rqStdout :: 'h
  rqCreate :: "string \<Rightarrow> 'w \<Rightarrow> 'h option \<times> 'w"
  rqNew :: "string \<Rightarrow> string \<Rightarrow> bytes option \<Rightarrow> http_request option"
  rqDo :: "'c \<Rightarrow> int \<Rightarrow> http_request \<Rightarrow> 'w \<Rightarrow> (http_response \<times> bool) option \<times> 'w"
  rqStatus :: "http_response \<Rightarrow> string \<times> string \<times> string list"
  rqWrite :: "'h \<Rightarrow> bytes \<Rightarrow> 'w \<Rightarrow> bool \<times> 'w"
  rqCloseFile :: "'h \<Rightarrow> 'w \<Rightarrow> 'w"
  rqCloseClient :: "'c \<Rightarrow> 'w \<Rightarrow> 'w"

definition runRequest :: "('c, 'h, 'w) request_env \<Rightarrow> 'c \<Rightarrow> httpOptions \<Rightarrow> 'h \<Rightarrow> 'w \<Rightarrow> request_err option \<times> 'w" where
  "runRequest R c opts out w =
     (case rqNew R (ho_method opts) (ho_url opts) (ho_body opts) of
        None \<Rightarrow> (Some BuildRequest, w)
      | Some req0 \<Rightarrow>
        (case add_headers (ho_headers opts) req0 of
           Inl e \<Rightarrow> (Some e, w)
         | Inr req \<Rightarrow>
           (case rqDo R c (ho_timeout opts) req w of
              (None, w) \<Rightarrow> (Some DoFailed, w)
            | (Some (resp, complete), w) \<Rightarrow>
              (case (if ho_includeHeaders opts
                     then (case rqStatus R resp of (proto, status, keys) \<Rightarrow>
                             rqWrite R out (writeStatusAndHeaders proto status keys (resp_header resp)) w)
                     else (True, w)) of
                 (False, w) \<Rightarrow> (Some WriteFailed, w)
               | (True, w) \<Rightarrow>
                 (case rqWrite R out (resp_body resp) w of
                    (ok, w) \<Rightarrow> (if ok \<and> complete then None else Some BodyFailed, w))))))"

text \<open>\<^verbatim>\<open>runRequestCmd\<close>: everything that can be refused without the network is refused before the client is
  built; the output file, then the client, are closed on the way out.\<close>

definition request_options :: "('c, 'h, 'w) request_env \<Rightarrow> request_flags \<Rightarrow> request_err + httpOptions" where
  "request_options R f =
     (case rf_args f of
        [] \<Rightarrow> Inl MissingURL
      | url # _ \<Rightarrow>
        (case resolveBody (rqReadFile R) (rf_data f) of
           None \<Rightarrow> Inl BodyFile
         | Some body \<Rightarrow>
           Inr \<lparr>ho_url = url, ho_method = choose_method (rf_method f) body, ho_headers = rf_headers f,
             ho_body = body, ho_includeHeaders = rf_include f,
             ho_timeout = request_timeout (rf_timeout f) (flagSet (rf_visited f) ''timeout'') (rqHostname R url)\<rparr>))"

definition runRequestCmd :: "('c, 'h, 'w) request_env \<Rightarrow> string list \<Rightarrow> 'w \<Rightarrow> request_err option \<times> 'w" where
  "runRequestCmd R args w =
     (case rqParse R args of
        ParseHelp \<Rightarrow> (None, w)
      | ParseError \<Rightarrow> (Some FlagsError, w)
      | Parsed f \<Rightarrow>
     (case request_options R f of
        Inl e \<Rightarrow> (Some e, w)
      | Inr opts \<Rightarrow>
     (case rqNewClient R (rf_datadir f) (buildLogger (rf_logLevel f)) w of
        (None, w) \<Rightarrow> (Some NoClient, w)
      | (Some c, w) \<Rightarrow>
        if rf_output f = ''''
        then (case runRequest R c opts (rqStdout R) w of (e, w) \<Rightarrow> (e, rqCloseClient R c w))
        else (case rqCreate R (rf_output f) w of
                (None, w) \<Rightarrow> (Some CreateOutput, rqCloseClient R c w)
              | (Some h, w) \<Rightarrow>
                (case runRequest R c opts h w of (e, w) \<Rightarrow> (e, rqCloseClient R c (rqCloseFile R h w)))))))"

section \<open>Lemmas\<close>

text \<open>The last value given for a header is the one that is sent, and nothing is sent under a malformed one.\<close>

lemma add_headers_append:
  "add_headers (hs @ hs') req = (case add_headers hs req of Inl e \<Rightarrow> Inl e | Inr r \<Rightarrow> add_headers hs' r)"
  by (induction hs arbitrary: req) (auto simp: Let_def split: option.split)

lemma add_headers_error_iff:
  "(\<exists>e. add_headers hs req = Inl e) \<longleftrightarrow> (\<exists>h \<in> set hs. CHR '':'' \<notin> set h)"
proof (induction hs arbitrary: req)
  case (Cons h hs)
  show ?case
  proof (cases "CHR '':'' \<in> set h")
    case True
    then obtain i where "index_of CHR '':'' h = Some i" using index_of_None [of "CHR '':''" h] by fastforce
    then show ?thesis using Cons True by (simp add: str_cut_def Let_def)
  next
    case False
    then have "str_cut CHR '':'' h = None" unfolding str_cut_def iffD2 [OF index_of_None False] by simp
    then show ?thesis using False by simp
  qed
qed simp

lemma last_header_wins:
  assumes "add_headers hs req = Inr r" "CHR '':'' \<notin> set k" "\<not> fold_host (TrimSpace k)"
  shows "\<exists>r'. add_headers (hs @ [k @ '':'' @ v]) req = Inr r' \<and>
    req_header r' (CanonicalKey (TrimSpace k)) = Some [TrimSpace v] \<and> req_host r' = req_host r"
  using assms str_cut_first [OF assms(2), of v] by (simp add: add_headers_append Set_def Let_def)

text \<open>A listener on an address without a zone is warned about exactly when its address is not loopback; one
  on a link-local address with a zone is not, since the text does not parse as an address.\<close>

lemma warn_plain:
  assumes "plain host" "plain port" "CHR '':'' \<notin> set port" "ParseIP host = Some ip"
  shows "warnIfPublicListener (JoinHostPort host port) \<longleftrightarrow> \<not> IsLoopback ip"
  using assms by (simp add: warnIfPublicListener_def SplitHostPort_Join)

lemma zoned_listener_unnoticed: "\<not> warnIfPublicListener ''[fe80::1%eth0]:1080''"
proof -
  have "SplitHostPort ''[fe80::1%eth0]:1080'' = Inr (''fe80::1%eth0'', ''1080'')" by code_simp
  then show ?thesis by (simp add: warnIfPublicListener_def ParseIP_def)
qed

text \<open>Once a client exists, every way out of \<^verbatim>\<open>runRequestCmd\<close> ends with its closing.\<close>

lemma runRequestCmd_closes:
  assumes "rqParse R args = Parsed f" "request_options R f = Inr opts"
    and "rqNewClient R (rf_datadir f) (buildLogger (rf_logLevel f)) w = (Some c, w1)"
  shows "\<exists>w2. snd (runRequestCmd R args w) = rqCloseClient R c w2"
  using assms by (auto simp: runRequestCmd_def split: prod.split option.split)

text \<open>A header value never adds a line to what is printed: the head has one line break for each value of a
  valid header name.\<close>

lemma flagSet_iff: "flagSet visited name \<longleftrightarrow> name \<in> set visited"
proof -
  have "foldl (\<lambda>found f. if f = name then True else found) b visited \<longleftrightarrow> b \<or> name \<in> set visited" for b
    by (induction visited arbitrary: b) auto
  then show ?thesis by (simp add: flagSet_def)
qed

lemma trim_value_one_line: "CHR 0x0A \<notin> set (trim_value v) \<and> CHR 0x0D \<notin> set (trim_value v)"
  by (auto simp: trim_value_def Let_def dest!: set_dropWhileD)

lemma header_line_break:
  assumes "l \<in> set (header_lines h k)"
  shows "count_list l (CHR 0x0A) = 1"
proof -
  have "\<not> header_byte (CHR 0x0A)" by (simp add: header_byte_def is_digit_def)
  then have "CHR 0x0A \<notin> set k" if "list_all header_byte k" using that by (auto simp: list_all_iff)
  then show ?thesis
    using assms trim_value_one_line by (auto simp: header_lines_def crlf_def count_list_0_iff split: if_splits)
qed

lemma header_Write_lines: "count_list (header_Write keys h) (CHR 0x0A) = length (concat (map (header_lines h) keys))"
proof -
  have "count_list (concat ls) (CHR 0x0A) = length ls" if "\<forall>l \<in> set ls. count_list l (CHR 0x0A) = 1" for ls
    using that by (induction ls) auto
  then show ?thesis unfolding header_Write_def using header_line_break by auto
qed

text \<open>The time-out of an onion URL without the flag is the longer default; the flag is always obeyed.\<close>

lemma request_timeout_cases:
  "request_timeout t True host = t"
  "isOnionURL host \<Longrightarrow> 0 < t \<Longrightarrow> request_timeout t False host = max t onionDefaultTimeout"
  "\<not> isOnionURL host \<Longrightarrow> request_timeout t False host = t"
  by (auto simp: request_timeout_def)

text \<open>What a successful request has done: the request built from the method, URL and body, with the
  headers in order, was performed, and its whole body written to the output.\<close>

lemma runRequest_success:
  assumes "runRequest R c opts out w = (None, w')"
  shows "\<exists>req0 req resp w1 w2. rqNew R (ho_method opts) (ho_url opts) (ho_body opts) = Some req0 \<and>
    add_headers (ho_headers opts) req0 = Inr req \<and> rqDo R c (ho_timeout opts) req w = (Some (resp, True), w1) \<and>
    rqWrite R out (resp_body resp) w2 = (True, w')"
  using assms by (auto simp: runRequest_def split: option.splits sum.splits prod.splits if_splits bool.splits)

end
