(* ===== verification/Onion_Dial.thy ===== *)
theory Onion_Dial
  imports Tor_Client Onion_Desc Link_Channel Circ_Pool
begin

text \<open>Model of \<^verbatim>\<open>onion_dial.go\<close>: the time periods and shared random values to try, the ring of
  directories, the fetch of the descriptor, the rendezvous and introduction circuits with their control
  cells, the hs-ntor handshake across both and the bounded retries.  Circuits are numbers; what the
  network does with them answers through the world \<open>'w\<close>, beside the surroundings of \<^verbatim>\<open>Tor_Client\<close>.\<close>

section \<open>Surroundings and errors\<close>

datatype onion_err = ClientE client_err | CircuitE | BuildE | RandE | SendE | TimeoutE | CtxE | BeginDirE
  | HttpE nat | ResponseE | LinkE linkspec_err | SpecE relayinfo_err | CryptoE crypto_err | DescE desc_err
  | AckE u16 | MissingEdE | NoIntroE | MalformedE | JoinE | NoHSDirsE | RingFetchE | NoHSDirServedE
  | NoDescriptorE | AddrE Onion_Addr.addr_err | BeginE

text \<open>A new circuit on a channel, its build along a path, its destruction, a relay cell to a hop, the
  control cells that reach its handler until a wait on them ends, the hop added for the rendezvous,
  a directory stream with its response, the random numbers, the end of the context, whether a circuit
  has closed, and a stream on a pooled circuit.\<close>

record 'w oenv =
  oeC :: "'w cenv"
  oeNew :: "nat \<Rightarrow> 'w \<Rightarrow> nat option \<times> 'w"
  oeBuild :: "nat \<Rightarrow> relayInfo list \<Rightarrow> 'w \<Rightarrow> bool \<times> 'w"
  oeDestroy :: "nat \<Rightarrow> 'w \<Rightarrow> 'w"
  oeSend :: "nat \<Rightarrow> nat \<Rightarrow> relay_command \<Rightarrow> bytes \<Rightarrow> 'w \<Rightarrow> bool \<times> 'w"
  oeControl :: "nat \<Rightarrow> 'w \<Rightarrow> (relay_command \<times> bytes) list \<times> 'w"
  oeJoin :: "nat \<Rightarrow> bytes \<times> bytes \<times> bytes \<times> bytes \<Rightarrow> 'w \<Rightarrow> bool \<times> 'w"
  oeBeginDir :: "nat \<Rightarrow> 'w \<Rightarrow> nat option \<times> 'w"
  oeWrite :: "nat \<Rightarrow> bytes \<Rightarrow> 'w \<Rightarrow> bool \<times> 'w"
  oeResponse :: "nat \<Rightarrow> 'w \<Rightarrow> (nat \<times> string \<times> string option) option \<times> 'w"
  oeCloseStream :: "nat \<Rightarrow> 'w \<Rightarrow> 'w"
  oeDecompress :: "string \<Rightarrow> string \<Rightarrow> string option"
  oeRandom :: "nat \<Rightarrow> 'w \<Rightarrow> bytes option \<times> 'w"
  oeEphemeral :: "'w \<Rightarrow> bytes option \<times> 'w"
  oeCtxDone :: "'w \<Rightarrow> bool \<times> 'w"
  oeClosed :: "nat \<Rightarrow> 'w \<Rightarrow> bool \<times> 'w"
  oeBegin :: "nat \<Rightarrow> string \<Rightarrow> 'w \<Rightarrow> bool \<times> 'w"

section \<open>Control cells\<close>

record onionControl =
  ocEstablished :: "unit list"
  ocRendezvous2 :: "bytes list"
  ocIntroAck :: "u16 list"

definition newOnionControl :: onionControl where
  "newOnionControl = \<lparr>ocEstablished = [], ocRendezvous2 = [], ocIntroAck = []\<rparr>"

definition oc_handle :: "relay_command \<times> bytes \<Rightarrow> onionControl \<Rightarrow> onionControl" where
  "oc_handle rc oc =
     (case rc of (cm, d) \<Rightarrow>
        if cm = RelayRendezvousEstablished then oc\<lparr>ocEstablished := trySend 1 () (ocEstablished oc)\<rparr>
        else if cm = RelayRendezvous2 then oc\<lparr>ocRendezvous2 := trySend 1 d (ocRendezvous2 oc)\<rparr>
        else if cm = RelayIntroduceAck then
          oc\<lparr>ocIntroAck := trySend 1 (if length d \<ge> 2 then get16 d else 0) (ocIntroAck oc)\<rparr>
        else oc)"

section \<open>Circuits\<close>

definition buildCircuitVia :: "'w oenv \<Rightarrow> relayInfo \<Rightarrow> torClient \<Rightarrow> 'w \<Rightarrow> (onion_err + nat) \<times> torClient \<times> 'w" where
  "buildCircuitVia N third c0 w0 =
     (case via_middle (oeC N) third c0 w0 of
        (Inl e, c, w) \<Rightarrow> (Inl (ClientE e), c, w)
      | (Inr path, c, w) \<Rightarrow>
        (case oeNew N (the (tcGuardChan c0)) w of
           (None, w) \<Rightarrow> (Inl CircuitE, c, w)
         | (Some k, w) \<Rightarrow>
           (case oeBuild N k path w of
              (False, w) \<Rightarrow> (Inl BuildE, c, oeDestroy N k w)
            | (True, w) \<Rightarrow> (Inr k, c, w))))"

definition pickRendezvousPoint :: "'w oenv \<Rightarrow> torClient \<Rightarrow> 'w \<Rightarrow> (onion_err + relayInfo) \<times> torClient \<times> 'w" where
  "pickRendezvousPoint N c w =
     (case with_rand (oeC N) (SelectMiddle (tcSel c)) [findRouterByIdentity c (RSAIDDigest (tcGuardInfo c))] w of
        (Inl e, w) \<Rightarrow> (Inl (ClientE NoRelay), c, w)
      | (Inr i, w) \<Rightarrow>
        (case relay_info (oeC N) (Routers (tcSel c) ! i) c w of
           (Inl e, c, w) \<Rightarrow> (Inl (ClientE e), c, w)
         | (Inr info, c, w) \<Rightarrow> (Inr info, c, w)))"

section \<open>Introduction\<close>

definition intro_info :: "linkSpecAddr \<Rightarrow> introPoint \<Rightarrow> relayInfo" where
  "intro_info ls ip = \<lparr>Nickname = ''intro'', ORAddr = lsORAddr ls, RSAIDDigest = lsRSAID ls,
     EdIdentity = lsEdID ls, NtorOnionKey = ipOnionKey ip\<rparr>"

text \<open>The body of the loop of \<^verbatim>\<open>introduce\<close>: the state of the handshake, an error to go on from, or the end of
  the context, which ends the loop.\<close>

datatype 's intro_end = Introduced 's | NextPoint onion_err | CtxEnded

definition introduce_one :: "crypto \<Rightarrow> 'w oenv \<Rightarrow> bytes \<Rightarrow> bytes \<Rightarrow> bytes \<Rightarrow> bytes \<Rightarrow> introPoint \<Rightarrow> torClient \<Rightarrow> 'w \<Rightarrow>
    hsNtorClient intro_end \<times> torClient \<times> 'w" where
  "introduce_one K N subcred cookie rpNtorKey rpLinkSpecs ip c w =
     (case ParseLinkSpecifiers (ipLinkSpecifiers ip) of
        Inl e \<Rightarrow> (NextPoint (LinkE e), c, w)
      | Inr ls \<Rightarrow>
        if length (lsEdID ls) \<noteq> 32 then (NextPoint MissingEdE, c, w)
        else (case buildCircuitVia N (intro_info ls ip) c w of
            (Inl e, c, w) \<Rightarrow> (NextPoint e, c, w)
          | (Inr k, c, w) \<Rightarrow>
            (case oeEphemeral N w of
               (None, w) \<Rightarrow> (NextPoint RandE, c, oeDestroy N k w)
             | (Some eph, w) \<Rightarrow>
               (case hsNtorIntroWith K (ipEncKey ip) (ipAuthKey ip) subcred eph of
                  Inl e \<Rightarrow> (NextPoint (CryptoE e), c, oeDestroy N k w)
                | Inr (encKey, macKey, clientX, state) \<Rightarrow>
                  (case BuildIntroduce1 K (ipAuthKey ip) encKey macKey clientX
                          (BuildIntroduce1Plaintext cookie rpNtorKey rpLinkSpecs) of
                     Inl e \<Rightarrow> (NextPoint (DescE e), c, oeDestroy N k w)
                   | Inr intro1 \<Rightarrow>
                     (case oeSend N k 2 RelayIntroduce1 intro1 w of
                        (False, w) \<Rightarrow> (NextPoint SendE, c, oeDestroy N k w)
                      | (True, w) \<Rightarrow>
                        (case oeControl N k w of
                           (cells, w) \<Rightarrow>
                             (case ocIntroAck (fold oc_handle cells newOnionControl) of
                                [] \<Rightarrow> (CtxEnded, c, oeDestroy N k w)
                              | status # _ \<Rightarrow>
                                if status \<noteq> 0 then (NextPoint (AckE status), c, oeDestroy N k w)
                                else (Introduced state, c, oeDestroy N k w))))))))) "

fun introduce_loop :: "crypto \<Rightarrow> 'w oenv \<Rightarrow> bytes \<Rightarrow> bytes \<Rightarrow> bytes \<Rightarrow> bytes \<Rightarrow> introPoint list \<Rightarrow> onion_err \<Rightarrow>
    torClient \<Rightarrow> 'w \<Rightarrow> (onion_err + hsNtorClient) \<times> torClient \<times> 'w" where
  "introduce_loop K N subcred cookie rpKey rpSpecs [] lastErr c w = (Inl lastErr, c, w)"
| "introduce_loop K N subcred cookie rpKey rpSpecs (ip # ips) lastErr c w =
     (case introduce_one K N subcred cookie rpKey rpSpecs ip c w of
        (Introduced st, c, w) \<Rightarrow> (Inr st, c, w)
      | (CtxEnded, c, w) \<Rightarrow> (Inl CtxE, c, w)
      | (NextPoint e, c, w) \<Rightarrow> introduce_loop K N subcred cookie rpKey rpSpecs ips e c w)"

definition introduce :: "crypto \<Rightarrow> 'w oenv \<Rightarrow> descriptor \<Rightarrow> bytes \<Rightarrow> bytes \<Rightarrow> bytes \<Rightarrow> bytes \<Rightarrow> torClient \<Rightarrow> 'w \<Rightarrow>
    (onion_err + hsNtorClient) \<times> torClient \<times> 'w" where
  "introduce K N desc subcred cookie rpNtorKey rpLinkSpecs c w =
     introduce_loop K N subcred cookie rpNtorKey rpLinkSpecs (IntroPoints desc) NoIntroE c w"

section \<open>Rendezvous\<close>

text \<open>The third step of \<^verbatim>\<open>buildOnionCircuit\<close>: RENDEZVOUS2, the end of hs-ntor and the new hop.\<close>

definition finish_rendezvous :: "crypto \<Rightarrow> 'w oenv \<Rightarrow> nat \<Rightarrow> onionControl \<Rightarrow> hsNtorClient \<Rightarrow> 'w \<Rightarrow> (onion_err + nat) \<times> 'w" where
  "finish_rendezvous K N k ctl state w =
     (case oeControl N k w of
        (cells, w) \<Rightarrow>
          (case ocRendezvous2 (fold oc_handle cells ctl) of
             [] \<Rightarrow> (Inl CtxE, oeDestroy N k w)
           | rend2 # _ \<Rightarrow>
             (case ParseRendezvous2 rend2 of
                None \<Rightarrow> (Inl MalformedE, oeDestroy N k w)
              | Some (serverPK, auth) \<Rightarrow>
                (case hsNtor_Finish K state serverPK auth of
                   Inl e \<Rightarrow> (Inl (CryptoE e), oeDestroy N k w)
                 | Inr seed \<Rightarrow>
                   (case oeJoin N k (hsNtorExpandKeys K seed) w of
                      (False, w) \<Rightarrow> (Inl JoinE, oeDestroy N k w)
                    | (True, w) \<Rightarrow> (Inr k, w))))))"

definition buildOnionCircuit :: "crypto \<Rightarrow> 'w oenv \<Rightarrow> descriptor \<Rightarrow> bytes \<Rightarrow> torClient \<Rightarrow> 'w \<Rightarrow>
    (onion_err + nat) \<times> torClient \<times> 'w" where
  "buildOnionCircuit K N desc subcred c w =
     (case pickRendezvousPoint N c w of
        (Inl e, c, w) \<Rightarrow> (Inl e, c, w)
      | (Inr rpInfo, c, w) \<Rightarrow>
        (case buildCircuitVia N rpInfo c w of
           (Inl e, c, w) \<Rightarrow> (Inl e, c, w)
         | (Inr k, c, w) \<Rightarrow>
           (case oeRandom N 20 w of
              (None, w) \<Rightarrow> (Inl RandE, c, oeDestroy N k w)
            | (Some cookie, w) \<Rightarrow>
              (case oeSend N k 2 RelayEstablishRendezvous cookie w of
                 (False, w) \<Rightarrow> (Inl SendE, c, oeDestroy N k w)
               | (True, w) \<Rightarrow>
                 (case oeControl N k w of
                    (cells, w) \<Rightarrow>
                      let ctl = fold oc_handle cells newOnionControl in
                      if ocEstablished ctl = [] then (Inl TimeoutE, c, oeDestroy N k w)
                      else (case linkSpecifiers rpInfo of
                          Inl e \<Rightarrow> (Inl (SpecE e), c, oeDestroy N k w)
                        | Inr rpLinkSpecs \<Rightarrow>
                          (case introduce K N desc subcred cookie (NtorOnionKey rpInfo) rpLinkSpecs c w of
                             (Inl e, c, w) \<Rightarrow> (Inl e, c, oeDestroy N k w)
                           | (Inr state, c, w) \<Rightarrow>
                             (case finish_rendezvous K N k ctl state w of (r, w) \<Rightarrow> (r, c, w)))))))))"

definition onionRendezvousAttempts :: nat where "onionRendezvousAttempts = 3"

fun retry_loop :: "crypto \<Rightarrow> 'w oenv \<Rightarrow> descriptor \<Rightarrow> bytes \<Rightarrow> nat \<Rightarrow> onion_err option \<Rightarrow> torClient \<Rightarrow> 'w \<Rightarrow>
    (onion_err + nat) \<times> torClient \<times> 'w" where
  "retry_loop K N desc subcred 0 lastErr c w = (Inl (case lastErr of Some e \<Rightarrow> e | None \<Rightarrow> CtxE), c, w)"
| "retry_loop K N desc subcred (Suc n) lastErr c w =
     (case oeCtxDone N w of
        (True, w) \<Rightarrow> (Inl (case lastErr of Some e \<Rightarrow> e | None \<Rightarrow> CtxE), c, w)
      | (False, w) \<Rightarrow>
        (case buildOnionCircuit K N desc subcred c w of
           (Inr k, c, w) \<Rightarrow> (Inr k, c, w)
         | (Inl e, c, w) \<Rightarrow> retry_loop K N desc subcred n (Some e) c w))"

definition buildOnionCircuitWithRetry :: "crypto \<Rightarrow> 'w oenv \<Rightarrow> descriptor \<Rightarrow> bytes \<Rightarrow> torClient \<Rightarrow> 'w \<Rightarrow>
    (onion_err + nat) \<times> torClient \<times> 'w" where
  "buildOnionCircuitWithRetry K N desc subcred c w = retry_loop K N desc subcred onionRendezvousAttempts None c w"

section \<open>Shared random values and time periods\<close>

fun dedupe :: "bytes list \<Rightarrow> bytes set \<Rightarrow> bytes list" where
  "dedupe [] seen = []"
| "dedupe (s # ss) seen =
     (if length s \<noteq> 32 \<or> s \<in> seen then dedupe ss seen else s # dedupe ss (insert s seen))"

definition dedupeSRVs :: "bytes list \<Rightarrow> bytes list" where
  "dedupeSRVs srvs = dedupe srvs {}"

definition onion_attempts :: "crypto \<Rightarrow> consensus \<Rightarrow> (u64 \<times> bytes) list" where
  "onion_attempts K cons =
     (let (tpCur, plen) = TimePeriod (ValidAfter cons);
          srvFor = SRVForFetch (ValidAfter cons) (SharedRandCurrent cons) (SharedRandPrevious cons);
          consensusSRVs = dedupeSRVs [srvFor, SharedRandCurrent cons, SharedRandPrevious cons]
      in concat (map (\<lambda>tp. map (Pair tp) (if consensusSRVs = [] then [DisasterSRV K tp plen] else consensusSRVs))
           [tpCur, tpCur - 1]))"

section \<open>The ring of directories\<close>

definition hsdir_candidates :: "consensus \<Rightarrow> routerStatus list" where
  "hsdir_candidates cons = filter (\<lambda>r. HasFlag r ''HSDir'' \<and> HasFlag r ''Running'' \<and> HasFlag r ''Valid'' \<and>
     rsMicrodescHash r \<noteq> '''') (Routers cons)"

definition ring_of :: "(string \<rightharpoonup> microdescriptor) \<Rightarrow> routerStatus list \<Rightarrow> (routerStatus \<times> microdescriptor) list" where
  "ring_of mds rs = concat (map (\<lambda>r. case mds (rsMicrodescHash r) of
     Some md \<Rightarrow> if length (mdEd25519ID md) = 32 then [(r, md)] else [] | None \<Rightarrow> []) rs)"

definition hsDirRing :: "'w oenv \<Rightarrow> torClient \<Rightarrow> 'w \<Rightarrow> (onion_err + (routerStatus \<times> microdescriptor) list) \<times> torClient \<times> 'w" where
  "hsDirRing N c w =
     (case tcRing c of
        Some ring \<Rightarrow> (Inr ring, c, w)
      | None \<Rightarrow>
        let cands = hsdir_candidates (tcSel c) in
        (case ceFetch (oeC N) (map rsMicrodescHash cands) w of
           (None, w) \<Rightarrow> (Inl RingFetchE, c, w)
         | (Some mds, w) \<Rightarrow>
           let ring = ring_of mds cands in
           if ring = [] then (Inl NoHSDirsE, c, w) else (Inr ring, c\<lparr>tcRing := Some ring\<rparr>, w)))"

definition ring_node :: "routerStatus \<times> microdescriptor \<Rightarrow> (routerStatus \<times> microdescriptor) ringNode" where
  "ring_node n = \<lparr>rnEdID = mdEd25519ID (snd n), rnNode = n\<rparr>"

section \<open>The descriptor\<close>

definition dir_request :: "string \<Rightarrow> string" where
  "dir_request path = ''GET '' @ path @ '' HTTP/1.0'' @ [CHR 0x0D, CHR 0x0A] @ ''Host: tor'' @ [CHR 0x0D, CHR 0x0A] @
     ''Accept-Encoding: gzip, deflate, identity'' @ [CHR 0x0D, CHR 0x0A, CHR 0x0D, CHR 0x0A]"

text \<open>\<^verbatim>\<open>io.ReadAll\<close> behind a limit of eight mebibytes: a longer body is cut off without an error; a body that
  could not be read to its end (\<open>None\<close>) is one.\<close>

definition dirGet :: "'w oenv \<Rightarrow> nat \<Rightarrow> string \<Rightarrow> 'w \<Rightarrow> (onion_err + string) \<times> 'w" where
  "dirGet N k path w =
     (case oeBeginDir N k w of
        (None, w) \<Rightarrow> (Inl BeginDirE, w)
      | (Some s, w) \<Rightarrow>
        (case oeWrite N s (bytes_of (dir_request path)) w of
           (False, w) \<Rightarrow> (Inl SendE, oeCloseStream N s w)
         | (True, w) \<Rightarrow>
           (case oeResponse N s w of
              (None, w) \<Rightarrow> (Inl ResponseE, oeCloseStream N s w)
            | (Some (status, encoding, body), w) \<Rightarrow>
              if status \<noteq> 200 then (Inl (HttpE status), oeCloseStream N s w)
              else (case body of
                  None \<Rightarrow> (Inl ResponseE, oeCloseStream N s w)
                | Some b \<Rightarrow>
                  (case oeDecompress N encoding (take 8388608 b) of
                     None \<Rightarrow> (Inl ResponseE, oeCloseStream N s w)
                   | Some d \<Rightarrow> (Inr d, oeCloseStream N s w))))))"

definition fetch_from :: "crypto \<Rightarrow> 'w oenv \<Rightarrow> bytes \<Rightarrow> bytes \<Rightarrow> bytes \<Rightarrow> string \<Rightarrow> relayInfo \<Rightarrow> torClient \<Rightarrow> 'w \<Rightarrow>
    (onion_err + descriptor) \<times> torClient \<times> 'w" where
  "fetch_from K N blinded subcred clientAuthKey path info c w =
     (case buildCircuitVia N info c w of
        (Inl e, c, w) \<Rightarrow> (Inl e, c, w)
      | (Inr k, c, w) \<Rightarrow>
        (case dirGet N k path w of
           (Inl e, w) \<Rightarrow> (Inl e, c, oeDestroy N k w)
         | (Inr raw, w) \<Rightarrow>
           (case ceNow (oeC N) (oeDestroy N k w) of
              (now, w) \<Rightarrow>
                (case DecodeDescriptor K raw blinded subcred clientAuthKey now of
                   Inl e \<Rightarrow> (Inl (DescE e), c, w)
                 | Inr desc \<Rightarrow> (Inr desc, c, w)))))"

fun fetch_loop :: "crypto \<Rightarrow> 'w oenv \<Rightarrow> bytes \<Rightarrow> bytes \<Rightarrow> bytes \<Rightarrow> string \<Rightarrow> (routerStatus \<times> microdescriptor) list \<Rightarrow>
    onion_err \<Rightarrow> torClient \<Rightarrow> 'w \<Rightarrow> (onion_err + descriptor) \<times> torClient \<times> 'w" where
  "fetch_loop K N blinded subcred ck path [] lastErr c w = (Inl lastErr, c, w)"
| "fetch_loop K N blinded subcred ck path ((rs, md) # dirs) lastErr c w =
     (case fetch_from K N blinded subcred ck path (toRelayInfo rs md) c w of
        (Inr desc, c, w) \<Rightarrow> (Inr desc, c, w)
      | (Inl e, c, w) \<Rightarrow> fetch_loop K N blinded subcred ck path dirs e c w)"

definition fetchDescriptor :: "crypto \<Rightarrow> 'w oenv \<Rightarrow> (routerStatus \<times> microdescriptor) list \<Rightarrow> bytes \<Rightarrow> bytes \<Rightarrow> bytes \<Rightarrow>
    torClient \<Rightarrow> 'w \<Rightarrow> (onion_err + descriptor) \<times> torClient \<times> 'w" where
  "fetchDescriptor K N dirs blinded subcred clientAuthKey c w =
     fetch_loop K N blinded subcred clientAuthKey (''/tor/hs/3/'' @ b64_raw blinded) dirs NoHSDirServedE c w"

section \<open>Dialling\<close>

text \<open>The loop of \<^verbatim>\<open>dialOnion\<close> over its attempts: the descriptor and its subcredential.\<close>

fun find_descriptor :: "crypto \<Rightarrow> 'w oenv \<Rightarrow>
    ((bytes \<times> (routerStatus \<times> microdescriptor) ringNode) list \<Rightarrow> (bytes \<times> (routerStatus \<times> microdescriptor) ringNode) list) \<Rightarrow>
    bytes \<Rightarrow> bytes \<Rightarrow> u64 \<Rightarrow> (routerStatus \<times> microdescriptor) list \<Rightarrow> (u64 \<times> bytes) list \<Rightarrow> onion_err option \<Rightarrow>
    torClient \<Rightarrow> 'w \<Rightarrow> (onion_err + descriptor \<times> bytes) \<times> torClient \<times> 'w" where
  "find_descriptor K N srt pub ck plen ring [] lastErr c w =
     (Inl (case lastErr of Some e \<Rightarrow> e | None \<Rightarrow> NoDescriptorE), c, w)"
| "find_descriptor K N srt pub ck plen ring ((tp, srv) # as) lastErr c w =
     (case blindPublicKey K pub tp plen of
        Inl e \<Rightarrow> find_descriptor K N srt pub ck plen ring as (Some (CryptoE e)) c w
      | Inr blinded \<Rightarrow>
        let subcred = Subcredential K pub blinded;
            responsible = ResponsibleHSDirs K srt blinded tp plen srv (map ring_node ring)
        in if responsible = [] then find_descriptor K N srt pub ck plen ring as lastErr c w
           else (case fetchDescriptor K N (map rnNode responsible) blinded subcred ck c w of
               (Inl e, c, w) \<Rightarrow> find_descriptor K N srt pub ck plen ring as (Some e) c w
             | (Inr desc, c, w) \<Rightarrow> (Inr (desc, subcred), c, w)))"

text \<open>\<^verbatim>\<open>dialOnion\<close> when no pooled circuit was found, up to the circuit that \<^verbatim>\<open>dialOnionViaDescriptor\<close> pools.\<close>

definition onion_circuit :: "crypto \<Rightarrow> 'w oenv \<Rightarrow>
    ((bytes \<times> (routerStatus \<times> microdescriptor) ringNode) list \<Rightarrow> (bytes \<times> (routerStatus \<times> microdescriptor) ringNode) list) \<Rightarrow>
    string \<Rightarrow> torClient \<Rightarrow> 'w \<Rightarrow> (onion_err + nat) \<times> torClient \<times> 'w" where
  "onion_circuit K N srt host c w =
     (case ParseAddress K host of
        Inl e \<Rightarrow> (Inl (AddrE e), c, w)
      | Inr pub \<Rightarrow>
        let cons = tcSel c; plen = snd (TimePeriod (ValidAfter cons));
            ck = (case onionAuthKey c host of None \<Rightarrow> [] | Some k \<Rightarrow> k)
        in (case hsDirRing N c w of
              (Inl e, c, w) \<Rightarrow> (Inl e, c, w)
            | (Inr ring, c, w) \<Rightarrow>
              (case find_descriptor K N srt pub ck plen ring (onion_attempts K cons) None c w of
                 (Inl e, c, w) \<Rightarrow> (Inl e, c, w)
               | (Inr (desc, subcred), c, w) \<Rightarrow> buildOnionCircuitWithRetry K N desc subcred c w)))"

text \<open>The pool and the circuits it holds: a scan sees which of them have ended, and giving back the last
  stream slot of a retired or expired circuit destroys it (\<^verbatim>\<open>releaseStream\<close>).\<close>

definition see_closed :: "'w oenv \<Rightarrow> nat \<Rightarrow> pool \<times> 'w \<Rightarrow> pool \<times> 'w" where
  "see_closed N a = (\<lambda>(p, w).
     case oeClosed N (pcCirc (heap p a)) w of
       (True, w) \<Rightarrow> (upd a (\<lambda>pc. pc\<lparr>pcClosed := True\<rparr>) p, w)
     | (False, w) \<Rightarrow> (p, w))"

definition observe_pool :: "'w oenv \<Rightarrow> pool \<Rightarrow> 'w \<Rightarrow> pool \<times> 'w" where
  "observe_pool N p w = fold (see_closed N) (allPooledLocked p) (p, w)"

definition release_slot :: "'w oenv \<Rightarrow> nat \<Rightarrow> pool \<Rightarrow> 'w \<Rightarrow> pool \<times> 'w" where
  "release_slot N a p w =
     (case ceNow (oeC N) w of
        (later, w) \<Rightarrow>
        let q = releaseStream later a p in
        (q, if pcStreams (heap q a) = 0 \<and> (pcRetired (heap q a) \<or> expiredLocked later a q)
            then oeDestroy N (pcCirc (heap q a)) w else w))"

definition begin_pooled :: "'w oenv \<Rightarrow> string \<Rightarrow> nat \<Rightarrow> pool \<Rightarrow> 'w \<Rightarrow> (onion_err + nat) \<times> pool \<times> 'w" where
  "begin_pooled N addr a p w =
     (case oeBegin N (pcCirc (heap p a)) addr w of
        (True, w) \<Rightarrow> (Inr a, p, w)
      | (False, w) \<Rightarrow> (case release_slot N a p w of (p, w) \<Rightarrow> (Inl BeginE, p, w)))"

definition dialOnion :: "crypto \<Rightarrow> 'w oenv \<Rightarrow>
    ((bytes \<times> (routerStatus \<times> microdescriptor) ringNode) list \<Rightarrow> (bytes \<times> (routerStatus \<times> microdescriptor) ringNode) list) \<Rightarrow>
    string \<Rightarrow> int \<Rightarrow> torClient \<Rightarrow> pool \<Rightarrow> 'w \<Rightarrow> (onion_err + nat) \<times> torClient \<times> pool \<times> 'w" where
  "dialOnion K N srt host port c p w =
     (case observe_pool N p w of (p, w) \<Rightarrow>
      case ceNow (oeC N) w of (now, w) \<Rightarrow>
        (case acquireOnion now host p of
           (Some a, p) \<Rightarrow> (case begin_pooled N ('':'' @ Itoa port) a p w of (r, p, w) \<Rightarrow> (r, c, p, w))
         | (None, p) \<Rightarrow>
           (case onion_circuit K N srt host c w of
              (Inl e, c, w) \<Rightarrow> (Inl e, c, p, w)
            | (Inr k, c, w) \<Rightarrow>
              (case ceNow (oeC N) w of (born, w) \<Rightarrow>
               case oeClosed N k w of (closed, w) \<Rightarrow>
               case poolNewOnion born k host closed p of (a, p) \<Rightarrow>
               case begin_pooled N ('':'' @ Itoa port) a p w of (r, p, w) \<Rightarrow> (r, c, p, w)))))"

section \<open>Circuits are accounted for\<close>

text \<open>The contract of the circuits: a new one was not live and is; destroying ends it; nothing else makes
  or ends one (the shared directory circuit is not counted).\<close>

locale circuit_net =
  fixes N :: "'w oenv" and live :: "'w \<Rightarrow> nat set"
  assumes new_live: "oeNew N ch w = (r, w') \<Longrightarrow>
      (case r of None \<Rightarrow> live w' = live w | Some k \<Rightarrow> k \<notin> live w \<and> live w' = insert k (live w))"
    and destroy_live: "live (oeDestroy N k w) = live w - {k}"
    and rand_live: "live (snd (ceRand (oeC N) w)) = live w"
    and fetch_live: "live (snd (ceFetch (oeC N) hs w)) = live w"
    and now_live: "live (snd (ceNow (oeC N) w)) = live w"
    and build_live: "live (snd (oeBuild N k path w)) = live w"
    and send_live: "live (snd (oeSend N k hop cm d w)) = live w"
    and control_live: "live (snd (oeControl N k w)) = live w"
    and join_live: "live (snd (oeJoin N k ks w)) = live w"
    and begin_live: "live (snd (oeBeginDir N k w)) = live w"
    and write_live: "live (snd (oeWrite N s b w)) = live w"
    and response_live: "live (snd (oeResponse N s w)) = live w"
    and close_live: "live (oeCloseStream N s w) = live w"
    and random_live: "live (snd (oeRandom N n w)) = live w"
    and ephemeral_live: "live (snd (oeEphemeral N w)) = live w"
    and ctx_live: "live (snd (oeCtxDone N w)) = live w"
begin

lemmas env_live = rand_live fetch_live now_live build_live send_live control_live join_live begin_live write_live
  response_live close_live random_live ephemeral_live ctx_live

lemma live_snd: "f = (r, w') \<Longrightarrow> live (snd f) = live w \<Longrightarrow> live w' = live w"
  by simp

lemma microdesc_live: "microdesc (oeC N) rs c w = (r, c', w') \<Longrightarrow> live w' = live w"
  using fetch_live [of "[rsMicrodescHash rs]" w]
  by (auto simp: microdescVia_def Let_def split: option.splits prod.splits if_splits)

lemma selected_live: "selected_via (microdesc (oeC N)) rs c w = (r, c', w') \<Longrightarrow> live w' = live w"
  by (auto simp: selected_via_def dest: microdesc_live split: option.splits prod.splits sum.splits)

lemma with_rand_live: "with_rand (oeC N) sel ex w = (r, w') \<Longrightarrow> live w' = live w"
  using rand_live [of w] by (auto simp: with_rand_def Let_def split: prod.splits)

lemma pick_live:
  "pick_attempts cons (with_rand (oeC N) sel) chosen mdOK (microdesc (oeC N)) n e ex c w = (r, c', w') \<Longrightarrow> live w' = live w"
proof (induction n arbitrary: e ex c w)
  case (Suc n)
  obtain s w1 where s: "with_rand (oeC N) sel ex w = (s, w1)" by fastforce
  show ?case
  proof (cases s)
    case (Inr i)
    obtain m c1 w2 where m: "microdesc (oeC N) (Routers cons ! i) c w1 = (m, c1, w2)" by (metis surj_pair)
    have "live w2 = live w" using with_rand_live [OF s] microdesc_live [OF m] by simp
    then show ?thesis
      using Suc.prems s Inr m Suc.IH by (cases m) (auto simp: Let_def split: if_splits)
  qed (use Suc.prems s with_rand_live [OF s] in auto)
qed auto

lemmas env_pair = live_snd [OF _ send_live] live_snd [OF _ control_live] live_snd [OF _ build_live]
  live_snd [OF _ join_live] live_snd [OF _ begin_live] live_snd [OF _ write_live] live_snd [OF _ response_live]
  live_snd [OF _ random_live] live_snd [OF _ ephemeral_live] live_snd [OF _ ctx_live] live_snd [OF _ now_live]
  live_snd [OF _ fetch_live]

lemma via_middle_live:
  assumes "via_middle (oeC N) third c w = (r, c', w')"
  shows "live w' = live w"
proof (cases "tcGuardChan c = None")
  case False
  obtain g c1 w1 where g: "selected_via (microdesc (oeC N)) (findRouterByIdentity c (RSAIDDigest (tcGuardInfo c))) c w = (g, c1, w1)"
    by (metis surj_pair)
  define chosen where "chosen = (case g of Inr gs \<Rightarrow> [gs] | Inl e \<Rightarrow> [])"
  define x where "x = (case findRouterByIdentity c1 (RSAIDDigest third) of
                None \<Rightarrow> (chosen, c1, w1)
              | Some thirdRS \<Rightarrow>
                (case microdesc (oeC N) thirdRS c1 w1 of
                   (Inr md, c, w) \<Rightarrow> (chosen @ [\<lparr>selRS = thirdRS, selMD = md\<rparr>], c, w)
                 | (Inl e, c, w) \<Rightarrow> (chosen, c, w)))"
  obtain ch c2 w2 where x2: "x = (ch, c2, w2)" by (metis surj_pair)
  have l2: "live w2 = live w1"
    using x2 by (auto simp: x_def split: option.splits prod.splits sum.splits dest: microdesc_live)
  obtain m c3 w3 where m: "pickRelayVia (tcSel c2) (with_rand (oeC N) (SelectMiddle (tcSel c2))) ch (\<lambda>md. True) (microdesc (oeC N)) c2 w2 = (m, c3, w3)"
    by (metis surj_pair)
  have "w' = w3"
    using assms False g m x2 [unfolded x_def chosen_def] by (cases m) (auto simp: via_middle_def Let_def)
  then show ?thesis using selected_live [OF g] l2 pick_live [OF m [unfolded pickRelayVia_def]] by simp
qed (use assms in \<open>auto simp: via_middle_def\<close>)

text \<open>How an operation changes the live circuits: not at all, or by the one it returns.\<close>

definition accounted :: "'w \<Rightarrow> (onion_err + nat) \<Rightarrow> 'w \<Rightarrow> bool" where
  "accounted w r w' \<longleftrightarrow> (case r of Inl _ \<Rightarrow> live w' = live w | Inr k \<Rightarrow> k \<notin> live w \<and> live w' = insert k (live w))"

lemma buildCircuitVia_live:
  assumes "buildCircuitVia N third c w = (r, c', w')"
  shows "accounted w r w'"
proof -
  obtain p c1 w1 where p: "via_middle (oeC N) third c w = (p, c1, w1)" by (metis surj_pair)
  have l1: "live w1 = live w" using via_middle_live [OF p] .
  show ?thesis
  proof (cases p)
    case (Inr path)
    obtain k w2 where k: "oeNew N (the (tcGuardChan c)) w1 = (k, w2)" by fastforce
    note kk = new_live [OF k]
    show ?thesis
    proof (cases k)
      case (Some a)
      obtain b w3 where b: "oeBuild N a path w2 = (b, w3)" by fastforce
      have "live w3 = live w2" using env_pair(3) [OF b] .
      then show ?thesis
        using assms p Inr k Some b kk l1 by (cases b) (auto simp: buildCircuitVia_def accounted_def destroy_live)
    qed (use assms p Inr k kk l1 in \<open>auto simp: buildCircuitVia_def accounted_def\<close>)
  qed (use assms p l1 in \<open>auto simp: buildCircuitVia_def accounted_def\<close>)
qed

lemma pickRendezvousPoint_live: "pickRendezvousPoint N c w = (r, c', w') \<Longrightarrow> live w' = live w"
  by (auto simp: pickRendezvousPoint_def relay_info_def dest!: with_rand_live microdesc_live split: prod.splits sum.splits)

lemma introduce_one_live:
  assumes "introduce_one K N subcred cookie rk rs ip c w = (r, c', w')"
  shows "live w' = live w"
proof (cases "ParseLinkSpecifiers (ipLinkSpecifiers ip)")
  case (Inr ls)
  note spec = Inr
  show ?thesis
  proof (cases "length (lsEdID ls) = 32")
    case True
    obtain k c1 w1 where k: "buildCircuitVia N (intro_info ls ip) c w = (k, c1, w1)" by (metis surj_pair)
    note acc = buildCircuitVia_live [OF k]
    show ?thesis
    proof (cases k)
      case (Inl e)
      then show ?thesis using assms spec True k acc by (auto simp: introduce_one_def accounted_def)
    next
      case (Inr a)
      then have l1: "a \<notin> live w" "live w1 = insert a (live w)" using acc by (auto simp: accounted_def)
      have "\<exists>w2. w' = oeDestroy N a w2 \<and> live w2 = live w1"
        using assms spec True k Inr
        by (auto simp: introduce_one_def split: prod.splits option.splits sum.splits bool.splits list.splits if_splits
            dest!: env_pair)
      then show ?thesis using l1 by (auto simp: destroy_live)
    qed
  qed (use assms spec in \<open>auto simp: introduce_one_def\<close>)
qed (use assms in \<open>auto simp: introduce_one_def\<close>)

lemma introduce_loop_live:
  "introduce_loop K N subcred cookie rk rs ips e c w = (r, c', w') \<Longrightarrow> live w' = live w"
proof (induction ips arbitrary: e c w)
  case (Cons ip ips)
  obtain x c1 w1 where x: "introduce_one K N subcred cookie rk rs ip c w = (x, c1, w1)" by (metis surj_pair)
  then show ?case using Cons introduce_one_live [OF x] by (cases x) auto
qed simp

lemma finish_rendezvous_live:
  assumes "finish_rendezvous K N k ctl st w = (r, w')"
  shows "(case r of Inl _ \<Rightarrow> live w' = live w - {k} | Inr a \<Rightarrow> a = k \<and> live w' = live w)"
proof -
  obtain cells w1 where cells: "oeControl N k w = (cells, w1)" by fastforce
  note l1 = env_pair(2) [OF cells]
  consider (fail) e where "r = Inl e" "w' = oeDestroy N k w1"
    | (join) seed b w2 where "oeJoin N k (hsNtorExpandKeys K seed) w1 = (b, w2)"
        "(r, w') = (if b then (Inr k, w2) else (Inl JoinE, oeDestroy N k w2))"
    using assms cells
    by (auto simp: finish_rendezvous_def split: list.splits option.splits sum.splits prod.splits bool.splits)
  then show ?thesis
  proof cases
    case fail
    then show ?thesis using l1 by (simp add: destroy_live)
  next
    case join
    then show ?thesis using l1 env_pair(4) [OF join(1)] by (cases b) (auto simp: destroy_live)
  qed
qed

lemma buildOnionCircuit_live:
  assumes "buildOnionCircuit K N desc subcred c w = (r, c', w')"
  shows "accounted w r w'"
proof -
  obtain rp c1 w1 where rp: "pickRendezvousPoint N c w = (rp, c1, w1)" by (metis surj_pair)
  have l1: "live w1 = live w" using pickRendezvousPoint_live [OF rp] .
  show ?thesis
  proof (cases rp)
    case (Inl e)
    then show ?thesis using assms rp l1 by (auto simp: buildOnionCircuit_def accounted_def)
  next
    case (Inr info)
    note rpI = Inr
    obtain k c2 w2 where k: "buildCircuitVia N info c1 w1 = (k, c2, w2)" by (metis surj_pair)
    note acc = buildCircuitVia_live [OF k]
    show ?thesis
    proof (cases k)
      case (Inl e)
      then show ?thesis using assms rp rpI k l1 acc by (auto simp: buildOnionCircuit_def accounted_def)
    next
      case (Inr a)
      then have l2: "a \<notin> live w" "live w2 = insert a (live w)" using acc l1 by (auto simp: accounted_def)
      have "(\<exists>w3. w' = oeDestroy N a w3 \<and> live w3 = live w2 \<and> (\<exists>e. r = Inl e)) \<or>
        (\<exists>ctl st w3. finish_rendezvous K N a ctl st w3 = (r, w') \<and> live w3 = live w2)"
        using assms rp rpI k Inr
        by (auto simp: buildOnionCircuit_def introduce_def Let_def split: prod.splits option.splits sum.splits bool.splits if_splits
            dest!: env_pair introduce_loop_live)
      then show ?thesis
        using l2 finish_rendezvous_live by (fastforce simp: accounted_def destroy_live split: sum.splits)
    qed
  qed
qed

lemma retry_loop_live: "retry_loop K N desc subcred n e c w = (r, c', w') \<Longrightarrow> accounted w r w'"
proof (induction n arbitrary: e c w)
  case 0
  then show ?case by (auto simp: accounted_def)
next
  case (Suc n)
  obtain d w1 where d: "oeCtxDone N w = (d, w1)" by fastforce
  have l1: "live w1 = live w" using env_pair(10) [OF d] .
  obtain x c2 w2 where x: "buildOnionCircuit K N desc subcred c w1 = (x, c2, w2)" by (metis surj_pair)
  note acc = buildOnionCircuit_live [OF x]
  show ?case
  proof (cases d)
    case True
    then show ?thesis using Suc.prems d l1 by (auto simp: accounted_def)
  next
    case False
    show ?thesis
    proof (cases x)
      case (Inl e')
      then have "live w2 = live w" using acc l1 by (simp add: accounted_def)
      moreover have "accounted w2 r w'" using Suc.IH [of "Some e'" c2 w2] Suc.prems d x False Inl by simp
      ultimately show ?thesis by (cases r) (simp_all add: accounted_def)
    next
      case (Inr k)
      then have "r = Inr k" "w' = w2" using Suc.prems d x False by auto
      then show ?thesis using acc l1 Inr by (simp add: accounted_def)
    qed
  qed
qed

lemma fetch_from_live:
  assumes "fetch_from K N blinded subcred ck path info c w = (r, c', w')"
  shows "live w' = live w"
proof -
  obtain k c1 w1 where k: "buildCircuitVia N info c w = (k, c1, w1)" by (metis surj_pair)
  note acc = buildCircuitVia_live [OF k]
  show ?thesis
  proof (cases k)
    case (Inl e)
    then show ?thesis using assms k acc by (auto simp: fetch_from_def accounted_def)
  next
    case (Inr a)
    obtain x w2 where g: "dirGet N a path w1 = (x, w2)" by fastforce
    have l2: "live w2 = live w1"
      using g by (auto simp: dirGet_def close_live split: prod.splits option.splits bool.splits if_splits dest!: env_pair)
    show ?thesis
      using assms k acc Inr g l2
      by (cases x) (auto simp: fetch_from_def accounted_def destroy_live split: prod.splits sum.splits dest!: env_pair)
  qed
qed

lemma fetch_loop_live:
  "fetch_loop K N blinded subcred ck path dirs e c w = (r, c', w') \<Longrightarrow> live w' = live w"
proof (induction dirs arbitrary: e c w)
  case (Cons d dirs)
  obtain rs md where d: "d = (rs, md)" by fastforce
  obtain x c1 w1 where x: "fetch_from K N blinded subcred ck path (toRelayInfo rs md) c w = (x, c1, w1)" by (metis surj_pair)
  then show ?case using Cons d fetch_from_live [OF x] by (cases x) auto
qed simp

lemma find_descriptor_live:
  "find_descriptor K N srt pub ck plen ring as e c w = (r, c', w') \<Longrightarrow> live w' = live w"
proof (induction as arbitrary: e c w)
  case (Cons a as)
  obtain tp srv where a: "a = (tp, srv)" by fastforce
  show ?case
  proof (cases "blindPublicKey K pub tp plen")
    case (Inl x)
    then show ?thesis using Cons a by auto
  next
    case (Inr b)
    let ?resp = "ResponsibleHSDirs K srt b tp plen srv (map ring_node ring)"
    obtain x c1 w1 where x: "fetchDescriptor K N (map rnNode ?resp) b (Subcredential K pub b) ck c w = (x, c1, w1)"
      by (metis surj_pair)
    have "live w1 = live w" using fetch_loop_live [OF x [unfolded fetchDescriptor_def]] .
    then show ?thesis using Cons a Inr x by (cases x) (auto simp: Let_def split: if_splits)
  qed
qed simp

lemma hsDirRing_live: "hsDirRing N c w = (r, c', w') \<Longrightarrow> live w' = live w"
  by (auto simp: hsDirRing_def Let_def split: option.splits prod.splits if_splits dest!: env_pair)

lemma onion_circuit_live:
  assumes "onion_circuit K N srt host c w = (r, c', w')"
  shows "accounted w r w'"
proof (cases "ParseAddress K host")
  case (Inl e)
  then show ?thesis using assms by (auto simp: onion_circuit_def accounted_def)
next
  case (Inr pub)
  note addr = Inr
  let ?ck = "case onionAuthKey c host of None \<Rightarrow> [] | Some k \<Rightarrow> k"
  let ?plen = "snd (TimePeriod (ValidAfter (tcSel c)))"
  obtain x c1 w1 where x: "hsDirRing N c w = (x, c1, w1)" by (metis surj_pair)
  note l1 = hsDirRing_live [OF x]
  show ?thesis
  proof (cases x)
    case (Inl e)
    then show ?thesis using assms addr x l1 by (auto simp: onion_circuit_def accounted_def Let_def)
  next
    case (Inr ring)
    obtain y c2 w2 where y: "find_descriptor K N srt pub ?ck ?plen ring (onion_attempts K (tcSel c)) None c1 w1 = (y, c2, w2)"
      by (metis surj_pair)
    note l2 = find_descriptor_live [OF y]
    show ?thesis
    proof (cases y)
      case (Inl e)
      then show ?thesis using assms addr x \<open>x = Inr ring\<close> y l1 l2 by (auto simp: onion_circuit_def accounted_def Let_def)
    next
      case (Inr d)
      obtain desc subcred where d: "d = (desc, subcred)" by fastforce
      have "buildOnionCircuitWithRetry K N desc subcred c2 w2 = (r, c', w')"
        using assms addr x \<open>x = Inr ring\<close> y Inr d by (auto simp: onion_circuit_def Let_def)
      from retry_loop_live [OF this [unfolded buildOnionCircuitWithRetry_def]] show ?thesis
        using l1 l2 by (cases r) (simp_all add: accounted_def)
    qed
  qed
qed

end

section \<open>Circuits on a channel\<close>

text \<open>The circuits of the client are those of its guard channel: \<^verbatim>\<open>circuit.New\<close> allocates an identifier there
  and \<^verbatim>\<open>Destroy\<close> frees it; everything else leaves the channel's table alone.\<close>

definition beside :: "('r \<Rightarrow> 'a \<times> 'r) \<Rightarrow> channel \<times> 'r \<Rightarrow> 'a \<times> channel \<times> 'r" where
  "beside f w = (case f (snd w) of (x, r) \<Rightarrow> (x, fst w, r))"

definition chan_cenv :: "'r cenv \<Rightarrow> (channel \<times> 'r) cenv" where
  "chan_cenv B = \<lparr>ceRand = beside (ceRand B), ceFetch = (\<lambda>hs. beside (ceFetch B hs)),
     ceFetchDirect = (\<lambda>hs. beside (ceFetchDirect B hs)), ceDial = (\<lambda>a e. beside (ceDial B a e)),
     ceRead = (\<lambda>p. beside (ceRead B p)), ceWrite = (\<lambda>p d w. (fst w, ceWrite B p d (snd w))),
     ceNow = beside (ceNow B), ceRefresh = beside (ceRefresh B)\<rparr>"

definition chan_new :: "('r \<Rightarrow> u32 list \<times> 'r) \<Rightarrow> channel \<times> 'r \<Rightarrow> nat option \<times> channel \<times> 'r" where
  "chan_new rnd w =
     (case rnd (snd w) of (ns, r) \<Rightarrow>
        (case AllocCircuit ns (fst w) of
           (Some (Inr (i, e)), ch) \<Rightarrow> (Some (unat i), ch, r)
         | (_, ch) \<Rightarrow> (None, ch, r)))"

definition chan_destroy :: "nat \<Rightarrow> channel \<times> 'r \<Rightarrow> channel \<times> 'r" where
  "chan_destroy k w = (if k < 2 ^ 32 then FreeCircuit (of_nat k) (fst w) else fst w, snd w)"

definition chan_env :: "('r \<Rightarrow> u32 list \<times> 'r) \<Rightarrow> 'r oenv \<Rightarrow> (channel \<times> 'r) oenv" where
  "chan_env rnd B = \<lparr>oeC = chan_cenv (oeC B), oeNew = (\<lambda>g. chan_new rnd), oeBuild = (\<lambda>k p. beside (oeBuild B k p)),
     oeDestroy = chan_destroy, oeSend = (\<lambda>k h cm d. beside (oeSend B k h cm d)), oeControl = (\<lambda>k. beside (oeControl B k)),
     oeJoin = (\<lambda>k ks. beside (oeJoin B k ks)), oeBeginDir = (\<lambda>k. beside (oeBeginDir B k)),
     oeWrite = (\<lambda>s b. beside (oeWrite B s b)), oeResponse = (\<lambda>s. beside (oeResponse B s)),
     oeCloseStream = (\<lambda>s w. (fst w, oeCloseStream B s (snd w))), oeDecompress = oeDecompress B,
     oeRandom = (\<lambda>n. beside (oeRandom B n)), oeEphemeral = beside (oeEphemeral B), oeCtxDone = beside (oeCtxDone B),
     oeClosed = (\<lambda>k. beside (oeClosed B k)), oeBegin = (\<lambda>k a. beside (oeBegin B k a))\<rparr>"

definition chan_live :: "channel \<times> 'r \<Rightarrow> nat set" where
  "chan_live w = (\<lambda>e. unat (fst e)) ` set (chCircuits (fst w))"

lemma chan_live_beside [simp]: "chan_live (snd (beside f w)) = chan_live w"
  by (simp add: beside_def chan_live_def split: prod.split)

lemma FreeCircuit_table: "chCircuits (FreeCircuit i ch) = filter (\<lambda>p. fst p \<noteq> i) (chCircuits ch)"
proof (cases "map_of (chCircuits ch) i")
  case None
  then have "filter (\<lambda>p. fst p \<noteq> i) (chCircuits ch) = chCircuits ch"
    by (auto simp: filter_id_conv map_of_eq_None_iff)
  then show ?thesis using None by (simp add: FreeCircuit_def)
next
  case (Some e)
  then show ?thesis by (simp add: FreeCircuit_def close_entry_def)
qed

lemma chan_live_destroy: "chan_live (chan_destroy k w) = chan_live w - {k}"
proof (cases "k < 2 ^ 32")
  case True
  then have "unat (i :: u32) = k \<longleftrightarrow> i = of_nat k" for i
    by (auto simp: word_unat_eq_iff unat_of_nat)
  with True show ?thesis by (auto simp: chan_live_def chan_destroy_def FreeCircuit_table)
next
  case False
  have "unat (i :: u32) < 2 ^ 32" for i using unsigned_less [of i] by simp
  then have "k \<notin> chan_live w" using False by (auto simp: chan_live_def)
  then show ?thesis using False by (simp add: chan_destroy_def chan_live_def)
qed

lemma chan_live_new:
  assumes "chan_new rnd w = (r, w')"
  shows "(case r of None \<Rightarrow> chan_live w' = chan_live w | Some k \<Rightarrow> k \<notin> chan_live w \<and> chan_live w' = insert k (chan_live w))"
proof -
  obtain ns r' where ns: "rnd (snd w) = (ns, r')" by fastforce
  obtain x ch' where x: "AllocCircuit ns (fst w) = (x, ch')" by fastforce
  show ?thesis
  proof (cases "\<exists>i e. x = Some (Inr (i, e))")
    case True
    then obtain i e where i: "x = Some (Inr (i, e))" by blast
    from AllocCircuit_fresh [OF x [unfolded i]]
    have "i \<notin> fst ` set (chCircuits (fst w))" "fst ` set (chCircuits ch') = insert i (fst ` set (chCircuits (fst w)))"
      by auto
    then have "unat i \<notin> chan_live w" "chan_live (ch', r') = insert (unat i) (chan_live w)"
      by (auto simp: chan_live_def image_image [symmetric, of unat fst] word_unat_eq_iff [symmetric] image_iff)
    then show ?thesis using assms ns x i by (auto simp: chan_new_def)
  next
    case False
    then have "ch' = fst w" using AllocCircuit_other [OF x] by blast
    then show ?thesis using assms ns x False by (auto simp: chan_new_def chan_live_def split: option.splits sum.splits)
  qed
qed

interpretation on_channel: circuit_net "chan_env rnd B" chan_live
proof
  show "case r of None \<Rightarrow> chan_live w' = chan_live w | Some k \<Rightarrow> k \<notin> chan_live w \<and> chan_live w' = insert k (chan_live w)"
    if "oeNew (chan_env rnd B) ch w = (r, w')" for ch w r w'
    using that by (intro chan_live_new) (simp add: chan_env_def)
qed (simp_all add: chan_env_def chan_cenv_def chan_live_destroy, simp add: chan_live_def)

section \<open>Who is at the other end\<close>

text \<open>The last hop of the circuit was keyed by an hs-ntor handshake with the keys of this introduction point.\<close>

definition joined_by :: "crypto \<Rightarrow> 'w oenv \<Rightarrow> introPoint \<Rightarrow> bytes \<Rightarrow> nat \<Rightarrow> 'w \<Rightarrow> bool" where
  "joined_by K N ip subcred k w' \<longleftrightarrow>
     (\<exists>eph encKey macKey clientX state serverPK auth seed w1.
        hsNtorIntroWith K (ipEncKey ip) (ipAuthKey ip) subcred eph = Inr (encKey, macKey, clientX, state) \<and>
        hsNtor_Finish K state serverPK auth = Inr seed \<and> oeJoin N k (hsNtorExpandKeys K seed) w1 = (True, w'))"

lemma introduce_one_state:
  assumes "introduce_one K N subcred cookie rk rs ip c w = (Introduced st, c', w')"
  shows "\<exists>eph encKey macKey clientX. hsNtorIntroWith K (ipEncKey ip) (ipAuthKey ip) subcred eph = Inr (encKey, macKey, clientX, st)"
  using assms
  by (auto simp: introduce_one_def split: sum.splits if_splits prod.splits option.splits bool.splits list.splits)

lemma introduce_loop_state:
  "introduce_loop K N subcred cookie rk rs ips e c w = (Inr st, c', w') \<Longrightarrow>
   \<exists>ip \<in> set ips. \<exists>eph encKey macKey clientX.
     hsNtorIntroWith K (ipEncKey ip) (ipAuthKey ip) subcred eph = Inr (encKey, macKey, clientX, st)"
proof (induction ips arbitrary: e c w)
  case (Cons ip ips)
  obtain x c1 w1 where x: "introduce_one K N subcred cookie rk rs ip c w = (x, c1, w1)" by (metis surj_pair)
  show ?case
  proof (cases x)
    case (Introduced s)
    then show ?thesis using Cons.prems x introduce_one_state [of K N subcred cookie rk rs ip c w st c1 w1] by auto
  next
    case (NextPoint e')
    then show ?thesis using Cons.prems x Cons.IH [of e' c1 w1] by auto
  next
    case CtxEnded
    then show ?thesis using Cons.prems x by auto
  qed
qed simp

lemma finish_rendezvous_Inr:
  assumes "finish_rendezvous K N k ctl st w = (Inr a, w')"
  shows "a = k \<and> (\<exists>serverPK auth seed w1. hsNtor_Finish K st serverPK auth = Inr seed \<and>
    oeJoin N k (hsNtorExpandKeys K seed) w1 = (True, w'))"
  using assms
  by (auto simp: finish_rendezvous_def split: list.splits option.splits sum.splits prod.splits bool.splits)

lemma buildOnionCircuit_joined:
  assumes "buildOnionCircuit K N desc subcred c w = (Inr k, c', w')"
  shows "\<exists>ip \<in> set (IntroPoints desc). joined_by K N ip subcred k w'"
proof -
  obtain a ctl st w3 cookie rk rs c1 w1 c2 w2 where
      f: "finish_rendezvous K N a ctl st w3 = (Inr k, w')"
    and i: "introduce_loop K N subcred cookie rk rs (IntroPoints desc) NoIntroE c1 w1 = (Inr st, c2, w2)"
    using assms
    by (auto simp: buildOnionCircuit_def introduce_def Let_def
        split: prod.splits option.splits sum.splits bool.splits if_splits)
  from introduce_loop_state [OF i] finish_rendezvous_Inr [OF f] show ?thesis
    unfolding joined_by_def by blast
qed

lemma retry_loop_joined:
  "retry_loop K N desc subcred n e c w = (Inr k, c', w') \<Longrightarrow> \<exists>ip \<in> set (IntroPoints desc). joined_by K N ip subcred k w'"
proof (induction n arbitrary: e c w)
  case (Suc n)
  obtain d w1 where d: "oeCtxDone N w = (d, w1)" by fastforce
  obtain x c2 w2 where x: "buildOnionCircuit K N desc subcred c w1 = (x, c2, w2)" by (metis surj_pair)
  show ?case
  proof (cases "d \<or> (\<exists>e. x = Inl e)")
    case True
    then show ?thesis using Suc.prems d x Suc.IH by (cases d; cases x) auto
  next
    case False
    then obtain a where "x = Inr a" by (cases x) auto
    then have "buildOnionCircuit K N desc subcred c w1 = (Inr k, c', w')" using Suc.prems d x False by auto
    then show ?thesis by (rule buildOnionCircuit_joined)
  qed
qed simp

lemma fetch_loop_decoded:
  "fetch_loop K N blinded subcred ck path dirs e c w = (Inr desc, c', w') \<Longrightarrow>
   \<exists>raw now. DecodeDescriptor K raw blinded subcred ck now = Inr desc"
proof (induction dirs arbitrary: e c w)
  case (Cons d dirs)
  obtain rs md where d: "d = (rs, md)" by fastforce
  obtain x c1 w1 where x: "fetch_from K N blinded subcred ck path (toRelayInfo rs md) c w = (x, c1, w1)" by (metis surj_pair)
  show ?case
  proof (cases x)
    case (Inl e')
    then show ?thesis using Cons d x by auto
  next
    case (Inr desc')
    then have "fetch_from K N blinded subcred ck path (toRelayInfo rs md) c w = (Inr desc, c1, w1)"
      using Cons.prems d x by auto
    then show ?thesis by (auto simp: fetch_from_def split: prod.splits sum.splits)
  qed
qed simp

lemma find_descriptor_decoded:
  "find_descriptor K N srt pub ck plen ring as e c w = (Inr (desc, subcred), c', w') \<Longrightarrow>
   \<exists>tp srv blinded raw now. (tp, srv) \<in> set as \<and> blindPublicKey K pub tp plen = Inr blinded \<and>
     subcred = Subcredential K pub blinded \<and> DecodeDescriptor K raw blinded subcred ck now = Inr desc"
proof (induction as arbitrary: e c w)
  case (Cons a as)
  obtain tp srv where a: "a = (tp, srv)" by fastforce
  show ?case
  proof (cases "blindPublicKey K pub tp plen")
    case (Inl x)
    then have "find_descriptor K N srt pub ck plen ring as (Some (CryptoE x)) c w = (Inr (desc, subcred), c', w')"
      using Cons.prems a by simp
    from Cons.IH [OF this] show ?thesis by auto
  next
    case (Inr b)
    let ?resp = "ResponsibleHSDirs K srt b tp plen srv (map ring_node ring)"
    obtain x c1 w1 where x: "fetchDescriptor K N (map rnNode ?resp) b (Subcredential K pub b) ck c w = (x, c1, w1)"
      by (metis surj_pair)
    show ?thesis
    proof (cases "?resp \<noteq> [] \<and> (\<exists>d. x = Inr d)")
      case True
      then have "x = Inr desc" "subcred = Subcredential K pub b" using Cons.prems a Inr x by (auto simp: Let_def)
      then show ?thesis
        using fetch_loop_decoded x Inr a unfolding fetchDescriptor_def by (metis list.set_intros(1))
    next
      case False
      then obtain e' where "find_descriptor K N srt pub ck plen ring as e' (if ?resp = [] then c else c1) (if ?resp = [] then w else w1) = (Inr (desc, subcred), c', w')"
        using Cons.prems a Inr x by (cases x) (auto simp: Let_def split: if_splits)
      from Cons.IH [OF this] show ?thesis by auto
    qed
  qed
qed simp

section \<open>Properties\<close>

text \<open>C40: End to end: if dialling an onion address yields a circuit, its last hop is keyed by an hs-ntor
  handshake with the keys of an introduction point in a descriptor that decoded under the address's own
  key, blinded for one of the periods tried, so that by the theorems on descriptors and on hs-ntor only
  the service can be at the other end.\<close>

theorem onion_dial_authenticated:
  "case onion_circuit K N srt host c w of
     (Inl e, _) \<Rightarrow> True
   | (Inr k, c', w') \<Rightarrow>
     (\<exists>pub tp srv blinded raw now desc ip.
        ParseAddress K host = Inr pub \<and> (tp, srv) \<in> set (onion_attempts K (tcSel c)) \<and>
        blindPublicKey K pub tp (snd (TimePeriod (ValidAfter (tcSel c)))) = Inr blinded \<and>
        DecodeDescriptor K raw blinded (Subcredential K pub blinded)
          (case onionAuthKey c host of None \<Rightarrow> [] | Some ck \<Rightarrow> ck) now = Inr desc \<and>
        ip \<in> set (IntroPoints desc) \<and> joined_by K N ip (Subcredential K pub blinded) k w')"
proof (cases "\<exists>k c' w'. onion_circuit K N srt host c w = (Inr k, c', w')")
  case True
  then obtain k c' w' where o: "onion_circuit K N srt host c w = (Inr k, c', w')" by blast
  let ?ck = "case onionAuthKey c host of None \<Rightarrow> [] | Some ck \<Rightarrow> ck"
  let ?plen = "snd (TimePeriod (ValidAfter (tcSel c)))"
  obtain pub ring c1 w1 desc subcred c2 w2 where pub: "ParseAddress K host = Inr pub"
    and f: "find_descriptor K N srt pub ?ck ?plen ring (onion_attempts K (tcSel c)) None c1 w1 = (Inr (desc, subcred), c2, w2)"
    and b: "buildOnionCircuitWithRetry K N desc subcred c2 w2 = (Inr k, c', w')"
    using o by (auto simp: onion_circuit_def Let_def split: sum.splits prod.splits)
  from find_descriptor_decoded [OF f] retry_loop_joined [OF b [unfolded buildOnionCircuitWithRetry_def]]
  show ?thesis unfolding o prod.case sum.case using pub by blast
next
  case False
  then show ?thesis by (auto split: prod.splits sum.splits)
qed


end
