(* ===== verification/Client_Life.thy ===== *)
theory Client_Life
  imports Onion_Dial Dir_Trust
begin

text \<open>The life of a \<^verbatim>\<open>Client\<close> (\<^verbatim>\<open>client.go\<close>, \<^verbatim>\<open>guard.go\<close>, \<^verbatim>\<open>dirtunnel.go\<close>): its creation, the exit and directory
  circuits it builds, \<^verbatim>\<open>DialContext\<close> over the circuit pool, tunnelled directory fetches, a new identity, the
  rotation of the guard and the end.  The state joins that of \<^verbatim>\<open>Tor_Client\<close> with the pool, the shared
  directory circuit and the closed flag.\<close>

section \<open>State\<close>

record client =
  clTor :: torClient
  clPool :: pool
  clDir :: "nat option"
  clClosed :: bool

text \<open>Closing a channel ends every circuit on it.\<close>

record 'w lenv = "'w oenv" +
  leCloseChan :: "nat \<Rightarrow> 'w \<Rightarrow> 'w"

section \<open>Building circuits\<close>

definition buildExitCircuit :: "'w oenv \<Rightarrow> int \<Rightarrow> torClient \<Rightarrow> 'w \<Rightarrow> (onion_err + nat \<times> selectedRelay) \<times> torClient \<times> 'w" where
  "buildExitCircuit N port c0 w0 =
     (case exit_path (oeC N) port c0 w0 of
        (Inl e, c, w) \<Rightarrow> (Inl (ClientE e), c, w)
      | (Inr (guard, middle, exit), c, w) \<Rightarrow>
        (case oeNew N (the (tcGuardChan c0)) w of
           (None, w) \<Rightarrow> (Inl CircuitE, c, w)
         | (Some k, w) \<Rightarrow>
           (case oeBuild N k [tcGuardInfo c0, toRelayInfo (selRS middle) (selMD middle), toRelayInfo (selRS exit) (selMD exit)] w of
              (False, w) \<Rightarrow> (Inl BuildE, c, oeDestroy N k w)
            | (True, w) \<Rightarrow> (Inr (k, exit), c, w))))"

definition buildDirCircuit :: "'w oenv \<Rightarrow> torClient \<Rightarrow> 'w \<Rightarrow> (onion_err + nat) \<times> torClient \<times> 'w" where
  "buildDirCircuit N c0 w0 =
     (case dir_path (oeC N) c0 w0 of
        (Inl e, c, w) \<Rightarrow> (Inl (ClientE e), c, w)
      | (Inr (guard, middle, dirRelay), c, w) \<Rightarrow>
        (case oeNew N (the (tcGuardChan c0)) w of
           (None, w) \<Rightarrow> (Inl CircuitE, c, w)
         | (Some k, w) \<Rightarrow>
           (case oeBuild N k [tcGuardInfo c0, toRelayInfo (selRS middle) (selMD middle), toRelayInfo (selRS dirRelay) (selMD dirRelay)] w of
              (False, w) \<Rightarrow> (Inl BuildE, c, oeDestroy N k w)
            | (True, w) \<Rightarrow> (Inr k, c, w))))"

section \<open>The directory tunnel\<close>

text \<open>Whether the shared directory circuit is there and open.\<close>

definition dir_usable :: "'w oenv \<Rightarrow> client \<Rightarrow> 'w \<Rightarrow> nat option \<times> 'w" where
  "dir_usable N cl w =
     (case clDir cl of
        None \<Rightarrow> (None, w)
      | Some k \<Rightarrow> (case oeClosed N k w of (True, w) \<Rightarrow> (None, w) | (False, w) \<Rightarrow> (Some k, w)))"

text \<open>\<^verbatim>\<open>dirCircuit\<close>: the build runs without the lock; \<open>others\<close> is what other goroutines do to the client meanwhile.\<close>

definition dirCircuit :: "'w oenv \<Rightarrow> (client \<Rightarrow> client) \<Rightarrow> client \<Rightarrow> 'w \<Rightarrow> (onion_err + nat) \<times> client \<times> 'w" where
  "dirCircuit N others cl w =
     (case dir_usable N cl w of
        (Some k, w) \<Rightarrow> (Inr k, cl, w)
      | (None, w) \<Rightarrow>
        (case buildDirCircuit N (clTor cl) w of
           (Inl e, t, w) \<Rightarrow> (Inl e, others (cl\<lparr>clTor := t\<rparr>), w)
         | (Inr k, t, w) \<Rightarrow>
           let cl = others (cl\<lparr>clTor := t\<rparr>) in
           if clClosed cl then (Inl (ClientE ClientClosed), cl, oeDestroy N k w)
           else (case dir_usable N cl w of
               (Some k', w) \<Rightarrow> (Inr k', cl, oeDestroy N k w)
             | (None, w) \<Rightarrow> (Inr k, cl\<lparr>clDir := Some k\<rparr>, w))))"

definition DirGet :: "'w oenv \<Rightarrow> (client \<Rightarrow> client) \<Rightarrow> string \<Rightarrow> client \<Rightarrow> 'w \<Rightarrow> (onion_err + string) \<times> client \<times> 'w" where
  "DirGet N others path cl w =
     (case dirCircuit N others cl w of
        (Inl e, cl, w) \<Rightarrow> (Inl e, cl, w)
      | (Inr k, cl, w) \<Rightarrow>
        (case dirGet N k path w of
           (Inr body, w) \<Rightarrow> (Inr body, cl, w)
         | (Inl e, w) \<Rightarrow>
           (case oeClosed N k w of
              (False, w) \<Rightarrow> (Inl e, cl, w)
            | (True, w) \<Rightarrow>
              (Inl e, (if clDir cl = Some k then cl\<lparr>clDir := None\<rparr> else cl), oeDestroy N k w))))"

section \<open>Dialling\<close>

text \<open>\<^verbatim>\<open>dialClearnet\<close> with the building of the circuit and \<^verbatim>\<open>Begin\<close>; what concurrent dials do to the pool is the
  step relation of \<^verbatim>\<open>Circ_Pool\<close>.\<close>

definition dial_clearnet :: "'w oenv \<Rightarrow> string \<Rightarrow> int \<Rightarrow> client \<Rightarrow> 'w \<Rightarrow> (onion_err + nat) \<times> client \<times> 'w" where
  "dial_clearnet N addr port cl w =
     (case observe_pool N (clPool cl) w of (p, w) \<Rightarrow>
      case ceNow (oeC N) w of (now, w) \<Rightarrow>
      case acquireClearnet now port p of
        (Some a, p) \<Rightarrow> (case begin_pooled N addr a p w of (r, p, w) \<Rightarrow> (r, cl\<lparr>clPool := p\<rparr>, w))
      | (None, p) \<Rightarrow>
        (case buildExitCircuit N port (clTor cl) w of
           (Inl e, t, w) \<Rightarrow> (Inl e, cl\<lparr>clTor := t, clPool := p\<rparr>, w)
         | (Inr (k, exit), t, w) \<Rightarrow>
           (case ceNow (oeC N) w of (born, w) \<Rightarrow>
            case oeClosed N k w of (closed, w) \<Rightarrow>
            case poolNewClearnet born k (selMD exit) closed p of (a, p) \<Rightarrow>
            case begin_pooled N addr a p w of (r, p, w) \<Rightarrow> (r, cl\<lparr>clTor := t, clPool := p\<rparr>, w))))"

definition DialContext :: "crypto \<Rightarrow> 'w oenv \<Rightarrow>
    ((bytes \<times> (routerStatus \<times> microdescriptor) ringNode) list \<Rightarrow> (bytes \<times> (routerStatus \<times> microdescriptor) ringNode) list) \<Rightarrow>
    bool \<Rightarrow> string \<Rightarrow> string \<Rightarrow> client \<Rightarrow> 'w \<Rightarrow> (onion_err + nat) \<times> client \<times> 'w" where
  "DialContext K N srt got network addr cl w =
     (if network \<notin> {''tcp'', ''tcp4'', ''tcp6''} then (Inl (ClientE UnsupportedNetwork), cl, w)
      else case ensureFreshConsensus (oeC N) got (clTor cl) w of (t, w) \<Rightarrow>
        let cl = cl\<lparr>clTor := t\<rparr> in
        (case DialContext_route network addr of
           Inl e \<Rightarrow> (Inl (ClientE e), cl, w)
         | Inr (ToExit a port) \<Rightarrow> dial_clearnet N a port cl w
         | Inr (ToOnion host port) \<Rightarrow>
           (case dialOnion K N srt host port (clTor cl) (clPool cl) w of
              (r, t, p, w) \<Rightarrow> (r, cl\<lparr>clTor := t, clPool := p\<rparr>, w))))"

section \<open>Life cycle\<close>

definition destroy_pooled :: "'w lenv \<Rightarrow> pool \<Rightarrow> nat list \<Rightarrow> 'w \<Rightarrow> 'w" where
  "destroy_pooled L p = fold (\<lambda>a. oeDestroy L (pcCirc (heap p a)))"

definition client_Close :: "'w lenv \<Rightarrow> client \<Rightarrow> 'w \<Rightarrow> client \<times> 'w" where
  "client_Close L cl w =
     (if clClosed cl then (cl, w)
      else let cl1 = cl\<lparr>clClosed := True, clPool := destroyAll (clPool cl)\<rparr>;
               w1 = destroy_pooled L (clPool cl) (allPooledLocked (clPool cl)) w
           in (cl1, case tcGuardChan (clTor cl) of None \<Rightarrow> w1 | Some ch \<Rightarrow> leCloseChan L ch w1))"

definition client_NewIdentity :: "'w lenv \<Rightarrow> client \<Rightarrow> 'w \<Rightarrow> client \<times> 'w" where
  "client_NewIdentity L cl w =
     (let idle = filter (\<lambda>a. pcStreams (heap (clPool cl) a) = 0) (allPooledLocked (clPool cl));
          w1 = destroy_pooled L (clPool cl) idle w
      in (cl\<lparr>clPool := NewIdentity (clPool cl), clDir := None\<rparr>,
          case clDir cl of None \<Rightarrow> w1 | Some k \<Rightarrow> oeDestroy L k w1))"

definition client_RotateGuard :: "'w lenv \<Rightarrow> client \<Rightarrow> 'w \<Rightarrow> client_err option \<times> client \<times> 'w" where
  "client_RotateGuard L cl w =
     (case RotateGuard (oeC L) (clTor cl) w of
        (Inl e, t, w) \<Rightarrow> (Some e, cl\<lparr>clTor := t\<rparr>, w)
      | (Inr oldChan, t, w) \<Rightarrow>
        let w = destroy_pooled L (clPool cl) (allPooledLocked (clPool cl)) w in
        (None, cl\<lparr>clTor := t, clDir := None, clPool := destroyAll (clPool cl)\<rparr>,
         case oldChan of None \<Rightarrow> w | Some ch \<Rightarrow> leCloseChan L ch w))"

section \<open>Creation\<close>

type_synonym 'w cache = "(string \<Rightarrow> 'w \<Rightarrow> string option \<times> 'w) \<times> (string \<Rightarrow> string \<Rightarrow> 'w \<Rightarrow> 'w)"

record 'w config =
  cfgDataDir :: string
  cfgDirAuthorities :: "authority list"
  cfgCache :: "'w cache option"
  cfgOnionClientAuth :: "(string \<times> bytes) list"
  cfgMaxCircuitDirtiness :: int
  cfgAllowDirectDirFallback :: bool

definition defaultMaxCircuitDirtiness :: int where
  "defaultMaxCircuitDirtiness = 10 * 60 * 1000000000"

text \<open>\<open>mkDisk\<close> is \<^verbatim>\<open>directory.NewDiskCache\<close>, which fails when the directory cannot be made.\<close>

definition resolveCache :: "(string \<Rightarrow> 'w cache option) \<Rightarrow> 'w config \<Rightarrow> 'w cache option" where
  "resolveCache mkDisk cfg =
     (if cfgCache cfg \<noteq> None then cfgCache cfg
      else if cfgDataDir cfg = '''' then None
      else mkDisk (join_path [cfgDataDir cfg, ''cache'']))"

text \<open>\<^verbatim>\<open>NewClient\<close>: \<open>mkE\<close> gives the surroundings of a client over its directory client, \<open>tunnel\<close> the directory
  tunnel through it.\<close>

definition client_New :: "crypto \<Rightarrow> (bytes \<Rightarrow> rsaKey option) \<Rightarrow> 'w denv \<Rightarrow> ('w dirClient \<Rightarrow> 'w cenv) \<Rightarrow>
    (string \<Rightarrow> 'w cache option) \<Rightarrow> (string \<Rightarrow> 'w \<Rightarrow> string option \<times> 'w) \<Rightarrow> 'w config \<Rightarrow> 'w \<Rightarrow>
    ((dir_err + client_err) + client \<times> 'w dirClient) \<times> 'w" where
  "client_New K pkcs1 D mkE mkDisk tunnel cfg w =
     (let dir0 = AllowDirectFallback (cfgAllowDirectDirFallback cfg) (NewClient (cfgDirAuthorities cfg));
          dir = (case resolveCache mkDisk cfg of None \<Rightarrow> dir0 | Some cache \<Rightarrow> UseCache (Some cache) dir0)
      in case Bootstrap K pkcs1 D dir w of
           (Inl e, w) \<Rightarrow> (Inl (Inl e), w)
         | (Inr cons, w) \<Rightarrow>
           let maxDirty = (if cfgMaxCircuitDirtiness cfg \<le> 0 then defaultMaxCircuitDirtiness else cfgMaxCircuitDirtiness cfg);
               t = \<lparr>tcSel = cons, tcGuardChan = None,
                    tcGuardInfo = \<lparr>Nickname = '''', ORAddr = '''', RSAIDDigest = [], EdIdentity = [], NtorOnionKey = []\<rparr>,
                    tcMdCache = Map.empty, tcRing = None, tcOnionAuth = normalizeOnionAuth (cfgOnionClientAuth cfg),
                    tcDataDir = cfgDataDir cfg\<rparr>
           in (case connectGuard (mkE dir) (cfgDataDir cfg) None t w of
                 (Some e, _, w) \<Rightarrow> (Inl (Inr e), w)
               | (None, t, w) \<Rightarrow>
                 (Inr (\<lparr>clTor = t, clPool = pool_init maxDirty, clDir = None, clClosed = False\<rparr>,
                       UseTunnel (Some tunnel) dir), w)))"

section \<open>The pool through the life of a client\<close>

lemma destroyLocked_onion [simp]: "pcOnion (heap (destroyLocked a p) b) = pcOnion (heap p b)"
  by (simp add: destroyLocked_def)

lemma bucket_destroy:
  "bucket (destroyLocked a p) h = (if h = pcOnion (heap p a) then filter (\<lambda>x. x \<noteq> a) (bucket p h) else bucket p h)"
  by (simp add: destroyLocked_def bucket_remove)

lemma bucket_destroy_fold:
  "bucket (fold destroyLocked l p) h = filter (\<lambda>x. \<not> (x \<in> set l \<and> pcOnion (heap p x) = h)) (bucket p h)"
proof (induction l arbitrary: p)
  case (Cons a l)
  then show ?case by (auto simp: bucket_destroy intro!: filter_cong)
qed simp

lemma destroyAll_empty:
  assumes "pool_wf p"
  shows "allPooledLocked (destroyAll p) = [] \<and> (\<forall>a < fresh p. pcClosed (heap (destroyAll p) a))"
proof -
  have b: "buckets_ok p" using assms by (simp add: pool_wf_def)
  have wf: "pool_wf (destroyAll p)" using pool_wf_destroyAll [OF assms] .
  have fr: "fresh (fold destroyLocked l q) = fresh q" for l q
    by (induction l arbitrary: q) (auto simp: destroyLocked_def)
  have e: "bucket (destroyAll p) h = []" for h
  proof -
    have "x \<in> set (allPooledLocked p) \<and> pcOnion (heap p x) = h" if "x \<in> set (bucket p h)" for x
      using b that all_buckets [of p] by (auto simp: buckets_ok_def)
    then show ?thesis unfolding destroyAll_def bucket_destroy_fold by (auto simp: filter_empty_conv)
  qed
  have "set (allPooledLocked (destroyAll p)) = {}"
    using all_buckets [of "destroyAll p"] wf e by (simp add: pool_wf_def buckets_ok_def)
  moreover have "pcClosed (heap (destroyAll p) a)" if "a < fresh p" for a
    using wf e that fr [of "allPooledLocked p" p] by (auto simp: pool_wf_def slots_ok_def destroyAll_def)
  ultimately show ?thesis by simp
qed

section \<open>Onion dials do not name the service\<close>

text \<open>Nothing on the way to an onion circuit opens a stream by \<^verbatim>\<open>Begin\<close>.\<close>

lemma begin_fields:
  "oeC (N\<lparr>oeBegin := f\<rparr>) = oeC N" "oeNew (N\<lparr>oeBegin := f\<rparr>) = oeNew N" "oeBuild (N\<lparr>oeBegin := f\<rparr>) = oeBuild N"
  "oeDestroy (N\<lparr>oeBegin := f\<rparr>) = oeDestroy N" "oeSend (N\<lparr>oeBegin := f\<rparr>) = oeSend N"
  "oeControl (N\<lparr>oeBegin := f\<rparr>) = oeControl N" "oeJoin (N\<lparr>oeBegin := f\<rparr>) = oeJoin N"
  "oeBeginDir (N\<lparr>oeBegin := f\<rparr>) = oeBeginDir N" "oeWrite (N\<lparr>oeBegin := f\<rparr>) = oeWrite N"
  "oeResponse (N\<lparr>oeBegin := f\<rparr>) = oeResponse N" "oeCloseStream (N\<lparr>oeBegin := f\<rparr>) = oeCloseStream N"
  "oeDecompress (N\<lparr>oeBegin := f\<rparr>) = oeDecompress N" "oeRandom (N\<lparr>oeBegin := f\<rparr>) = oeRandom N"
  "oeEphemeral (N\<lparr>oeBegin := f\<rparr>) = oeEphemeral N" "oeCtxDone (N\<lparr>oeBegin := f\<rparr>) = oeCtxDone N"
  "oeClosed (N\<lparr>oeBegin := f\<rparr>) = oeClosed N"
  by simp_all

lemma begin_irrelevant:
  "buildCircuitVia (N\<lparr>oeBegin := f\<rparr>) = buildCircuitVia N"
  "pickRendezvousPoint (N\<lparr>oeBegin := f\<rparr>) = pickRendezvousPoint N"
  "finish_rendezvous K (N\<lparr>oeBegin := f\<rparr>) = finish_rendezvous K N"
  "hsDirRing (N\<lparr>oeBegin := f\<rparr>) = hsDirRing N"
  "dirGet (N\<lparr>oeBegin := f\<rparr>) = dirGet N"
  unfolding fun_eq_iff buildCircuitVia_def pickRendezvousPoint_def finish_rendezvous_def hsDirRing_def dirGet_def begin_fields
  by (rule allI refl)+

lemma begin_irrelevant_intro:
  "introduce_loop K (N\<lparr>oeBegin := f\<rparr>) subcred cookie rk rs ips e c w = introduce_loop K N subcred cookie rk rs ips e c w"
proof (induction ips arbitrary: e c w)
  case (Cons ip ips)
  have "introduce_one K (N\<lparr>oeBegin := f\<rparr>) = introduce_one K N"
    unfolding fun_eq_iff introduce_one_def begin_irrelevant begin_fields by (rule allI refl)+
  then show ?case unfolding introduce_loop.simps Cons.IH by simp
qed simp

lemma begin_irrelevant_retry:
  "retry_loop K (N\<lparr>oeBegin := f\<rparr>) desc subcred n e c w = retry_loop K N desc subcred n e c w"
proof (induction n arbitrary: e c w)
  case (Suc n)
  have b: "buildOnionCircuit K (N\<lparr>oeBegin := f\<rparr>) = buildOnionCircuit K N"
    unfolding fun_eq_iff buildOnionCircuit_def introduce_def begin_irrelevant begin_irrelevant_intro begin_fields
    by (rule allI refl)+
  show ?case unfolding retry_loop.simps Suc.IH begin_fields b by (rule refl)
qed simp

lemma begin_irrelevant_fetch:
  "fetch_loop K (N\<lparr>oeBegin := f\<rparr>) b sc ck path dirs e c w = fetch_loop K N b sc ck path dirs e c w"
proof (induction dirs arbitrary: e c w)
  case (Cons d dirs)
  obtain rs md where d: "d = (rs, md)" by fastforce
  have "fetch_from K (N\<lparr>oeBegin := f\<rparr>) = fetch_from K N"
    unfolding fun_eq_iff fetch_from_def begin_irrelevant begin_fields by (rule allI refl)+
  then show ?case unfolding d fetch_loop.simps Cons.IH by simp
qed simp

lemma begin_irrelevant_find:
  "find_descriptor K (N\<lparr>oeBegin := f\<rparr>) srt pub ck plen ring as e c w = find_descriptor K N srt pub ck plen ring as e c w"
proof (induction as arbitrary: e c w)
  case (Cons a as)
  obtain tp srv where a: "a = (tp, srv)" by fastforce
  show ?case
    unfolding a find_descriptor.simps fetchDescriptor_def begin_irrelevant_fetch Cons.IH by (rule refl)
qed simp

lemma begin_irrelevant_circuit:
  "onion_circuit K (N\<lparr>oeBegin := f\<rparr>) srt host c w = onion_circuit K N srt host c w"
  unfolding onion_circuit_def begin_irrelevant begin_irrelevant_find buildOnionCircuitWithRetry_def begin_irrelevant_retry
  by (rule refl)

lemma dialOnion_begin:
  assumes "\<And>k w. f k ('':'' @ Itoa port) w = oeBegin N k ('':'' @ Itoa port) w"
  shows "dialOnion K (N\<lparr>oeBegin := f\<rparr>) srt host port c p w = dialOnion K N srt host port c p w"
proof -
  have f: "oeBegin (N\<lparr>oeBegin := f\<rparr>) k ('':'' @ Itoa port) = oeBegin N k ('':'' @ Itoa port)" for k
    using assms by (simp add: fun_eq_iff)
  have b: "begin_pooled (N\<lparr>oeBegin := f\<rparr>) ('':'' @ Itoa port) = begin_pooled N ('':'' @ Itoa port)"
    unfolding fun_eq_iff begin_pooled_def release_slot_def begin_fields f by (rule allI refl)+
  have o: "observe_pool (N\<lparr>oeBegin := f\<rparr>) = observe_pool N"
    unfolding fun_eq_iff observe_pool_def see_closed_def begin_fields by (rule allI refl)+
  show ?thesis unfolding dialOnion_def begin_irrelevant_circuit begin_fields b o by (rule refl)
qed

section \<open>Properties\<close>

text \<open>The name of an onion service stays inside the client: for an address whose host ends in .onion, in
  any letter case, every stream that is opened is opened by its port alone, so that an exit or a
  rendezvous circuit that would answer differently to any other BEGIN makes no difference; and no exit
  circuit is built, the dial being the onion flow or an error.\<close>

theorem onion_name_stays_inside:
  assumes "SplitHostPort addr = Inr (host, portStr)" "suffix ''.onion'' (ToLower host)"
    "\<And>k w. f k ('':'' @ Itoa (fst (Atoi portStr))) w = oeBegin N k ('':'' @ Itoa (fst (Atoi portStr))) w"
  shows "DialContext K (N\<lparr>oeBegin := f\<rparr>) srt got network addr cl w = DialContext K N srt got network addr cl w \<and>
    (\<forall>a port. DialContext_route network addr \<noteq> Inr (ToExit a port))"
proof -
  obtain port ok where p: "Atoi portStr = (port, ok)" by fastforce
  have r: "DialContext_route network addr =
    (if network \<notin> {''tcp'', ''tcp4'', ''tcp6''} then Inl UnsupportedNetwork
     else if \<not> ok then Inl BadPort else Inr (ToOnion host port))"
    using assms(1,2) p by (simp add: DialContext_route_def)
  have d: "dialOnion K (N\<lparr>oeBegin := f\<rparr>) srt host port c pl w = dialOnion K N srt host port c pl w" for c pl w
    using assms(3) p by (intro dialOnion_begin) simp
  have "DialContext K (N\<lparr>oeBegin := f\<rparr>) srt got network addr cl w = DialContext K N srt got network addr cl w"
    unfolding DialContext_def begin_fields r by (cases ok) (simp_all add: d split: prod.split)
  then show ?thesis using r by auto
qed

text \<open>Closing a client destroys every circuit that was in its pool and leaves the pool empty, a second
  close does nothing, a successful rotation of the guard does the same to the pool and drops the directory
  circuit, and a new identity and both of these keep the pool well-formed.\<close>

theorem client_teardown:
  assumes "pool_wf (clPool cl)" "\<not> clClosed cl"
  shows "(case client_Close L cl w of (cl', w') \<Rightarrow>
      clClosed cl' \<and> allPooledLocked (clPool cl') = [] \<and> pool_wf (clPool cl') \<and>
      list_all (\<lambda>a. pcClosed (heap (clPool cl') a)) [0..<fresh (clPool cl)] \<and> client_Close L cl' w' = (cl', w')) \<and>
    (case client_RotateGuard L cl w of (r, cl', w') \<Rightarrow>
      pool_wf (clPool cl') \<and> (r \<noteq> None \<or> allPooledLocked (clPool cl') = [] \<and> clDir cl' = None)) \<and>
    (case client_NewIdentity L cl w of (cl', w') \<Rightarrow> pool_wf (clPool cl') \<and> clDir cl' = None)"
  using assms destroyAll_empty [OF assms(1)] pool_wf_destroyAll [OF assms(1)] pool_wf_identity [OF assms(1)]
  by (auto simp: client_Close_def client_RotateGuard_def client_NewIdentity_def Let_def list_all_iff
      split: prod.splits sum.splits)

text \<open>The steps of a successful \<^verbatim>\<open>NewClient\<close>.\<close>

lemma client_New_steps:
  assumes "client_New K pkcs1 D mkE mkDisk tunnel cfg w = (Inr (cl, dir), w')"
  obtains dir1 cons w1 t d where
    "Bootstrap K pkcs1 D dir1 w = (Inr cons, w1)" "tcSel t = cons" "tcMdCache t = Map.empty"
    "connectGuard (mkE dir1) (cfgDataDir cfg) None t w1 = (None, clTor cl, w')"
    "dir = UseTunnel (Some tunnel) dir1" "dcAllowDirectFallback dir1 = cfgAllowDirectDirFallback cfg"
    "clPool cl = pool_init d" "\<not> clClosed cl"
proof -
  define dir0 where "dir0 = AllowDirectFallback (cfgAllowDirectDirFallback cfg) (NewClient (cfgDirAuthorities cfg) :: 'a dirClient)"
  define dir1 where "dir1 = (case resolveCache mkDisk cfg of None \<Rightarrow> dir0 | Some cache \<Rightarrow> UseCache (Some cache) dir0)"
  define mk where "mk cons = \<lparr>tcSel = cons, tcGuardChan = None,
      tcGuardInfo = \<lparr>Nickname = '''', ORAddr = '''', RSAIDDigest = [], EdIdentity = [], NtorOnionKey = []\<rparr>,
      tcMdCache = Map.empty, tcRing = None, tcOnionAuth = normalizeOnionAuth (cfgOnionClientAuth cfg),
      tcDataDir = cfgDataDir cfg\<rparr>" for cons
  obtain br w1 where br: "Bootstrap K pkcs1 D dir1 w = (br, w1)" by fastforce
  obtain cons where b: "Bootstrap K pkcs1 D dir1 w = (Inr cons, w1)"
    using br assms by (cases br) (auto simp: client_New_def Let_def dir0_def [symmetric] dir1_def [symmetric])
  obtain gr t w2 where gr: "connectGuard (mkE dir1) (cfgDataDir cfg) None (mk cons) w1 = (gr, t, w2)" by (metis surj_pair)
  have c: "gr = None \<and> clTor cl = t \<and> w2 = w' \<and> (\<exists>d. clPool cl = pool_init d) \<and> \<not> clClosed cl \<and> dir = UseTunnel (Some tunnel) dir1"
    using assms b gr
    by (cases gr) (auto simp: client_New_def Let_def dir0_def [symmetric] dir1_def [symmetric] mk_def [symmetric])
  then obtain d where d: "clPool cl = pool_init d" by blast
  have "dcAllowDirectFallback dir1 = cfgAllowDirectDirFallback cfg"
    by (auto simp: dir1_def dir0_def UseCache_def AllowDirectFallback_def split: option.split)
  with c b gr d show thesis by (intro that [of dir1 cons w1 "mk cons" d]) (simp_all add: mk_def)
qed

text \<open>A client that \<^verbatim>\<open>NewClient\<close> returns works from a consensus signed by a majority of the configured
  authorities, has a guard from that consensus on a channel dialled to it, an empty pool, and a directory
  client that goes through the tunnel and falls back to direct fetches only if the configuration says so.\<close>

theorem new_client_ready:
  "case client_New K pkcs1 D mkE mkDisk tunnel cfg w of
     (Inl e, _) \<Rightarrow> True
   | (Inr (cl, dir), _) \<Rightarrow>
     trusted K pkcs1 D (dcAuthorities dir) (tcSel (clTor cl)) \<and> tcGuardChan (clTor cl) \<noteq> None \<and>
     RSAIDDigest (tcGuardInfo (clTor cl)) \<in> rsIdentity ` set (Routers (tcSel (clTor cl))) \<and>
     allPooledLocked (clPool cl) = [] \<and> pool_wf (clPool cl) \<and> \<not> clClosed cl \<and>
     dcTunnel dir = Some tunnel \<and> dcAllowDirectFallback dir = cfgAllowDirectDirFallback cfg"
proof (cases "client_New K pkcs1 D mkE mkDisk tunnel cfg w")
  case (Pair r w')
  show ?thesis
  proof (cases r)
    case (Inr x)
    obtain cl dir where x: "x = (cl, dir)" by fastforce
    have new: "client_New K pkcs1 D mkE mkDisk tunnel cfg w = (Inr (cl, dir), w')" using Pair Inr x by simp
    then show ?thesis
    proof (rule client_New_steps)
      fix dir1 cons w1 t d
      assume b: "Bootstrap K pkcs1 D dir1 w = (Inr cons, w1)" "tcSel t = cons"
        and g: "connectGuard (mkE dir1) (cfgDataDir cfg) None t w1 = (None, clTor cl, w')"
        and cl: "dir = UseTunnel (Some tunnel) dir1" "dcAllowDirectFallback dir1 = cfgAllowDirectDirFallback cfg"
          "clPool cl = pool_init d" "\<not> clClosed cl"
      from connectGuard_ok [OF g] b(2) obtain rs md ch where "tcSel (clTor cl) = cons" "rs \<in> set (Routers cons)"
        "tcGuardInfo (clTor cl) = toRelayInfo rs md" "tcGuardChan (clTor cl) = Some ch" by auto
      moreover have "allPooledLocked (pool_init d) = []" by (simp add: allPooledLocked_def pool_init_def)
      moreover have "dcAuthorities dir = dcAuthorities dir1" "dcTunnel dir = Some tunnel"
        "dcAllowDirectFallback dir = cfgAllowDirectDirFallback cfg" by (simp_all add: cl UseTunnel_def)
      ultimately show ?thesis
        unfolding new prod.case sum.case using Bootstrap_trusted(1) [OF b(1)] cl pool_wf_init by auto
    qed
  qed (simp add: Pair)
qed

section \<open>Witnesses\<close>

definition demo_net :: "unit oenv" where
  "demo_net = \<lparr>oeC = small_env, oeNew = (\<lambda>ch w. (None, w)), oeBuild = (\<lambda>k p w. (False, w)), oeDestroy = (\<lambda>k w. w),
     oeSend = (\<lambda>k h cm d w. (False, w)), oeControl = (\<lambda>k w. ([], w)), oeJoin = (\<lambda>k ks w. (False, w)),
     oeBeginDir = (\<lambda>k w. (None, w)), oeWrite = (\<lambda>s b w. (False, w)), oeResponse = (\<lambda>s w. (None, w)),
     oeCloseStream = (\<lambda>s w. w), oeDecompress = (\<lambda>e b. Some b), oeRandom = (\<lambda>n w. (None, w)),
     oeEphemeral = (\<lambda>w. (None, w)), oeCtxDone = (\<lambda>w. (False, w)), oeClosed = (\<lambda>k w. (False, w)),
     oeBegin = (\<lambda>k a w. (True, w))\<rparr>"

definition demo_client :: client where
  "demo_client = \<lparr>clTor = small_client, clPool = snd (poolNewClearnet 0 7 md_zero False (pool_init 600)), clDir = Some 5,
     clClosed = False\<rparr>"

definition demo_life :: "unit lenv" where
  "demo_life = oenv.extend demo_net \<lparr>leCloseChan = (\<lambda>ch w. w)\<rparr>"

theorem onion_name_stays_inside_witness:
  "\<forall>K srt. DialContext K (demo_net\<lparr>oeBegin := (\<lambda>k a w. (a = '':80'', w))\<rparr>) srt True ''tcp'' ''X.Onion:80'' demo_client () =
       DialContext K demo_net srt True ''tcp'' ''X.Onion:80'' demo_client ()"
proof -
  have s: "SplitHostPort ''X.Onion:80'' = Inr (''X.Onion'', ''80'')" by code_simp
  have o: "suffix ''.onion'' (ToLower ''X.Onion'')" by code_simp
  have a: "'':'' @ Itoa (fst (Atoi ''80'')) = '':80''" by code_simp
  let ?f = "\<lambda>(k :: nat) a (w :: unit). (a = '':80'', w)"
  have f: "?f k ('':'' @ Itoa (fst (Atoi ''80''))) w = oeBegin demo_net k ('':'' @ Itoa (fst (Atoi ''80''))) w" for k w
    unfolding a by (simp add: demo_net_def)
  have "DialContext K (demo_net\<lparr>oeBegin := ?f\<rparr>) srt True ''tcp'' ''X.Onion:80'' demo_client () =
      DialContext K demo_net srt True ''tcp'' ''X.Onion:80'' demo_client ()" for K srt
    by (rule onion_name_stays_inside [where f = ?f and N = demo_net, OF s o f, THEN conjunct1])
  then show ?thesis by blast
qed

theorem client_teardown_witness:
  "allPooledLocked (clPool demo_client) \<noteq> [] \<and> allPooledLocked (clPool (fst (client_Close demo_life demo_client ()))) = []"
proof -
  obtain a q where q: "poolNewClearnet 0 7 md_zero False (pool_init 600) = (a, q)" by fastforce
  have "pool_wf q" by (rule pool_wf_newClearnet [OF pool_wf_init q])
  then have wf: "pool_wf (clPool demo_client)" by (simp add: demo_client_def q)
  have "\<not> clClosed demo_client" by (simp add: demo_client_def)
  from client_teardown [OF wf this, of demo_life "()"]
  have "allPooledLocked (clPool (fst (client_Close demo_life demo_client ()))) = []" by (auto split: prod.splits)
  moreover have "allPooledLocked (clPool demo_client) \<noteq> []"
    by (simp add: demo_client_def poolNewClearnet_def allPooledLocked_def new_circuit_def pool_init_def)
  ultimately show ?thesis by simp
qed

text \<open>\<^verbatim>\<open>RotateGuard\<close> does not look at the closed flag: on a client that has been closed it can open a channel to a
  new guard, and no later \<^verbatim>\<open>Close\<close> closes it.\<close>

lemma rotation_after_close_reopens:
  assumes "client_RotateGuard demo_life (demo_client\<lparr>clClosed := True, clPool := pool_init 600\<rparr>) () = (r, cl, w)"
  shows "r = None \<and> clClosed cl \<and> tcGuardChan (clTor cl) = Some 7 \<and> client_Close demo_life cl w = (cl, w)"
proof -
  have "oeC demo_life = small_env" by (simp add: demo_life_def demo_net_def oenv.defs)
  with assms show ?thesis
    by (auto simp: client_RotateGuard_def client_Close_def demo_client_def small_rotation Let_def)
qed

end
