(* ===== verification/Link_Dial.thy ===== *)
theory Link_Dial
  imports Link_Channel
begin

text \<open>\<^verbatim>\<open>channel.Dial\<close>: the TLS connection, the deadline of the link handshake, the handshake, and the receive loop
  on what follows.  The relay's bytes come with their arrival times; while the deadline is set, only what
  arrived by it can be read.  TLS is a parameter.\<close>

definition handshake_timeout :: int where "handshake_timeout = 30 * 1000000000"

text \<open>The deadline: the default or the configured time-out from now, or the context's deadline if earlier.\<close>

definition hs_deadline :: "int \<Rightarrow> int \<Rightarrow> int option \<Rightarrow> int" where
  "hs_deadline now tmo ctxDeadline =
     (let d = now + (if tmo > 0 then tmo else handshake_timeout) in
      case ctxDeadline of None \<Rightarrow> d | Some c \<Rightarrow> if c < d then c else d)"

type_synonym script = "(int \<times> byte) list"

definition by_time :: "int \<Rightarrow> script \<Rightarrow> bytes" where
  "by_time dl s = map snd (takeWhile (\<lambda>(t, b). t \<le> dl) s)"

definition after_time :: "int \<Rightarrow> script \<Rightarrow> bytes" where
  "after_time dl s = map snd (dropWhile (\<lambda>(t, b). t \<le> dl) s)"

text \<open>A TLS connection that has been made: what the relay sends and when, the bytes it takes before a write
  fails, and its certificate.\<close>

record tls_conn =
  tl_script :: script
  tl_quota :: "nat option"
  tl_leaf :: "bytes option"

record link =
  linkVersion :: u16
  edIdentity :: bytes
  lconn :: conn
  lchan :: channel

datatype dial_err = TLSDial | HandshakeErr chan_err

definition Dial :: "crypto \<Rightarrow> (string \<Rightarrow> tls_conn option) \<Rightarrow> string \<Rightarrow> bytes option \<Rightarrow> int \<Rightarrow> int \<Rightarrow> int \<Rightarrow> int option \<Rightarrow> dial_err + link" where
  "Dial K tls addr expectedEd now1 now2 tmo ctxDeadline =
     (case tls addr of
        None \<Rightarrow> Inl TLSDial
      | Some t \<Rightarrow>
        let dl = hs_deadline now1 tmo ctxDeadline in
        (case handshake K addr expectedEd (tl_leaf t) now2
                \<lparr>cin = by_time dl (tl_script t), cout = [], cquota = tl_quota t\<rparr> of
           Inl e \<Rightarrow> Inl (HandshakeErr e)
         | Inr ((v, ident), cn) \<Rightarrow>
           Inr \<lparr>linkVersion = v, edIdentity = ident,
                lconn = cn\<lparr>cin := cin cn @ after_time dl (tl_script t)\<rparr>, lchan = channel_new\<rparr>))"

text \<open>The receive loop that \<^verbatim>\<open>Dial\<close> starts.\<close>

definition link_readLoop :: "link \<Rightarrow> channel option" where
  "link_readLoop l = readLoop (cin (lconn l)) (lchan l)"

section \<open>Lemmas\<close>

lemma hs_deadline_bound:
  "hs_deadline now 0 ctx \<le> now + 30000000000"
  "ctx = Some c \<Longrightarrow> hs_deadline now tmo ctx \<le> c"
  by (auto simp: hs_deadline_def handshake_timeout_def Let_def split: option.split)

lemma by_after: "by_time dl s @ after_time dl s = map snd s"
  by (simp add: by_time_def after_time_def flip: map_append)

text \<open>Input after the deadline does not decide whether the dial succeeds, nor the version and the identity:
  a relay that stalls is given up, however long it goes on.\<close>

lemma dial_decided_by_deadline:
  assumes "tls addr = Some t" "tls' addr = Some (t\<lparr>tl_script := s'\<rparr>)"
    and "by_time (hs_deadline now1 tmo ctx) (tl_script t) = by_time (hs_deadline now1 tmo ctx) s'"
  shows "(case Dial K tls addr ed now1 now2 tmo ctx of
      Inl e \<Rightarrow> Dial K tls' addr ed now1 now2 tmo ctx = Inl e
    | Inr l \<Rightarrow> \<exists>l'. Dial K tls' addr ed now1 now2 tmo ctx = Inr l' \<and> linkVersion l' = linkVersion l \<and> edIdentity l' = edIdentity l)"
  using assms by (auto simp: Dial_def Let_def split: sum.splits)

lemma dial_sound:
  assumes "Dial K tls addr (Some expected) now1 now2 0 ctx = Inr l"
  shows "\<exists>t verCell cs netinfo certsPayload der rest. tls addr = Some t \<and>
    by_time (hs_deadline now1 0 ctx) (tl_script t) =
      cell_Encode CircIDLenShort verCell @ concat (map (cell_Encode CircIDLenWide) (cs @ [netinfo])) @ rest \<and>
    cmd verCell = CmdVersions \<and> cmd netinfo = CmdNetinfo \<and> length cs < 64 \<and>
    fold (\<lambda>x acc. if cmd x = CmdCerts then Some (payload x) else acc) cs None = Some certsPayload \<and>
    tl_leaf t = Some der \<and> verifyCerts K certsPayload der now2 = Inr expected \<and> edIdentity l = expected \<and>
    hs_deadline now1 0 ctx \<le> now1 + 30000000000 \<and>
    cin (lconn l) = rest @ after_time (hs_deadline now1 0 ctx) (tl_script t) \<and>
    map snd (tl_script t) =
      cell_Encode CircIDLenShort verCell @ concat (map (cell_Encode CircIDLenWide) (cs @ [netinfo])) @ cin (lconn l) \<and>
    (\<forall>ch. link_readLoop l \<noteq> Some ch \<or> chClosed ch)"
proof -
  let ?dl = "hs_deadline now1 0 ctx"
  obtain t where t: "tls addr = Some t" using assms by (cases "tls addr") (auto simp: Dial_def)
  let ?cn = "\<lparr>cin = by_time ?dl (tl_script t), cout = [], cquota = tl_quota t\<rparr>"
  obtain v ident cn where h: "handshake K addr (Some expected) (tl_leaf t) now2 ?cn = Inr ((v, ident), cn)"
    and l: "l = \<lparr>linkVersion = v, edIdentity = ident, lconn = cn\<lparr>cin := cin cn @ after_time ?dl (tl_script t)\<rparr>, lchan = channel_new\<rparr>"
    using assms t by (auto simp: Dial_def Let_def split: sum.splits)
  obtain verCell cs netinfo certsPayload der where y:
    "cin ?cn = cell_Encode CircIDLenShort verCell @ concat (map (cell_Encode CircIDLenWide) (cs @ [netinfo])) @ cin cn"
    "cmd verCell = CmdVersions" "negotiateVersion (payload verCell) = Inr v"
    "length cs < maxHandshakeCells" "cmd netinfo = CmdNetinfo" "\<forall>x \<in> set cs. cmd x \<noteq> CmdNetinfo"
    "fold (\<lambda>x acc. if cmd x = CmdCerts then Some (payload x) else acc) cs None = Some certsPayload"
    "tl_leaf t = Some der" "verifyCerts K certsPayload der now2 = Inr ident"
    "Some expected = None \<or> Some expected = Some ident"
    by (rule handshake_sound [OF h])
  have e: "ident = expected" and x1: "by_time ?dl (tl_script t) =
      cell_Encode CircIDLenShort verCell @ concat (map (cell_Encode CircIDLenWide) (cs @ [netinfo])) @ cin cn"
    using y(1,10) by simp_all
  have "chClosed ch" if "link_readLoop l = Some ch" for ch
    using chan_wf_readLoop [OF that [unfolded link_readLoop_def]] chan_wf_new by (simp add: l)
  then have c: "\<forall>ch. link_readLoop l \<noteq> Some ch \<or> chClosed ch" by blast
  have f: "cin (lconn l) = cin cn @ after_time ?dl (tl_script t)" "edIdentity l = expected" by (simp_all add: l e)
  have m: "map snd (tl_script t) =
      cell_Encode CircIDLenShort verCell @ concat (map (cell_Encode CircIDLenWide) (cs @ [netinfo])) @ cin (lconn l)"
    unfolding by_after [of ?dl "tl_script t", symmetric] x1 f(1) by simp
  show ?thesis
    by (intro exI conjI) (rule t x1 y(2,5,4,7,8) f m c hs_deadline_bound(1) y(9) [unfolded e])+
qed

section \<open>Properties\<close>

text \<open>C13: A channel that \<^verbatim>\<open>Dial\<close> returns is to the relay that was asked for: the bytes up to the handshake deadline, at
  most thirty seconds away and no later than the caller's, begin with VERSIONS and, within 64 cells,
  NETINFO, and the last CERTS cell before it proves the expected Ed25519 identity for the certificate of this TLS
  connection; every byte behind the handshake, whenever it arrives, is left to the receive loop, which
  once it ends has closed the channel.\<close>

theorem dial_reaches_the_relay:
  assumes "Dial K tls addr (Some expected) now1 now2 0 ctx = Inr l"
  shows "\<exists>t verCell cs netinfo certsPayload der rest. tls addr = Some t \<and>
    by_time (hs_deadline now1 0 ctx) (tl_script t) =
      cell_Encode CircIDLenShort verCell @ concat (map (cell_Encode CircIDLenWide) (cs @ [netinfo])) @ rest \<and>
    cmd verCell = CmdVersions \<and> cmd netinfo = CmdNetinfo \<and> length cs < 64 \<and>
    fold (\<lambda>x acc. if cmd x = CmdCerts then Some (payload x) else acc) cs None = Some certsPayload \<and>
    tl_leaf t = Some der \<and> verifyCerts K certsPayload der now2 = Inr expected \<and> edIdentity l = expected \<and>
    hs_deadline now1 0 ctx \<le> now1 + 30000000000 \<and>
    cin (lconn l) = rest @ after_time (hs_deadline now1 0 ctx) (tl_script t) \<and>
    map snd (tl_script t) =
      cell_Encode CircIDLenShort verCell @ concat (map (cell_Encode CircIDLenWide) (cs @ [netinfo])) @ cin (lconn l) \<and>
    (\<forall>ch. link_readLoop l \<noteq> Some ch \<or> chClosed ch)"
  by (rule dial_sound [OF assms])

lemma by_time_early: "0 \<le> dl \<Longrightarrow> by_time dl (map (Pair 0) b) = b"
proof -
  assume "0 \<le> dl"
  then show "by_time dl (map (Pair 0) b) = b" unfolding by_time_def by (induction b) simp_all
qed

theorem dial_reaches_the_relay_witness:
  "\<exists>tls l. Dial toy_crypto tls [] (Some (replicate 32 1)) 0 0 0 None = Inr l \<and> edIdentity l = replicate 32 1 \<and>
     hs_deadline 0 0 None = 30000000000"
proof -
  obtain cp where cp: "length cp \<le> MaxVariableBody" "verifyCerts toy_crypto cp [9] 0 = Inr (replicate 32 1)"
    using toy_certs_verify by blast
  define inp where "inp = cell_Encode CircIDLenShort \<lparr>circID = 0, cmd = CmdVersions, payload = encodeVersions [3, 4, 5]\<rparr> @
      cell_Encode CircIDLenWide \<lparr>circID = 0, cmd = CmdCerts, payload = cp\<rparr> @
      cell_Encode CircIDLenWide \<lparr>circID = 0, cmd = CmdNetinfo, payload = replicate PayloadLen 0\<rparr> @ []"
  define tls :: "string \<Rightarrow> tls_conn option" where
    "tls a = Some \<lparr>tl_script = map (Pair 0) inp, tl_quota = None, tl_leaf = Some [9]\<rparr>" for a
  have dl: "hs_deadline 0 0 None = 30000000000" by (simp add: hs_deadline_def handshake_timeout_def)
  obtain cn' where "handshake toy_crypto [] (Some (replicate 32 1)) (Some [9]) 0 \<lparr>cin = inp, cout = [], cquota = None\<rparr> =
      Inr ((5, replicate 32 1), cn')"
    using handshake_complete [of "\<lparr>cin = inp, cout = [], cquota = None\<rparr>" "[3, 4, 5]" cp "replicate PayloadLen 0" "[]"
        toy_crypto "[9]" 0 "replicate 32 1" "Some (replicate 32 1)" "[]"] cp
    by (auto simp: inp_def)
  then obtain l where l: "Dial toy_crypto tls [] (Some (replicate 32 1)) 0 0 0 None = Inr l"
    by (auto simp: Dial_def tls_def dl by_time_early Let_def)
  from dial_reaches_the_relay [OF this] have "edIdentity l = replicate 32 1" by blast
  with l dl show ?thesis by blast
qed

end
