(* ===== verification/Trust_Chain.thy ===== *)
theory Trust_Chain
  imports Client_Life Link_Dial
begin

text \<open>From the directory authorities to the keys of a circuit.  Here the surroundings that \<^verbatim>\<open>Tor_Client\<close> takes as
  parameters are the program's own: microdescriptors come from the directory client, the guard is
  dialled by \<^verbatim>\<open>channel.Dial\<close>.  The locale \<open>md_source\<close> is what the client relies on in a fetcher of
  microdescriptors; both fetchers of the directory client satisfy it.\<close>

section \<open>The surroundings of a client\<close>

text \<open>The links that have been opened, and the rest of the world.\<close>

record 'w tworld =
  tw_links :: "link list"
  tw_net :: 'w

definition via_dir :: "(string list \<Rightarrow> 'w \<Rightarrow> (dir_err + (string \<rightharpoonup> microdescriptor)) \<times> 'w) \<Rightarrow>
    string list \<Rightarrow> 'w \<Rightarrow> (string \<rightharpoonup> microdescriptor) option \<times> 'w" where
  "via_dir f hs w = (case f hs w of (Inl e, w) \<Rightarrow> (None, w) | (Inr out, w) \<Rightarrow> (Some out, w))"

text \<open>\<^verbatim>\<open>channel.Dial\<close> as \<^verbatim>\<open>connectGuard\<close> calls it; the channel is the position of the link.\<close>

definition dial_link :: "crypto \<Rightarrow> (string \<Rightarrow> 'w \<Rightarrow> tls_conn option \<times> 'w) \<Rightarrow> ('w \<Rightarrow> int \<times> 'w) \<Rightarrow> int option \<Rightarrow>
    string \<Rightarrow> bytes \<Rightarrow> 'w tworld \<Rightarrow> nat option \<times> 'w tworld" where
  "dial_link K tls clk ctx addr ed w =
     (case tls addr (tw_net w) of (t, n) \<Rightarrow>
      case clk n of (now1, n) \<Rightarrow>
      case clk n of (now2, n) \<Rightarrow>
      case Dial K (\<lambda>a. t) addr (Some ed) now1 now2 0 ctx of
        Inl e \<Rightarrow> (None, w\<lparr>tw_net := n\<rparr>)
      | Inr l \<Rightarrow> (Some (length (tw_links w)), w\<lparr>tw_net := n, tw_links := tw_links w @ [l]\<rparr>))"

record 'w host_env =
  hoRand :: "'w tworld \<Rightarrow> (int \<Rightarrow> int) \<times> 'w tworld"
  hoTLS :: "string \<Rightarrow> 'w \<Rightarrow> tls_conn option \<times> 'w"
  hoClock :: "'w \<Rightarrow> int \<times> 'w"
  hoCtx :: "int option"
  hoRead :: "string \<Rightarrow> 'w \<Rightarrow> string option \<times> 'w"
  hoWrite :: "string \<Rightarrow> string \<Rightarrow> 'w \<Rightarrow> 'w"

definition tor_cenv :: "crypto \<Rightarrow> (bytes \<Rightarrow> rsaKey option) \<Rightarrow> 'w tworld denv \<Rightarrow> 'w host_env \<Rightarrow> 'w tworld dirClient \<Rightarrow> 'w tworld cenv" where
  "tor_cenv K pkcs1 D H dir =
     \<lparr>ceRand = hoRand H,
      ceFetch = via_dir (FetchMicrodescriptors K D dir),
      ceFetchDirect = via_dir (FetchMicrodescriptorsDirect K D dir),
      ceDial = dial_link K (hoTLS H) (hoClock H) (hoCtx H),
      ceRead = (\<lambda>path w. case hoRead H path (tw_net w) of (b, n) \<Rightarrow> (b, w\<lparr>tw_net := n\<rparr>)),
      ceWrite = (\<lambda>path b w. w\<lparr>tw_net := hoWrite H path b (tw_net w)\<rparr>),
      ceNow = eNow D,
      ceRefresh = (\<lambda>w. case Refresh K pkcs1 D dir w of (Inl e, w) \<Rightarrow> (None, w) | (Inr cons, w) \<Rightarrow> (Some cons, w))\<rparr>"

section \<open>Sources of microdescriptors\<close>

locale md_source =
  fixes K :: crypto
    and fetch :: "string list \<Rightarrow> 'w \<Rightarrow> (string \<rightharpoonup> microdescriptor) option \<times> 'w"
  assumes fetch_addressed: "fetch hs w = (Some out, w') \<Longrightarrow> addressed K out"
begin

lemma microdescVia_keeps:
  assumes "microdescVia fetch rs c w = (r, c', w')" "addressed K (tcMdCache c)"
  shows "addressed K (tcMdCache c') \<and> (\<forall>md. r = Inr md \<longrightarrow> genuine K (rsMicrodescHash rs) md)"
  using assms fetch_addressed
  by (auto simp: microdescVia_def addressed_def Let_def split: option.splits prod.splits if_splits)

lemma selected_via_keeps:
  assumes "selected_via (microdescVia fetch) rs c w = (r, c', w')" "addressed K (tcMdCache c)"
  shows "addressed K (tcMdCache c') \<and> (\<forall>x. r = Inr x \<longrightarrow> genuine K (rsMicrodescHash (selRS x)) (selMD x))"
proof (cases rs)
  case (Some a)
  obtain m c1 w1 where m: "microdescVia fetch a c w = (m, c1, w1)" by (metis surj_pair)
  show ?thesis
    using assms(1) Some m microdescVia_keeps [OF m assms(2)] by (cases m) (auto simp: selected_via_def)
qed (use assms in \<open>auto simp: selected_via_def\<close>)

lemma pick_attempts_keeps:
  assumes "pick_attempts cons sel chosen mdOK (microdescVia fetch) n e ex c w = (r, c', w')" "addressed K (tcMdCache c)"
  shows "addressed K (tcMdCache c') \<and> (\<forall>x. r = Inr x \<longrightarrow> genuine K (rsMicrodescHash (selRS x)) (selMD x))"
  using assms
proof (induction n arbitrary: e ex c w)
  case (Suc n)
  obtain s w1 where s: "sel ex w = (s, w1)" by fastforce
  show ?case
  proof (cases s)
    case (Inr i)
    obtain m c1 w2 where m: "microdescVia fetch (Routers cons ! i) c w1 = (m, c1, w2)" by (metis surj_pair)
    note k = microdescVia_keeps [OF m Suc.prems(2)]
    show ?thesis
      using Suc.prems(1) s Inr m k Suc.IH [where c = c1] by (cases m) (auto simp: Let_def split: if_splits)
  qed (use Suc.prems s in auto)
qed auto

lemma pickRelayVia_keeps:
  "pickRelayVia cons sel chosen mdOK (microdescVia fetch) c w = (r, c', w') \<Longrightarrow> addressed K (tcMdCache c) \<Longrightarrow>
   addressed K (tcMdCache c') \<and> (\<forall>x. r = Inr x \<longrightarrow> genuine K (rsMicrodescHash (selRS x)) (selMD x))"
  unfolding pickRelayVia_def by (rule pick_attempts_keeps)

end

lemma FetchMicrodescriptors_addressed:
  "via_dir (FetchMicrodescriptors K D dir) hs w = (Some out, w') \<Longrightarrow> addressed K out"
  "via_dir (FetchMicrodescriptorsDirect K D dir) hs w = (Some out, w') \<Longrightarrow> addressed K out"
  unfolding via_dir_def FetchMicrodescriptors_def FetchMicrodescriptorsDirect_def
  by (auto dest: fetch_microdescriptors_addressed split: prod.splits sum.splits)

interpretation tunnelled: md_source K "via_dir (FetchMicrodescriptors K D dir)" for K D dir
  by unfold_locales (rule FetchMicrodescriptors_addressed)

interpretation direct: md_source K "via_dir (FetchMicrodescriptorsDirect K D dir)" for K D dir
  by unfold_locales (rule FetchMicrodescriptors_addressed)

section \<open>The guard\<close>

text \<open>The last attempt of \<^verbatim>\<open>connectGuard\<close>: the relay it looked up, the channel it dialled, and what it wrote
  afterwards.\<close>

lemma guard_attempts_last:
  assumes "guard_attempts E dd persisted avoid exclude first n c w = (None, c', w')" "P c"
    and "\<And>rs c w r c1 w1. P c \<Longrightarrow> relay_info E rs c w = (r, c1, w1) \<Longrightarrow> P c1"
  shows "\<exists>rs info c0 c1 w0 w1 w2 ch. P c0 \<and> rs \<in> set (Routers (tcSel c0)) \<and> relay_info E rs c0 w0 = (Inr info, c1, w1) \<and>
    ceDial E (ORAddr info) (EdIdentity info) w1 = (Some ch, w2) \<and>
    c' = c1\<lparr>tcGuardChan := Some ch, tcGuardInfo := info\<rparr> \<and> w' = saveGuard E dd (rsIdentity rs) w2"
  using assms(1,2)
proof (induction n arbitrary: first c w)
  case (Suc n)
  let ?P = "(case (if first \<and> persisted \<noteq> [] then findRouterByIdentityHex c persisted else None) of
              Some rs \<Rightarrow> (Inr rs, w)
            | None \<Rightarrow>
              (case with_rand E (SelectGuard (tcSel c)) exclude w of
                 (Inl e, w) \<Rightarrow> (Inl NoRelay, w)
               | (Inr i, w) \<Rightarrow> (Inr (Routers (tcSel c) ! i), w)))"
  obtain rs w1 where s: "?P = (Inr rs, w1)"
    using Suc.prems(1) by (cases ?P) (auto split: sum.splits simp: Let_def)
  have mem: "rs \<in> set (Routers (tcSel c))"
    using s guard_fits [of "tcSel c" exclude] nth_mem
    by (fastforce simp: with_rand_def findRouterByIdentityHex_def find_Some_iff split: option.splits if_splits prod.splits sum.splits)
  show ?case
  proof (cases "avoid = Some (rsIdentity rs)")
    case True
    then have "guard_attempts E dd persisted avoid exclude False n c w1 = (None, c', w')" using Suc.prems s by simp
    then show ?thesis using Suc.IH Suc.prems(2) by blast
  next
    case False
    obtain i c1 w2 where i: "relay_info E rs c w1 = (i, c1, w2)" by (metis surj_pair)
    note p1 = assms(3) [OF Suc.prems(2) i]
    show ?thesis
    proof (cases i)
      case (Inl e)
      then have "guard_attempts E dd persisted avoid exclude False n c1 w2 = (None, c', w')"
        using Suc.prems s False i by simp
      then show ?thesis using Suc.IH p1 by blast
    next
      case (Inr info)
      obtain d w3 where d: "ceDial E (ORAddr info) (EdIdentity info) w2 = (d, w3)" by fastforce
      show ?thesis
      proof (cases d)
        case None
        then have "guard_attempts E dd persisted avoid exclude False n c1 w3 = (None, c', w')"
          using Suc.prems s False i Inr d by simp
        then show ?thesis using Suc.IH p1 by blast
      next
        case (Some ch)
        then have "c' = c1\<lparr>tcGuardChan := Some ch, tcGuardInfo := info\<rparr>" "w' = saveGuard E dd (rsIdentity rs) w3"
          using Suc.prems s False i Inr d by auto
        then show ?thesis using Suc.prems(2) mem i Inr d Some by blast
      qed
    qed
  qed
qed simp

lemma relay_info_genuine:
  assumes "relay_info (tor_cenv K pkcs1 D H dir) rs c w = (r, c1, w1)" "addressed K (tcMdCache c)"
  shows "addressed K (tcMdCache c1) \<and> (\<forall>info. r = Inr info \<longrightarrow> (\<exists>md. info = toRelayInfo rs md \<and> genuine K (rsMicrodescHash rs) md))"
proof -
  obtain m c2 w2 where m: "microdescVia (via_dir (FetchMicrodescriptors K D dir)) rs c w = (m, c2, w2)" by (metis surj_pair)
  from tunnelled.microdescVia_keeps [OF this assms(2)] show ?thesis
    using assms(1) m by (cases m) (auto simp: relay_info_def tor_cenv_def)
qed

text \<open>A link that \<open>dial_link\<close> gives is held to the identity asked for, proved on the TLS connection it is over.\<close>

definition link_proven :: "crypto \<Rightarrow> (string \<Rightarrow> 'w \<Rightarrow> tls_conn option \<times> 'w) \<Rightarrow> string \<Rightarrow> bytes \<Rightarrow> link \<Rightarrow> bool" where
  "link_proven K tls addr ed l \<longleftrightarrow> edIdentity l = ed \<and>
     (\<exists>n n' t der certsPayload now. tls addr n = (Some t, n') \<and> tl_leaf t = Some der \<and> verifyCerts K certsPayload der now = Inr ed)"

lemma dial_link_proven:
  assumes "dial_link K tls clk ctx addr ed w = (Some ch, w')"
  shows "ch < length (tw_links w') \<and> link_proven K tls addr ed (tw_links w' ! ch)"
proof -
  obtain t n1 where t: "tls addr (tw_net w) = (t, n1)" by fastforce
  obtain now1 n2 where a: "clk n1 = (now1, n2)" by fastforce
  obtain now2 n3 where b: "clk n2 = (now2, n3)" by fastforce
  obtain l where l: "Dial K (\<lambda>a. t) addr (Some ed) now1 now2 0 ctx = Inr l"
    and w: "ch = length (tw_links w)" "w' = w\<lparr>tw_net := n3, tw_links := tw_links w @ [l]\<rparr>"
    using assms t a b by (auto simp: dial_link_def split: sum.splits)
  from dial_sound [OF l] have "link_proven K tls addr ed l" unfolding link_proven_def using t by blast
  then show ?thesis using w by simp
qed

text \<open>What \<^verbatim>\<open>connectGuard\<close> leaves when it succeeds, for a new client and for a rotation.\<close>

definition guard_chain :: "crypto \<Rightarrow> 'w host_env \<Rightarrow> torClient \<Rightarrow> 'w tworld \<Rightarrow> bool" where
  "guard_chain K H c w \<longleftrightarrow> addressed K (tcMdCache c) \<and>
     (\<exists>rs md ch. rs \<in> set (Routers (tcSel c)) \<and> genuine K (rsMicrodescHash rs) md \<and>
        tcGuardInfo c = toRelayInfo rs md \<and> tcGuardChan c = Some ch \<and> ch < length (tw_links w) \<and>
        link_proven K (hoTLS H) (ORAddr (toRelayInfo rs md)) (mdEd25519ID md) (tw_links w ! ch))"

lemma connectGuard_chain:
  assumes "connectGuard (tor_cenv K pkcs1 D H dir) dd avoid t w = (None, c, w')" "addressed K (tcMdCache t)"
  shows "guard_chain K H c w' \<and> tcSel c = tcSel t"
proof -
  let ?E = "tor_cenv K pkcs1 D H dir" and ?P = "\<lambda>c. addressed K (tcMdCache c) \<and> tcSel c = tcSel t"
  obtain persisted exclude w2 where "guard_attempts ?E dd persisted avoid exclude True 8 t w2 = (None, c, w')"
    using assms(1) by (auto simp: connectGuard_def Let_def split: prod.splits)
  moreover have "?P t" using assms(2) by simp
  moreover have "?P c1" if "?P c" "relay_info ?E rs c w = (r, c1, w1)" for rs c w r c1 w1
    using relay_info_genuine [OF that(2)] relay_info_net [OF that(2)] that(1) by (simp add: same_net_def)
  ultimately have "\<exists>rs info c0 c1 w0 w1 w2 ch. ?P c0 \<and> rs \<in> set (Routers (tcSel c0)) \<and>
      relay_info ?E rs c0 w0 = (Inr info, c1, w1) \<and> ceDial ?E (ORAddr info) (EdIdentity info) w1 = (Some ch, w2) \<and>
      c = c1\<lparr>tcGuardChan := Some ch, tcGuardInfo := info\<rparr> \<and> w' = saveGuard ?E dd (rsIdentity rs) w2"
    by (rule guard_attempts_last [where P = ?P])
  then obtain rs info c0 c1 w3 w4 w5 ch where
    p: "addressed K (tcMdCache c0)" "tcSel c0 = tcSel t" "rs \<in> set (Routers (tcSel c0))" "relay_info ?E rs c0 w3 = (Inr info, c1, w4)"
      "ceDial ?E (ORAddr info) (EdIdentity info) w4 = (Some ch, w5)"
      "c = c1\<lparr>tcGuardChan := Some ch, tcGuardInfo := info\<rparr>" "w' = saveGuard ?E dd (rsIdentity rs) w5"
    by blast
  from relay_info_genuine [OF p(4,1)] obtain md where
    md: "info = toRelayInfo rs md" "genuine K (rsMicrodescHash rs) md" "addressed K (tcMdCache c1)" by blast
  have "ch < length (tw_links w5) \<and> link_proven K (hoTLS H) (ORAddr info) (mdEd25519ID md) (tw_links w5 ! ch)"
    using p(5) by (intro dial_link_proven) (simp add: tor_cenv_def md(1) toRelayInfo_def)
  moreover have "tw_links w' = tw_links w5" by (simp add: p(7) saveGuard_def tor_cenv_def)
  moreover have "tcSel c1 = tcSel t" using relay_info_net [OF p(4)] p(2) by (simp add: same_net_def)
  ultimately show ?thesis unfolding guard_chain_def using p(2,3,6) md by auto
qed

lemma RotateGuard_chain:
  "RotateGuard (tor_cenv K pkcs1 D H dir) c w = (Inr old, c', w') \<Longrightarrow> addressed K (tcMdCache c) \<Longrightarrow>
   guard_chain K H c' w' \<and> tcSel c' = tcSel c"
  using connectGuard_chain by (fastforce simp: RotateGuard_def Let_def split: prod.splits option.splits)

section \<open>Paths\<close>

text \<open>Every hop of an exit or directory path is a relay whose keys are those of the microdescriptor that the
  consensus names for it.\<close>

lemma paths_genuine:
  assumes "exit_path (tor_cenv K pkcs1 D H dir) port c w = (Inr (g, m, x), c', w') \<or>
      dir_path (tor_cenv K pkcs1 D H dir) c w = (Inr (g, m, x), c', w')"
    and "addressed K (tcMdCache c)" "y \<in> {g, m, x}"
  shows "genuine K (rsMicrodescHash (selRS y)) (selMD y) \<and> addressed K (tcMdCache c')"
  using assms
  by (auto simp: exit_path_def dir_path_def tor_cenv_def Let_def split: if_splits prod.splits sum.splits
      dest!: tunnelled.selected_via_keeps tunnelled.pickRelayVia_keeps direct.selected_via_keeps direct.pickRelayVia_keeps)

section \<open>Properties\<close>


end
