(* ===== verification/Proxy_Client.thy ===== *)
theory Proxy_Client
  imports Client_Life Socks
begin

text \<open>The SOCKS proxy over the Tor client, as \<^verbatim>\<open>runSocks\<close> wires them: the diallers a \<^verbatim>\<open>socks.Server\<close> gets are the
  \<^verbatim>\<open>DialContext\<close> methods of the clients of the pool, and the connections it relays are the client's tracked
  connections.  The lemmas follow the stream slots of the circuit pools through a dial and through a whole
  SOCKS connection.\<close>

section \<open>The wiring\<close>

text \<open>The clients by their addresses, and the network.\<close>

record 'w proxy_world =
  pw_clients :: "nat \<Rightarrow> client"
  pw_net :: 'w

abbreviation pool_of :: "'w proxy_world \<Rightarrow> nat \<Rightarrow> pool" where
  "pool_of pw d \<equiv> clPool (pw_clients pw d)"

text \<open>An upstream connection is a client with the pooled circuit its stream is on; \<open>ids\<close> are the identities
  of the errors an error wraps, \<open>F\<close> the pool's \<^verbatim>\<open>dialer\<close> and \<open>R\<close> the relay between the two connections.\<close>

definition tor_upstream :: "crypto \<Rightarrow> 'w oenv \<Rightarrow>
    ((bytes \<times> (routerStatus \<times> microdescriptor) ringNode) list \<Rightarrow> (bytes \<times> (routerStatus \<times> microdescriptor) ringNode) list) \<Rightarrow>
    bool \<Rightarrow> (onion_err \<Rightarrow> err_id list) \<Rightarrow>
    (string \<Rightarrow> string \<Rightarrow> 'w proxy_world \<Rightarrow> (err_id list + nat) \<times> 'w proxy_world) \<Rightarrow>
    (sconn \<Rightarrow> nat \<times> nat \<Rightarrow> 'w proxy_world \<Rightarrow> sconn \<times> 'w proxy_world) \<Rightarrow>
    (nat, nat \<times> nat, 'w proxy_world) upstream" where
  "tor_upstream K N srt got ids F R =
     \<lparr>up_factory = F,
      up_dial = (\<lambda>d network addr pw.
        case DialContext K N srt got network addr (pw_clients pw d) (pw_net pw) of
          (r, cl, w) \<Rightarrow>
            (case r of Inl e \<Rightarrow> Inl (ids e) | Inr a \<Rightarrow> Inr (d, a),
             pw\<lparr>pw_clients := (pw_clients pw)(d := cl), pw_net := w\<rparr>)),
      up_relay = R,
      up_close = (\<lambda>(d, a) pw.
        case release_slot N a (pool_of pw d) (pw_net pw) of
          (p, w) \<Rightarrow> pw\<lparr>pw_clients := (pw_clients pw)(d := (pw_clients pw d)\<lparr>clPool := p\<rparr>), pw_net := w\<rparr>)\<rparr>"

section \<open>Stream slots through a dial\<close>

lemma slots_destroy [simp]: "slots (destroyLocked a p) = slots p"
  by (simp add: destroyLocked_def)

lemma slots_release [simp]: "slots (releaseStream now a p) = remove1 a (slots p)"
  by (simp add: releaseStream_def Let_def)

lemma see_closed_keeps: "pool_wf p \<Longrightarrow> pool_wf (fst (see_closed N a (p, w))) \<and> slots (fst (see_closed N a (p, w))) = slots p"
  by (auto simp: see_closed_def intro!: pool_wf_upd split: prod.split bool.split)

lemma observe_keeps:
  assumes "pool_wf p" "observe_pool N p w = (q, w')"
  shows "pool_wf q \<and> slots q = slots p"
proof -
  have "pool_wf p \<Longrightarrow> pool_wf (fst (fold (see_closed N) l (p, w))) \<and> slots (fst (fold (see_closed N) l (p, w))) = slots p" for l p w
  proof (induction l arbitrary: p w)
    case (Cons a l)
    obtain p1 w1 where s: "see_closed N a (p, w) = (p1, w1)" by fastforce
    then show ?case using see_closed_keeps [OF Cons.prems, of N a w] Cons.IH [of p1 w1] by simp
  qed simp
  from this [OF assms(1), of "allPooledLocked p" w] show ?thesis using assms(2) by (simp add: observe_pool_def)
qed

text \<open>The slots a dial leaves: those it found, and one more for a stream that is open.\<close>

definition slot_of :: "'e + nat \<Rightarrow> nat list" where
  "slot_of r = (case r of Inl e \<Rightarrow> [] | Inr a \<Rightarrow> [a])"

lemma slot_of_simps [simp]: "slot_of (Inl e) = []" "slot_of (Inr a) = [a]"
  by (simp_all add: slot_of_def)

lemma begin_slots:
  assumes "pool_wf p" "slots p = a # l" "begin_pooled N addr a p w = (r, q, w')"
  shows "pool_wf q \<and> slots q = slot_of r @ l"
  using assms pool_wf_release [OF assms(1), of a]
  by (auto simp: begin_pooled_def release_slot_def Let_def split: prod.splits bool.splits)

lemma acquire_slots:
  assumes "acquireClearnet now port p = (r, q) \<or> acquireOnion now h p = (r, q) \<and> h \<noteq> []" "pool_wf p"
  shows "pool_wf q \<and> slots q = (case r of None \<Rightarrow> [] | Some a \<Rightarrow> [a]) @ slots p"
proof (cases r)
  case None
  then show ?thesis using assms by (auto simp: acquireClearnet_def acquireOnion_def split: option.splits)
next
  case (Some a)
  then have "pool_wf q" using assms pool_wf_acquire [OF assms(2), of now port a q h] by auto
  moreover have "q = take_slot a p"
    using assms(1) Some by (auto simp: acquireClearnet_def acquireOnion_def split: option.splits)
  ultimately show ?thesis using Some by (simp add: take_slot_def)
qed

lemma new_slots:
  "poolNewClearnet now k md cl p = (a, q) \<Longrightarrow> pool_wf p \<Longrightarrow> pool_wf q \<and> slots q = a # slots p"
  "poolNewOnion now k host cl p = (a, q) \<Longrightarrow> host \<noteq> [] \<Longrightarrow> pool_wf p \<Longrightarrow> pool_wf q \<and> slots q = a # slots p"
  using pool_wf_newClearnet [of p now k md cl a q] pool_wf_newOnion [of p host now k cl a q]
  by (auto simp: poolNewClearnet_def poolNewOnion_def new_circuit_def)

lemma dial_clearnet_slots:
  assumes "pool_wf (clPool cl)" "dial_clearnet N addr port cl w = (r, cl', w')"
  shows "pool_wf (clPool cl') \<and> slots (clPool cl') = slot_of r @ slots (clPool cl)"
proof -
  obtain p1 w1 where o: "observe_pool N (clPool cl) w = (p1, w1)" by fastforce
  note k = observe_keeps [OF assms(1) o]
  obtain now w2 where n: "ceNow (oeC N) w1 = (now, w2)" by fastforce
  obtain ra p2 where q: "acquireClearnet now port p1 = (ra, p2)" by fastforce
  note qs = acquire_slots [OF disjI1 [OF q] conjunct1 [OF k]]
  show ?thesis
  proof (cases ra)
    case (Some a)
    obtain rc pc wc where bp: "begin_pooled N addr a p2 w2 = (rc, pc, wc)" by (metis surj_pair)
    have "pool_wf pc \<and> slots pc = slot_of rc @ slots p1" using qs Some by (intro begin_slots [OF _ _ bp]) simp_all
    then show ?thesis using assms(2) o n q k Some bp by (auto simp: dial_clearnet_def)
  next
    case None
    obtain rb t w3 where b: "buildExitCircuit N port (clTor cl) w2 = (rb, t, w3)" by (metis surj_pair)
    show ?thesis
    proof (cases rb)
      case (Inl e)
      then show ?thesis using assms(2) o n q None b qs k by (auto simp: dial_clearnet_def)
    next
      case (Inr x)
      obtain c exit where x: "x = (c, exit)" by fastforce
      obtain born w4 where bo: "ceNow (oeC N) w3 = (born, w4)" by fastforce
      obtain cd w5 where cd: "oeClosed N c w4 = (cd, w5)" by fastforce
      obtain a p3 where nw: "poolNewClearnet born c (selMD exit) cd p2 = (a, p3)" by fastforce
      obtain rc pc wc where bp: "begin_pooled N addr a p3 w5 = (rc, pc, wc)" by (metis surj_pair)
      have "pool_wf p3" "slots p3 = a # slots p2" using new_slots(1) [OF nw] qs by auto
      then have "pool_wf pc \<and> slots pc = slot_of rc @ slots p2" by (rule begin_slots [OF _ _ bp])
      then show ?thesis using assms(2) o n q None b Inr x bo cd nw qs k bp by (auto simp: dial_clearnet_def)
    qed
  qed
qed

lemma dialOnion_slots:
  assumes "pool_wf p" "host \<noteq> []" "dialOnion K N srt host port c p w = (r, c', q, w')"
  shows "pool_wf q \<and> slots q = slot_of r @ slots p"
proof -
  obtain p1 w1 where o: "observe_pool N p w = (p1, w1)" by fastforce
  note k = observe_keeps [OF assms(1) o]
  obtain now w2 where n: "ceNow (oeC N) w1 = (now, w2)" by fastforce
  obtain ra p2 where q: "acquireOnion now host p1 = (ra, p2)" by fastforce
  note qs = acquire_slots [OF disjI2 [OF conjI [OF q assms(2)]] conjunct1 [OF k]]
  show ?thesis
  proof (cases ra)
    case (Some a)
    obtain rc pc wc where bp: "begin_pooled N ('':'' @ Itoa port) a p2 w2 = (rc, pc, wc)" by (metis surj_pair)
    have "pool_wf pc \<and> slots pc = slot_of rc @ slots p1" using qs Some by (intro begin_slots [OF _ _ bp]) simp_all
    then show ?thesis using assms(3) o n q k Some bp by (auto simp: dialOnion_def)
  next
    case None
    obtain rb t w3 where b: "onion_circuit K N srt host c w2 = (rb, t, w3)" by (metis surj_pair)
    show ?thesis
    proof (cases rb)
      case (Inl e)
      then show ?thesis using assms(3) o n q None b qs k by (auto simp: dialOnion_def)
    next
      case (Inr x)
      obtain born w4 where bo: "ceNow (oeC N) w3 = (born, w4)" by fastforce
      obtain cd w5 where cd: "oeClosed N x w4 = (cd, w5)" by fastforce
      obtain a p3 where nw: "poolNewOnion born x host cd p2 = (a, p3)" by fastforce
      obtain rc pc wc where bp: "begin_pooled N ('':'' @ Itoa port) a p3 w5 = (rc, pc, wc)" by (metis surj_pair)
      have "pool_wf p3" "slots p3 = a # slots p2" using new_slots(2) [OF nw assms(2)] qs by auto
      then have "pool_wf pc \<and> slots pc = slot_of rc @ slots p2" by (rule begin_slots [OF _ _ bp])
      then show ?thesis using assms(3) o n q None b Inr bo cd nw qs k bp by (auto simp: dialOnion_def)
    qed
  qed
qed

lemma DialContext_slots:
  assumes "pool_wf (clPool cl)" "DialContext K N srt got network addr cl w = (r, cl', w')"
  shows "pool_wf (clPool cl') \<and> slots (clPool cl') = slot_of r @ slots (clPool cl)"
proof (cases "network \<in> {''tcp'', ''tcp4'', ''tcp6''}")
  case True
  obtain t w1 where f: "ensureFreshConsensus (oeC N) got (clTor cl) w = (t, w1)" by fastforce
  show ?thesis
  proof (cases "DialContext_route network addr")
    case (Inl e)
    then show ?thesis using assms True f by (auto simp: DialContext_def)
  next
    case (Inr route)
    show ?thesis
    proof (cases route)
      case (ToExit a port)
      then show ?thesis using assms True f Inr dial_clearnet_slots [of "cl\<lparr>clTor := t\<rparr>" N a port w1]
        by (auto simp: DialContext_def)
    next
      case (ToOnion host port)
      have "host \<noteq> []"
        using Inr ToOnion by (auto simp: DialContext_route_def suffix_def ToLower_def split: if_splits sum.splits prod.splits)
      then show ?thesis using assms True f Inr ToOnion dialOnion_slots [of "clPool cl" host K N srt port t w1]
        by (auto simp: DialContext_def split: prod.splits)
    qed
  qed
qed (use assms in \<open>auto simp: DialContext_def\<close>)

section \<open>Onion names through the proxy\<close>

lemma index_of_nth: "index_of c s = Some e \<Longrightarrow> e < length s \<and> s ! e = c \<and> c \<notin> set (take e s)"
  by (induction s arbitrary: e) (auto split: if_splits)

text \<open>A target address made of a host that does not end in a bracket: brackets in the host make it
  unsplittable.\<close>

lemma SplitHostPort_Join_brackets:
  assumes "\<not> plain host" "host \<noteq> []" "last host \<noteq> CHR '']''" "plain port" "CHR '':'' \<notin> set port"
  shows "\<exists>e. SplitHostPort (JoinHostPort host port) = Inl e"
proof (cases "CHR '':'' \<in> set host")
  case True
  let ?hp = "''['' @ host @ '']:'' @ port"
  have i: "last_index_of CHR '':'' ?hp = Some (length host + 2)"
    using last_index_of_append [OF assms(5), of "''['' @ host @ '']''"] by simp
  have j: "JoinHostPort host port = ?hp" using True by (simp add: JoinHostPort_def)
  obtain e where e: "index_of CHR '']'' ?hp = Some e" by (cases "index_of CHR '']'' ?hp") auto
  show ?thesis
  proof (cases "CHR '']'' \<in> set host")
    case True
    have "e + 1 \<noteq> length host + 2"
    proof
      assume "e + 1 = length host + 2"
      then have "take e ?hp = ''['' @ host" by simp
      then show False using index_of_nth [OF e] True by simp
    qed
    then show ?thesis unfolding j SplitHostPort_def i e option.case Let_def by simp
  next
    case False
    then have "CHR ''['' \<in> set (drop 1 ?hp)" using assms(1) by (simp add: plain_def)
    then show ?thesis unfolding j SplitHostPort_def i e option.case Let_def by simp
  qed
next
  case False
  let ?hp = "host @ '':'' @ port"
  have i: "last_index_of CHR '':'' ?hp = Some (length host)" using last_index_of_append [OF assms(5), of host] by simp
  have j: "JoinHostPort host port = ?hp" using False by (simp add: JoinHostPort_def)
  show ?thesis
  proof (cases "?hp ! 0 = CHR ''['' ")
    case True
    have *: "e + 1 \<noteq> length host" if "index_of CHR '']'' ?hp = Some e" for e
    proof
      assume l: "e + 1 = length host"
      then have "e = length host - 1" by simp
      then show False using index_of_nth [OF that] assms(2,3) l by (simp add: last_conv_nth nth_append)
    qed
    show ?thesis
    proof (cases "index_of CHR '']'' ?hp")
      case None
      show ?thesis unfolding j SplitHostPort_def i None option.case Let_def if_P [OF True] by (rule exI refl)+
    next
      case (Some e)
      then show ?thesis unfolding j SplitHostPort_def i Some option.case Let_def if_P [OF True] using * [OF Some] by simp
    qed
  next
    case False
    then show ?thesis unfolding j SplitHostPort_def i option.case using assms(1) by (auto simp: Let_def plain_def)
  qed
qed

text \<open>A name that ends in \<^verbatim>\<open>.onion\<close> is either not split from the target address at all, or split unchanged.\<close>

lemma onion_last:
  assumes "suffix ''.onion'' (ToLower host)"
  shows "host \<noteq> [] \<and> last host \<noteq> CHR '']''"
proof -
  obtain x where x: "map to_lower_char host = x @ ''.onion''" using assms by (auto simp: suffix_def ToLower_def)
  then have h: "host \<noteq> []" by auto
  have "to_lower_char (last host) = last (map to_lower_char host)" by (rule last_map [OF h, symmetric])
  then have "to_lower_char (last host) = CHR ''n''" by (simp add: x)
  then show ?thesis using h by (auto simp: to_lower_char_def)
qed

lemma SplitHostPort_Join_onion:
  assumes "suffix ''.onion'' (ToLower host)" "plain port" "CHR '':'' \<notin> set port"
    "SplitHostPort (JoinHostPort host port) = Inr (h, p)"
  shows "h = host \<and> p = port"
proof (cases "plain host")
  case True
  then show ?thesis using SplitHostPort_Join [OF True assms(2,3)] assms(4) by simp
next
  case False
  then show ?thesis using SplitHostPort_Join_brackets [OF False _ _ assms(2,3)] onion_last [OF assms(1)] assms(4) by auto
qed

lemma Atoi_Itoa_port: "fst (Atoi (Itoa (uint (p :: u16)))) = uint p"
proof -
  have "uint p < 2 ^ 16" using uint_lt2p [of p] by simp
  then have "Atoi (dec_nat (nat (uint p))) = (int (nat (uint p)), True)" by (intro Atoi_dec_nat) simp
  then show ?thesis by (simp add: Itoa_def)
qed

text \<open>A dial to such a target does not depend on how streams are opened by any other text than the port.\<close>

lemma DialContext_target_begin:
  assumes "suffix ''.onion'' (ToLower host)" "\<And>k w. f k ('':'' @ Itoa (uint (p :: u16))) w = oeBegin N k ('':'' @ Itoa (uint p)) w"
  shows "DialContext K (N\<lparr>oeBegin := f\<rparr>) srt got network (JoinHostPort host (Itoa (uint p))) cl w =
    DialContext K N srt got network (JoinHostPort host (Itoa (uint p))) cl w"
proof (cases "SplitHostPort (JoinHostPort host (Itoa (uint p)))")
  case (Inl e)
  then obtain e' where r: "DialContext_route network (JoinHostPort host (Itoa (uint p))) = Inl e'"
    by (cases "network \<in> {''tcp'', ''tcp4'', ''tcp6''}") (auto simp: DialContext_route_def)
  show ?thesis unfolding DialContext_def begin_fields r sum.case by (rule refl)
next
  case (Inr x)
  have pl: "plain (Itoa (uint p))" "CHR '':'' \<notin> set (Itoa (uint p))" using Itoa_plain [of "uint p"] by simp_all
  obtain h q where "x = (h, q)" by fastforce
  with Inr SplitHostPort_Join_onion [OF assms(1) pl] have
    "SplitHostPort (JoinHostPort host (Itoa (uint p))) = Inr (host, Itoa (uint p))" by auto
  then show ?thesis
    by (rule onion_name_stays_inside [THEN conjunct1, OF _ assms(1)]) (unfold Atoi_Itoa_port, rule assms(2))
qed

section \<open>Stream slots through a connection\<close>

text \<open>What the factory and the relay may do to the circuit pools: anything that keeps them well-formed and
  leaves the stream slots alone, such as the death of a circuit.\<close>

definition keeps_slots :: "'w proxy_world \<Rightarrow> 'w proxy_world \<Rightarrow> bool" where
  "keeps_slots pw pw' \<longleftrightarrow>
     (\<forall>d. pool_wf (pool_of pw d) \<longrightarrow> pool_wf (pool_of pw' d) \<and> slots (pool_of pw' d) = slots (pool_of pw d))"

lemma keeps_slots_refl [simp]: "keeps_slots pw pw"
  by (simp add: keeps_slots_def)

lemma keeps_slots_trans [trans]: "keeps_slots pw pw1 \<Longrightarrow> keeps_slots pw1 pw2 \<Longrightarrow> keeps_slots pw pw2"
  by (simp add: keeps_slots_def)

lemma up_dial_slots:
  assumes "up_dial (tor_upstream K N srt got ids F R) d network addr pw = (r, pw')" "pool_wf (pool_of pw b)"
  shows "pool_wf (pool_of pw' b) \<and>
    slots (pool_of pw' b) = (case r of Inl e \<Rightarrow> [] | Inr (d', a) \<Rightarrow> if b = d' then [a] else []) @ slots (pool_of pw b)"
proof -
  obtain x cl w where x: "DialContext K N srt got network addr (pw_clients pw d) (pw_net pw) = (x, cl, w)" by (metis surj_pair)
  have r: "r = (case x of Inl e \<Rightarrow> Inl (ids e) | Inr a \<Rightarrow> Inr (d, a))"
    "pw' = pw\<lparr>pw_clients := (pw_clients pw)(d := cl), pw_net := w\<rparr>"
    using assms(1) x by (simp_all add: tor_upstream_def)
  show ?thesis using DialContext_slots [OF _ x] assms(2) by (cases x) (auto simp: r)
qed

lemma up_close_slots:
  assumes "pool_wf (pool_of pw b)" "a \<in> set (slots (pool_of pw d)) \<or> b \<noteq> d"
  shows "pool_wf (pool_of (up_close (tor_upstream K N srt got ids F R) (d, a) pw) b) \<and>
    slots (pool_of (up_close (tor_upstream K N srt got ids F R) (d, a) pw) b) =
      (if b = d then remove1 a (slots (pool_of pw d)) else slots (pool_of pw b))"
  using assms pool_wf_release [of "pool_of pw d" a]
  by (auto simp: tor_upstream_def release_slot_def Let_def split: prod.split)

text \<open>A dial that fails keeps the slots; one that succeeds keeps them once its connection is closed,
  whatever slot-keeping use is made of it in between.\<close>

lemma failed_dial_keeps:
  "up_dial (tor_upstream K N srt got ids F R) d network addr pw = (Inl e, pw') \<Longrightarrow> keeps_slots pw pw'"
  using up_dial_slots [of K N srt got ids F R d network addr pw "Inl e" pw'] by (simp add: keeps_slots_def)

lemma closed_dial_keeps:
  assumes "up_dial (tor_upstream K N srt got ids F R) d network addr pw = (Inr u, pw1)" "keeps_slots pw1 pw2"
  shows "keeps_slots pw (up_close (tor_upstream K N srt got ids F R) u pw2)"
  unfolding keeps_slots_def
proof (intro allI impI)
  fix b assume wf: "pool_wf (pool_of pw b)"
  obtain d' a where u: "u = (d', a)" by fastforce
  have k: "pool_wf (pool_of pw2 b) \<and> slots (pool_of pw2 b) = (if b = d' then [a] else []) @ slots (pool_of pw b)"
    using up_dial_slots [OF assms(1) wf] assms(2) by (simp add: u keeps_slots_def)
  then have "a \<in> set (slots (pool_of pw2 d')) \<or> b \<noteq> d'" by (cases "b = d'") auto
  from up_close_slots [OF conjunct1 [OF k] this, of K N srt got ids F R] k
  show "pool_wf (pool_of (up_close (tor_upstream K N srt got ids F R) u pw2) b) \<and>
      slots (pool_of (up_close (tor_upstream K N srt got ids F R) u pw2) b) = slots (pool_of pw b)"
    by (auto simp: u)
qed

lemmas slot_keeping = keeps_slots_trans closed_dial_keeps closed_dial_keeps [OF _ keeps_slots_refl]

text \<open>Whatever way a SOCKS connection takes through the handler, it keeps the slots.\<close>

lemma handle_keeps:
  assumes "\<forall>u p pw r pw'. F u p pw = (r, pw') \<longrightarrow> keeps_slots pw pw'"
    and "\<forall>c u pw c' pw'. R c u pw = (c', pw') \<longrightarrow> keeps_slots pw pw'"
    and "handle s (tor_upstream K N srt got ids F R) c pw = (e, c', pw')"
  shows "keeps_slots pw pw'"
proof -
  have F: "up_factory (tor_upstream K N srt got ids F R) = F" "up_relay (tor_upstream K N srt got ids F R) = R"
    by (simp_all add: tor_upstream_def)
  show ?thesis
    using assms(3) unfolding handle_def F
    by (auto simp: Let_def split: prod.splits sum.splits if_splits option.splits
        dest!: assms(1,2) [rule_format] failed_dial_keeps intro: slot_keeping)
qed

section \<open>Properties\<close>


section \<open>Witnesses\<close>

definition onion_request :: sconn where
  "onion_request = demo_conn [5, 1, 0, 5, 1, 0, 3, 7, 120, 46, 79, 110, 105, 111, 110, 0, 80]"

definition demo_factory :: "string \<Rightarrow> string \<Rightarrow> unit proxy_world \<Rightarrow> (err_id list + nat) \<times> unit proxy_world" where
  "demo_factory u p pw = (Inr 0, pw)"

definition demo_relay :: "sconn \<Rightarrow> nat \<times> nat \<Rightarrow> unit proxy_world \<Rightarrow> sconn \<times> unit proxy_world" where
  "demo_relay c u pw = (c, pw)"

definition demo_world :: "unit proxy_world" where
  "demo_world = \<lparr>pw_clients = (\<lambda>d. demo_client), pw_net = ()\<rparr>"

lemma onion_request_handshake: "\<exists>c. handle_handshake demo_server onion_request = (Inr (('''', ''''), 1, ''x.Onion'', ''80''), c)"
proof -
  let ?a = "AddrName [120, 46, 79, 110, 105, 111, 110]"
  have h: "hs_avail demo_server onion_request = socks_session [0] [] 1 0 ?a 80 @ []"
    unfolding onion_request_def
    by (subst hs_avail_demo) (simp add: socks_session_def enc_hello_def enc_request_def socks_consts be16_def)
  have n: "addr_host ?a = ''x.Onion''" "Itoa (uint (80 :: u16)) = ''80''" by code_simp+
  show ?thesis
    using handshake_enc [OF h, of "''''" "''''"] unfolding n
    by (auto simp: auth_part_def greeting_def socks_consts demo_conn_def onion_request_def)
qed


lemma demo_client_wf: "pool_wf (clPool demo_client)"
proof -
  obtain a q where q: "poolNewClearnet 0 7 md_zero False (pool_init 600) = (a, q)" by fastforce
  have "pool_wf q" by (rule pool_wf_newClearnet [OF pool_wf_init q])
  then show ?thesis by (simp add: demo_client_def q)
qed

end
