(* ===== verification/Http_Client.thy ===== *)
theory Http_Client
  imports Proxy_Client Http_Proxy
begin

text \<open>The HTTP proxy over the Tor client, as \<^verbatim>\<open>runHTTP\<close> wires them: the diallers are those of
  \<open>tor_upstream\<close>, for CONNECT tunnels and, inside the transports, for forwarded requests.  The lemmas follow
  the stream slots and the onion names through \<^verbatim>\<open>ServeHTTP\<close>.\<close>

section \<open>Forwarded requests\<close>

text \<open>What the proxy uses of \<^verbatim>\<open>http.Transport.RoundTrip\<close>: with keep-alives disabled, one connection is dialled
  by the transport's \<^verbatim>\<open>DialContext\<close> to the address of the request's URL, carries one exchange and is closed
  when the response has been read.  \<open>canonAddr\<close> is \<^verbatim>\<open>net/http\<close>'s address of a request and \<open>exchange\<close> what
  happens on the connection.\<close>

definition transport_RoundTrip :: "('d, 'u, 'w) upstream \<Rightarrow> (http_request \<Rightarrow> string) \<Rightarrow>
    ('u \<Rightarrow> http_request \<Rightarrow> 'w \<Rightarrow> (err_id list + http_response) \<times> 'w) \<Rightarrow>
    'd transport \<Rightarrow> http_request \<Rightarrow> 'w \<Rightarrow> (err_id list + http_response) \<times> 'w" where
  "transport_RoundTrip U canonAddr exchange tr req w =
     (case up_dial U (tr_dialer tr) ''tcp'' (canonAddr req) w of
        (Inl e, w1) \<Rightarrow> (Inl e, w1)
      | (Inr up, w1) \<Rightarrow> (case exchange up req w1 of (r, w2) \<Rightarrow> (r, up_close U up w2)))"

definition tor_http :: "(nat, nat \<times> nat, 'w proxy_world) upstream \<Rightarrow> (http_request \<Rightarrow> string) \<Rightarrow>
    (nat \<times> nat \<Rightarrow> http_request \<Rightarrow> 'w proxy_world \<Rightarrow> (err_id list + http_response) \<times> 'w proxy_world) \<Rightarrow>
    ((string \<rightharpoonup> nat transport) \<Rightarrow> (string \<rightharpoonup> nat transport)) \<Rightarrow> (header \<Rightarrow> string list) \<Rightarrow>
    writer_state \<Rightarrow> sconn \<Rightarrow> http_request \<Rightarrow> (string \<rightharpoonup> nat transport) \<Rightarrow> 'w proxy_world \<Rightarrow>
    http_end \<times> (string \<rightharpoonup> nat transport) \<times> 'w proxy_world" where
  "tor_http U canonAddr exchange others order rw conn r ts pw =
     ServeHTTP U others (transport_RoundTrip U canonAddr exchange) order rw conn r ts pw"

text \<open>The address a request makes the proxy dial.\<close>

definition dial_target :: "(http_request \<Rightarrow> string) \<Rightarrow> http_request \<Rightarrow> string" where
  "dial_target canonAddr r = (if req_method r = ''CONNECT'' then connect_target r else canonAddr (outgoing r))"

section \<open>Stream slots\<close>

lemma RoundTrip_keeps:
  assumes "\<forall>u q pw r pw'. exchange u q pw = (r, pw') \<longrightarrow> keeps_slots pw pw'"
    and "transport_RoundTrip (tor_upstream K N srt got ids F R) canonAddr exchange tr req pw = (r, pw')"
  shows "keeps_slots pw pw'"
  using assms(2) unfolding transport_RoundTrip_def
  by (auto split: prod.splits sum.splits dest!: assms(1) [rule_format] failed_dial_keeps intro: slot_keeping)

lemma transportFor_keeps:
  assumes "\<forall>u p pw r pw'. F u p pw = (r, pw') \<longrightarrow> keeps_slots pw pw'"
    and "transportFor F others user pass ts pw = (r, ts', pw')"
  shows "keeps_slots pw pw'"
  using assms(2) unfolding transportFor_def
  by (auto simp: Let_def split: prod.splits sum.splits option.splits dest!: assms(1) [rule_format])

lemma handleConnect_keeps:
  assumes "\<forall>u p pw r pw'. F u p pw = (r, pw') \<longrightarrow> keeps_slots pw pw'"
    and "\<forall>c u pw c' pw'. R c u pw = (c', pw') \<longrightarrow> keeps_slots pw pw'"
    and "handleConnect (tor_upstream K N srt got ids F R) rw conn r user pass pw = (e, pw')"
  shows "keeps_slots pw pw'"
proof -
  have F: "up_factory (tor_upstream K N srt got ids F R) = F" "up_relay (tor_upstream K N srt got ids F R) = R"
    by (simp_all add: tor_upstream_def)
  show ?thesis
    using assms(3) unfolding handleConnect_def F
    by (auto split: prod.splits sum.splits option.splits hijack.splits
        dest!: assms(1,2) [rule_format] failed_dial_keeps intro: slot_keeping)
qed

lemma tor_http_keeps:
  assumes "\<forall>u p pw r pw'. F u p pw = (r, pw') \<longrightarrow> keeps_slots pw pw'"
    and "\<forall>c u pw c' pw'. R c u pw = (c', pw') \<longrightarrow> keeps_slots pw pw'"
    and "\<forall>u q pw r pw'. exchange u q pw = (r, pw') \<longrightarrow> keeps_slots pw pw'"
    and "tor_http (tor_upstream K N srt got ids F R) canonAddr exchange others order rw conn r ts pw = (e, ts', pw')"
  shows "keeps_slots pw pw'"
proof -
  have F: "up_factory (tor_upstream K N srt got ids F R) = F" by (simp add: tor_upstream_def)
  show ?thesis
    using assms(4) unfolding tor_http_def ServeHTTP_def handleForward_def F
    by (auto simp: Let_def split: prod.splits sum.splits if_splits
        dest!: handleConnect_keeps [OF assms(1,2)] transportFor_keeps [OF assms(1)] RoundTrip_keeps [OF assms(3)]
        intro: keeps_slots_trans)
qed

section \<open>Properties\<close>


text \<open>An onion name given to the HTTP proxy, as the target of a CONNECT or in the URL of a forwarded request,
  never leaves the machine: streams are opened by the port alone.\<close>

theorem http_onion_stays_inside:
  assumes "SplitHostPort (dial_target canonAddr r) = Inr (host, port)" "suffix ''.onion'' (ToLower host)"
    "\<And>k w. f k ('':'' @ Itoa (fst (Atoi port))) w = oeBegin N k ('':'' @ Itoa (fst (Atoi port))) w"
  shows "tor_http (tor_upstream K (N\<lparr>oeBegin := f\<rparr>) srt got ids F R) canonAddr exchange others order rw conn r ts pw =
    tor_http (tor_upstream K N srt got ids F R) canonAddr exchange others order rw conn r ts pw"
proof -
  let ?U = "tor_upstream K (N\<lparr>oeBegin := f\<rparr>) srt got ids F R" and ?V = "tor_upstream K N srt got ids F R"
  have d: "up_dial ?U d network (dial_target canonAddr r) = up_dial ?V d network (dial_target canonAddr r)" for d network
    using onion_name_stays_inside [where f = f and N = N, OF assms, of K srt got network] by (simp add: fun_eq_iff tor_upstream_def)
  have rs: "release_slot (N\<lparr>oeBegin := f\<rparr>) = release_slot N"
    unfolding fun_eq_iff release_slot_def begin_fields by (rule allI refl)+
  have c: "up_close ?U = up_close ?V" "up_factory ?U = up_factory ?V" "up_relay ?U = up_relay ?V"
    by (simp_all add: tor_upstream_def rs)
  show ?thesis
  proof (cases "req_method r = ''CONNECT''")
    case True
    then have "dial_target canonAddr r = connect_target r" by (simp add: dial_target_def)
    note d' = d [unfolded this]
    show ?thesis unfolding tor_http_def ServeHTTP_def if_P [OF True] handleConnect_def d' c by (rule refl)
  next
    case False
    then have "dial_target canonAddr r = canonAddr (outgoing r)" by (simp add: dial_target_def)
    note d' = d [unfolded this]
    have t: "transport_RoundTrip ?U canonAddr exchange tr (outgoing r) w = transport_RoundTrip ?V canonAddr exchange tr (outgoing r) w" for tr w
      unfolding transport_RoundTrip_def d' c by (rule refl)
    show ?thesis unfolding tor_http_def ServeHTTP_def if_not_P [OF False] handleForward_def c t by (rule refl)
  qed
qed

section \<open>Witnesses\<close>

definition demo_request :: "string \<Rightarrow> http_request" where
  "demo_request m = \<lparr>req_method = m, req_host = ''x.Onion:80'', req_urlAbs = True, req_urlHost = ''x.Onion:80'',
     req_uri = ''http://x.Onion:80/'', req_header = Map.empty, req_body = []\<rparr>"

definition demo_exchange :: "nat \<times> nat \<Rightarrow> http_request \<Rightarrow> unit proxy_world \<Rightarrow> (err_id list + http_response) \<times> unit proxy_world" where
  "demo_exchange u q pw = (Inr \<lparr>resp_status = 200, resp_header = Map.empty, resp_body = []\<rparr>, pw)"

definition demo_writer :: writer_state where
  "demo_writer = \<lparr>rw_status = None, rw_header = Map.empty, rw_body = [], rw_hijack = HijackOk\<rparr>"


theorem http_onion_stays_inside_witness:
  "\<forall>K srt c m. tor_http (tor_upstream K (demo_net\<lparr>oeBegin := (\<lambda>k a w. (a = '':80'', w))\<rparr>) srt True (\<lambda>e. []) demo_factory demo_relay)
       req_urlHost demo_exchange id (\<lambda>h. []) demo_writer c (demo_request m) Map.empty demo_world =
     tor_http (tor_upstream K demo_net srt True (\<lambda>e. []) demo_factory demo_relay)
       req_urlHost demo_exchange id (\<lambda>h. []) demo_writer c (demo_request m) Map.empty demo_world"
proof (intro allI)
  fix K srt c m
  have t: "dial_target req_urlHost (demo_request m) = ''x.Onion:80''"
    by (simp add: dial_target_def connect_target_def demo_request_def outgoing_def)
  have s: "SplitHostPort (dial_target req_urlHost (demo_request m)) = Inr (''x.Onion'', ''80'')" unfolding t by code_simp
  have o: "suffix ''.onion'' (ToLower ''x.Onion'')" by code_simp
  have a: "'':'' @ Itoa (fst (Atoi ''80'')) = '':80''" by code_simp
  let ?f = "\<lambda>(k :: nat) a (w :: unit). (a = '':80'', w)"
  have f: "?f k ('':'' @ Itoa (fst (Atoi ''80''))) w = oeBegin demo_net k ('':'' @ Itoa (fst (Atoi ''80''))) w" for k w
    unfolding a by (simp add: demo_net_def)
  show "tor_http (tor_upstream K (demo_net\<lparr>oeBegin := ?f\<rparr>) srt True (\<lambda>e. []) demo_factory demo_relay)
       req_urlHost demo_exchange id (\<lambda>h. []) demo_writer c (demo_request m) Map.empty demo_world =
     tor_http (tor_upstream K demo_net srt True (\<lambda>e. []) demo_factory demo_relay)
       req_urlHost demo_exchange id (\<lambda>h. []) demo_writer c (demo_request m) Map.empty demo_world"
    by (rule http_onion_stays_inside [where f = ?f and N = demo_net, OF s o f])
qed

end
