(* ===== verification/Isolation.thy ===== *)
theory Isolation
  imports Http_Client
begin

text \<open>Isolation of the identities behind the proxies, end to end: a SOCKS connection or an HTTP request touches
  no Tor client but the one of its own credentials, so that streams of different credentials never share a
  circuit, a guard or a directory tunnel.\<close>

section \<open>What a step may touch\<close>

text \<open>\<open>owner\<close> gives the isolation key of each client; a step on behalf of a key leaves the clients of all
  others as they are.\<close>

definition touches_only :: "(nat \<Rightarrow> string) \<Rightarrow> string \<Rightarrow> 'w proxy_world \<Rightarrow> 'w proxy_world \<Rightarrow> bool" where
  "touches_only owner k pw pw' \<longleftrightarrow> (\<forall>b. owner b \<noteq> k \<longrightarrow> pw_clients pw' b = pw_clients pw b)"

lemma touches_refl [simp]: "touches_only owner k pw pw"
  by (simp add: touches_only_def)

lemma touches_trans [trans]:
  "touches_only owner k pw pw1 \<Longrightarrow> touches_only owner k pw1 pw2 \<Longrightarrow> touches_only owner k pw pw2"
  by (simp add: touches_only_def)

lemma up_dial_client:
  "up_dial (tor_upstream K N srt got ids F R) d network addr pw = (Inr u, pw') \<Longrightarrow> fst u = d"
  by (auto simp: tor_upstream_def split: prod.splits sum.splits)

lemma up_dial_touches:
  "up_dial (tor_upstream K N srt got ids F R) d network addr pw = (r, pw') \<Longrightarrow> owner d = k \<Longrightarrow> touches_only owner k pw pw'"
  by (auto simp: touches_only_def tor_upstream_def split: prod.splits)

lemma up_close_touches:
  "owner (fst u) = k \<Longrightarrow> touches_only owner k pw (up_close (tor_upstream K N srt got ids F R) u pw)"
  by (cases u) (auto simp: touches_only_def tor_upstream_def split: prod.split)

text \<open>What the factory, the relay and the exchange of a request have to respect: the first gives a client of the
  key it is asked for, the others work on the client whose connection they are given.\<close>

definition owned :: "(nat \<Rightarrow> string) \<Rightarrow> (string \<Rightarrow> string \<Rightarrow> 'w proxy_world \<Rightarrow> (err_id list + nat) \<times> 'w proxy_world) \<Rightarrow>
    (sconn \<Rightarrow> nat \<times> nat \<Rightarrow> 'w proxy_world \<Rightarrow> sconn \<times> 'w proxy_world) \<Rightarrow>
    (nat \<times> nat \<Rightarrow> http_request \<Rightarrow> 'w proxy_world \<Rightarrow> (err_id list + http_response) \<times> 'w proxy_world) \<Rightarrow> bool" where
  "owned owner F R exchange \<longleftrightarrow>
     (\<forall>u p pw r pw'. F u p pw = (r, pw') \<longrightarrow>
        touches_only owner (IsoKey u p) pw pw' \<and> (\<forall>d. r = Inr d \<longrightarrow> owner d = IsoKey u p)) \<and>
     (\<forall>c v pw c' pw'. R c v pw = (c', pw') \<longrightarrow> touches_only owner (owner (fst v)) pw pw') \<and>
     (\<forall>v q pw r pw'. exchange v q pw = (r, pw') \<longrightarrow> touches_only owner (owner (fst v)) pw pw')"

lemma ownedD:
  assumes "owned owner F R exchange"
  shows "F u p pw = (r, pw') \<Longrightarrow> touches_only owner (IsoKey u p) pw pw'"
    and "F u p pw = (Inr d, pw') \<Longrightarrow> owner d = IsoKey u p"
    and "R c v pw = (c', pw') \<Longrightarrow> touches_only owner (owner (fst v)) pw pw'"
    and "exchange v q pw = (x, pw') \<Longrightarrow> touches_only owner (owner (fst v)) pw pw'"
  using assms unfolding owned_def by blast+

text \<open>A use of a dialled connection, from the dial to the close.\<close>

lemma used_dial_touches:
  assumes "up_dial (tor_upstream K N srt got ids F R) d network addr pw = (Inr u, pw1)" "owner d = k"
    "touches_only owner (owner (fst u)) pw1 pw2"
  shows "touches_only owner k pw (up_close (tor_upstream K N srt got ids F R) u pw2)"
proof -
  have u: "owner (fst u) = k" using up_dial_client [OF assms(1)] assms(2) by simp
  from touches_trans [OF up_dial_touches [OF assms(1), of owner k, OF assms(2)] assms(3) [unfolded u]]
  show ?thesis by (rule touches_trans) (rule up_close_touches [where owner = owner, OF u])
qed

lemmas touching = used_dial_touches used_dial_touches [OF _ _ touches_refl] up_dial_touches touches_trans

section \<open>The handlers\<close>

lemma handle_touches:
  assumes o: "owned owner F R exchange" and k: "handle_handshake s c = (Inr ((user, pass), cm, host, port), c1)"
    and h: "handle s (tor_upstream K N srt got ids F R) c pw = (e, c', pw')"
  shows "touches_only owner (IsoKey user pass) pw pw'"
proof -
  have F: "up_factory (tor_upstream K N srt got ids F R) = F" "up_relay (tor_upstream K N srt got ids F R) = R"
    by (simp_all add: tor_upstream_def)
  obtain fr pw1 where f: "F user pass pw = (fr, pw1)" by fastforce
  note t1 = ownedD(1) [OF o f]
  have "touches_only owner (IsoKey user pass) pw1 pw'" if d: "fr = Inr d" "cm = cmdConnect" for d
    using h k f d ownedD(2) [OF o f [unfolded d(1)]] unfolding handle_def F
    by (auto simp: Let_def split: prod.splits sum.splits option.splits dest: ownedD(3) [OF o] intro: touching)
  then show ?thesis using h k f t1 unfolding handle_def F
    by (cases fr) (auto split: if_splits intro: touches_trans)
qed

lemma handleConnect_touches:
  assumes o: "owned owner F R exchange"
    and h: "handleConnect (tor_upstream K N srt got ids F R) rw conn r user pass pw = (e, pw')"
  shows "touches_only owner (IsoKey user pass) pw pw'"
proof -
  have F: "up_factory (tor_upstream K N srt got ids F R) = F" "up_relay (tor_upstream K N srt got ids F R) = R"
    by (simp_all add: tor_upstream_def)
  obtain fr pw1 where f: "F user pass pw = (fr, pw1)" by fastforce
  note t1 = ownedD(1) [OF o f]
  have "touches_only owner (IsoKey user pass) pw1 pw'" if d: "fr = Inr d" for d
    using h f d ownedD(2) [OF o f [unfolded d]] unfolding handleConnect_def F
    by (auto split: prod.splits sum.splits option.splits hijack.splits dest: ownedD(3) [OF o] intro: touching)
  then show ?thesis using h f t1 unfolding handleConnect_def F by (cases fr) (auto intro: touches_trans)
qed

lemma transportFor_touches:
  assumes o: "owned owner F R exchange" and ts: "\<forall>k t. ts k = Some t \<longrightarrow> owner (tr_dialer t) = k"
    and others: "\<forall>k t. others ts k = Some t \<longrightarrow> owner (tr_dialer t) = k"
    and h: "transportFor F others user pass ts pw = (r, ts', pw')"
  shows "touches_only owner (IsoKey user pass) pw pw' \<and> (\<forall>t. r = Inr t \<longrightarrow> owner (tr_dialer t) = IsoKey user pass)"
  using h ts others unfolding transportFor_def
  by (auto simp: Let_def new_transport_def split: prod.splits sum.splits option.splits dest: ownedD(1,2) [OF o])

lemma tor_http_touches:
  assumes o: "owned owner F R exchange" and ts: "\<forall>k t. ts k = Some t \<longrightarrow> owner (tr_dialer t) = k"
    and others: "\<forall>k t. others ts k = Some t \<longrightarrow> owner (tr_dialer t) = k"
    and k: "parseBasicAuth (Get (req_header r) ''Proxy-Authorization'') = (user, pass, ok)"
    and h: "tor_http (tor_upstream K N srt got ids F R) canonAddr exchange others order rw conn r ts pw = (e, ts', pw')"
  shows "touches_only owner (IsoKey user pass) pw pw'"
proof (cases "req_method r = ''CONNECT''")
  case True
  then show ?thesis
    using h k handleConnect_touches [OF o] by (auto simp: tor_http_def ServeHTTP_def split: prod.splits)
next
  case False
  have F: "up_factory (tor_upstream K N srt got ids F R) = F" by (simp add: tor_upstream_def)
  obtain x ts1 pw1 where t: "transportFor F others user pass ts pw = (x, ts1, pw1)" by (metis surj_pair)
  note t1 = transportFor_touches [OF o ts others t]
  have "touches_only owner (IsoKey user pass) pw1 pw2"
    if "x = Inr tr" "transport_RoundTrip (tor_upstream K N srt got ids F R) canonAddr exchange tr q pw1 = (y, pw2)" for tr q y pw2
    using that(2) t1 that(1) unfolding transport_RoundTrip_def
    by (auto split: prod.splits sum.splits dest: ownedD(4) [OF o] intro: touching)
  then show ?thesis
    using h k False t t1 unfolding tor_http_def ServeHTTP_def handleForward_def F
    by (auto simp: Let_def split: prod.splits sum.splits if_splits intro: touches_trans)
qed

text \<open>The pool of clients provides such an assignment: whatever its concurrent callers have been given so far, each
  client belongs to one isolation key.\<close>

lemma pool_assigns_owners:
  assumes "pool_step\<^sup>*\<^sup>* (pool_start base) w"
  shows "\<exists>owner. \<forall>i user pass c. w_calls w i = Some (user, pass, Returned_with (Inr c)) \<longrightarrow> owner c = IsoKey user pass"
proof -
  obtain bk where inv: "pool_inv bk w" using pool_reach_inv [OF assms] by blast
  then have inj: "k = k'" if "clients (w_pool w) k = Some c" "clients (w_pool w) k' = Some c" for k k' c
    using that unfolding pool_inv_def maps_ok_def by blast
  have has: "clients (w_pool w) (IsoKey user pass) = Some c" if "w_calls w i = Some (user, pass, Returned_with (Inr c))" for i user pass c
    using inv keyed_call [OF that] unfolding pool_inv_def by (metis call_ok.simps(5))
  show ?thesis
    by (rule exI [of _ "\<lambda>c. SOME k. clients (w_pool w) k = Some c"]) (metis (mono_tags, lifting) has inj someI)
qed

section \<open>Properties\<close>


section \<open>Witness\<close>

text \<open>The unauthenticated identity has client 0, everyone else shares client 1.\<close>

definition two_owners :: "nat \<Rightarrow> string" where
  "two_owners d = (if d = 0 then '''' else IsoKey ''u'' ''p'')"

definition two_factory :: "string \<Rightarrow> string \<Rightarrow> unit proxy_world \<Rightarrow> (err_id list + nat) \<times> unit proxy_world" where
  "two_factory u p pw =
     (if IsoKey u p = '''' then Inr 0 else if IsoKey u p = IsoKey ''u'' ''p'' then Inr 1 else Inl [], pw)"

lemma two_owned: "owned two_owners two_factory demo_relay demo_exchange"
  unfolding owned_def two_factory_def demo_relay_def demo_exchange_def two_owners_def
  by (intro conjI allI impI) (auto simp: IsoKey_def split: if_splits)


end
