(* ===== verification/Pool_Spec.thy ===== *)
theory Pool_Spec
  imports Proxy_Pool
begin

text \<open>What the pool of Tor clients promises the proxies, as an atomic directory from isolation keys to clients, and
  the proof that the interleaved critical sections of \<^verbatim>\<open>clientFor\<close> implement it; and that a call waiting for
  another call's bootstrap is never stranded.\<close>

section \<open>The abstract directory\<close>

text \<open>A call is pending, answered with a client, or failed.  Clients are created under free keys, and a call is
  answered with the client its key has at that moment.\<close>

datatype 'c answer = Pending | Answered 'c | Failed

record 'c directory =
  dir_clients :: "string \<rightharpoonup> 'c"
  dir_calls :: "nat \<rightharpoonup> string \<times> 'c answer"

inductive dir_step :: "'c directory \<Rightarrow> 'c directory \<Rightarrow> bool" where
  ask: "dir_calls s i = None \<Longrightarrow> dir_step s (s\<lparr>dir_calls := (dir_calls s)(i \<mapsto> (k, Pending))\<rparr>)"
| create: "dir_clients s k = None \<Longrightarrow> c \<notin> ran (dir_clients s) \<Longrightarrow> card (dom (dir_clients s)) < maxIsolatedClients \<Longrightarrow>
    dir_step s (s\<lparr>dir_clients := (dir_clients s)(k \<mapsto> c)\<rparr>)"
| answer: "dir_calls s i = Some (k, Pending) \<Longrightarrow> dir_clients s k = Some c \<Longrightarrow>
    dir_step s (s\<lparr>dir_calls := (dir_calls s)(i \<mapsto> (k, Answered c))\<rparr>)"
| fail: "dir_calls s i = Some (k, Pending) \<Longrightarrow>
    dir_step s (s\<lparr>dir_calls := (dir_calls s)(i \<mapsto> (k, Failed))\<rparr>)"

definition dir_start :: "'c \<Rightarrow> 'c directory" where
  "dir_start base = \<lparr>dir_clients = [('''' :: string) \<mapsto> base], dir_calls = Map.empty\<rparr>"

section \<open>The abstraction\<close>

primrec answer_of :: "('c, 'e) caller \<Rightarrow> 'c answer" where
  "answer_of Entering = Pending"
| "answer_of (Waiting b) = Pending"
| "answer_of (Building b) = Pending"
| "answer_of (Built b r) = Pending"
| "answer_of (Stored b r) = Pending"
| "answer_of (Returned_with r) = (case r of Inl e \<Rightarrow> Failed | Inr c \<Rightarrow> Answered c)"
| "answer_of Refused = Failed"
| "answer_of Cancelled = Failed"

definition dir_of :: "('c, 'e) world \<Rightarrow> 'c directory" where
  "dir_of w = \<lparr>dir_clients = clients (w_pool w), dir_calls = (\<lambda>i. map_option (\<lambda>(k, st). (k, answer_of st)) (keyed w i))\<rparr>"

lemma dir_of_start: "dir_of (pool_start base) = dir_start base"
  by (auto simp: dir_of_def pool_start_def newClientPool_def dir_start_def keyed_def)

text \<open>A call that moves on, with the clients as they are, is one abstract step or none.\<close>

lemma dir_of_move:
  assumes "keyed w i = Some (k, st)" "clients (w_pool w') = clients (w_pool w)" "keyed w' = (keyed w)(i \<mapsto> (k, st'))"
  shows "dir_of w' = (dir_of w)\<lparr>dir_calls := (dir_calls (dir_of w))(i \<mapsto> (k, answer_of st'))\<rparr>"
  using assms by (auto simp: dir_of_def fun_eq_iff)

lemma dir_move:
  assumes "keyed w i = Some (k, st)" "clients (w_pool w') = clients (w_pool w)" "keyed w' = (keyed w)(i \<mapsto> (k, st'))"
    "answer_of st = Pending" "\<And>c. answer_of st' = Answered c \<Longrightarrow> clients (w_pool w) k = Some c"
  shows "dir_step\<^sup>=\<^sup>= (dir_of w) (dir_of w')"
proof -
  let ?s = "dir_of w"
  note m = dir_of_move [OF assms(1-3)]
  have i: "dir_calls ?s i = Some (k, Pending)" using assms(1,4) by (simp add: dir_of_def)
  show ?thesis
  proof (cases "answer_of st'")
    case Pending
    then have "(dir_calls ?s)(i \<mapsto> (k, answer_of st')) = dir_calls ?s" using i by (simp add: fun_upd_idem)
    then have "dir_of w' = ?s" using m by simp
    then show ?thesis by simp
  next
    case (Answered c)
    then have "dir_clients ?s k = Some c" using assms(5) by (simp add: dir_of_def)
    from dir_step.answer [OF i this] show ?thesis by (simp add: m Answered)
  next
    case Failed
    from dir_step.fail [OF i] show ?thesis by (simp add: m Failed)
  qed
qed

text \<open>Storing a bootstrapped client is its creation.\<close>

lemma dir_finish:
  assumes "pool_inv bk w" "keyed w i = Some (k, Built b res)"
    "w' = set_call i (Stored b res) (w\<lparr>w_pool := clientFor_finish k res (w_pool w)\<rparr>)"
  shows "dir_step\<^sup>=\<^sup>= (dir_of w) (dir_of w')"
proof (cases res)
  case (Inl e)
  then show ?thesis
    using assms(2,3) by (intro dir_move [of w i k _ _ "Stored b res"]) (auto simp: clientFor_finish_def Let_def)
next
  case (Inr c)
  let ?p = "w_pool w"
  have m: "maps_ok bk ?p (w_born w)" and "call_ok bk ?p (w_born w) k (Built b res)"
    using assms(1,2) unfolding pool_inv_def by blast+
  then have b: "building ?p k = Some b" "c \<notin> ran (clients ?p)" by (auto simp: Inr)
  have f: "finite (dom (building ?p))" "clients ?p k = None"
    "card (dom (clients ?p)) + card (dom (building ?p)) \<le> maxIsolatedClients"
    using m b(1) by (auto simp: maps_ok_def)
  moreover have "0 < card (dom (building ?p))" using f(1) b(1) by (auto simp: card_gt_0_iff)
  ultimately have "card (dom (clients ?p)) < maxIsolatedClients" by linarith
  with dir_step.create [of "dir_of w" k c] b(2) f(2)
  have "dir_step (dir_of w) ((dir_of w)\<lparr>dir_clients := (clients ?p)(k \<mapsto> c)\<rparr>)" by (simp add: dir_of_def)
  moreover have "dir_of w' = (dir_of w)\<lparr>dir_clients := (clients ?p)(k \<mapsto> c)\<rparr>"
    using assms(2,3) by (auto simp: dir_of_def Inr clientFor_finish_def Let_def fun_eq_iff)
  ultimately show ?thesis by simp
qed

lemma enter_answer:
  assumes "clientFor_enter k p = (d, q)"
  shows "clients q = clients p \<and> (\<forall>c. answer_of (after_enter d :: ('c, 'e) caller) = Answered c \<longrightarrow> clients p k = Some c)"
  using assms by (auto simp: clientFor_enter_def split: option.splits if_splits)

lemma pool_simulates:
  assumes "pool_step w w'" "pool_inv bk w"
  shows "dir_step\<^sup>=\<^sup>= (dir_of w) (dir_of w')"
proof -
  have ok: "call_ok bk (w_pool w) (w_born w) (IsoKey u p) st" if "w_calls w i = Some (u, p, st)" for i u p st
    using keyed_call [OF that] assms(2) unfolding pool_inv_def by blast
  show ?thesis
    using assms(1)
  proof cases
    case (arrive i user pass)
    then have "dir_of w' = (dir_of w)\<lparr>dir_calls := (dir_calls (dir_of w))(i \<mapsto> (IsoKey user pass, Pending))\<rparr>"
      "dir_calls (dir_of w) i = None"
      by (auto simp: dir_of_def keyed_def fun_eq_iff)
    then show ?thesis using dir_step.ask [of "dir_of w" i "IsoKey user pass"] by simp
  next
    case (enter i user pass d p)
    show ?thesis
      using enter keyed_call [OF enter(2)] enter_answer [OF enter(3)]
      by (intro dir_move [of w i "IsoKey user pass" _ _ "after_enter d"]) auto
  next
    case (bootstrap_ok i user pass b c)
    then show ?thesis using keyed_call [OF bootstrap_ok(2)]
      by (intro dir_move [of w i "IsoKey user pass" _ _ "Built b (Inr c)"]) auto
  next
    case (bootstrap_fail i user pass b e)
    then show ?thesis using keyed_call [OF bootstrap_fail(2)]
      by (intro dir_move [of w i "IsoKey user pass" _ _ "Built b (Inl e)"]) auto
  next
    case (finish i user pass b res)
    then show ?thesis by (intro dir_finish [OF assms(2) keyed_call])
  next
    case (publish i user pass b res)
    have "clients (w_pool w) (IsoKey user pass) = Some c" if "answer_of (Returned_with res) = Answered c" for c
      using ok [OF publish(2)] that by (cases res) auto
    then show ?thesis
      using publish(1) keyed_call [OF publish(2)]
      by (intro dir_move [of w i "IsoKey user pass" "Stored b res" w' "Returned_with res"]) (simp_all add: clientFor_publish_def)
  next
    case (wait_done i user pass b res)
    have "clients (w_pool w) (IsoKey user pass) = Some c" if "answer_of (Returned_with res) = Answered c" for c
    proof -
      have "res = Inr c" using that by (cases res) auto
      then show ?thesis
        using ok [OF wait_done(2)] wait_done(3) assms(2) unfolding pool_inv_def maps_ok_def by (metis call_ok.simps(1))
    qed
    then show ?thesis
      using wait_done(1) keyed_call [OF wait_done(2)]
      by (intro dir_move [of w i "IsoKey user pass" "Waiting b" w' "Returned_with res"]) simp_all
  next
    case (wait_cancel i user pass b)
    then show ?thesis using keyed_call [OF wait_cancel(2)]
      by (intro dir_move [of w i "IsoKey user pass" _ _ Cancelled]) auto
  next
    case shutdown
    then show ?thesis by (simp add: dir_of_def)
  qed
qed

lemma pool_refines:
  "pool_step\<^sup>*\<^sup>* (pool_start base) w \<Longrightarrow> dir_step\<^sup>*\<^sup>* (dir_start base) (dir_of w)"
proof (induction rule: rtranclp_induct)
  case base
  show ?case by (simp add: dir_of_start)
next
  case (step y z)
  from pool_reach_inv [OF step.hyps(1)] obtain bk where "pool_inv bk y" by blast
  from pool_simulates [OF step.hyps(2) this] step.IH show ?case
    by (auto intro: rtranclp.rtrancl_into_rtrancl)
qed

section \<open>Waiters\<close>

text \<open>Every bootstrap begun has been published or is in the hands of a call.\<close>

fun owns :: "('c, 'e) caller \<Rightarrow> nat \<Rightarrow> bool" where
  "owns (Building b) b' \<longleftrightarrow> b = b'"
| "owns (Built b r) b' \<longleftrightarrow> b = b'"
| "owns (Stored b r) b' \<longleftrightarrow> b = b'"
| "owns _ b' \<longleftrightarrow> False"

definition builds_owned :: "('c, 'e) world \<Rightarrow> bool" where
  "builds_owned w \<longleftrightarrow>
     (\<forall>b < next_build (w_pool w). build_done (w_pool w) b \<noteq> None \<or> (\<exists>j k st. keyed w j = Some (k, st) \<and> owns st b))"

text \<open>A call that moves on while its bootstrap, if it owns one, stays its own or is published.\<close>

lemma builds_owned_move:
  assumes "builds_owned w" "keyed w i = Some (k, st)" "keyed w' = (keyed w)(i \<mapsto> (k, st'))"
    "\<And>b. b < next_build (w_pool w') \<Longrightarrow>
       b < next_build (w_pool w) \<and> (build_done (w_pool w) b \<noteq> None \<longrightarrow> build_done (w_pool w') b \<noteq> None) \<and>
         (owns st b \<longrightarrow> owns st' b \<or> build_done (w_pool w') b \<noteq> None)
       \<or> owns st' b"
  shows "builds_owned w'"
  unfolding builds_owned_def
proof (intro allI impI)
  fix b assume b: "b < next_build (w_pool w')"
  have i: "keyed w' i = Some (k, st')" by (simp add: assms(3))
  show "build_done (w_pool w') b \<noteq> None \<or> (\<exists>j k st. keyed w' j = Some (k, st) \<and> owns st b)"
  proof (cases "owns st' b \<or> build_done (w_pool w') b \<noteq> None")
    case False
    with assms(4) [OF b] have n: "b < next_build (w_pool w)" "build_done (w_pool w) b = None" "\<not> owns st b" by auto
    with assms(1) obtain j k' st1 where j: "keyed w j = Some (k', st1)" "owns st1 b" by (auto simp: builds_owned_def)
    then have "j \<noteq> i" using n(3) assms(2) by auto
    then show ?thesis using j by (auto simp: assms(3))
  qed (use i in blast)
qed

lemma pool_step_owned:
  assumes "pool_step w w'" "builds_owned w"
  shows "builds_owned w'"
  using assms(1)
proof cases
  case (arrive i user pass)
  have k: "keyed w' j = Some x" if "keyed w j = Some x" for j x
    using that arrive by (auto simp: keyed_def split: if_splits)
  have p: "w_pool w' = w_pool w" using arrive by simp
  show ?thesis unfolding builds_owned_def p using assms(2) [unfolded builds_owned_def] k by blast
next
  case (enter i user pass d p)
  have d: "next_build p = next_build (w_pool w) \<or> d = StartBuild (next_build (w_pool w)) \<and> next_build p = Suc (next_build (w_pool w))"
    "build_done p = build_done (w_pool w)"
    using enter(3) by (auto simp: clientFor_enter_def split: option.splits if_splits)
  show ?thesis
  proof (rule builds_owned_move [OF assms(2) keyed_call [OF enter(2)]])
    show "keyed w' = (keyed w)(i \<mapsto> (IsoKey user pass, after_enter d))" using enter(1) keyed_call [OF enter(2)] by simp
  qed (use d enter(1) in \<open>auto simp: less_Suc_eq\<close>)
next
  case (bootstrap_ok i user pass b c)
  then show ?thesis using keyed_call [OF bootstrap_ok(2)]
    by (intro builds_owned_move [OF assms(2), of i "IsoKey user pass" "Building b" w' "Built b (Inr c)"]) auto
next
  case (bootstrap_fail i user pass b e)
  then show ?thesis using keyed_call [OF bootstrap_fail(2)]
    by (intro builds_owned_move [OF assms(2), of i "IsoKey user pass" "Building b" w' "Built b (Inl e)"]) auto
next
  case (finish i user pass b res)
  then show ?thesis using keyed_call [OF finish(2)]
    by (intro builds_owned_move [OF assms(2), of i "IsoKey user pass" "Built b res" w' "Stored b res"])
       (auto simp: clientFor_finish_def Let_def split: sum.splits)
next
  case (publish i user pass b res)
  then show ?thesis using keyed_call [OF publish(2)]
    by (intro builds_owned_move [OF assms(2), of i "IsoKey user pass" "Stored b res" w' "Returned_with res"])
       (auto simp: clientFor_publish_def)
next
  case (wait_done i user pass b res)
  then show ?thesis using keyed_call [OF wait_done(2)]
    by (intro builds_owned_move [OF assms(2), of i "IsoKey user pass" "Waiting b" w' "Returned_with res"]) auto
next
  case (wait_cancel i user pass b)
  then show ?thesis using keyed_call [OF wait_cancel(2)]
    by (intro builds_owned_move [OF assms(2), of i "IsoKey user pass" "Waiting b" w' Cancelled]) auto
next
  case shutdown
  then show ?thesis using assms(2) by (simp add: builds_owned_def)
qed

lemma pool_reach_owned: "pool_step\<^sup>*\<^sup>* (pool_start base) w \<Longrightarrow> builds_owned w"
proof (induction rule: rtranclp_induct)
  case base
  show ?case by (simp add: builds_owned_def pool_start_def newClientPool_def)
qed (rule pool_step_owned)

text \<open>The owner of a bootstrap always gets to publish its result, and no other call moves on the way.\<close>

definition published :: "nat \<Rightarrow> nat \<Rightarrow> ('c, 'e) world \<Rightarrow> bool" where
  "published j b w \<longleftrightarrow>
     (\<exists>w'. pool_step\<^sup>*\<^sup>* w w' \<and> build_done (w_pool w') b \<noteq> None \<and> (\<forall>i. i \<noteq> j \<longrightarrow> w_calls w' i = w_calls w i))"

lemma published_step:
  assumes "pool_step w (set_call j st (w\<lparr>w_pool := q\<rparr>))" "published j b (set_call j st (w\<lparr>w_pool := q\<rparr>))"
  shows "published j b w"
  using assms unfolding published_def
  by (auto simp: set_call_def intro: converse_rtranclp_into_rtranclp)

lemma owner_publishes:
  assumes "w_calls w j = Some (u, p, st)" "owns st b"
  shows "published j b w"
proof -
  have stored: "published j b w" if "w_calls w j = Some (u, p, Stored b r)" for w :: "('a, 'b) world" and r
    by (rule published_step [OF pool_step.publish [OF that]])
       (auto simp: published_def clientFor_publish_def)
  have built: "published j b w" if "w_calls w j = Some (u, p, Built b r)" for w :: "('a, 'b) world" and r
    by (rule published_step [OF pool_step.finish [OF that]], rule stored [of _ r]) (simp add: set_call_def that)
  have "published j b w" if "w_calls w j = Some (u, p, Building b)"
    by (rule published_step [of _ j "Built b (Inl undefined)" "w_pool w"], use pool_step.bootstrap_fail [OF that] in simp,
        rule built [of _ "Inl undefined"]) (simp add: set_call_def that)
  then show ?thesis using assms stored built by (cases st) auto
qed

section \<open>Properties\<close>

text \<open>C8: The pool of Tor clients implements an atomic directory.  Its interleaved critical sections, bootstraps,
  waits, cancellations and shutdowns are simulated, step by step, by a directory in which a client is created
  under a key that has none, at most sixty-four in all, and a call is answered by the client of its key in a
  single step; so whatever holds of the directory holds of \<^verbatim>\<open>clientFor\<close> under every schedule.\<close>

theorem client_pool_refines_directory:
  assumes "pool_step\<^sup>*\<^sup>* (pool_start base) w"
  shows "dir_step\<^sup>*\<^sup>* (dir_start base) (dir_of w) \<and> (\<forall>w'. pool_step w w' \<longrightarrow> dir_step\<^sup>=\<^sup>= (dir_of w) (dir_of w'))"
proof -
  from pool_reach_inv [OF assms] obtain bk where "pool_inv bk w" by blast
  then show ?thesis using pool_refines [OF assms] pool_simulates by blast
qed


section \<open>Witnesses\<close>

text \<open>One call starts a bootstrap, another waits for it.\<close>

lemma waiting_run:
  "\<exists>w :: (nat, string) world. pool_step\<^sup>*\<^sup>* (pool_start 0) w \<and> w_calls w 1 = Some (''u'', ''p'', Waiting 0)"
proof -
  let ?p0 = "newClientPool 0 :: (nat, string) clientPool" and ?k = "IsoKey ''u'' ''p''"
  let ?w1 = "(pool_start 0 :: (nat, string) world)\<lparr>w_calls := [0 \<mapsto> (''u'', ''p'', Entering)]\<rparr>"
  let ?p1 = "?p0\<lparr>building := [?k \<mapsto> 0], next_build := 1\<rparr>"
  let ?w2 = "set_call 0 (Building 0) (?w1\<lparr>w_pool := ?p1\<rparr>)"
  let ?w3 = "?w2\<lparr>w_calls := (w_calls ?w2)(1 \<mapsto> (''u'', ''p'', Entering))\<rparr>"
  let ?w4 = "set_call 1 (Waiting 0) (?w3\<lparr>w_pool := w_pool ?w3\<rparr>)"
  have k: "?k \<noteq> ''''" by simp
  have s1: "pool_step (pool_start 0) ?w1"
    using pool_step.arrive [of "pool_start 0 :: (nat, string) world" 0 "''u''" "''p''"] by (simp add: pool_start_def)
  have s2: "pool_step ?w1 ?w2"
    using pool_step.enter [of ?w1 0 "''u''" "''p''" "StartBuild 0" ?p1] k
    by (simp add: pool_start_def clientFor_enter_def newClientPool_def maxIsolatedClients_def)
  have s3: "pool_step ?w2 ?w3" by (rule pool_step.arrive) (simp add: set_call_def)
  have s4: "pool_step ?w3 ?w4"
    by (rule pool_step.enter [where d = "Wait 0" and user = "''u''" and pass = "''p''", simplified])
       (use k in \<open>simp_all add: set_call_def pool_start_def clientFor_enter_def newClientPool_def\<close>)
  have "pool_step\<^sup>*\<^sup>* (pool_start 0) ?w4"
    using s1 s2 s3 s4 by (meson rtranclp.rtrancl_refl rtranclp.rtrancl_into_rtrancl)
  then show ?thesis by (intro exI [of _ ?w4]) (simp add: set_call_def)
qed

theorem client_pool_refines_directory_witness:
  "\<exists>d :: nat directory. dir_step\<^sup>*\<^sup>* (dir_start 0) d \<and> dir_calls d 1 = Some (IsoKey ''u'' ''p'', Pending)"
proof -
  from waiting_run obtain w :: "(nat, string) world" where
    w: "pool_step\<^sup>*\<^sup>* (pool_start 0) w" "w_calls w 1 = Some (''u'', ''p'', Waiting 0)" by blast
  from client_pool_refines_directory [OF w(1)] keyed_call [OF w(2)] show ?thesis
    by (intro exI [of _ "dir_of w"]) (simp add: dir_of_def)
qed


end
