(* ===== verification/Pool_Janitor.thy ===== *)
theory Pool_Janitor
  imports Circ_Pool
begin

text \<open>The background janitor of \<^verbatim>\<open>pool.go\<close>: what one run of \<^verbatim>\<open>reap\<close> removes, exactly, and the loop of \<^verbatim>\<open>maintain\<close>
  that runs it at every tick until the client is closed, between whatever the rest of the program does to the
  pool.\<close>

section \<open>What a run removes\<close>

definition doomed :: "int \<Rightarrow> pool \<Rightarrow> nat \<Rightarrow> bool" where
  "doomed now p a \<longleftrightarrow> pcClosed (heap p a) \<or>
     pcStreams (heap p a) = 0 \<and> (pcRetired (heap p a) \<or> maxDirty p \<le> now - pcBorn (heap p a))"

lemma reap_one_doomed: "reap_one now a p = (if doomed now p a then destroyLocked a p else p)"
  by (simp add: reap_one_def doomed_def Let_def)

lemma destroy_simps [simp]:
  "heap (destroyLocked a p) b = (if b = a then (heap p a)\<lparr>pcClosed := True\<rparr> else heap p b)"
  "maxDirty (destroyLocked a p) = maxDirty p" "fresh (destroyLocked a p) = fresh p"
  by (simp_all add: destroyLocked_def)

lemma bucket_destroyed:
  "bucket (destroyLocked a p) h = (if h = pcOnion (heap p a) then filter (\<lambda>x. x \<noteq> a) (bucket p h) else bucket p h)"
  by (simp add: destroyLocked_def bucket_remove)

text \<open>Over any list of circuits: each is judged as it stood at the start, the doomed ones are closed and leave
  their buckets, all others stay as they are.\<close>

lemma reap_fold:
  assumes "distinct l"
  shows "heap (fold (reap_one now) l p) b =
      (if b \<in> set l \<and> doomed now p b then (heap p b)\<lparr>pcClosed := True\<rparr> else heap p b) \<and>
    maxDirty (fold (reap_one now) l p) = maxDirty p \<and>
    bucket (fold (reap_one now) l p) h =
      filter (\<lambda>x. \<not> (x \<in> set l \<and> doomed now p x \<and> pcOnion (heap p x) = h)) (bucket p h)"
  using assms
proof (induction l arbitrary: p)
  case (Cons a l)
  let ?q = "reap_one now a p"
  have d: "doomed now ?q x = doomed now p x" if "x \<noteq> a" for x
    using that by (simp add: reap_one_doomed) (simp add: doomed_def)
  have o: "pcOnion (heap ?q x) = pcOnion (heap p x)" for x by (simp add: reap_one_doomed)
  have b: "bucket ?q h = filter (\<lambda>x. \<not> (x = a \<and> doomed now p a \<and> pcOnion (heap p a) = h)) (bucket p h)"
    by (auto simp: reap_one_doomed bucket_destroyed intro!: filter_cong [symmetric] filter_True [symmetric])
  have i: "heap (fold (reap_one now) l ?q) b =
      (if b \<in> set l \<and> doomed now ?q b then (heap ?q b)\<lparr>pcClosed := True\<rparr> else heap ?q b)"
    "maxDirty (fold (reap_one now) l ?q) = maxDirty ?q"
    "bucket (fold (reap_one now) l ?q) h =
      filter (\<lambda>x. \<not> (x \<in> set l \<and> doomed now ?q x \<and> pcOnion (heap ?q x) = h)) (bucket ?q h)"
    using Cons.IH [of ?q] Cons.prems by auto
  have dl: "x \<in> set l \<Longrightarrow> doomed now ?q x = doomed now p x" for x using d [of x] Cons.prems by auto
  have "bucket (fold (reap_one now) l ?q) h =
      filter (\<lambda>x. \<not> (x \<in> set (a # l) \<and> doomed now p x \<and> pcOnion (heap p x) = h)) (bucket p h)"
    unfolding i(3) b filter_filter o using Cons.prems dl by (intro filter_cong) auto
  moreover have "a \<notin> set l" using Cons.prems by simp
  moreover have "heap ?q b = (if b = a \<and> doomed now p a then (heap p b)\<lparr>pcClosed := True\<rparr> else heap p b)"
    "maxDirty ?q = maxDirty p" by (simp_all add: reap_one_doomed)
  ultimately show ?case using i(1,2) dl [of b] by auto
qed simp

lemma pooled_distinct:
  assumes "pool_wf p"
  shows "distinct (allPooledLocked p)"
proof -
  have k: "keys_ok p" and b: "\<And>h. distinct (bucket p h)" "\<And>h a. a \<in> set (bucket p h) \<Longrightarrow> pcOnion (heap p a) = h"
    using assms by (auto simp: pool_wf_def buckets_ok_def)
  have e: "l = bucket p h" "h \<noteq> []" if "(h, l) \<in> set (onionPool p)" for h l
  proof -
    show h: "h \<noteq> []" using k that by (auto simp: keys_ok_def)
    have "map_of (onionPool p) h = Some l" using k that by (simp add: keys_ok_def)
    then show "l = bucket p h" using h by (simp add: bucket_def onion_get_def)
  qed
  have "distinct (concat (map snd al))" if "set al \<subseteq> set (onionPool p)" "distinct (map fst al)" for al
    using that
  proof (induction al)
    case (Cons x al)
    obtain h l where x: "x = (h, l)" by fastforce
    have "False" if "a \<in> set l" "(h', l') \<in> set al" "a \<in> set l'" for a h' l'
    proof -
      have "h' \<noteq> h" using that(2) Cons.prems(2) x by force
      moreover have "l = bucket p h" "l' = bucket p h'"
        using e(1) [of h l] e(1) [of h' l'] that(2) Cons.prems(1) x by auto
      then have "pcOnion (heap p a) = h" "pcOnion (heap p a) = h'" using b(2) that(1,3) by blast+
      ultimately show False by simp
    qed
    moreover have "distinct l" using e(1) [of h l] b(1) Cons.prems(1) x by auto
    ultimately show ?case using Cons x by fastforce
  qed simp
  from this [of "onionPool p"] have "distinct (concat (map snd (onionPool p)))" using k by (simp add: keys_ok_def)
  moreover have "False" if "a \<in> set (clearnetPool p)" "(h, l) \<in> set (onionPool p)" "a \<in> set l" for a h l
    using b(2) [of a "[]"] b(2) [of a h] e [OF that(2)] that(1,3) by (simp add: bucket_def split: if_splits)
  moreover have "distinct (clearnetPool p)" using b(1) [of "[]"] by (simp add: bucket_def)
  ultimately show ?thesis by (force simp: allPooledLocked_def)
qed

text \<open>So a run removes exactly the doomed circuits, closes them, and leaves every other circuit alone.\<close>

lemma reap_exact:
  assumes "pool_wf p"
  shows "set (allPooledLocked (reap now p)) = {a \<in> set (allPooledLocked p). \<not> doomed now p a}"
    and "heap (reap now p) a =
      (if a \<in> set (allPooledLocked p) \<and> doomed now p a then (heap p a)\<lparr>pcClosed := True\<rparr> else heap p a)"
    and "maxDirty (reap now p) = maxDirty p"
proof -
  have k: "keys_ok p" "keys_ok (reap now p)"
    using assms pool_wf_reap [OF assms, of now] by (auto simp: pool_wf_def buckets_ok_def)
  have b: "\<And>h a. a \<in> set (bucket p h) \<Longrightarrow> pcOnion (heap p a) = h"
    using assms by (auto simp: pool_wf_def buckets_ok_def)
  note f = reap_fold [OF pooled_distinct [OF assms], of now p, folded reap_def]
  show "heap (reap now p) a =
      (if a \<in> set (allPooledLocked p) \<and> doomed now p a then (heap p a)\<lparr>pcClosed := True\<rparr> else heap p a)"
    "maxDirty (reap now p) = maxDirty p" using f by blast+
  have "set (bucket (reap now p) h) = {a \<in> set (bucket p h). \<not> doomed now p a}" for h
    using f b all_buckets [OF k(1)] by auto
  then show "set (allPooledLocked (reap now p)) = {a \<in> set (allPooledLocked p). \<not> doomed now p a}"
    unfolding all_buckets [OF k(1)] all_buckets [OF k(2)] by auto
qed

section \<open>The loop\<close>

definition reapInterval :: int where "reapInterval = 30 * 1000000000"

text \<open>\<^verbatim>\<open>maintain\<close>: at each turn of its \<^verbatim>\<open>select\<close> the client is closed, and it returns, or the ticker fires at some
  time, and it reaps; \<open>between\<close> is what the rest of the program did to the pool since the last turn.\<close>

datatype janitor_wake = ClientDone | Tick int

fun maintain :: "((pool \<Rightarrow> pool) \<times> janitor_wake) list \<Rightarrow> pool \<Rightarrow> bool \<times> pool" where
  "maintain [] p = (False, p)"
| "maintain ((between, ClientDone) # ws) p = (True, between p)"
| "maintain ((between, Tick now) # ws) p = maintain ws (reap now (between p))"

text \<open>After a tick nothing doomed is pooled.\<close>

definition swept :: "int \<Rightarrow> pool \<Rightarrow> bool" where
  "swept now p \<longleftrightarrow> (\<forall>a \<in> set (allPooledLocked p). \<not> doomed now p a)"

lemma swept_reap:
  assumes "pool_wf p"
  shows "swept now (reap now p)"
proof -
  have "doomed now (reap now p) a = doomed now p a" if "a \<in> set (allPooledLocked (reap now p))" for a
    using that reap_exact [OF assms, of now] by (simp add: doomed_def)
  then show ?thesis using reap_exact(1) [OF assms, of now] by (auto simp: swept_def)
qed

lemma maintain_wf:
  assumes "\<And>p f w. (f, w) \<in> set ws \<Longrightarrow> pool_wf p \<Longrightarrow> pool_wf (f p)" "pool_wf p"
  shows "pool_wf (snd (maintain ws p))"
  using assms
proof (induction ws p rule: maintain.induct)
  case (3 between now ws p)
  have "pool_wf (reap now (between p))" using 3(2) [of between "Tick now"] 3(3) by (intro pool_wf_reap) simp
  then show ?case using 3(1) 3(2) by (metis list.set_intros(2) maintain.simps(3))
qed (auto)

lemma maintain_append_tick:
  assumes "\<not> fst (maintain ws p)"
  shows "maintain (ws @ [(between, Tick now)]) p = (False, reap now (between (snd (maintain ws p))))"
  using assms by (induction ws p rule: maintain.induct) auto

section \<open>Properties\<close>

text \<open>C28: The janitor sweeps exactly.  In every state of the pool a run closes and removes precisely the circuits
  that are dead, or idle and retired or past the dirtiness limit; every other pooled circuit keeps its place
  and its state; a circuit with an open stream on a working circuit is never touched; and a sweep leaves nothing a
  second sweep at the same time would remove.\<close>

theorem janitor_sweeps_exactly:
  assumes "pstep\<^sup>*\<^sup>* (pool_init d) p"
  shows "set (allPooledLocked (reap now p)) =
      {a \<in> set (allPooledLocked p). \<not> pcClosed (heap p a) \<and>
         (pcStreams (heap p a) = 0 \<longrightarrow> \<not> pcRetired (heap p a) \<and> now - pcBorn (heap p a) < maxDirty p)} \<and>
    (\<forall>a \<in> set (allPooledLocked p) - set (allPooledLocked (reap now p)). pcClosed (heap (reap now p) a)) \<and>
    (\<forall>a. a \<in> set (allPooledLocked (reap now p)) \<or> a \<in> set (slots p) \<and> \<not> pcClosed (heap p a) \<longrightarrow>
       heap (reap now p) a = heap p a) \<and>
    reap now (reap now p) = reap now p"
proof -
  have w: "pool_wf p" by (rule pool_wf_run [OF assms])
  note e = reap_exact [OF w, of now]
  have s: "0 < pcStreams (heap p a)" if "a \<in> set (slots p)" for a using held_streams [OF w that] by simp
  have "fold (reap_one now) l q = q" if "\<forall>a \<in> set l. \<not> doomed now q a" for l q
    using that by (induction l) (simp_all add: reap_one_doomed)
  from this [of "allPooledLocked (reap now p)"] swept_reap [OF w, of now]
  have "reap now (reap now p) = reap now p" by (simp add: swept_def reap_def [of now "reap now p"])
  then show ?thesis using e s by (auto simp: doomed_def)
qed

text \<open>Whatever the rest of the program does to the pool between the ticks, as long as it keeps the pool consistent,
  the pool is consistent and swept after each tick, and the loop goes on exactly until the client is closed.\<close>

theorem maintain_sweeps:
  assumes "\<And>p f w. (f, w) \<in> set (ws @ [(between, Tick now)]) \<Longrightarrow> pool_wf p \<Longrightarrow> pool_wf (f p)"
  shows "fst (maintain ws (pool_init d)) \<longleftrightarrow> ClientDone \<in> snd ` set ws"
    and "ClientDone \<notin> snd ` set ws \<Longrightarrow>
      (let (ended, q) = maintain (ws @ [(between, Tick now)]) (pool_init d) in \<not> ended \<and> pool_wf q \<and> swept now q)"
proof -
  have c: "fst (maintain ws p) \<longleftrightarrow> ClientDone \<in> snd ` set ws" for p
    by (induction ws p rule: maintain.induct) auto
  then show "fst (maintain ws (pool_init d)) \<longleftrightarrow> ClientDone \<in> snd ` set ws" .
  assume "ClientDone \<notin> snd ` set ws"
  then have m: "maintain (ws @ [(between, Tick now)]) (pool_init d) =
      (False, reap now (between (snd (maintain ws (pool_init d)))))" using c by (intro maintain_append_tick) simp
  have "pool_wf (snd (maintain ws (pool_init d)))" using assms pool_wf_init by (intro maintain_wf) auto
  then have "pool_wf (between (snd (maintain ws (pool_init d))))" using assms [of between "Tick now"] by simp
  then show "let (ended, q) = maintain (ws @ [(between, Tick now)]) (pool_init d) in \<not> ended \<and> pool_wf q \<and> swept now q"
    unfolding m using swept_reap pool_wf_reap by simp
qed

theorem janitor_sweeps_exactly_witness:
  "set (allPooledLocked (reap 700 (snd (poolNewClearnet 0 0 md_zero False (pool_init 600))))) = {0}"
  using janitor_sweeps_exactly [OF one_circuit, of 700]
  by (auto simp: poolNewClearnet_def new_circuit_def pool_init_def allPooledLocked_def)

end
