(* ===== verification/Curve_Keys.thy ===== *)
theory Curve_Keys
  imports Torcrypto
begin

text \<open>The key pairs of \<^verbatim>\<open>pkg/torcrypto/curve.go\<close> and the entry points of the two handshakes that draw one:
  \<^verbatim>\<open>NtorClientHandshake\<close> and \<^verbatim>\<open>HSNtorClientIntro\<close>.  A reader is the bytes it still has to give; reading past
  them is its error.  The curve itself is the crypto parameter.\<close>

section \<open>Key pairs\<close>

datatype curve_err = RandFailed | BadScalar | BadPoint | LowOrder | Handshake crypto_err

definition newX25519FromSeed :: "bytes \<Rightarrow> curve_err + bytes" where
  "newX25519FromSeed seed = (if length seed \<noteq> Curve25519KeyLen then Inl BadScalar else Inr seed)"

text \<open>\<^verbatim>\<open>ecdh.X25519().GenerateKey\<close> reads a full scalar.  A nil reader (\<open>None\<close>) means \<^verbatim>\<open>crypto/rand\<close>, whose bytes
  are \<open>rnd\<close>; the result carries what is left of it.\<close>

definition GenerateX25519 :: "bytes option \<Rightarrow> bytes \<Rightarrow> (curve_err + bytes) \<times> bytes" where
  "GenerateX25519 reader rnd =
     (let r = (case reader of None \<Rightarrow> rnd | Some b \<Rightarrow> b);
          rnd' = (case reader of None \<Rightarrow> drop Curve25519KeyLen rnd | Some b \<Rightarrow> rnd) in
      if length r < Curve25519KeyLen then (Inl RandFailed, rnd')
      else (newX25519FromSeed (take Curve25519KeyLen r), rnd'))"

definition kp_Public :: "crypto \<Rightarrow> bytes \<Rightarrow> bytes" where
  "kp_Public K kp = x25519_pub K kp"

definition kp_ECDH :: "crypto \<Rightarrow> bytes \<Rightarrow> bytes \<Rightarrow> curve_err + bytes" where
  "kp_ECDH K kp peerPublic =
     (if length peerPublic \<noteq> Curve25519KeyLen then Inl BadPoint
      else case x25519_dh K kp peerPublic of None \<Rightarrow> Inl LowOrder | Some secret \<Rightarrow> Inr secret)"

definition X25519SharedSecret :: "crypto \<Rightarrow> bytes \<Rightarrow> bytes \<Rightarrow> curve_err + bytes" where
  "X25519SharedSecret K privateKey peerPublic =
     (case newX25519FromSeed privateKey of Inl e \<Rightarrow> Inl e | Inr kp \<Rightarrow> kp_ECDH K kp peerPublic)"

text \<open>\<^verbatim>\<open>concat\<close> and \<^verbatim>\<open>concatBytes\<close>: the two loops, over the lengths and over the parts.\<close>

definition concat_parts :: "bytes list \<Rightarrow> nat \<times> bytes" where
  "concat_parts parts = (foldl (\<lambda>n p. n + length p) 0 parts, foldl (\<lambda>out p. out @ p) [] parts)"

lemma concat_parts: "concat_parts parts = (length (concat parts), concat parts)"
proof -
  have "foldl (\<lambda>n p. n + length p) n parts = n + length (concat parts)" for n
    by (induction parts arbitrary: n) simp_all
  moreover have "foldl (\<lambda>out p. out @ p) out parts = out @ concat parts" for out
    by (induction parts arbitrary: out) simp_all
  ultimately show ?thesis by (simp add: concat_parts_def)
qed

section \<open>Drawing the key of a handshake\<close>

definition NtorClientHandshake :: "crypto \<Rightarrow> bytes \<Rightarrow> bytes \<Rightarrow> bytes \<Rightarrow> (curve_err + bytes \<times> ntorClient) \<times> bytes" where
  "NtorClientHandshake K nodeID ntorOnionKey rnd =
     (case GenerateX25519 None rnd of
        (Inl e, rnd') \<Rightarrow> (Inl e, rnd')
      | (Inr eph, rnd') \<Rightarrow>
        (case finishClientHandshake K nodeID ntorOnionKey eph of Inl e \<Rightarrow> Inl (Handshake e) | Inr r \<Rightarrow> Inr r, rnd'))"

definition HSNtorClientIntro :: "crypto \<Rightarrow> bytes \<Rightarrow> bytes \<Rightarrow> bytes \<Rightarrow> bytes \<Rightarrow>
    (curve_err + bytes \<times> bytes \<times> bytes \<times> hsNtorClient) \<times> bytes" where
  "HSNtorClientIntro K serviceEncKey authKey subcredential rnd =
     (case GenerateX25519 None rnd of
        (Inl e, rnd') \<Rightarrow> (Inl e, rnd')
      | (Inr eph, rnd') \<Rightarrow>
        (case hsNtorIntroWith K serviceEncKey authKey subcredential eph of Inl e \<Rightarrow> Inl (Handshake e) | Inr r \<Rightarrow> Inr r, rnd'))"

lemma Generate_rand:
  "32 \<le> length rnd \<Longrightarrow> GenerateX25519 None rnd = (Inr (take 32 rnd), drop 32 rnd)"
  "length rnd < 32 \<Longrightarrow> fst (GenerateX25519 None rnd) = Inl RandFailed"
  by (simp_all add: GenerateX25519_def newX25519FromSeed_def)

text \<open>What the relay reads of the client's handshake data.\<close>

definition relay_reads :: "bytes \<Rightarrow> bytes \<times> bytes \<times> bytes" where
  "relay_reads d = (slice 0 20 d, slice 20 52 d, slice 52 84 d)"

section \<open>Properties\<close>

text \<open>From the random source to the keys: with enough randomness and keys of the right lengths the ntor client
  produces 84 bytes that name the relay and its onion key, a fresh ephemeral key of exactly 32 random bytes,
  and, for whatever the relay answers to the data it reads, completes with the relay's keys; otherwise it
  returns an error and no data.\<close>

theorem ntor_from_randomness:
  assumes "crypto_wf K" "dh_commutes K" "keyLen \<le> 255 * 32"
    and "ntor_server K nodeID b y (x25519_pub K (take 32 rnd)) keyLen = Some (reply, keys)"
  shows "case NtorClientHandshake K nodeID (x25519_pub K b) rnd of
      (Inl e, rnd') \<Rightarrow> length rnd < 32 \<or> length nodeID \<noteq> 20
    | (Inr (d, st), rnd') \<Rightarrow> rnd' = drop 32 rnd \<and> length d = 84 \<and>
        relay_reads d = (nodeID, x25519_pub K b, x25519_pub K (take 32 rnd)) \<and> ntor_Complete K st reply keyLen = Inr keys"
proof -
  have p: "length (x25519_pub K x) = 32" for x using assms(1) by simp
  note c = ntor_Complete_server(1) [OF assms]
  show ?thesis
  proof (cases "32 \<le> length rnd")
    case True
    then show ?thesis
      using c p by (simp add: NtorClientHandshake_def Generate_rand(1) finishClientHandshake_def relay_reads_def slice_def)
  next
    case False
    then obtain rnd' where "GenerateX25519 None rnd = (Inl RandFailed, rnd')"
      using Generate_rand(2) [of rnd] by (cases "GenerateX25519 None rnd") auto
    then show ?thesis using False by (simp add: NtorClientHandshake_def)
  qed
qed

text \<open>Two handshakes of either kind in a row draw disjoint parts of the random source, so their ephemeral keys
  are independent.\<close>

theorem handshakes_draw_disjoint_randomness:
  assumes "64 \<le> length rnd"
    and "NtorClientHandshake K nodeID key rnd = (Inr (d, st), rnd1)"
    and "HSNtorClientIntro K encKey authKey subcred rnd1 = (Inr (ek, mk, x, hst), rnd2)"
  shows "neph st = take 32 rnd \<and> heph hst = take 32 (drop 32 rnd) \<and> rnd2 = drop 64 rnd"
proof -
  have r: "GenerateX25519 None rnd = (Inr (take 32 rnd), drop 32 rnd)" using assms(1) by (intro Generate_rand) simp
  have 1: "rnd1 = drop 32 rnd" "neph st = take 32 rnd"
    using assms(2) unfolding NtorClientHandshake_def r
    by (auto simp: finishClientHandshake_def split: sum.splits if_splits)
  have r2: "GenerateX25519 None rnd1 = (Inr (take 32 rnd1), drop 32 rnd1)" using assms(1) 1 by (intro Generate_rand) simp
  show ?thesis
    using assms(3) 1 unfolding HSNtorClientIntro_def r2
    by (auto simp: hsNtorIntroWith_def Let_def split: sum.splits if_splits option.splits)
qed

text \<open>Two parties that know each other's public keys share a secret.\<close>

theorem shared_secret_agrees:
  assumes "crypto_wf K" "dh_commutes K" "length a = 32" "length b = 32"
  shows "X25519SharedSecret K a (kp_Public K b) = X25519SharedSecret K b (kp_Public K a)"
  using assms by (auto simp: X25519SharedSecret_def newX25519FromSeed_def kp_ECDH_def kp_Public_def dh_commutes_def)

end
