(* ===== verification/Stream_Deadline.thy ===== *)
theory Stream_Deadline
  imports Stream_Mgr
begin

text \<open>The deadlines of a stream (\<^verbatim>\<open>SetDeadline\<close>, \<^verbatim>\<open>SetReadDeadline\<close>, \<^verbatim>\<open>SetWriteDeadline\<close>, \<^verbatim>\<open>deadlineChan\<close> and
  \<^verbatim>\<open>writeContext\<close> of \<^verbatim>\<open>stream.go\<close>) against calls of \<^verbatim>\<open>Read\<close> and \<^verbatim>\<open>Write\<close> that are waiting, over a clock.  A
  waiting call holds the timer it made when it began to wait; other goroutines set deadlines
  meanwhile.\<close>

section \<open>Deadlines and timers\<close>

text \<open>The zero time is \<open>None\<close>.\<close>

record deadlines =
  readDeadline :: "int option"
  writeDeadline :: "int option"
  dlReadSig :: bool

definition stream_SetDeadline :: "int option \<Rightarrow> deadlines \<Rightarrow> deadlines" where
  "stream_SetDeadline t d = d\<lparr>readDeadline := t, writeDeadline := t, dlReadSig := True\<rparr>"

definition stream_SetReadDeadline :: "int option \<Rightarrow> deadlines \<Rightarrow> deadlines" where
  "stream_SetReadDeadline t d = d\<lparr>readDeadline := t, dlReadSig := True\<rparr>"

definition stream_SetWriteDeadline :: "int option \<Rightarrow> deadlines \<Rightarrow> deadlines" where
  "stream_SetWriteDeadline t d = d\<lparr>writeDeadline := t\<rparr>"

text \<open>When the channel of \<^verbatim>\<open>deadlineChan\<close> fires: never, at once, or at the deadline.\<close>

definition deadlineChan :: "bool \<Rightarrow> int \<Rightarrow> deadlines \<Rightarrow> int option" where
  "deadlineChan read now d =
     (case (if read then readDeadline d else writeDeadline d) of
        None \<Rightarrow> None
      | Some dl \<Rightarrow> if dl - now \<le> 0 then Some now else Some dl)"

text \<open>The deadline of the context a circuit-level send waits under.\<close>

definition writeContext :: "deadlines \<Rightarrow> int option" where
  "writeContext d = writeDeadline d"

section \<open>Waiting calls\<close>

datatype wait = NotWaiting | Waiting "int option" | Expired

record timed =
  clock :: int
  dls :: deadlines
  rwait :: wait
  wwait :: wait

definition timed_start :: timed where
  "timed_start = \<lparr>clock = 0, dls = \<lparr>readDeadline = None, writeDeadline = None, dlReadSig = False\<rparr>, rwait = NotWaiting, wwait = NotWaiting\<rparr>"

text \<open>A read or a write that finds nothing to do waits; the read signal sends the reader round its loop, where
  it finds no data and makes a new timer; a timer that has fired ends the call.  Time does not pass
  while a woken reader or an expired call has not run.\<close>

definition overdue :: "int \<Rightarrow> wait \<Rightarrow> bool" where
  "overdue now x = (case x of Waiting (Some t) \<Rightarrow> t \<le> now | _ \<Rightarrow> False)"

definition is_waiting :: "wait \<Rightarrow> bool" where
  "is_waiting x = (case x of Waiting _ \<Rightarrow> True | _ \<Rightarrow> False)"

inductive timed_step :: "timed \<Rightarrow> timed \<Rightarrow> bool" where
  read_waits: "\<not> is_waiting (rwait s) \<Longrightarrow> timed_step s (s\<lparr>rwait := Waiting (deadlineChan True (clock s) (dls s))\<rparr>)"
| write_waits: "\<not> is_waiting (wwait s) \<Longrightarrow> timed_step s (s\<lparr>wwait := Waiting (deadlineChan False (clock s) (dls s))\<rparr>)"
| read_woken: "is_waiting (rwait s) \<Longrightarrow> dlReadSig (dls s) \<Longrightarrow>
    timed_step s (s\<lparr>dls := (dls s)\<lparr>dlReadSig := False\<rparr>, rwait := Waiting (deadlineChan True (clock s) (dls s))\<rparr>)"
| read_expires: "overdue (clock s) (rwait s) \<Longrightarrow> timed_step s (s\<lparr>rwait := Expired\<rparr>)"
| write_expires: "overdue (clock s) (wwait s) \<Longrightarrow> timed_step s (s\<lparr>wwait := Expired\<rparr>)"
| set_deadline: "timed_step s (s\<lparr>dls := stream_SetDeadline t (dls s)\<rparr>)"
| set_read: "timed_step s (s\<lparr>dls := stream_SetReadDeadline t (dls s)\<rparr>)"
| set_write: "timed_step s (s\<lparr>dls := stream_SetWriteDeadline t (dls s)\<rparr>)"
| passes: "\<not> (is_waiting (rwait s) \<and> dlReadSig (dls s)) \<Longrightarrow> \<not> overdue (clock s) (rwait s) \<Longrightarrow> \<not> overdue (clock s) (wwait s) \<Longrightarrow>
    timed_step s (s\<lparr>clock := clock s + 1\<rparr>)"

section \<open>Lemmas\<close>

text \<open>A waiting reader that has not been woken holds a timer for the deadline as it is now: it fires at the
  deadline, or it was made when the deadline had passed and has fired.\<close>

definition timer_ok :: "int \<Rightarrow> int option \<Rightarrow> int option \<Rightarrow> bool" where
  "timer_ok now dl tm = (case dl of None \<Rightarrow> tm = None | Some d \<Rightarrow> (\<exists>t. tm = Some t \<and> (t = d \<or> d \<le> t \<and> t \<le> now)))"

definition reader_ok :: "timed \<Rightarrow> bool" where
  "reader_ok s = (case rwait s of
     Waiting tm \<Rightarrow> dlReadSig (dls s) \<or> timer_ok (clock s) (readDeadline (dls s)) tm
   | _ \<Rightarrow> True)"

lemma timer_new: "timer_ok now (if r then readDeadline d else writeDeadline d) (deadlineChan r now d)"
  by (auto simp: timer_ok_def deadlineChan_def split: option.split)

lemma timer_mono: "timer_ok now dl tm \<Longrightarrow> timer_ok (now + 1) dl tm"
  by (auto simp: timer_ok_def split: option.splits)

lemma reader_ok_step: "timed_step s s' \<Longrightarrow> reader_ok s \<Longrightarrow> reader_ok s'"
proof (induction rule: timed_step.induct)
  case (passes s)
  then show ?case by (auto simp: reader_ok_def timer_mono split: wait.splits)
qed (use timer_new [where r = True] in \<open>auto simp: reader_ok_def stream_SetDeadline_def stream_SetReadDeadline_def stream_SetWriteDeadline_def split: wait.splits\<close>)

lemma reader_ok_reachable: "timed_step\<^sup>*\<^sup>* timed_start s \<Longrightarrow> reader_ok s"
  by (induction rule: rtranclp_induct) (auto simp: reader_ok_step, simp add: reader_ok_def timed_start_def)

section \<open>Properties\<close>

text \<open>A waiting read obeys the deadline, also one that is set while it waits: time does not pass beyond the read deadline
  while a read is waiting, except for a deadline that was already past when it was set.\<close>

theorem pending_read_obeys_deadline:
  assumes "timed_step\<^sup>*\<^sup>* timed_start s" "rwait s = Waiting tm" "readDeadline (dls s) = Some d" "d \<le> clock s"
    and "timed_step s s'"
  shows "clock s' = clock s"
proof -
  have ok: "reader_ok s" by (rule reader_ok_reachable [OF assms(1)])
  show ?thesis
    using assms(5)
  proof cases
    case passes
    then have "timer_ok (clock s) (Some d) tm" using ok assms(2,3) by (auto simp: reader_ok_def is_waiting_def)
    then show ?thesis using passes assms(2,4) by (auto simp: timer_ok_def overdue_def)
  qed auto
qed

text \<open>A waiting write does not obey a deadline that is set while it waits: one that began to wait without a
  deadline still waits any length of time after a write deadline that has passed, with no read going on.\<close>

theorem pending_write_ignores_deadline:
  "\<exists>s. timed_step\<^sup>*\<^sup>* timed_start s \<and> wwait s = Waiting None \<and> rwait s = NotWaiting \<and> writeDeadline (dls s) = Some 0 \<and> clock s = int n"
proof (induction n)
  case 0
  let ?a = "timed_start\<lparr>wwait := Waiting None\<rparr>"
  let ?b = "?a\<lparr>dls := stream_SetWriteDeadline (Some 0) (dls ?a)\<rparr>"
  have "timed_step timed_start ?a"
    using timed_step.write_waits [of timed_start] by (simp add: timed_start_def is_waiting_def deadlineChan_def)
  moreover have "timed_step ?a ?b" by (rule timed_step.set_write)
  ultimately have "timed_step\<^sup>*\<^sup>* timed_start ?b" by (meson rtranclp.rtrancl_into_rtrancl rtranclp.rtrancl_refl)
  then show ?case by (intro exI [of _ ?b]) (simp add: stream_SetWriteDeadline_def timed_start_def)
next
  case (Suc n)
  then obtain s where s: "timed_step\<^sup>*\<^sup>* timed_start s" "wwait s = Waiting None" "rwait s = NotWaiting"
    "writeDeadline (dls s) = Some 0" "clock s = int n" by blast
  then have "timed_step s (s\<lparr>clock := clock s + 1\<rparr>)" by (intro timed_step.passes) (simp_all add: is_waiting_def overdue_def)
  with s show ?case by (intro exI [of _ "s\<lparr>clock := clock s + 1\<rparr>"]) (auto intro: rtranclp.rtrancl_into_rtrancl)
qed

end
