(* ===== verification/Wire_Names.thy ===== *)
theory Wire_Names
  imports Cell Go_Std
begin

text \<open>The texts the program prints for the numbers on the wire: link commands and relay commands
  (\<^verbatim>\<open>Command.String\<close>, \<^verbatim>\<open>RelayCommand.String\<close>) and the reasons of RELAY_END (\<^verbatim>\<open>endReasonString\<close>,
  \<^verbatim>\<open>EndError.Error\<close>).  The lemmas show which of them can be read back.\<close>

definition command_names :: "(command \<times> string) list" where
  "command_names =
     [(0, ''PADDING''), (1, ''CREATE''), (2, ''CREATED''), (3, ''RELAY''), (4, ''DESTROY''), (5, ''CREATE_FAST''),
      (6, ''CREATED_FAST''), (7, ''VERSIONS''), (8, ''NETINFO''), (9, ''RELAY_EARLY''), (10, ''CREATE2''), (11, ''CREATED2''),
      (12, ''PADDING_NEGOTIATE''), (128, ''VPADDING''), (129, ''CERTS''), (130, ''AUTH_CHALLENGE''), (131, ''AUTHENTICATE''),
      (132, ''AUTHORIZE'')]"

definition command_String :: "command \<Rightarrow> string" where
  "command_String c = (case map_of command_names c of Some n \<Rightarrow> n | None \<Rightarrow> ''CMD('' @ dec_nat (unat c) @ '')'')"

definition relay_command_names :: "(relay_command \<times> string) list" where
  "relay_command_names =
     [(1, ''BEGIN''), (2, ''DATA''), (3, ''END''), (4, ''CONNECTED''), (5, ''SENDME''), (14, ''EXTEND2''), (15, ''EXTENDED2''),
      (9, ''TRUNCATED''), (13, ''BEGIN_DIR''), (33, ''ESTABLISH_RENDEZVOUS''), (34, ''INTRODUCE1''), (36, ''RENDEZVOUS1''),
      (37, ''RENDEZVOUS2''), (38, ''INTRO_ESTABLISHED''), (39, ''RENDEZVOUS_ESTABLISHED''), (40, ''INTRODUCE_ACK'')]"

definition relay_command_String :: "relay_command \<Rightarrow> string" where
  "relay_command_String c = (case map_of relay_command_names c of Some n \<Rightarrow> n | None \<Rightarrow> ''RELAY_CMD'')"

definition end_reason_names :: "(byte \<times> string) list" where
  "end_reason_names =
     [(1, ''misc''), (2, ''resolve failed''), (3, ''connection refused''), (4, ''exit policy''), (5, ''destroyed''),
      (6, ''done''), (7, ''timeout''), (11, ''connection reset'')]"

definition endReasonString :: "byte \<Rightarrow> string" where
  "endReasonString r = (case map_of end_reason_names r of Some n \<Rightarrow> n | None \<Rightarrow> ''unknown'')"

definition EndError_Error :: "byte \<Rightarrow> string" where
  "EndError_Error r = ''stream: closed by exit (reason '' @ dec_nat (unat r) @ '': '' @ endReasonString r @ '')''"

section \<open>Lemmas\<close>

lemma names_unique:
  assumes "distinct (map snd l)" "map_of l a = Some n" "map_of l b = Some n"
  shows "a = b"
proof -
  have "(a, n) \<in> set l" "(b, n) \<in> set l" using assms(2,3) by (auto dest: map_of_SomeD)
  with assms(1) show ?thesis by (metis distinct_map inj_onD prod.inject snd_conv)
qed

lemma dec_nat_inj: "dec_nat m = dec_nat n \<longleftrightarrow> m = n"
  by (metis dec_value_dec_nat)

lemma command_names_distinct: "distinct (map snd command_names)" "distinct (map snd relay_command_names)"
  "distinct (map snd end_reason_names)"
  by (simp_all add: command_names_def relay_command_names_def end_reason_names_def)

lemma command_names_head: "map_of command_names c = Some n \<Longrightarrow> take 4 n \<noteq> ''CMD(''"
  by (drule map_of_SomeD) (auto simp: command_names_def)

lemma relay_names_head: "(c, n) \<in> set relay_command_names \<Longrightarrow> n \<noteq> ''RELAY_CMD''"
  by (auto simp: relay_command_names_def)

text \<open>Every link command prints differently, known or not.\<close>

lemma command_String_inj: "inj command_String"
proof (rule injI)
  fix a b :: command
  assume e: "command_String a = command_String b"
  show "a = b"
  proof (cases "map_of command_names a"; cases "map_of command_names b")
    fix n m
    assume "map_of command_names a = Some n" "map_of command_names b = Some m"
    then show "a = b" using e names_unique [OF command_names_distinct(1)] by (simp add: command_String_def)
  next
    assume "map_of command_names a = None" "map_of command_names b = None"
    then show "a = b" using e by (simp add: command_String_def dec_nat_inj word_unat_eq_iff)
  next
    fix n
    assume n: "map_of command_names a = None" "map_of command_names b = Some n"
    then have "n = ''CMD('' @ dec_nat (unat a) @ '')''" using e by (simp add: command_String_def)
    then show "a = b" using command_names_head [OF n(2)] by simp
  next
    fix n
    assume n: "map_of command_names a = Some n" "map_of command_names b = None"
    then have "n = ''CMD('' @ dec_nat (unat b) @ '')''" using e by (simp add: command_String_def)
    then show "a = b" using command_names_head [OF n(1)] by simp
  qed
qed

text \<open>Relay commands that have a name print differently; all the others, among them EXTEND, TRUNCATE, DROP,
  RESOLVE and INTRODUCE2, print the same.\<close>

lemma relay_command_String_named:
  assumes "relay_command_String a = relay_command_String b" "map_of relay_command_names a \<noteq> None"
  shows "a = b"
proof -
  obtain n where n: "map_of relay_command_names a = Some n" using assms(2) by blast
  then have "n \<noteq> ''RELAY_CMD''" by (rule map_of_SomeD [THEN relay_names_head])
  then have "map_of relay_command_names b = Some n"
    using assms(1) n by (auto simp: relay_command_String_def split: option.splits)
  with n show ?thesis by (rule names_unique [OF command_names_distinct(2)])
qed

text \<open>The message of an end error contains the number, so that every reason can be told from it.\<close>

lemma EndError_inj: "inj EndError_Error"
proof (rule injI)
  fix a b
  assume "EndError_Error a = EndError_Error b"
  then have e: "dec_nat (unat a) @ '': '' @ endReasonString a @ '')'' = dec_nat (unat b) @ '': '' @ endReasonString b @ '')''"
    by (simp add: EndError_Error_def)
  have t: "takeWhile (\<lambda>c. c \<noteq> CHR '':'') (dec_nat n @ CHR '':'' # x) = dec_nat n" for n x
    by (subst takeWhile_append2) (use dec_nat_digits digit_not_sep in auto)
  have "dec_nat (unat a) = dec_nat (unat b)"
    using arg_cong [OF e, of "takeWhile (\<lambda>c. c \<noteq> CHR '':'')"] by (simp add: t)
  then show "a = b" by (simp add: dec_nat_inj word_unat_eq_iff)
qed

end
