(* ===== verification/Spec2Isabelle.thy ===== *)
theory Spec2Isabelle
  imports Link_Circuit Stream_Flow Dir_Trust Circ_Pool Tor_Client Onion_Desc Cmd_Line Trust_Chain Isolation Pool_Spec Pool_Janitor Curve_Keys Stream_Deadline Wire_Names
begin

text \<open>
  Verification of \<^verbatim>\<open>go-tor-client\<close>, a Tor client in Go.

  \<^bold>\<open>The program.\<close>  A \<^verbatim>\<open>Client\<close> (\<^verbatim>\<open>client.go\<close>, \<^verbatim>\<open>pool.go\<close>, \<^verbatim>\<open>guard.go\<close>, \<^verbatim>\<open>dirtunnel.go\<close>,
  \<^verbatim>\<open>onion_dial.go\<close>) fetches and verifies a consensus (\<^verbatim>\<open>pkg/directory\<close>), chooses relays (\<^verbatim>\<open>pkg/pathsel\<close>),
  opens one authenticated link to its guard (\<^verbatim>\<open>pkg/channel\<close>), builds circuits over it
  (\<^verbatim>\<open>pkg/circuit\<close>, with the cells of \<^verbatim>\<open>pkg/cell\<close> and the handshakes and ciphers of \<^verbatim>\<open>pkg/torcrypto\<close>), keeps
  them in a pool and multiplexes streams over them (\<^verbatim>\<open>pkg/stream\<close>).  Onion services are reached by
  the descriptor, introduction and rendezvous flow (\<^verbatim>\<open>pkg/onion\<close>).  The command
  (\<^verbatim>\<open>cmd/go-tor-client\<close>) offers the client as a SOCKS5 proxy (\<^verbatim>\<open>pkg/socks\<close>), as an HTTP proxy
  (\<^verbatim>\<open>pkg/httpproxy\<close>), both with one client per credentials (\<^verbatim>\<open>pkg/proxyauth\<close>, \<^verbatim>\<open>client_pool.go\<close>), and for a
  single request.

  \<^bold>\<open>The theories\<close>, in the order of their imports.

  \<^item> \<^verbatim>\<open>Tor_Prelude\<close>: bytes and words, big-endian numbers, slices, results, the lemma collections of the
    development.  \<^verbatim>\<open>Go_Std\<close>, \<^verbatim>\<open>Go_Text\<close>, \<^verbatim>\<open>Go_Doc\<close>: the parts of Go's standard library the sources
    call (\<^verbatim>\<open>strconv\<close>, \<^verbatim>\<open>net\<close> addresses, \<^verbatim>\<open>strings\<close>, \<^verbatim>\<open>bufio.Scanner\<close>, hex, base64, times), with print/parse
    round trips.
  \<^item> \<^verbatim>\<open>Byteutil\<close> (\<^verbatim>\<open>internal/byteutil\<close>), \<^verbatim>\<open>Cell\<close> and \<^verbatim>\<open>Wire_Names\<close> (\<^verbatim>\<open>pkg/cell\<close>): writers and readers,
    link and relay cells: streams of cells are read back cell by cell and nothing else is accepted.
  \<^item> \<^verbatim>\<open>Torcrypto\<close>, \<^verbatim>\<open>Curve_Keys\<close> (\<^verbatim>\<open>pkg/torcrypto\<close>): digests, keys, ntor, hs-ntor, key blinding over the
    primitives, which are the record \<open>crypto\<close>; key agreement with the relay's and the service's side; the
    drawing of key pairs from the random source.
  \<^item> \<^verbatim>\<open>Relayinfo\<close>, \<^verbatim>\<open>Circuit\<close>, \<^verbatim>\<open>Circuit_Crypto\<close>, \<^verbatim>\<open>Circuit_Flow\<close>, \<^verbatim>\<open>Turnstile\<close> (\<^verbatim>\<open>pkg/circuit\<close>): the
    state of a circuit and its operations; the onion layers against relays; windows, RELAY_EARLY and
    the building of a path; concurrent senders, the receive loop and the writes as the step relation
    \<open>tstep\<close>, with the order of the cells and progress.
  \<^item> \<^verbatim>\<open>Channel_Cert\<close>, \<^verbatim>\<open>Link_Channel\<close>, \<^verbatim>\<open>Link_Dial\<close>, \<^verbatim>\<open>Link_Circuit\<close> (\<^verbatim>\<open>pkg/channel\<close>): certificates, the link
    handshake, the circuit table, the dial under its deadline, and a circuit over the link with the type of
    the cells it sends.
  \<^item> \<^verbatim>\<open>Stream_Mgr\<close>, \<^verbatim>\<open>Stream_Flow\<close>, \<^verbatim>\<open>Stream_Deadline\<close> (\<^verbatim>\<open>pkg/stream\<close>): the manager and its streams, order
    and flow control of reads and writes, deadlines against waiting calls.
  \<^item> \<^verbatim>\<open>Consensus\<close>, \<^verbatim>\<open>Microdesc\<close>, \<^verbatim>\<open>Dirclient\<close>, \<^verbatim>\<open>Dir_Trust\<close> (\<^verbatim>\<open>pkg/directory\<close>): the documents, the fetching
    with cache and tunnel, and trust: what is accepted is signed by a majority of the authorities.
  \<^item> \<^verbatim>\<open>Pathsel\<close> (\<^verbatim>\<open>pkg/pathsel\<close>), \<^verbatim>\<open>Tor_Client\<close>, \<^verbatim>\<open>Circ_Pool\<close>, \<^verbatim>\<open>Pool_Janitor\<close>, \<^verbatim>\<open>Client_Life\<close> (the root
    package): weighted choice, paths and guards, the circuit pool as a store with the step relation
    \<open>pstep\<close>, the janitor's loop, and the client from its creation to its end.  \<^verbatim>\<open>Trust_Chain\<close> puts the
    directory client and the link of the program under the client and follows trust from the authorities to the
    guard's channel.
  \<^item> \<^verbatim>\<open>Onion_Addr\<close>, \<^verbatim>\<open>Onion_Desc\<close> (\<^verbatim>\<open>pkg/onion\<close>), \<^verbatim>\<open>Onion_Dial\<close> (\<^verbatim>\<open>onion_dial.go\<close>): addresses, the hash ring,
    descriptors and introductions, and the whole dial over circuits.
  \<^item> \<^verbatim>\<open>Socks\<close>, \<^verbatim>\<open>Proxy_Pool\<close>, \<^verbatim>\<open>Pool_Spec\<close>, \<^verbatim>\<open>Http_Proxy\<close>, \<^verbatim>\<open>Cmd_Line\<close>, \<^verbatim>\<open>Proxy_Client\<close>, \<^verbatim>\<open>Http_Client\<close>,
    \<^verbatim>\<open>Isolation\<close>: the proxies, the pool of identities with concurrent callers and its refinement of an atomic
    directory, the command line, both proxies over the Tor client, and the isolation of identities end to end.

  This theory holds what spans the link, the circuit and the wire.

  \<^bold>\<open>Conventions.\<close>  A struct is a record, an error a constructor of a result type, a Go string the list
  of its bytes, a pointer that is shared an address in a store.  Code outside the repository is an argument: the
  primitives (\<open>crypto\<close>), TLS, the network, the clock and the random numbers (records such as \<open>cenv\<close>, \<open>denv\<close>,
  \<open>oenv\<close>), \<^verbatim>\<open>net/http\<close>, the flag package and the file system.  Goroutines that share state are step
  relations (\<open>tstep\<close>, \<open>pstep\<close>, \<open>pool_step\<close>, \<open>serve_step\<close>, \<open>http_serve_step\<close>, \<open>ll_step\<close>, \<open>relay_step\<close>, \<open>timed_step\<close>) and the
  properties hold in every reachable state.  Interfaces between components are locales, each
  interpreted on the model's own definitions: the writer below a circuit, the carrier below a stream, the table of
  circuit identifiers, the network of circuits below an onion dial, the source of microdescriptors below the choice of relays, the
  factory of isolated clients.

  \<^bold>\<open>Bounds and fuel.\<close>  Loops are structural or come with a measure.  Those the source bounds keep its
  bound (64 handshake cells, 65536 stream identifiers, eight guards and relay picks, three rendezvous
  attempts).  The only fuel is outside input: the drawing of a circuit identifier and the waits of \<^verbatim>\<open>Read\<close> and \<^verbatim>\<open>Write\<close>
  consume lists of random numbers and of wake-ups, and end without a result only when these are
  exhausted; it is shown that a draw succeeds as soon as a free identifier comes up.

  \<^bold>\<open>What the properties show.\<close>  The bytes on the connection carry the messages of a circuit in order
  under every interleaving, every cell well typed; a channel is to the relay asked for; a consensus and everything
  drawn from it is signed, down to the keys of the guard; paths are diverse and chosen in proportion to the weights; circuits, stream slots and windows are
  accounted for on every path, errors included; onion addresses, descriptors and introductions are
  authentic and the name of an onion service stays in the client; identities of the proxies are isolated, their pool refines an
  atomic directory in which no caller is left waiting, and the proxies accept exactly their protocol, within
  their time.

  \<^bold>\<open>Not modelled.\<close>  Logging, texts of errors and of the usage message; the inside of \<^verbatim>\<open>net/http\<close>, of which
  \<open>http_serve_step\<close> and \<open>transport_RoundTrip\<close> state what the proxy uses; the arithmetic of the primitives,
  which are fields of \<open>crypto\<close>; the scheduling of time-outs inside the client, which appear as
  waits that end without a result (\<^verbatim>\<open>waitSignal\<close>).  The ticker of the pool's janitor fires at any
  time.  \<^verbatim>\<open>ToLower\<close>, \<^verbatim>\<open>ToUpper\<close> and \<^verbatim>\<open>Fields\<close> are those of ASCII text.
\<close>

section \<open>A circuit over the link, end to end\<close>

text \<open>C1: From the connection to the message.  Let senders, receive loop and writes of a circuit on a
  channel interleave in any way, with every write accepted: a relay that parses the bytes on the
  connection finds exactly the cells written, all on this circuit, and the onion layers of relays
  that hold the hops' initial states (and do not mistake a cell for their own on a digest collision)
  reveal exactly the relay cells that were sent, at their hops and in order.\<close>

theorem connection_carries_messages:
  assumes "(tstep K chan_send)\<^sup>*\<^sup>* (csys_init i cn) s" "crypto_wf K" "cout cn = []" "list_all snd (written s)"
    and "peers (fresh_hops s) rs"
    and "decode_stream (readCell CircIDLenWide) (length (written s)) (cout (lnk s)) = (cs, rest)"
    and "all_pass K (take (length cs) (msgs s)) (map payload cs) rs"
  shows "rest = [] \<and> length cs = length (written s) \<and> (\<forall>c \<in> set cs. circID c = cid (circ s)) \<and>
    map report (fst (decrypt_all K (map payload cs) rs)) = map (Some \<circ> sent_as) (take (length cs) (msgs s))"
proof -
  have r: "cs = map fst (written s)" "rest = []"
    using chan_link.relay_reads_written [OF assms(1,3,4)] assms(6) by simp_all
  have "map fst (written s) = take (sendTurn (circ s)) (issued s)"
    using tickets_reachable [OF assms(1)] by (simp add: tickets_inv_def)
  then have "\<forall>c \<in> set cs. circID c = cid (circ s)"
    using issued_wf_reachable [OF assms(1)] unfolding r(1) issued_wf_def by (auto dest: in_set_takeD)
  moreover have "map report (fst (decrypt_all K (map payload cs) rs)) = map (Some \<circ> sent_as) (take (length cs) (msgs s))"
    using written_delivered [OF assms(1,2,5)] assms(7) by (simp add: r(1) comp_def)
  ultimately show ?thesis using r by simp
qed

lemma chan_send_ok: "fst (chan_send c \<lparr>cin = [], cout = [], cquota = None\<rparr>) = None"
  by (simp add: chan_send_def SendCell_def writeCell_def)

theorem connection_carries_messages_witness:
  "\<exists>(s :: conn csys) c rs. readCell CircIDLenWide (cout (lnk s)) = Inr (c, []) \<and>
     map report (fst (decrypt_all toy_crypto [payload c] rs)) = [Some (sent_as (0, sendme_cell []))]"
proof -
  let ?cn = "\<lparr>cin = [], cout = [], cquota = None\<rparr>"
  from small_run [of chan_send, OF chan_send_ok] obtain s where
    s: "(tstep toy_crypto chan_send)\<^sup>*\<^sup>* (csys_init 5 ?cn) s" "length (written s) = 1"
      "list_all snd (written s)" "msgs s = [(0, sendme_cell [])]" by auto
  obtain cs rest where d: "decode_stream (readCell CircIDLenWide) (length (written s)) (cout (lnk s)) = (cs, rest)"
    by (cases "decode_stream (readCell CircIDLenWide) (length (written s)) (cout (lnk s))")
  have "cs = map fst (written s)" using chan_link.relay_reads_written [OF s(1) _ s(3)] d by simp
  then have "length cs = 1" using s(2) by simp
  then obtain c where c: "cs = [c]" by (cases cs) auto
  have "all_pass toy_crypto (take (length cs) (msgs s)) (map payload cs) (map relay_side (fresh_hops s))"
    by (simp add: c s(4))
  note x = connection_carries_messages [OF s(1) toy_crypto_wf _ s(3) relay_side_peers(1) d this]
  have "readCell CircIDLenWide (cout (lnk s)) = Inr (c, [])"
    using d x s(2) by (auto simp: c split: sum.splits prod.splits)
  with x show ?thesis
    by (intro exI [of _ s] exI [of _ c] exI [of _ "map relay_side (fresh_hops s)"]) (simp add: c s(4) del: decrypt_all.simps)
qed

end
